(* ===== verification/Prelude.thy ===== *)
theory Prelude
  imports Main "HOL-Library.Word" "HOL-Library.Monad_Syntax"
begin

text \<open>
  Shared vocabulary of the development.

  Machine integers are words of their C width (\<open>uint8_t\<close>, \<open>uint16_t\<close>, \<open>uint32_t\<close>), read
  with \<open>unat\<close> and \<open>sint\<close>.  C \<open>int\<close> values that the code keeps far from the limits are \<open>int\<close>
  or \<open>nat\<close>.  An access outside an array, a write through a null pointer and the other
  undefined behaviours of C are the value \<open>None\<close> of an \<open>option\<close> result, so that "the operation
  returns \<open>Some\<close>" is the statement that it stays inside its buffers; for a loop written with
  \<open>partial_function\<close> it is also the statement that the loop ends.  Error codes of the program
  are ordinary result values and never \<open>None\<close>.
\<close>

unbundle bit_operations_syntax

type_synonym u8 = "8 word"
type_synonym u16 = "16 word"
type_synonym u32 = "32 word"
type_synonym u64 = "64 word"

named_theorems reloc_simps
  \<open>unfolding rules of the instruction relocator\<close>

named_theorems hook_simps
  \<open>unfolding rules of the hook table\<close>

named_theorems gif_simps
  \<open>unfolding rules of the GIF reader\<close>

section \<open>Bounded array access\<close>

definition aget :: "'a list \<Rightarrow> nat \<Rightarrow> 'a option" where
  "aget xs i = (if i < length xs then Some (xs ! i) else None)"

definition aset :: "'a list \<Rightarrow> nat \<Rightarrow> 'a \<Rightarrow> 'a list option" where
  "aset xs i v = (if i < length xs then Some (xs[i := v]) else None)"

lemma aget_Some [simp]: "i < length xs \<Longrightarrow> aget xs i = Some (xs ! i)"
  by (simp add: aget_def)

lemma aset_Some [simp]: "i < length xs \<Longrightarrow> aset xs i v = Some (xs[i := v])"
  by (simp add: aset_def)

lemma aget_eq_Some: "aget xs i = Some v \<longleftrightarrow> i < length xs \<and> v = xs ! i"
  by (auto simp: aget_def)

lemma aset_eq_Some: "aset xs i v = Some ys \<longleftrightarrow> i < length xs \<and> ys = xs[i := v]"
  by (auto simp: aset_def)

lemma aget_None [simp]: "aget xs i = None \<longleftrightarrow> length xs \<le> i"
  by (auto simp: aget_def)

lemma aset_None [simp]: "aset xs i v = None \<longleftrightarrow> length xs \<le> i"
  by (auto simp: aset_def)

section \<open>Little-endian composition of bytes\<close>

definition le16 :: "u16 \<Rightarrow> u8 list" where
  "le16 w = [ucast w, ucast (drop_bit 8 w)]"

definition le32 :: "u32 \<Rightarrow> u8 list" where
  "le32 w = [ucast w, ucast (drop_bit 8 w), ucast (drop_bit 16 w), ucast (drop_bit 24 w)]"

definition of_le16 :: "u8 \<Rightarrow> u8 \<Rightarrow> u16" where
  "of_le16 a b = ucast a OR push_bit 8 (ucast b)"

definition of_le32 :: "u8 \<Rightarrow> u8 \<Rightarrow> u8 \<Rightarrow> u8 \<Rightarrow> u32" where
  "of_le32 a b c d =
     ucast a OR push_bit 8 (ucast b) OR push_bit 16 (ucast c) OR push_bit 24 (ucast d)"

lemma length_le16 [simp]: "length (le16 w) = 2"
  by (simp add: le16_def)

lemma length_le32 [simp]: "length (le32 w) = 4"
  by (simp add: le32_def)

lemma of_le16_le16 [simp]: "of_le16 (ucast w) (ucast (drop_bit 8 w)) = w"
  unfolding of_le16_def
  by (rule bit_word_eqI) (auto simp: bit_simps)

lemma of_le32_le32 [simp]:
  "of_le32 (ucast w) (ucast (drop_bit 8 w)) (ucast (drop_bit 16 w)) (ucast (drop_bit 24 w)) = w"
  unfolding of_le32_def
proof (rule bit_word_eqI)
  fix n :: nat
  assume "n < LENGTH(32)"
  then consider "n < 8" | "8 \<le> n" "n < 16" | "16 \<le> n" "n < 24" | "24 \<le> n" "n < 32"
    by (simp, linarith)
  then show "bit (ucast (ucast w :: u8) OR push_bit 8 (ucast (ucast (drop_bit 8 w) :: u8)) OR
      push_bit 16 (ucast (ucast (drop_bit 16 w) :: u8)) OR
      push_bit 24 (ucast (ucast (drop_bit 24 w) :: u8)) :: u32) n = bit w n"
    by cases (auto simp: bit_simps)
qed

lemma of_halves:
  "ucast (ucast w :: u16) OR push_bit 16 (ucast (ucast (drop_bit 16 w) :: u16)) = (w :: u32)"
  by (rule bit_word_eqI) (auto simp: bit_simps)

text \<open>The bytes of consecutive half-words and words.\<close>

definition bytes16 :: "u16 list \<Rightarrow> u8 list" where
  "bytes16 ws = concat (map le16 ws)"

definition bytes32 :: "u32 list \<Rightarrow> u8 list" where
  "bytes32 ws = concat (map le32 ws)"

lemma length_bytes16 [simp]: "length (bytes16 ws) = 2 * length ws"
  by (induction ws) (auto simp: bytes16_def)

lemma length_bytes32 [simp]: "length (bytes32 ws) = 4 * length ws"
  by (induction ws) (auto simp: bytes32_def)

section \<open>Byte-addressed memory\<close>

type_synonym mem = "u32 \<Rightarrow> u8"

definition load32 :: "mem \<Rightarrow> u32 \<Rightarrow> u32" where
  "load32 m a = of_le32 (m a) (m (a + 1)) (m (a + 2)) (m (a + 3))"

definition load_bytes :: "mem \<Rightarrow> u32 \<Rightarrow> nat \<Rightarrow> u8 list" where
  "load_bytes m a n = map (\<lambda>i. m (a + of_nat i)) [0..<n]"

fun store_bytes :: "mem \<Rightarrow> u32 \<Rightarrow> u8 list \<Rightarrow> mem" where
  "store_bytes m a [] = m"
| "store_bytes m a (b # bs) = store_bytes (m(a := b)) (a + 1) bs"

lemma length_load_bytes [simp]: "length (load_bytes m a n) = n"
  by (simp add: load_bytes_def)

lemma unat_minus_Suc:
  assumes "x \<noteq> a" shows "unat (x - (a + 1)) = unat (x - a :: u32) - 1" "0 < unat (x - a)"
proof -
  have "x - a \<noteq> 0" using assms by simp
  then show "0 < unat (x - a)" by (simp add: unat_gt_0)
  have "x - (a + 1) = (x - a) - 1" by simp
  then show "unat (x - (a + 1)) = unat (x - a) - 1"
    using \<open>x - a \<noteq> 0\<close> by (metis unat_minus_one)
qed

lemma store_bytes_apply:
  "length bs \<le> 2 ^ 32 \<Longrightarrow>
   store_bytes m a bs x = (if unat (x - a) < length bs then bs ! unat (x - a) else m x)"
proof (induction bs arbitrary: m a)
  case Nil
  then show ?case by simp
next
  case (Cons b bs)
  show ?case
  proof (cases "x = a")
    case True
    have "unat (-1 :: u32) = 2 ^ 32 - 1" by (simp add: unsigned_minus_1_eq_mask mask_eq_exp_minus_1)
    with True Cons show ?thesis by simp
  next
    case False
    with unat_minus_Suc [OF False] Cons show ?thesis
      by (auto simp: nth_Cons')
  qed
qed

lemma store_bytes_over:
  assumes "length bs \<le> length cs" "length cs \<le> 2 ^ 32"
  shows "store_bytes (store_bytes m a bs) a cs = store_bytes m a cs"
  using assms by (intro ext) (simp add: store_bytes_apply)

lemma store_load_bytes: "n \<le> 2 ^ 32 \<Longrightarrow> store_bytes m a (load_bytes m a n) = m"
  by (intro ext) (simp add: store_bytes_apply, simp add: load_bytes_def)

definition apart :: "u32 \<Rightarrow> nat \<Rightarrow> u32 \<Rightarrow> nat \<Rightarrow> bool" where
  "apart a n b k \<longleftrightarrow> (\<forall>x :: u32. \<not> (unat (x - a) < n \<and> unat (x - b) < k))"

lemma store_bytes_commute:
  assumes "apart a (length bs) b (length cs)" "length bs \<le> 2 ^ 32" "length cs \<le> 2 ^ 32"
  shows "store_bytes (store_bytes m a bs) b cs = store_bytes (store_bytes m b cs) a bs"
  using assms by (intro ext) (auto simp: store_bytes_apply apart_def)

lemma load_store_apart:
  assumes "apart a n b (length bs)" "length bs \<le> 2 ^ 32" "n \<le> 2 ^ 32"
  shows "load_bytes (store_bytes m b bs) a n = load_bytes m a n"
proof -
  have "store_bytes m b bs (a + of_nat i) = m (a + of_nat i)" if "i < n" for i
  proof -
    have "unat (a + of_nat i - a) < n"
      using that assms(3) by (simp add: unat_of_nat take_bit_nat_eq_self)
    then have "\<not> unat (a + of_nat i - b) < length bs"
      using assms(1) unfolding apart_def by blast
    then show ?thesis using assms(2) by (simp add: store_bytes_apply)
  qed
  then show ?thesis by (simp add: load_bytes_def)
qed

lemma load_store_same: "length bs \<le> 2 ^ 32 \<Longrightarrow> load_bytes (store_bytes m a bs) a (length bs) = bs"
  by (rule nth_equalityI) (auto simp: load_bytes_def store_bytes_apply unat_of_nat take_bit_nat_eq_self)

lemma or_shifted:
  assumes "m < 2 ^ n"
  shows "(of_nat m :: u32) OR push_bit n (of_nat x) = of_nat (m + x * 2 ^ n)"
proof -
  have t: "take_bit n m = m" using assms by (simp add: take_bit_nat_eq_self)
  have "m AND push_bit n x = 0"
    by (rule bit_eqI) (metis t bit_and_iff bit_take_bit_iff bit_push_bit_iff bit_0_eq bot_apply bot_bool_def not_le)
  then have "m + push_bit n x = m OR push_bit n x" by (rule disjunctive_add_eq_or)
  moreover have "(of_nat (m OR push_bit n x) :: u32) = of_nat m OR push_bit n (of_nat x)"
    by (simp add: of_nat_or_eq push_bit_of_nat)
  ultimately show ?thesis by (simp add: push_bit_eq_mult)
qed

section \<open>Arrays of fixed size\<close>

text \<open>
  The large fixed arrays of the GIF codec are functions of the index together with their size;
  an access outside \<open>0 \<le> i < n\<close> is \<open>None\<close>.  Heap arrays whose length varies are lists, read and
  written with C's signed index by \<open>lread\<close> and \<open>lwrite\<close>.
\<close>

definition aread :: "int \<Rightarrow> (int \<Rightarrow> 'a) \<Rightarrow> int \<Rightarrow> 'a option" where
  "aread n a i = (if 0 \<le> i \<and> i < n then Some (a i) else None)"

definition awrite :: "int \<Rightarrow> (int \<Rightarrow> 'a) \<Rightarrow> int \<Rightarrow> 'a \<Rightarrow> (int \<Rightarrow> 'a) option" where
  "awrite n a i v = (if 0 \<le> i \<and> i < n then Some (a(i := v)) else None)"

definition lread :: "'a list \<Rightarrow> int \<Rightarrow> 'a option" where
  "lread xs i = (if 0 \<le> i \<and> i < int (length xs) then Some (xs ! nat i) else None)"

definition lwrite :: "'a list \<Rightarrow> int \<Rightarrow> 'a \<Rightarrow> 'a list option" where
  "lwrite xs i v = (if 0 \<le> i \<and> i < int (length xs) then Some (xs[nat i := v]) else None)"

lemma aread_Some [simp]: "0 \<le> i \<Longrightarrow> i < n \<Longrightarrow> aread n a i = Some (a i)"
  by (simp add: aread_def)

lemma awrite_Some [simp]: "0 \<le> i \<Longrightarrow> i < n \<Longrightarrow> awrite n a i v = Some (a(i := v))"
  by (simp add: awrite_def)

lemma aread_eq_Some: "aread n a i = Some v \<longleftrightarrow> 0 \<le> i \<and> i < n \<and> v = a i"
  by (auto simp: aread_def)

lemma awrite_eq_Some: "awrite n a i v = Some b \<longleftrightarrow> 0 \<le> i \<and> i < n \<and> b = a(i := v)"
  by (auto simp: awrite_def)

lemma lread_Some [simp]: "0 \<le> i \<Longrightarrow> i < int (length xs) \<Longrightarrow> lread xs i = Some (xs ! nat i)"
  by (simp add: lread_def)

lemma lwrite_Some [simp]: "0 \<le> i \<Longrightarrow> i < int (length xs) \<Longrightarrow> lwrite xs i v = Some (xs[nat i := v])"
  by (simp add: lwrite_def)

lemma lread_eq_Some: "lread xs i = Some v \<longleftrightarrow> 0 \<le> i \<and> i < int (length xs) \<and> v = xs ! nat i"
  by (auto simp: lread_def)

lemma lwrite_eq_Some: "lwrite xs i v = Some ys \<longleftrightarrow> 0 \<le> i \<and> i < int (length xs) \<and> ys = xs[nat i := v]"
  by (auto simp: lwrite_def)

end
