(* ===== verification/Relocate.thy ===== *)
theory Relocate
  imports Prelude
begin

text \<open>
  The instruction relocator of the inline hook, \<open>libmemcheck/inlineHook/relocate.c\<close>.

  A hook overwrites the first bytes of a function with a jump, so the instructions that stood
  there are copied to a trampoline; those that read the program counter are replaced by a
  sequence that uses the literal value the counter had at the original place.  Each definition
  returns the half-words (Thumb) or words (ARM) the C function stores from the current
  trampoline position on; the returned \<open>offset\<close> of the C function is the length of that list.
  Literal loads of the original code read the process memory, the argument \<open>mem\<close>.  The two
  boundary tables are arrays of the caller and a store outside them is \<open>None\<close>.
\<close>

section \<open>Instruction classes\<close>

datatype INSTRUCTION_TYPE =
    B1_THUMB16 | B2_THUMB16 | BX_THUMB16 | ADD_THUMB16 | MOV_THUMB16 | ADR_THUMB16
  | LDR_THUMB16 | CB_THUMB16
  | BLX_THUMB32 | BL_THUMB32 | B1_THUMB32 | B2_THUMB32 | ADR1_THUMB32 | ADR2_THUMB32
  | LDR_THUMB32 | TBB_THUMB32 | TBH_THUMB32
  | BLX_ARM | BL_ARM | B_ARM | BX_ARM | ADD_ARM | ADR1_ARM | ADR2_ARM | MOV_ARM | LDR_ARM
  | UNDEFINE

definition ALIGN_PC :: "u32 \<Rightarrow> u32" where
  "ALIGN_PC pc = pc AND 0xFFFFFFFC"

definition getTypeInThumb16 :: "u16 \<Rightarrow> INSTRUCTION_TYPE" where
  "getTypeInThumb16 instruction =
     (if instruction AND 0xF000 = 0xD000 then B1_THUMB16
      else if instruction AND 0xF800 = 0xE000 then B2_THUMB16
      else if instruction AND 0xFFF8 = 0x4778 then BX_THUMB16
      else if instruction AND 0xFF78 = 0x4478 then ADD_THUMB16
      else if instruction AND 0xFF78 = 0x4678 then MOV_THUMB16
      else if instruction AND 0xF800 = 0xA000 then ADR_THUMB16
      else if instruction AND 0xF800 = 0x4800 then LDR_THUMB16
      else if instruction AND 0xF500 = 0xB100 then CB_THUMB16
      else UNDEFINE)"

definition getTypeInThumb32 :: "u32 \<Rightarrow> INSTRUCTION_TYPE" where
  "getTypeInThumb32 instruction =
     (if instruction AND 0xF800D000 = 0xF000C000 then BLX_THUMB32
      else if instruction AND 0xF800D000 = 0xF000D000 then BL_THUMB32
      else if instruction AND 0xF800D000 = 0xF0008000 then B1_THUMB32
      else if instruction AND 0xF800D000 = 0xF0009000 then B2_THUMB32
      else if instruction AND 0xFBFF8000 = 0xF2AF0000 then ADR1_THUMB32
      else if instruction AND 0xFBFF8000 = 0xF20F0000 then ADR2_THUMB32
      else if instruction AND 0xFF7F0000 = 0xF85F0000 then LDR_THUMB32
      else if instruction AND 0xFFFF00F0 = 0xE8DF0000 then TBB_THUMB32
      else if instruction AND 0xFFFF00F0 = 0xE8DF0010 then TBH_THUMB32
      else UNDEFINE)"

definition getTypeInArm :: "u32 \<Rightarrow> INSTRUCTION_TYPE" where
  "getTypeInArm instruction =
     (if instruction AND 0xFE000000 = 0xFA000000 then BLX_ARM
      else if instruction AND 0xF000000 = 0xB000000 then BL_ARM
      else if instruction AND 0xF000000 = 0xA000000 then B_ARM
      else if instruction AND 0xFF000FF = 0x120001F then BX_ARM
      else if instruction AND 0xFEF0010 = 0x8F0000 then ADD_ARM
      else if instruction AND 0xFFF0000 = 0x28F0000 then ADR1_ARM
      else if instruction AND 0xFFF0000 = 0x24F0000 then ADR2_ARM
      else if instruction AND 0xE5F0000 = 0x41F0000 then LDR_ARM
      else if instruction AND 0xFE00FFF = 0x1A0000F then MOV_ARM
      else UNDEFINE)"

section \<open>Scratch registers\<close>

text \<open>
  \<open>for (r = n; ; --r) if (r is free) break;\<close>: the highest free register not above \<open>n\<close>.  At most
  two registers are excluded in each use, so the loop stops before it passes zero
  (\<open>scratch_reg_free\<close> below).
\<close>

definition scratch_reg :: "nat \<Rightarrow> nat list \<Rightarrow> nat" where
  "scratch_reg n excluded = hd (filter (\<lambda>r. r \<notin> set excluded) (rev [0..<Suc n]))"

section \<open>Sixteen bit Thumb instructions\<close>

definition sign_fill :: "nat \<Rightarrow> bool \<Rightarrow> u32 \<Rightarrow> u32" where
  "sign_fill n top_bit x = (if top_bit then x OR push_bit n 0xFFFFFFFF else x)"

definition relocateInstructionInThumb16 :: "mem \<Rightarrow> u32 \<Rightarrow> u16 \<Rightarrow> u16 list" where
  "relocateInstructionInThumb16 mem pc instruction =
     (let type = getTypeInThumb16 instruction; ins = (ucast instruction :: u32) in
      if type = B1_THUMB16 \<or> type = B2_THUMB16 \<or> type = BX_THUMB16 then
        (let (pre, value) =
           (if type = B1_THUMB16 then
              (let x = push_bit 1 (ins AND 0xFF); top_bit = drop_bit 8 x;
                   imm32 = sign_fill 8 (top_bit \<noteq> 0) x
               in ([instruction AND 0xFF00, 0xE003], pc + imm32))
            else if type = B2_THUMB16 then
              (let x = push_bit 1 (ins AND 0x7FF); top_bit = drop_bit 11 x;
                   imm32 = sign_fill 11 (top_bit \<noteq> 0) x
               in ([], pc + imm32))
            else ([], pc))
         in pre @ [0xF8DF, 0xF000, ucast (value AND 0xFFFF), ucast (drop_bit 16 value)])
      else if type = ADD_THUMB16 then
        (let rdn = unat (drop_bit 4 (ins AND 0x80) OR (ins AND 0x7));
             r = scratch_reg 7 [rdn]
         in [0xB400 OR push_bit r 1,
             0x4802 OR push_bit 8 (of_nat r),
             (instruction AND 0xFF87) OR push_bit 3 (of_nat r),
             0xBC00 OR push_bit r 1,
             0xE002,
             0xBF00,
             ucast (pc AND 0xFFFF), ucast (drop_bit 16 pc)])
      else if type = MOV_THUMB16 \<or> type = ADR_THUMB16 \<or> type = LDR_THUMB16 then
        (let (r, value) =
           (if type = MOV_THUMB16 then (instruction AND 0x7, pc)
            else if type = ADR_THUMB16 then
              (drop_bit 8 (instruction AND 0x700), push_bit 2 (ALIGN_PC pc + (ins AND 0xFF)))
            else
              (drop_bit 8 (instruction AND 0x700),
               load32 mem (ALIGN_PC pc + push_bit 2 (ins AND 0xFF))))
         in [0x4800 OR push_bit 8 r, 0xE001, ucast (value AND 0xFFFF), ucast (drop_bit 16 value)])
      else if type = CB_THUMB16 then
        (let imm32 = drop_bit 3 (ins AND 0x200) OR drop_bit 2 (ins AND 0xF8);
             value = pc + imm32 + 1
         in [instruction AND 0xFD07, 0xE003, 0xF8DF, 0xF000,
             ucast (value AND 0xFFFF), ucast (drop_bit 16 value)])
      else [instruction, 0xBF00])"

section \<open>Thirty-two bit Thumb instructions\<close>

text \<open>The branches \<open>BLX\<close>, \<open>BL\<close>, \<open>B<c>.W\<close> and \<open>B.W\<close>.\<close>

definition relocateThumb32_branch :: "INSTRUCTION_TYPE \<Rightarrow> u32 \<Rightarrow> u16 \<Rightarrow> u16 \<Rightarrow> u16 list" where
  "relocateThumb32_branch type pc high_instruction low_instruction =
     (let hi = (ucast high_instruction :: u32); lo = (ucast low_instruction :: u32);
          j1 = drop_bit 13 (lo AND 0x2000);
          j2 = drop_bit 11 (lo AND 0x800);
          s = drop_bit 10 (hi AND 0x400);
          i1 = (if j1 XOR s = 0 then 1 else 0);
          i2 = (if j2 XOR s = 0 then 1 else 0);
          pre = (if type = BLX_THUMB32 \<or> type = BL_THUMB32 then [0xF20F, 0x0E09]
                 else if type = B1_THUMB32
                   then [0xD000 OR push_bit 2 (high_instruction AND 0x3C0), 0xE003]
                 else []);
          value =
           (if type = BLX_THUMB32 then
              (let x = push_bit 24 s OR push_bit 23 i1 OR push_bit 22 i2 OR
                       push_bit 12 (hi AND 0x3FF) OR push_bit 1 (lo AND 0x7FE)
               in pc + sign_fill 25 (s \<noteq> 0) x)
            else if type = BL_THUMB32 then
              (let x = push_bit 24 s OR push_bit 23 i1 OR push_bit 22 i2 OR
                       push_bit 12 (hi AND 0x3FF) OR push_bit 1 (lo AND 0x7FF)
               in pc + sign_fill 25 (s \<noteq> 0) x + 1)
            else if type = B1_THUMB32 then
              (let x = push_bit 20 s OR push_bit 19 j2 OR push_bit 18 j1 OR
                       push_bit 12 (hi AND 0x3F) OR push_bit 1 (lo AND 0x7FF)
               in pc + sign_fill 21 (s \<noteq> 0) x + 1)
            else
              (let x = push_bit 24 s OR push_bit 23 i1 OR push_bit 22 i2 OR
                       push_bit 12 (hi AND 0x3FF) OR push_bit 1 (lo AND 0x7FF)
               in pc + sign_fill 25 (s \<noteq> 0) x + 1))
      in pre @ [0xF8DF, 0xF000, ucast (value AND 0xFFFF), ucast (drop_bit 16 value)])"

text \<open>The address computations and literal loads \<open>ADR.W\<close> and \<open>LDR.W\<close>.\<close>

definition relocateThumb32_literal :: "mem \<Rightarrow> INSTRUCTION_TYPE \<Rightarrow> u32 \<Rightarrow> u16 \<Rightarrow> u16 \<Rightarrow> u16 list" where
  "relocateThumb32_literal mem type pc high_instruction low_instruction =
     (let hi = (ucast high_instruction :: u32); lo = (ucast low_instruction :: u32);
          instruction = push_bit 16 hi OR lo;
          (r, value) =
           (if type = ADR1_THUMB32 \<or> type = ADR2_THUMB32 then
              (let i = drop_bit 10 (hi AND 0x400);
                   imm3 = drop_bit 12 (lo AND 0x7000);
                   imm8 = instruction AND 0xFF;
                   imm32 = push_bit 31 i OR push_bit 30 imm3 OR push_bit 27 imm8
               in (drop_bit 8 (low_instruction AND 0xF00),
                   if type = ADR1_THUMB32 then ALIGN_PC pc + imm32 else ALIGN_PC pc - imm32))
            else
              (let is_add = drop_bit 7 (hi AND 0x80);
                   imm32 = lo AND 0xFFF;
                   addr = (if is_add \<noteq> 0 then ALIGN_PC pc + imm32 else ALIGN_PC pc - imm32)
               in (drop_bit 12 low_instruction, load32 mem addr)))
      in [0x4800 OR push_bit 8 r, 0xE001, ucast (value AND 0xFFFF), ucast (drop_bit 16 value)])"

text \<open>The table branches \<open>TBB\<close> and \<open>TBH\<close>.\<close>

definition relocateThumb32_table :: "INSTRUCTION_TYPE \<Rightarrow> u32 \<Rightarrow> u16 \<Rightarrow> u16 list" where
  "relocateThumb32_table type pc low_instruction =
     (let rm = unat (low_instruction AND 0xF);
          r = scratch_reg 7 [rm];
          rx = scratch_reg 7 [rm, r];
          R = (of_nat r :: u16); RX = (of_nat rx :: u16)
      in [0xB400 OR push_bit rx 1,
          0x4805 OR push_bit 8 R,
          0x4600 OR push_bit 3 (of_nat rm) OR RX] @
         (if type = TBB_THUMB32
          then [0xEB00 OR R, 0x0000 OR push_bit 8 RX OR RX, 0x7800 OR push_bit 3 RX OR RX]
          else [0xEB00 OR R, 0x0040 OR push_bit 8 RX OR RX, 0x8800 OR push_bit 3 RX OR RX]) @
         [0xEB00 OR R,
          0x0040 OR push_bit 8 R OR RX,
          0x3001 OR push_bit 8 R,
          0xBC00 OR push_bit rx 1,
          0x4700 OR push_bit 3 R,
          0xBF00,
          ucast (pc AND 0xFFFF), ucast (drop_bit 16 pc)])"

definition relocateInstructionInThumb32 :: "mem \<Rightarrow> u32 \<Rightarrow> u16 \<Rightarrow> u16 \<Rightarrow> u16 list" where
  "relocateInstructionInThumb32 mem pc high_instruction low_instruction =
     (let instruction = push_bit 16 (ucast high_instruction) OR ucast low_instruction;
          type = getTypeInThumb32 instruction
      in if type = BLX_THUMB32 \<or> type = BL_THUMB32 \<or> type = B1_THUMB32 \<or> type = B2_THUMB32
         then relocateThumb32_branch type pc high_instruction low_instruction
         else if type = ADR1_THUMB32 \<or> type = ADR2_THUMB32 \<or> type = LDR_THUMB32
         then relocateThumb32_literal mem type pc high_instruction low_instruction
         else if type = TBB_THUMB32 \<or> type = TBH_THUMB32
         then relocateThumb32_table type pc low_instruction
         else [high_instruction, low_instruction])"

section \<open>ARM instructions\<close>

definition relocateArm_insn :: "mem \<Rightarrow> u32 \<Rightarrow> u32 \<Rightarrow> u32 list" where
  "relocateArm_insn mem pc instruction =
     (let type = getTypeInArm instruction in
      if type = BLX_ARM \<or> type = BL_ARM \<or> type = B_ARM \<or> type = BX_ARM then
        (let pre = (if type = BLX_ARM \<or> type = BL_ARM then [0xE28FE004] else []);
             x = (if type = BLX_ARM
                    then push_bit 2 (instruction AND 0xFFFFFF) OR
                         drop_bit 23 (instruction AND 0x1000000)
                  else if type = BL_ARM \<or> type = B_ARM then push_bit 2 (instruction AND 0xFFFFFF)
                  else 0);
             top_bit = drop_bit 25 x;
             imm32 = sign_fill 26 (top_bit \<noteq> 0) x;
             value = (if type = BLX_ARM then pc + imm32 + 1 else pc + imm32)
         in pre @ [0xE51FF004, value])
      else if type = ADD_ARM then
        (let rd = unat (drop_bit 12 (instruction AND 0xF000));
             rm = unat (instruction AND 0xF);
             r = scratch_reg 12 [rd, rm]
         in [0xE52D0004 OR push_bit 12 (of_nat r),
             0xE59F0008 OR push_bit 12 (of_nat r),
             (instruction AND 0xFFF0FFFF) OR push_bit 16 (of_nat r),
             0xE49D0004 OR push_bit 12 (of_nat r),
             0xE28FF000,
             pc])
      else if type = ADR1_ARM \<or> type = ADR2_ARM \<or> type = LDR_ARM \<or> type = MOV_ARM then
        (let r = drop_bit 12 (instruction AND 0xF000);
             imm32 = instruction AND 0xFFF;
             value = (if type = ADR1_ARM then pc + imm32
                      else if type = ADR2_ARM then pc - imm32
                      else if type = LDR_ARM then
                        (let is_add = drop_bit 23 (instruction AND 0x800000)
                         in if is_add \<noteq> 0 then load32 mem (pc + imm32) else load32 mem (pc - imm32))
                      else pc)
         in [0xE51F0000 OR push_bit 12 r, 0xE28FF000, value])
      else [instruction])"

section \<open>The relocation loops\<close>

text \<open>
  The state the loops of \<open>relocateInstructionInThumb\<close> and \<open>relocateInstructionInArm\<close> keep: the
  position in the original code, the value of \<open>pc\<close>, the trampoline written so far
  (\<open>trampoline_pos\<close> is its length), the two boundary tables and the counter \<open>*count\<close>, which is
  not reset on entry.
\<close>

record 'w reloc =
  orig_pos :: nat
  rpc :: u32
  trampoline :: "'w list"
  orig_boundaries :: "int list"
  trampoline_boundaries :: "int list"
  count :: nat

definition note_boundary :: "nat \<Rightarrow> 'w reloc \<Rightarrow> 'w reloc option" where
  "note_boundary sz s =
     do { ob \<leftarrow> aset (orig_boundaries s) (count s) (int (orig_pos s * sz));
          tb \<leftarrow> aset (trampoline_boundaries s) (count s) (int (length (trampoline s) * sz));
          Some (s\<lparr>orig_boundaries := ob, trampoline_boundaries := tb, count := count s + 1\<rparr>) }"

definition is_thumb32 :: "u16 \<Rightarrow> bool" where
  "is_thumb32 h \<longleftrightarrow> 0x1D \<le> drop_bit 11 h \<and> drop_bit 11 h \<le> 0x1F"

text \<open>
  One turn of \<open>while (1)\<close> of \<open>relocateInstructionInThumb\<close>; the Boolean says whether the loop goes
  on.  \<open>n\<close> is \<open>length / sizeof(uint16_t)\<close>.
\<close>

definition thumb_turn :: "mem \<Rightarrow> u16 list \<Rightarrow> nat \<Rightarrow> u16 reloc \<Rightarrow> (bool \<times> u16 reloc) option" where
  "thumb_turn mem orig n s0 =
     do { s \<leftarrow> note_boundary 2 s0;
          h \<leftarrow> aget orig (orig_pos s);
          if is_thumb32 h then
            if orig_pos s + 2 > n then Some (False, s)
            else do { l \<leftarrow> aget orig (orig_pos s + 1);
                      let s' = s\<lparr>trampoline := trampoline s @ relocateInstructionInThumb32 mem (rpc s) h l,
                                 rpc := rpc s + 4, orig_pos := orig_pos s + 2\<rparr>;
                      Some (\<not> orig_pos s' \<ge> n, s') }
          else
            let s' = s\<lparr>trampoline := trampoline s @ relocateInstructionInThumb16 mem (rpc s) h,
                       rpc := rpc s + 2, orig_pos := orig_pos s + 1\<rparr>
            in Some (\<not> orig_pos s' \<ge> n, s') }"

lemma note_boundary_frame:
  "note_boundary sz s = Some s' \<Longrightarrow> orig_pos s' = orig_pos s \<and> rpc s' = rpc s \<and> trampoline s' = trampoline s"
  by (auto simp: note_boundary_def bind_eq_Some_conv)

lemma note_boundary_room:
  "note_boundary sz s = Some s' \<Longrightarrow>
   count s' \<le> length (orig_boundaries s') \<and> count s' \<le> length (trampoline_boundaries s')"
  by (auto simp: note_boundary_def bind_eq_Some_conv aset_eq_Some)

lemma thumb_turn_progress:
  "thumb_turn mem orig n s = Some (True, s') \<Longrightarrow> orig_pos s < orig_pos s' \<and> orig_pos s' < n"
  by (auto simp: thumb_turn_def bind_eq_Some_conv Let_def dest!: note_boundary_frame split: if_splits)

function thumb_loop :: "mem \<Rightarrow> u16 list \<Rightarrow> nat \<Rightarrow> u16 reloc \<Rightarrow> u16 reloc option" where
  "thumb_loop mem orig n s =
     (case thumb_turn mem orig n s of
        None \<Rightarrow> None
      | Some (go_on, s') \<Rightarrow> if go_on then thumb_loop mem orig n s' else Some s')"
  by pat_completeness auto
termination
  by (relation "measure (\<lambda>(mem, orig, n, s). n - orig_pos s)")
     (auto dest: thumb_turn_progress)

declare thumb_loop.simps [simp del]

definition relocateInstructionInThumb ::
    "mem \<Rightarrow> u32 \<Rightarrow> u16 list \<Rightarrow> nat \<Rightarrow> int list \<Rightarrow> int list \<Rightarrow> nat \<Rightarrow> u16 reloc option" where
  "relocateInstructionInThumb mem target_addr orig_instructions len ob tb cnt =
     do { s \<leftarrow> thumb_loop mem orig_instructions (len div 2)
                \<lparr>orig_pos = 0, rpc = target_addr + 4, trampoline = [],
                 orig_boundaries = ob, trampoline_boundaries = tb, count = cnt\<rparr>;
          let lr = target_addr + of_nat (orig_pos s * 2) + 1;
          Some (s\<lparr>trampoline := trampoline s @
                   [0xF8DF, 0xF000, ucast (lr AND 0xFFFF), ucast (drop_bit 16 lr)]\<rparr>) }"

text \<open>
  The \<open>for\<close> loop of \<open>relocateInstructionInArm\<close>; \<open>k\<close> is the number of turns left, so the loop
  variable \<open>orig_pos\<close> is the state's and the test is \<open>orig_pos < length / sizeof(uint32_t)\<close>.
\<close>

fun arm_loop :: "mem \<Rightarrow> u32 list \<Rightarrow> nat \<Rightarrow> u32 reloc \<Rightarrow> u32 reloc option" where
  "arm_loop mem orig 0 s = Some s"
| "arm_loop mem orig (Suc k) s =
     do { s1 \<leftarrow> note_boundary 4 s;
          instruction \<leftarrow> aget orig (orig_pos s1);
          arm_loop mem orig k
            (s1\<lparr>trampoline := trampoline s1 @ relocateArm_insn mem (rpc s1) instruction,
                rpc := rpc s1 + 4, orig_pos := orig_pos s1 + 1\<rparr>) }"

definition relocateInstructionInArm ::
    "mem \<Rightarrow> u32 \<Rightarrow> u32 list \<Rightarrow> nat \<Rightarrow> int list \<Rightarrow> int list \<Rightarrow> nat \<Rightarrow> u32 reloc option" where
  "relocateInstructionInArm mem target_addr orig_instructions len ob tb cnt =
     do { let lr = target_addr + of_nat len;
          s \<leftarrow> arm_loop mem orig_instructions (len div 4)
                \<lparr>orig_pos = 0, rpc = target_addr + 8, trampoline = [],
                 orig_boundaries = ob, trampoline_boundaries = tb, count = cnt\<rparr>;
          Some (s\<lparr>trampoline := trampoline s @ [0xe51ff004, lr]\<rparr>) }"

text \<open>The code buffer viewed as \<open>uint16_t *\<close> and as \<open>uint32_t *\<close>.\<close>

fun halfwords :: "u8 list \<Rightarrow> u16 list" where
  "halfwords (a # b # bs) = of_le16 a b # halfwords bs"
| "halfwords _ = []"

fun fullwords :: "u8 list \<Rightarrow> u32 list" where
  "fullwords (a # b # c # d # bs) = of_le32 a b c d # fullwords bs"
| "fullwords _ = []"

text \<open>
  \<open>relocateInstruction\<close> returns the bytes written to the trampoline page, the two tables and the
  counter.  \<open>target_addr & 1 == 1\<close> parses as \<open>target_addr & (1 == 1)\<close>, the Thumb bit.
\<close>

definition relocateInstruction ::
    "mem \<Rightarrow> u32 \<Rightarrow> u8 list \<Rightarrow> nat \<Rightarrow> int list \<Rightarrow> int list \<Rightarrow> nat \<Rightarrow>
     (u8 list \<times> int list \<times> int list \<times> nat) option" where
  "relocateInstruction mem target_addr orig_instructions len ob tb cnt =
     (if target_addr AND 1 \<noteq> 0 then
        do { s \<leftarrow> relocateInstructionInThumb mem (target_addr - 1) (halfwords orig_instructions) len ob tb cnt;
             Some (bytes16 (trampoline s), orig_boundaries s, trampoline_boundaries s, count s) }
      else
        do { s \<leftarrow> relocateInstructionInArm mem target_addr (fullwords orig_instructions) len ob tb cnt;
             Some (bytes32 (trampoline s), orig_boundaries s, trampoline_boundaries s, count s) })"

section \<open>Reference description of the relocated code\<close>

text \<open>
  \<open>thumb_code\<close> lists, for the code from half-word \<open>p\<close> on, the start of each instruction and the
  sequence that replaces it; a 32-bit instruction cut off by the end of the window is listed with
  no code.  \<open>arm_code\<close> does the same for ARM.  \<open>offsets\<close> are the positions at which consecutive
  chunks start and \<open>put_all\<close> stores consecutive table entries.
\<close>

function thumb_code :: "mem \<Rightarrow> u16 list \<Rightarrow> nat \<Rightarrow> nat \<Rightarrow> u32 \<Rightarrow> (nat \<times> u16 list) list" where
  "thumb_code mem orig n p pc =
     (if n \<le> p then []
      else if is_thumb32 (orig ! p) then
        (if p + 2 > n then [(p, [])]
         else (p, relocateInstructionInThumb32 mem pc (orig ! p) (orig ! (p + 1)))
              # thumb_code mem orig n (p + 2) (pc + 4))
      else (p, relocateInstructionInThumb16 mem pc (orig ! p)) # thumb_code mem orig n (p + 1) (pc + 2))"
  by pat_completeness auto
termination
  by (relation "measure (\<lambda>(mem, orig, n, p, pc). n - p)") auto

declare thumb_code.simps [simp del]

function thumb_end :: "u16 list \<Rightarrow> nat \<Rightarrow> nat \<Rightarrow> nat" where
  "thumb_end orig n p =
     (if n \<le> p then p
      else if is_thumb32 (orig ! p) then (if p + 2 > n then p else thumb_end orig n (p + 2))
      else thumb_end orig n (p + 1))"
  by pat_completeness auto
termination
  by (relation "measure (\<lambda>(orig, n, p). n - p)") auto

declare thumb_end.simps [simp del]

fun offsets :: "nat \<Rightarrow> 'w list list \<Rightarrow> nat list" where
  "offsets k [] = []"
| "offsets k (c # cs) = k # offsets (k + length c) cs"

fun put_all :: "'a list \<Rightarrow> nat \<Rightarrow> 'a list \<Rightarrow> 'a list" where
  "put_all xs i [] = xs"
| "put_all xs i (v # vs) = put_all (xs[i := v]) (Suc i) vs"

lemma length_offsets [simp]: "length (offsets k cs) = length cs"
  by (induction cs arbitrary: k) auto

lemma length_put_all [simp]: "length (put_all xs i vs) = length xs"
  by (induction vs arbitrary: xs i) auto

lemma put_all_nth:
  "i + length vs \<le> length xs \<Longrightarrow> j < length xs \<Longrightarrow>
   put_all xs i vs ! j = (if i \<le> j \<and> j < i + length vs then vs ! (j - i) else xs ! j)"
proof (induction vs arbitrary: xs i)
  case Nil
  then show ?case by auto
next
  case (Cons v vs)
  have "put_all (xs[i := v]) (Suc i) vs ! j =
        (if Suc i \<le> j \<and> j < Suc i + length vs then vs ! (j - Suc i) else xs[i := v] ! j)"
    using Cons.prems by (intro Cons.IH) auto
  with Cons.prems show ?case
    by (cases "j = i") (auto simp: nth_Cons' less_Suc_eq)
qed

lemma offsets_step: "Suc i < length cs \<Longrightarrow> offsets k cs ! Suc i = offsets k cs ! i + length (cs ! i)"
proof (induction cs arbitrary: k i)
  case Nil
  then show ?case by simp
next
  case (Cons c cs)
  then show ?case by (cases i; cases cs) auto
qed

lemma offsets_dvd: "(\<forall>c \<in> set cs. d dvd length c) \<Longrightarrow> d dvd k \<Longrightarrow> i < length cs \<Longrightarrow> d dvd offsets k cs ! i"
proof (induction cs arbitrary: k i)
  case Nil
  then show ?case by simp
next
  case (Cons c cs)
  then show ?case by (cases i) auto
qed

section \<open>The loops compute the reference description\<close>

definition with_code :: "nat \<Rightarrow> (nat \<times> 'w list) list \<Rightarrow> 'w reloc \<Rightarrow> 'w reloc option" where
  "with_code sz L s =
     (if count s + length L \<le> length (orig_boundaries s) \<and>
         count s + length L \<le> length (trampoline_boundaries s)
      then Some (s\<lparr>trampoline := trampoline s @ concat (map snd L),
                   orig_boundaries := put_all (orig_boundaries s) (count s) (map (\<lambda>x. int (fst x * sz)) L),
                   trampoline_boundaries :=
                     put_all (trampoline_boundaries s) (count s)
                       (map (\<lambda>k. int (k * sz)) (offsets (length (trampoline s)) (map snd L))),
                   count := count s + length L\<rparr>)
      else None)"

lemma with_code_Nil [simp]:
  "count s \<le> length (orig_boundaries s) \<Longrightarrow> count s \<le> length (trampoline_boundaries s) \<Longrightarrow>
   with_code sz [] s = Some s"
  by (simp add: with_code_def)

lemma with_code_Cons:
  "with_code sz ((orig_pos s, c) # L) s =
     do { s1 \<leftarrow> note_boundary sz s; with_code sz L (s1\<lparr>trampoline := trampoline s1 @ c\<rparr>) }"
  by (auto simp: with_code_def note_boundary_def aset_def)

lemma with_code_orig_pos [simp]:
  "with_code sz L (s\<lparr>rpc := r, orig_pos := p\<rparr>) =
   map_option (\<lambda>t. t\<lparr>rpc := r, orig_pos := p\<rparr>) (with_code sz L s)"
  by (simp add: with_code_def)

lemma thumb_end_ge: "p \<le> thumb_end orig n p"
proof (induction orig n p rule: thumb_end.induct)
  case (1 orig n p)
  then show ?case by (subst thumb_end.simps) (auto split: if_splits)
qed

lemma thumb_code_Cons:
  assumes "p < n" "\<not> (is_thumb32 (orig ! p) \<and> n < p + 2)"
  shows "thumb_code mem orig n p pc =
     (let w = (if is_thumb32 (orig ! p) then 2 else 1);
          c = (if is_thumb32 (orig ! p)
               then relocateInstructionInThumb32 mem pc (orig ! p) (orig ! (p + 1))
               else relocateInstructionInThumb16 mem pc (orig ! p))
      in (p, c) # thumb_code mem orig n (p + w) (pc + of_nat (2 * w)))"
    and "thumb_end orig n p = thumb_end orig n (p + (if is_thumb32 (orig ! p) then 2 else 1))"
  using assms by (subst thumb_code.simps thumb_end.simps; simp add: Let_def)+

lemma thumb_code_cut:
  assumes "p < n" "is_thumb32 (orig ! p)" "n < p + 2"
  shows "thumb_code mem orig n p pc = [(p, [])]" and "thumb_end orig n p = p"
  using assms by (subst thumb_code.simps thumb_end.simps; simp)+

lemma thumb_code_stop: "n \<le> p \<Longrightarrow> thumb_code mem orig n p pc = []" "n \<le> p \<Longrightarrow> thumb_end orig n p = p"
  by (subst thumb_code.simps thumb_end.simps; simp)+

lemma thumb_turn_cases:
  assumes "orig_pos s < n" "n \<le> length orig"
  shows "thumb_turn mem orig n s =
     (case note_boundary 2 s of None \<Rightarrow> None | Some s1 \<Rightarrow>
        let h = orig ! orig_pos s; w = (if is_thumb32 h then 2 else 1);
            c = (if is_thumb32 h then relocateInstructionInThumb32 mem (rpc s) h (orig ! (orig_pos s + 1))
                 else relocateInstructionInThumb16 mem (rpc s) h)
        in if is_thumb32 h \<and> n < orig_pos s + 2 then Some (False, s1)
           else Some (orig_pos s + w < n,
                      s1\<lparr>trampoline := trampoline s1 @ c, rpc := rpc s + of_nat (2 * w),
                         orig_pos := orig_pos s + w\<rparr>))"
proof (cases "note_boundary 2 s")
  case None
  then show ?thesis by (simp add: thumb_turn_def)
next
  case (Some s1)
  from note_boundary_frame [OF this]
  have "orig_pos s1 = orig_pos s" "rpc s1 = rpc s" "trampoline s1 = trampoline s" by auto
  with Some assms show ?thesis by (auto simp: thumb_turn_def Let_def)
qed

lemma thumb_loop_code:
  assumes "orig_pos s < n" "n \<le> length orig"
  shows "thumb_loop mem orig n s =
     map_option (\<lambda>t. t\<lparr>orig_pos := thumb_end orig n (orig_pos s),
                       rpc := rpc s + of_nat (2 * (thumb_end orig n (orig_pos s) - orig_pos s))\<rparr>)
       (with_code 2 (thumb_code mem orig n (orig_pos s) (rpc s)) s)"
  using assms
proof (induction mem orig n s rule: thumb_loop.induct)
  case (1 mem orig n s)
  define h where "h = orig ! orig_pos s"
  define w where "w = (if is_thumb32 h then 2 else 1 :: nat)"
  define c where "c = (if is_thumb32 h then relocateInstructionInThumb32 mem (rpc s) h (orig ! (orig_pos s + 1))
            else relocateInstructionInThumb16 mem (rpc s) h)"
  define p where "p = orig_pos s + w"
  note turn = thumb_turn_cases [OF "1.prems", of mem]
  show ?case
  proof (cases "is_thumb32 h \<and> n < orig_pos s + 2")
    case cut: True
    have "thumb_loop mem orig n s = note_boundary 2 s"
      using cut by (subst thumb_loop.simps) (simp add: turn h_def split: option.splits)
    moreover have "with_code 2 [(orig_pos s, [])] s = note_boundary 2 s"
      by (auto simp: with_code_def note_boundary_def aset_def)
    ultimately show ?thesis
      using cut "1.prems" by (cases "note_boundary 2 s")
        (auto simp: thumb_code_cut h_def dest!: note_boundary_frame)
  next
    case whole: False
    have code: "thumb_code mem orig n (orig_pos s) (rpc s) =
        (orig_pos s, c) # thumb_code mem orig n p (rpc s + of_nat (2 * w))"
      and ends: "thumb_end orig n (orig_pos s) = thumb_end orig n p"
      using thumb_code_Cons(1) [OF "1.prems"(1), of orig mem "rpc s"]
        thumb_code_Cons(2) [OF "1.prems"(1), of orig] whole
      by (simp_all only: h_def [symmetric] w_def [symmetric] c_def [symmetric] p_def [symmetric] Let_def simp_thms)
    show ?thesis
    proof (cases "note_boundary 2 s")
      case None
      then show ?thesis
        by (subst thumb_loop.simps) (simp add: turn code with_code_Cons)
    next
      case (Some s1)
      define s2 where "s2 = s1\<lparr>trampoline := trampoline s1 @ c, rpc := rpc s + of_nat (2 * w), orig_pos := p\<rparr>"
      have t: "thumb_turn mem orig n s = Some (p < n, s2)"
        using whole Some
        by (auto simp only: turn h_def [symmetric] w_def [symmetric] c_def [symmetric] p_def [symmetric]
            s2_def Let_def option.case if_False)
      have loop: "thumb_loop mem orig n s = (if p < n then thumb_loop mem orig n s2 else Some s2)"
        by (subst thumb_loop.simps) (simp add: t)
      have wc: "with_code 2 (thumb_code mem orig n (orig_pos s) (rpc s)) s =
          with_code 2 (thumb_code mem orig n p (rpc s + of_nat (2 * w))) (s1\<lparr>trampoline := trampoline s1 @ c\<rparr>)"
        using Some by (simp add: code with_code_Cons)
      have "2 * (thumb_end orig n p - orig_pos s) = 2 * w + 2 * (thumb_end orig n p - p)"
        using thumb_end_ge [of p orig n] by (simp add: p_def)
      then have pc: "rpc s + of_nat (2 * w) + of_nat (2 * (thumb_end orig n p - p)) =
          rpc s + of_nat (2 * (thumb_end orig n p - orig_pos s))"
        by (simp only: of_nat_add add.assoc)
      show ?thesis
      proof (cases "p < n")
        case True
        have "thumb_loop mem orig n s2 =
            map_option (\<lambda>t. t\<lparr>orig_pos := thumb_end orig n p,
                         rpc := rpc s2 + of_nat (2 * (thumb_end orig n p - p))\<rparr>)
              (with_code 2 (thumb_code mem orig n p (rpc s + of_nat (2 * w))) s2)"
          using "1.IH" [OF t refl] True "1.prems"(2) by (simp add: s2_def)
        with True show ?thesis
          unfolding loop wc ends s2_def
          using pc by (simp add: option.map_comp comp_def add.assoc)
      next
        case False
        have "with_code 2 [] (s1\<lparr>trampoline := trampoline s1 @ c\<rparr>) = Some (s1\<lparr>trampoline := trampoline s1 @ c\<rparr>)"
          by (rule with_code_Nil) (use note_boundary_room [OF Some] in simp_all)
        with False pc show ?thesis
          by (simp add: loop wc ends s2_def thumb_code_stop)
      qed
    qed
  qed
qed

fun arm_code :: "mem \<Rightarrow> u32 list \<Rightarrow> nat \<Rightarrow> nat \<Rightarrow> u32 \<Rightarrow> (nat \<times> u32 list) list" where
  "arm_code mem orig 0 p pc = []"
| "arm_code mem orig (Suc k) p pc =
     (p, relocateArm_insn mem pc (orig ! p)) # arm_code mem orig k (p + 1) (pc + 4)"

lemma length_arm_code [simp]: "length (arm_code mem orig k p pc) = k"
  by (induction k arbitrary: p pc) auto

lemma arm_loop_code:
  assumes "orig_pos s + k \<le> length orig" "count s \<le> length (orig_boundaries s)"
    "count s \<le> length (trampoline_boundaries s)"
  shows "arm_loop mem orig k s =
     map_option (\<lambda>t. t\<lparr>orig_pos := orig_pos s + k, rpc := rpc s + of_nat (4 * k)\<rparr>)
       (with_code 4 (arm_code mem orig k (orig_pos s) (rpc s)) s)"
  using assms
proof (induction k arbitrary: s)
  case 0
  then show ?case by simp
next
  case (Suc k)
  show ?case
  proof (cases "note_boundary 4 s")
    case None
    then show ?thesis by (simp add: with_code_Cons)
  next
    case (Some s1)
    have fr: "orig_pos s1 = orig_pos s" "rpc s1 = rpc s"
      using note_boundary_frame [OF Some] by auto
    let ?c = "relocateArm_insn mem (rpc s) (orig ! orig_pos s)"
    let ?s2 = "s1\<lparr>trampoline := trampoline s1 @ ?c, rpc := rpc s + 4, orig_pos := orig_pos s + 1\<rparr>"
    have "arm_loop mem orig k ?s2 =
       map_option (\<lambda>t. t\<lparr>orig_pos := orig_pos s + 1 + k, rpc := rpc s + 4 + of_nat (4 * k)\<rparr>)
         (with_code 4 (arm_code mem orig k (orig_pos s + 1) (rpc s + 4)) ?s2)"
      using Suc.prems note_boundary_room [OF Some] by (subst Suc.IH) simp_all
    then show ?thesis
      using Some Suc.prems
      by (simp add: fr with_code_Cons option.map_comp comp_def algebra_simps)
  qed
qed

section \<open>Sizes and alignment of the relocated code\<close>

lemma length_relocateThumb16:
  "length (relocateInstructionInThumb16 mem pc i) \<in> {2, 4, 6, 8}"
  by (simp add: relocateInstructionInThumb16_def Let_def split_def)

lemma length_relocateThumb32:
  "length (relocateInstructionInThumb32 mem pc h l) \<in> {2, 4, 6, 14}"
  by (simp add: relocateInstructionInThumb32_def relocateThumb32_branch_def relocateThumb32_literal_def
      relocateThumb32_table_def Let_def split_def)

lemma length_relocateArm: "length (relocateArm_insn mem pc i) \<in> {1, 2, 3, 6}"
  by (simp add: relocateArm_insn_def Let_def)

lemma thumb_chunk_length:
  "even (length (relocateInstructionInThumb16 mem pc i))" "0 < length (relocateInstructionInThumb16 mem pc i)"
  "length (relocateInstructionInThumb16 mem pc i) \<le> 14"
  "even (length (relocateInstructionInThumb32 mem pc h l))" "0 < length (relocateInstructionInThumb32 mem pc h l)"
  "length (relocateInstructionInThumb32 mem pc h l) \<le> 14"
  using length_relocateThumb16 [of mem pc i] length_relocateThumb32 [of mem pc h l] by auto

lemma thumb_code_chunks:
  "x \<in> set (thumb_code mem orig n p pc) \<Longrightarrow>
     even (length (snd x)) \<and> length (snd x) \<le> 14 \<and> p \<le> fst x \<and> fst x < n"
proof (induction mem orig n p pc rule: thumb_code.induct)
  case (1 mem orig n p pc)
  consider "n \<le> p" | "\<not> n \<le> p" "is_thumb32 (orig ! p)" "n < p + 2"
    | "\<not> n \<le> p" "is_thumb32 (orig ! p)" "\<not> n < p + 2" | "\<not> n \<le> p" "\<not> is_thumb32 (orig ! p)"
    by blast
  then show ?case
  proof cases
    case 1
    then show ?thesis using "1.prems" by (simp add: thumb_code_stop)
  next
    case 2
    then show ?thesis using "1.prems" by (simp add: thumb_code_cut)
  next
    case 3
    then show ?thesis
      using "1.prems" "1.IH"(1) thumb_chunk_length(4-6)
      by (subst (asm) thumb_code.simps) force
  next
    case 4
    then show ?thesis
      using "1.prems" "1.IH"(2) thumb_chunk_length(1-3)
      by (subst (asm) thumb_code.simps) force
  qed
qed

lemma thumb_code_increasing:
  "Suc i < length (thumb_code mem orig n p pc) \<Longrightarrow>
     fst (thumb_code mem orig n p pc ! i) < fst (thumb_code mem orig n p pc ! Suc i) \<and>
     0 < length (snd (thumb_code mem orig n p pc ! i))"
proof (induction mem orig n p pc arbitrary: i rule: thumb_code.induct)
  case (1 mem orig n p pc)
  let ?T = "thumb_code mem orig n p pc"
  have stop: "\<not> n \<le> p" "\<not> (is_thumb32 (orig ! p) \<and> n < p + 2)"
    using "1.prems" by (auto simp: thumb_code.simps [of mem orig n p pc] split: if_splits)
  define w where "w = (if is_thumb32 (orig ! p) then 2 else 1 :: nat)"
  define c where "c = (if is_thumb32 (orig ! p) then relocateInstructionInThumb32 mem pc (orig ! p) (orig ! (p + 1))
            else relocateInstructionInThumb16 mem pc (orig ! p))"
  define R where "R = thumb_code mem orig n (p + w) (pc + of_nat (2 * w))"
  have T: "?T = (p, c) # R"
    using thumb_code_Cons(1) [of p n orig mem pc] stop by (auto simp: w_def c_def R_def Let_def)
  have c: "0 < length c"
    using thumb_chunk_length(2,5) by (simp add: c_def)
  show ?case
  proof (cases i)
    case 0
    then have R: "R \<noteq> []" using "1.prems" by (auto simp: T)
    then have "hd R \<in> set R" by simp
    then have "p + w \<le> fst (hd R)"
      unfolding R_def by (metis thumb_code_chunks)
    with 0 c R show ?thesis by (simp add: T hd_conv_nth w_def split: if_splits)
  next
    case (Suc j)
    have "Suc j < length R" using "1.prems" Suc by (simp add: T)
    then have "fst (R ! j) < fst (R ! Suc j) \<and> 0 < length (snd (R ! j))"
      using "1.IH" stop unfolding R_def w_def by (auto split: if_splits)
    then show ?thesis by (simp add: T Suc)
  qed
qed

lemma arm_code_nth: "i < k \<Longrightarrow> fst (arm_code mem orig k p pc ! i) = p + i"
proof (induction k arbitrary: p pc i)
  case 0
  then show ?case by simp
next
  case (Suc k)
  then show ?case by (cases i) auto
qed

lemma arm_code_chunks: "x \<in> set (arm_code mem orig k p pc) \<Longrightarrow> 1 \<le> length (snd x) \<and> length (snd x) \<le> 6"
proof (induction k arbitrary: p pc)
  case 0
  then show ?case by simp
next
  case (Suc k)
  then show ?case using length_relocateArm [of mem pc "orig ! p"] by auto
qed

lemma length_concat_le: "(\<forall>c \<in> set cs. length c \<le> b) \<Longrightarrow> length (concat cs) \<le> length cs * b"
  by (induction cs) auto

lemma mask16: "(0xFFFF :: u32) = mask 16"
  by (simp add: mask_eq_exp_minus_1)

lemma ucast_low16 [simp]: "ucast (w AND 0xFFFF) = (ucast (w :: u32) :: u16)"
  unfolding mask16 by (rule bit_word_eqI) (auto simp: bit_simps)

definition tables_increasing :: "nat \<Rightarrow> nat \<Rightarrow> int list \<Rightarrow> int list \<Rightarrow> bool" where
  "tables_increasing k n ob tb \<longleftrightarrow>
     n \<le> length ob \<and> n \<le> length tb \<and>
     (\<forall>i j. k \<le> i \<and> i < j \<and> j < n \<longrightarrow> ob ! i < ob ! j \<and> tb ! i < tb ! j)"

lemma sorted_wrt_less_nth:
  "(\<And>i. Suc i < length xs \<Longrightarrow> xs ! i < xs ! Suc i) \<Longrightarrow> i < j \<Longrightarrow> j < length xs \<Longrightarrow> xs ! i < (xs ! j :: 'a :: order)"
  using sorted_wrt_iff_nth_Suc_transp [of "(<)" xs] by (auto intro: sorted_wrt_nth_less)

lemma with_code_tables:
  assumes code: "with_code sz L s = Some s'" and sz: "0 < sz"
    and mono: "\<And>i. Suc i < length L \<Longrightarrow> fst (L ! i) < fst (L ! Suc i) \<and> 0 < length (snd (L ! i))"
  shows "count s' = count s + length L" "tables_increasing (count s) (count s') (orig_boundaries s') (trampoline_boundaries s')"
proof -
  let ?n = "length L"
  let ?a = "map (\<lambda>x. int (fst x * sz)) L"
  let ?b = "map (\<lambda>k. int (k * sz)) (offsets (length (trampoline s)) (map snd L))"
  from code have room: "count s + ?n \<le> length (orig_boundaries s)" "count s + ?n \<le> length (trampoline_boundaries s)"
    and res: "count s' = count s + ?n" "orig_boundaries s' = put_all (orig_boundaries s) (count s) ?a"
      "trampoline_boundaries s' = put_all (trampoline_boundaries s) (count s) ?b"
    by (auto simp: with_code_def split: if_splits)
  show "count s' = count s + length L" by (rule res(1))
  have a: "?a ! i < ?a ! j" and b: "?b ! i < ?b ! j" if "i < j" "j < ?n" for i j
  proof -
    show "?a ! i < ?a ! j"
      by (rule sorted_wrt_less_nth) (use that mono sz in auto)
    show "?b ! i < ?b ! j"
    proof (rule sorted_wrt_less_nth)
      fix k assume k: "Suc k < length ?b"
      then have "offsets (length (trampoline s)) (map snd L) ! k < offsets (length (trampoline s)) (map snd L) ! Suc k"
        using mono [of k] by (subst offsets_step) auto
      with k sz show "?b ! k < ?b ! Suc k" by simp
    qed (use that in auto)
  qed
  have "orig_boundaries s' ! i < orig_boundaries s' ! j \<and> trampoline_boundaries s' ! i < trampoline_boundaries s' ! j"
    if "count s \<le> i" "i < j" "j < count s'" for i j
    using that room a [of "i - count s" "j - count s"] b [of "i - count s" "j - count s"]
    by (simp add: res put_all_nth)
  with room show "tables_increasing (count s) (count s') (orig_boundaries s') (trampoline_boundaries s')"
    by (auto simp: tables_increasing_def res)
qed

lemma length_halfwords [simp]: "length (halfwords bs) = length bs div 2"
  by (induction bs rule: halfwords.induct) auto

lemma length_fullwords [simp]: "length (fullwords bs) = length bs div 4"
  by (induction bs rule: fullwords.induct) (auto simp: div_add_self2 [symmetric])

text \<open>(C6) The Thumb relocator computes the reference description: the trampoline is the
  concatenation of the replacements of the instructions in the window, followed by the jump back
  behind the last instruction relocated whole, and the tables hold the byte offset of each
  instruction before and after; it leaves its tables exactly when they are too small for the
  number of instructions.\<close>

theorem relocateInstructionInThumb_reference:
  assumes "2 \<le> len" "len div 2 \<le> length orig"
  shows "relocateInstructionInThumb mem target orig len ob tb cnt =
     (let L = thumb_code mem orig (len div 2) 0 (target + 4);
          e = thumb_end orig (len div 2) 0;
          lr = target + of_nat (2 * e) + 1
      in if cnt + length L \<le> length ob \<and> cnt + length L \<le> length tb
         then Some \<lparr>orig_pos = e, rpc = target + 4 + of_nat (2 * e),
                    trampoline = concat (map snd L) @ [0xF8DF, 0xF000, ucast lr, ucast (drop_bit 16 lr)],
                    orig_boundaries = put_all ob cnt (map (\<lambda>x. int (fst x * 2)) L),
                    trampoline_boundaries = put_all tb cnt (map (\<lambda>k. int (k * 2)) (offsets 0 (map snd L))),
                    count = cnt + length L\<rparr>
         else None)"
proof -
  have "0 < len div 2" using assms(1) by simp
  then show ?thesis
    using assms by (simp add: relocateInstructionInThumb_def thumb_loop_code with_code_def Let_def mult.commute)
qed

lemma arm_loop_None: "length (orig_boundaries s) < count s \<or> length (trampoline_boundaries s) < count s \<Longrightarrow> arm_loop mem orig (Suc k) s = None"
  by (auto simp: note_boundary_def aset_def)

lemma relocateArm_with_code:
  assumes "4 \<le> len" "len div 4 \<le> length orig"
  shows "relocateInstructionInArm mem target orig len ob tb cnt =
     map_option (\<lambda>t. t\<lparr>orig_pos := len div 4, rpc := target + 8 + of_nat (4 * (len div 4)),
                       trampoline := trampoline t @ [0xE51FF004, target + of_nat len]\<rparr>)
       (with_code 4 (arm_code mem orig (len div 4) 0 (target + 8))
          \<lparr>orig_pos = 0, rpc = target + 8, trampoline = [], orig_boundaries = ob,
           trampoline_boundaries = tb, count = cnt\<rparr>)"
proof (cases "cnt \<le> length ob \<and> cnt \<le> length tb")
  case True
  then show ?thesis
    using assms by (simp add: relocateInstructionInArm_def arm_loop_code with_code_def Let_def)
next
  case False
  obtain k where k: "len div 4 = Suc k"
    using assms(1) by (cases "len div 4") auto
  with False show ?thesis
    by (auto simp: relocateInstructionInArm_def Let_def arm_loop_None with_code_def simp del: arm_loop.simps)
qed

text \<open>(C12) The ARM relocator computes the reference description, followed by the jump back to
  the first instruction behind the window.\<close>

theorem relocateInstructionInArm_reference:
  assumes "4 \<le> len" "len div 4 \<le> length orig"
  shows "relocateInstructionInArm mem target orig len ob tb cnt =
     (let L = arm_code mem orig (len div 4) 0 (target + 8)
      in if cnt + length L \<le> length ob \<and> cnt + length L \<le> length tb
         then Some \<lparr>orig_pos = len div 4, rpc = target + 8 + of_nat (4 * (len div 4)),
                    trampoline = concat (map snd L) @ [0xE51FF004, target + of_nat len],
                    orig_boundaries = put_all ob cnt (map (\<lambda>x. int (fst x * 4)) L),
                    trampoline_boundaries = put_all tb cnt (map (\<lambda>k. int (k * 4)) (offsets 0 (map snd L))),
                    count = cnt + length L\<rparr>
         else None)"
  using assms by (simp add: relocateArm_with_code with_code_def Let_def)

lemma with_code_dvd:
  assumes code: "with_code sz L s = Some s'" and d: "\<And>x. x \<in> set L \<Longrightarrow> e dvd length (snd x)" "e dvd length (trampoline s)"
    and i: "count s \<le> i" "i < count s'"
  shows "int (e * sz) dvd trampoline_boundaries s' ! i"
proof -
  have "e dvd offsets (length (trampoline s)) (map snd L) ! (i - count s)"
    using assms by (intro offsets_dvd) (auto simp: with_code_def split: if_splits)
  then have "e * sz dvd offsets (length (trampoline s)) (map snd L) ! (i - count s) * sz"
    by (rule mult_dvd_mono) simp
  then have "int (e * sz) dvd int (offsets (length (trampoline s)) (map snd L) ! (i - count s) * sz)"
    by (simp only: of_nat_dvd_iff)
  with code i show ?thesis
    by (auto simp: with_code_def put_all_nth split: if_splits)
qed

lemma arm_code_increasing:
  "Suc i < length (arm_code mem orig k p pc) \<Longrightarrow>
     fst (arm_code mem orig k p pc ! i) < fst (arm_code mem orig k p pc ! Suc i) \<and>
     0 < length (snd (arm_code mem orig k p pc ! i))"
  using arm_code_chunks [OF nth_mem, of i mem orig k p pc] by (auto simp: arm_code_nth)

lemma relocateThumb_tables:
  assumes "relocateInstructionInThumb mem target orig len ob tb cnt = Some s'" "2 \<le> len" "len div 2 \<le> length orig"
  shows "cnt < count s'" "tables_increasing cnt (count s') (orig_boundaries s') (trampoline_boundaries s')"
    "cnt \<le> i \<Longrightarrow> i < count s' \<Longrightarrow> 4 dvd trampoline_boundaries s' ! i"
proof -
  let ?n = "len div 2"
  let ?L = "thumb_code mem orig ?n 0 (target + 4)"
  let ?s = "\<lparr>orig_pos = 0, rpc = target + 4, trampoline = [], orig_boundaries = ob,
             trampoline_boundaries = tb, count = cnt\<rparr> :: u16 reloc"
  have n: "0 < ?n" using assms(2) by simp
  obtain t where t: "with_code 2 ?L ?s = Some t" and
    s': "count s' = count t" "orig_boundaries s' = orig_boundaries t" "trampoline_boundaries s' = trampoline_boundaries t"
    using assms n by (auto simp: relocateInstructionInThumb_def thumb_loop_code bind_eq_Some_conv Let_def)
  note tab = with_code_tables [OF t, OF _ thumb_code_increasing]
  have "?L \<noteq> []" using n by (subst thumb_code.simps) auto
  then show "cnt < count s'" using tab(1) by (simp add: s')
  show "tables_increasing cnt (count s') (orig_boundaries s') (trampoline_boundaries s')"
    using tab(2) by (simp add: s')
  show "4 dvd trampoline_boundaries s' ! i" if "cnt \<le> i" "i < count s'"
    using with_code_dvd [OF t, of 2 i] that thumb_code_chunks by (simp add: s')
qed

lemma relocateArm_tables:
  assumes "relocateInstructionInArm mem target orig len ob tb cnt = Some s'" "4 \<le> len" "len div 4 \<le> length orig"
  shows "cnt < count s'" "tables_increasing cnt (count s') (orig_boundaries s') (trampoline_boundaries s')"
    "cnt \<le> i \<Longrightarrow> i < count s' \<Longrightarrow> 4 dvd trampoline_boundaries s' ! i"
proof -
  let ?n = "len div 4"
  let ?L = "arm_code mem orig ?n 0 (target + 8)"
  let ?s = "\<lparr>orig_pos = 0, rpc = target + 8, trampoline = [], orig_boundaries = ob,
             trampoline_boundaries = tb, count = cnt\<rparr> :: u32 reloc"
  have n: "0 < ?n" using assms(2) by simp
  obtain t where t: "with_code 4 ?L ?s = Some t" and
    s': "count s' = count t" "orig_boundaries s' = orig_boundaries t" "trampoline_boundaries s' = trampoline_boundaries t"
    using assms by (auto simp: relocateArm_with_code)
  note tab = with_code_tables [OF t, OF _ arm_code_increasing]
  show "cnt < count s'" using tab(1) n by (simp add: s')
  show "tables_increasing cnt (count s') (orig_boundaries s') (trampoline_boundaries s')"
    using tab(2) by (simp add: s')
  show "4 dvd trampoline_boundaries s' ! i" if "cnt \<le> i" "i < count s'"
    using with_code_dvd [OF t, of 1 i] that by (simp add: s')
qed

lemma relocateInstruction_increasing:
  assumes "relocateInstruction mem target orig len ob tb cnt = Some (code, ob', tb', cnt')"
    and "4 \<le> len" "length orig = len"
  shows "tables_increasing cnt cnt' ob' tb'"
proof (cases "target AND 1 = 0")
  case True
  then show ?thesis
    using assms relocateArm_tables(2) [of mem target "fullwords orig" len ob tb cnt]
    by (auto simp: relocateInstruction_def bind_eq_Some_conv)
next
  case False
  then show ?thesis
    using assms relocateThumb_tables(2) [of mem "target - 1" "halfwords orig" len ob tb cnt]
    by (auto simp: relocateInstruction_def bind_eq_Some_conv)
qed

text \<open>After a relocation the new part of both boundary tables is strictly increasing, so
  that each offset names one instruction, and every trampoline offset is a multiple of four, as
  the literal loads of the relocated code need.\<close>

theorem relocateInstruction_tables:
  assumes "relocateInstruction mem target orig len ob tb cnt = Some (code, ob', tb', cnt')"
    and "4 \<le> len" "length orig = len"
  shows "cnt < cnt' \<and> tables_increasing cnt cnt' ob' tb' \<and> (\<forall>i. cnt \<le> i \<and> i < cnt' \<longrightarrow> 4 dvd tb' ! i)"
proof (cases "target AND 1 = 0")
  case True
  then show ?thesis
    using assms relocateArm_tables [of mem target "fullwords orig" len ob tb cnt]
    by (auto simp: relocateInstruction_def bind_eq_Some_conv)
next
  case False
  then show ?thesis
    using assms relocateThumb_tables [of mem "target - 1" "halfwords orig" len ob tb cnt]
    by (auto simp: relocateInstruction_def bind_eq_Some_conv)
qed

theorem relocateInstructionInThumb_reference_witness:
  "(2::nat) \<le> 8 \<and> 8 div 2 \<le> length [0xB510, 0xF000, 0xF801, 0x4801 :: u16] \<and>
   map_option (\<lambda>s. (trampoline s, take 3 (orig_boundaries s), take 3 (trampoline_boundaries s), count s))
     (relocateInstructionInThumb (\<lambda>_. 0x11) 0x1000 [0xB510, 0xF000, 0xF801, 0x4801] 8
        (replicate 4 0) (replicate 20 0) 0) =
   Some ([0xB510, 0xBF00, 0xF20F, 0x0E09, 0xF8DF, 0xF000, 0x1009, 0, 0x4800, 0xE001, 0x1111, 0x1111,
          0xF8DF, 0xF000, 0x1009, 0], [0, 2, 6], [0, 4, 16], 3)"
  by (subst relocateInstructionInThumb_reference) code_simp+

theorem relocateInstructionInArm_reference_witness:
  "(4::nat) \<le> 8 \<and> 8 div 4 \<le> length [0xEB000010, 0xE1A0F00E :: u32] \<and>
   map_option (\<lambda>s. (trampoline s, take 2 (orig_boundaries s), take 2 (trampoline_boundaries s), count s))
     (relocateInstructionInArm (\<lambda>_. 0) 0x1000 [0xEB000010, 0xE1A0F00E] 8
        (replicate 4 0) (replicate 20 0) 0) =
   Some ([0xE28FE004, 0xE51FF004, 0x1048, 0xE1A0F00E, 0xE51FF004, 0x1008], [0, 4], [0, 12], 2)"
  by (subst relocateInstructionInArm_reference) code_simp+

theorem relocateInstruction_tables_witness:
  "\<exists>code ob tb n.
     relocateInstruction (\<lambda>_. 0) 0x1000 [0x10, 0, 0, 0xEB, 0x0E, 0xF0, 0xA0, 0xE1] 8 (replicate 4 0) (replicate 20 0) 0 =
       Some (code, ob, tb, n) \<and>
     (4::nat) \<le> 8 \<and> length [0x10, 0, 0, 0xEB, 0x0E, 0xF0, 0xA0, 0xE1 :: u8] = 8 \<and>
     0 < n \<and> tables_increasing 0 n ob tb \<and> (\<forall>i. 0 \<le> i \<and> i < n \<longrightarrow> 4 dvd tb ! i)"
proof -
  let ?r = "relocateInstruction (\<lambda>_. 0) 0x1000 [0x10, 0, 0, 0xEB, 0x0E, 0xF0, 0xA0, 0xE1] 8 (replicate 4 0) (replicate 20 0) 0"
  have "?r \<noteq> None"
    by code_simp
  then obtain code ob tb n where r: "?r = Some (code, ob, tb, n)"
    by (metis not_None_eq prod_cases4)
  from relocateInstruction_tables [OF r] show ?thesis
    using r by simp
qed

lemma relocateInstruction_lengths:
  assumes r: "relocateInstruction mem target orig len ob tb cnt = Some (code, ob', tb', cnt')"
    and l: "4 \<le> len" "length orig = len"
  shows "length ob' = length ob" "length tb' = length tb" "cnt' \<le> length ob" "cnt' \<le> length tb"
proof -
  have "0 < len div 2" using l by simp
  then show "length ob' = length ob" "length tb' = length tb" "cnt' \<le> length ob" "cnt' \<le> length tb"
    using r l by (auto simp: relocateInstruction_def relocateArm_with_code relocateInstructionInThumb_def
        thumb_loop_code with_code_def bind_eq_Some_conv Let_def split: if_splits)
qed

lemma offsets_le: "i < length cs \<Longrightarrow> offsets k cs ! i \<le> k + length (concat cs)"
proof (induction cs arbitrary: k i)
  case (Cons c cs)
  then show ?case by (cases i) (auto simp: add.assoc dest: Cons.IH [of _ "k + length c"])
qed simp

lemma with_code_bounds:
  assumes "with_code sz L s = Some s'" "count s \<le> i" "i < count s'" "\<And>x. x \<in> set L \<Longrightarrow> fst x < n"
  shows "0 \<le> orig_boundaries s' ! i \<and> orig_boundaries s' ! i < int (n * sz) \<or> sz = 0"
    "0 \<le> trampoline_boundaries s' ! i \<and> trampoline_boundaries s' ! i \<le> int (length (trampoline s') * sz)"
proof -
  let ?j = "i - count s"
  let ?o = "offsets (length (trampoline s)) (map snd L)"
  have j: "?j < length L" and i: "i < count s + length L" and room: "count s + length L \<le> length (orig_boundaries s)" "count s + length L \<le> length (trampoline_boundaries s)"
    and s': "orig_boundaries s' = put_all (orig_boundaries s) (count s) (map (\<lambda>x. int (fst x * sz)) L)"
      "trampoline_boundaries s' = put_all (trampoline_boundaries s) (count s) (map (\<lambda>k. int (k * sz)) ?o)"
      "trampoline s' = trampoline s @ concat (map snd L)"
    using assms(1-3) by (auto simp: with_code_def split: if_splits)
  have "fst (L ! ?j) < n" using j assms(4) by auto
  moreover have "orig_boundaries s' ! i = int (fst (L ! ?j) * sz)"
    using j i room assms(2) by (simp add: s' put_all_nth)
  ultimately show "0 \<le> orig_boundaries s' ! i \<and> orig_boundaries s' ! i < int (n * sz) \<or> sz = 0"
    by (cases "sz = 0") auto
  have "trampoline_boundaries s' ! i = int (?o ! ?j * sz)"
    using j i room assms(2) by (simp add: s' put_all_nth)
  moreover have "?o ! ?j \<le> length (trampoline s')"
    using offsets_le [of ?j "map snd L" "length (trampoline s)"] j by (simp add: s')
  ultimately show "0 \<le> trampoline_boundaries s' ! i \<and> trampoline_boundaries s' ! i \<le> int (length (trampoline s') * sz)"
    by (simp add: mult_right_mono)
qed

lemma relocateInstruction_bounds:
  assumes r: "relocateInstruction m t orig len ob tb cnt = Some (code, ob', tb', cnt')"
    and len: "4 \<le> len" "length orig = len" and i: "cnt \<le> i" "i < cnt'"
  shows "0 \<le> ob' ! i \<and> ob' ! i < int len \<and> 0 \<le> tb' ! i \<and> tb' ! i \<le> int (length code)"
proof (cases "t AND 1 = 0")
  case True
  let ?s = "\<lparr>orig_pos = 0, rpc = t + 8, trampoline = [], orig_boundaries = ob, trampoline_boundaries = tb, count = cnt\<rparr> :: u32 reloc"
  obtain u where u: "with_code 4 (arm_code m (fullwords orig) (len div 4) 0 (t + 8)) ?s = Some u"
    "ob' = orig_boundaries u" "tb' = trampoline_boundaries u" "cnt' = count u" "length code = 4 * length (trampoline u) + 8"
    using r True len by (auto simp: relocateInstruction_def relocateArm_with_code bind_eq_Some_conv)
  have "fst x < len div 4" if "x \<in> set (arm_code m (fullwords orig) (len div 4) 0 (t + 8))" for x
    using that by (auto simp: in_set_conv_nth arm_code_nth)
  from with_code_bounds [OF u(1) _ _ this, of i] i show ?thesis
    by (auto simp: u(2-5))
next
  case False
  let ?s = "\<lparr>orig_pos = 0, rpc = t - 1 + 4, trampoline = [], orig_boundaries = ob, trampoline_boundaries = tb, count = cnt\<rparr> :: u16 reloc"
  have n: "0 < len div 2" using len by simp
  obtain u where u: "with_code 2 (thumb_code m (halfwords orig) (len div 2) 0 (t - 1 + 4)) ?s = Some u"
    "ob' = orig_boundaries u" "tb' = trampoline_boundaries u" "cnt' = count u" "length code = 2 * length (trampoline u) + 8"
    using r False len n by (auto simp: relocateInstruction_def relocateInstructionInThumb_def thumb_loop_code bind_eq_Some_conv Let_def)
  have "fst x < len div 2" if "x \<in> set (thumb_code m (halfwords orig) (len div 2) 0 (t - 1 + 4))" for x
    using thumb_code_chunks [OF that] by simp
  from with_code_bounds [OF u(1) _ _ this, of i] i show ?thesis
    by (auto simp: u(2-5))
qed

end
