(* ===== verification/InlineHook.thy ===== *)
theory InlineHook
  imports Relocate "HOL-Library.Char_ord" "HOL-Library.Multiset"
begin

text \<open>
  The inline hook table, \<open>libmemcheck/inlineHook/inlineHook.c\<close>.

  The static \<open>info\<close>, the memory of the process and the program counters of its threads are one
  record \<open>hook_state\<close>; every function of the file takes it and returns it updated.  The table
  \<open>info.item\<close> is kept whole, with the slots behind \<open>info.size\<close>, because a new item inherits
  what an old one left in its slot.  An item is addressed by its slot number.  The block
  \<open>orig_instructions\<close> belongs to its item alone and is the list of its bytes; the trampoline page
  is part of the process memory.  What the operating system answers (the lines of
  \<open>/proc/self/maps\<close>, the task directory, the results of \<open>malloc\<close>, \<open>mmap\<close>, \<open>fork\<close> and
  \<open>ptrace\<close>) is the argument \<open>os\<close>; the calls whose effect is outside the state are recorded in
  \<open>oslog\<close> in their order.
\<close>

section \<open>The data of the hook table\<close>

datatype ele7en_status =
    ELE7EN_ERROR_UNKNOWN | ELE7EN_OK | ELE7EN_ERROR_NOT_INITIALIZED | ELE7EN_ERROR_NOT_EXECUTABLE
  | ELE7EN_ERROR_NOT_REGISTERED | ELE7EN_ERROR_NOT_HOOKED | ELE7EN_ERROR_ALREADY_REGISTERED
  | ELE7EN_ERROR_ALREADY_HOOKED | ELE7EN_ERROR_SO_NOT_FOUND | ELE7EN_ERROR_FUNCTION_NOT_FOUND

datatype hook_action = ACTION_ENABLE | ACTION_DISABLE

text \<open>The field \<open>status\<close> is a C \<open>int\<close> that holds one of the two values of \<open>enum hook_status\<close>.\<close>

definition REGISTERED :: int where "REGISTERED = 0"
definition HOOKED :: int where "HOOKED = 1"

record inlineHookItem =
  target_addr :: u32
  new_addr :: u32
  proto_addr :: u32
  orig_instructions :: "u8 list"
  item_orig_boundaries :: "int list"
  item_trampoline_boundaries :: "int list"
  item_count :: nat
  trampoline_instructions :: u32
  item_length :: nat
  status :: int

datatype os_call =
    Mprotect u32 nat bool
  | Munmap u32 nat
  | Free "u8 list"
  | Cacheflush u32 u32
  | Kill_cont int
  | Wait

record hook_state =
  item :: "inlineHookItem list"
  info_size :: nat
  pmem :: mem
  pcs :: "int \<Rightarrow> u32"
  oslog :: "os_call list"

record os =
  os_pid :: int
  os_tasks :: "string list option"
  os_fork :: int
  os_attach :: "int \<Rightarrow> bool"
  os_getregs :: "int \<Rightarrow> bool"
  os_setregs :: "int \<Rightarrow> bool"
  os_maps :: "string list option"
  os_malloc :: bool
  os_mmap :: "u32 option"

definition PAGE_SIZE :: nat where "PAGE_SIZE = 4096"

definition PAGE_START :: "u32 \<Rightarrow> u32" where
  "PAGE_START addr = NOT (of_nat (PAGE_SIZE - 1)) AND addr"

definition SET_BIT0 :: "u32 \<Rightarrow> u32" where "SET_BIT0 addr = addr OR 1"
definition CLEAR_BIT0 :: "u32 \<Rightarrow> u32" where "CLEAR_BIT0 addr = addr AND 0xFFFFFFFE"
definition TEST_BIT0 :: "u32 \<Rightarrow> bool" where "TEST_BIT0 addr \<longleftrightarrow> addr AND 1 \<noteq> 0"

definition zero_item :: inlineHookItem where
  "zero_item = \<lparr>target_addr = 0, new_addr = 0, proto_addr = 0, orig_instructions = [],
     item_orig_boundaries = replicate 4 0, item_trampoline_boundaries = replicate 20 0,
     item_count = 0, trampoline_instructions = 0, item_length = 0, status = 0\<rparr>"

definition init_hook_state :: "mem \<Rightarrow> (int \<Rightarrow> u32) \<Rightarrow> hook_state" where
  "init_hook_state m p = \<lparr>item = replicate 1024 zero_item, info_size = 0, pmem = m, pcs = p, oslog = []\<rparr>"

definition os_call :: "os_call \<Rightarrow> hook_state \<Rightarrow> hook_state" where
  "os_call c s = s\<lparr>oslog := oslog s @ [c]\<rparr>"

section \<open>Text of the proc files\<close>

text \<open>\<open>atoi\<close> on a directory entry: the value of the leading decimal digits, as for the names of
  \<open>/proc/<pid>/task\<close>, where no sign and no white space occurs.\<close>

fun atoi :: "string \<Rightarrow> int \<Rightarrow> int" where
  "atoi [] acc = acc"
| "atoi (c # cs) acc =
     (if CHR ''0'' \<le> c \<and> c \<le> CHR ''9''
      then atoi cs (10 * acc + (of_char c - of_char CHR ''0'')) else acc)"

fun strstr :: "string \<Rightarrow> string \<Rightarrow> bool" where
  "strstr [] n = (n = [])"
| "strstr (c # cs) n = (take (length n) (c # cs) = n \<or> strstr cs n)"

text \<open>\<open>strtok\<close> with a one character delimiter: the token and the rest behind the delimiter that
  ends it.\<close>

definition strtok :: "char \<Rightarrow> string \<Rightarrow> string \<times> string" where
  "strtok d s = (let t = dropWhile (\<lambda>c. c = d) s
                 in (takeWhile (\<lambda>c. c \<noteq> d) t, drop 1 (dropWhile (\<lambda>c. c \<noteq> d) t)))"

definition hex_digit :: "char \<Rightarrow> int option" where
  "hex_digit c =
     (if CHR ''0'' \<le> c \<and> c \<le> CHR ''9'' then Some (of_char c - 48)
      else if CHR ''a'' \<le> c \<and> c \<le> CHR ''f'' then Some (of_char c - 87)
      else if CHR ''A'' \<le> c \<and> c \<le> CHR ''F'' then Some (of_char c - 55)
      else None)"

fun strtoul16 :: "string \<Rightarrow> int \<Rightarrow> int" where
  "strtoul16 [] acc = acc"
| "strtoul16 (c # cs) acc =
     (case hex_digit c of Some d \<Rightarrow> strtoul16 cs (16 * acc + d) | None \<Rightarrow> acc)"

text \<open>One line of \<open>/proc/self/maps\<close>: the bounds, when it is an executable mapping.  A value above
  \<open>ULONG_MAX\<close> saturates.\<close>

definition maps_range :: "string \<Rightarrow> (u32 \<times> u32) option" where
  "maps_range line =
     (if strstr line ''r-xp'' then
        (let (a, rest) = strtok (CHR ''-'') line; (b, _) = strtok (CHR '' '') rest;
             num = (\<lambda>t. of_int (min (strtoul16 t 0) 0xFFFFFFFF))
         in Some (num a, num b))
      else None)"

definition isExecutableAddr :: "os \<Rightarrow> u32 \<Rightarrow> bool" where
  "isExecutableAddr os addr =
     (case os_maps os of
        None \<Rightarrow> False
      | Some lines \<Rightarrow> list_ex (\<lambda>l. case maps_range l of
            None \<Rightarrow> False | Some (start, end_addr) \<Rightarrow> start \<le> addr \<and> addr \<le> end_addr) lines)"

section \<open>Threads\<close>

definition getAllTids :: "os \<Rightarrow> int list" where
  "getAllTids os =
     (case os_tasks os of
        None \<Rightarrow> []
      | Some entries \<Rightarrow> filter (\<lambda>tid. tid \<noteq> 0 \<and> tid \<noteq> os_pid os) (map (\<lambda>e. atoi e 0) entries))"

text \<open>The search loop of both actions: the value of the second table at the first index below
  \<open>n\<close> where the first table holds \<open>offset\<close>.\<close>

fun find_boundary :: "int \<Rightarrow> int list \<Rightarrow> int list \<Rightarrow> nat \<Rightarrow> nat \<Rightarrow> int option option" where
  "find_boundary offset from to i 0 = Some None"
| "find_boundary offset from to i (Suc k) =
     do { x \<leftarrow> aget from i;
          if offset = x then do { y \<leftarrow> aget to i; Some (Some y) }
          else find_boundary offset from to (Suc i) k }"

text \<open>The new program counter and whether it was changed.\<close>

definition doProcessThreadPC :: "inlineHookItem \<Rightarrow> u32 \<Rightarrow> hook_action \<Rightarrow> (bool \<times> u32) option" where
  "doProcessThreadPC it pc action =
     (case action of
        ACTION_ENABLE \<Rightarrow>
          do { r \<leftarrow> find_boundary (sint (pc - CLEAR_BIT0 (target_addr it)))
                      (item_orig_boundaries it) (item_trampoline_boundaries it) 0 (item_count it);
               case r of Some b \<Rightarrow> Some (True, trampoline_instructions it + of_int b)
                       | None \<Rightarrow> Some (False, pc) }
      | ACTION_DISABLE \<Rightarrow>
          do { r \<leftarrow> find_boundary (sint (pc - trampoline_instructions it))
                      (item_trampoline_boundaries it) (item_orig_boundaries it) 0 (item_count it);
               case r of Some b \<Rightarrow> Some (True, CLEAR_BIT0 (target_addr it) + of_int b)
                       | None \<Rightarrow> Some (False, pc) })"

fun process_items :: "inlineHookItem list \<Rightarrow> u32 \<Rightarrow> hook_action \<Rightarrow> u32 option" where
  "process_items [] pc action = Some pc"
| "process_items (it # its) pc action =
     do { (moved, pc') \<leftarrow> doProcessThreadPC it pc action;
          if moved then Some pc' else process_items its pc' action }"

definition processThreadPC :: "os \<Rightarrow> int \<Rightarrow> nat option \<Rightarrow> hook_action \<Rightarrow> hook_state \<Rightarrow> hook_state option" where
  "processThreadPC os tid it action s =
     (if os_getregs os tid then
        do { pc \<leftarrow> (case it of
                 None \<Rightarrow> process_items (take (info_size s) (item s)) (pcs s tid) action
               | Some k \<Rightarrow> do { i \<leftarrow> aget (item s) k;
                                (_, pc) \<leftarrow> doProcessThreadPC i (pcs s tid) action;
                                Some pc });
             Some (if os_setregs os tid then s\<lparr>pcs := (pcs s)(tid := pc)\<rparr> else s) }
      else Some s)"

fun freeze_threads :: "os \<Rightarrow> int list \<Rightarrow> nat option \<Rightarrow> hook_action \<Rightarrow> hook_state \<Rightarrow> hook_state option" where
  "freeze_threads os [] it action s = Some s"
| "freeze_threads os (tid # tids) it action s =
     do { s' \<leftarrow> (if os_attach os tid then processThreadPC os tid it action s else Some s);
          freeze_threads os tids it action s' }"

text \<open>The child that \<open>fork\<close> starts moves the program counters while every thread is stopped; the
  parent waits for it.  \<open>tids\<close> has room for 1024 threads.\<close>

definition freeze :: "os \<Rightarrow> nat option \<Rightarrow> hook_action \<Rightarrow> hook_state \<Rightarrow> (int \<times> hook_state) option" where
  "freeze os it action s =
     (let tids = getAllTids os in
      if length tids > 1024 then None
      else if length tids > 0 then
        (if os_fork os > 0
         then do { s' \<leftarrow> freeze_threads os tids it action s; Some (os_fork os, s') }
         else Some (os_fork os, s))
      else Some (-1, s))"

definition unFreeze :: "int \<Rightarrow> hook_state \<Rightarrow> hook_state" where
  "unFreeze pid s = (if pid < 0 then s else os_call Wait (os_call (Kill_cont pid) s))"

section \<open>The table\<close>

fun find_slot :: "u32 \<Rightarrow> inlineHookItem list \<Rightarrow> nat \<Rightarrow> nat option" where
  "find_slot a [] i = None"
| "find_slot a (it # its) i = (if target_addr it = a then Some i else find_slot a its (Suc i))"

definition findInlineHookItem :: "u32 \<Rightarrow> hook_state \<Rightarrow> nat option" where
  "findInlineHookItem a s = find_slot a (take (info_size s) (item s)) 0"

definition addInlineHookItem :: "hook_state \<Rightarrow> nat option \<times> hook_state" where
  "addInlineHookItem s =
     (if info_size s \<ge> 1024 then (None, s)
      else (Some (info_size s), s\<lparr>info_size := info_size s + 1\<rparr>))"

definition deleteInlineHookItem :: "nat \<Rightarrow> hook_state \<Rightarrow> hook_state option" where
  "deleteInlineHookItem pos s =
     (if info_size s = 0 then None
      else do { last_item \<leftarrow> aget (item s) (info_size s - 1);
                its \<leftarrow> aset (item s) pos last_item;
                Some (s\<lparr>item := its, info_size := info_size s - 1\<rparr>) })"

text \<open>The fields \<open>registerInlineHook\<close> writes; the tables and the counter continue from what the
  slot held.\<close>

definition fill_item :: "u32 \<Rightarrow> u32 \<Rightarrow> u32 \<Rightarrow> u32 \<Rightarrow> mem \<Rightarrow> inlineHookItem \<Rightarrow> (inlineHookItem \<times> mem) option" where
  "fill_item target new proto page m it =
     (let len = (if TEST_BIT0 target then 12 else 8);
          orig = load_bytes m (CLEAR_BIT0 target) len
      in do { (code, ob, tb, cnt) \<leftarrow> relocateInstruction m target orig len
                 (item_orig_boundaries it) (item_trampoline_boundaries it) (item_count it);
              if length code > PAGE_SIZE then None
              else Some (it\<lparr>target_addr := target, new_addr := new, proto_addr := proto,
                            orig_instructions := orig, item_orig_boundaries := ob,
                            item_trampoline_boundaries := tb, item_count := cnt,
                            trampoline_instructions := page, item_length := len,
                            status := REGISTERED\<rparr>,
                         store_bytes m page code) })"

definition registerInlineHook ::
    "os \<Rightarrow> u32 \<Rightarrow> u32 \<Rightarrow> u32 \<Rightarrow> hook_state \<Rightarrow> (ele7en_status \<times> hook_state) option" where
  "registerInlineHook os target new proto s =
     (if \<not> isExecutableAddr os target \<or> \<not> isExecutableAddr os new
      then Some (ELE7EN_ERROR_NOT_EXECUTABLE, s)
      else case findInlineHookItem target s of
        Some k \<Rightarrow>
          do { it \<leftarrow> aget (item s) k;
               Some (if status it = REGISTERED then (ELE7EN_ERROR_ALREADY_REGISTERED, s)
                     else if status it = HOOKED then (ELE7EN_ERROR_ALREADY_HOOKED, s)
                     else (ELE7EN_ERROR_UNKNOWN, s)) }
      | None \<Rightarrow>
          (case addInlineHookItem s of
             (None, _) \<Rightarrow> None
           | (Some k, s1) \<Rightarrow>
               if \<not> os_malloc os then None
               else do { page \<leftarrow> os_mmap os;
                         it \<leftarrow> aget (item s1) k;
                         (it', m') \<leftarrow> fill_item target new proto page (pmem s1) it;
                         its \<leftarrow> aset (item s1) k it';
                         Some (ELE7EN_OK, s1\<lparr>item := its, pmem := m'\<rparr>) }))"

section \<open>Hooking and unhooking\<close>

definition doInlineUnHook :: "nat \<Rightarrow> hook_state \<Rightarrow> hook_state option" where
  "doInlineUnHook pos s =
     do { it \<leftarrow> aget (item s) pos;
          let a = CLEAR_BIT0 (target_addr it);
          let s1 = os_call (Mprotect (PAGE_START a) (PAGE_SIZE * 2) True) s;
          let s2 = s1\<lparr>pmem := store_bytes (pmem s1) a (take (item_length it) (orig_instructions it))\<rparr>;
          let s3 = os_call (Mprotect (PAGE_START a) (PAGE_SIZE * 2) False) s2;
          let s4 = os_call (Munmap (trampoline_instructions it) PAGE_SIZE) s3;
          let s5 = os_call (Free (orig_instructions it)) s4;
          s6 \<leftarrow> deleteInlineHookItem pos s5;
          it' \<leftarrow> aget (item s6) pos;
          let b = CLEAR_BIT0 (target_addr it');
          Some (os_call (Cacheflush b (b + of_nat (item_length it'))) s6) }"

fun find_hooked :: "u32 \<Rightarrow> inlineHookItem list \<Rightarrow> nat \<Rightarrow> nat option" where
  "find_hooked a [] i = None"
| "find_hooked a (it # its) i =
     (if target_addr it = a \<and> status it = HOOKED then Some i else find_hooked a its (Suc i))"

definition inlineUnHook :: "os \<Rightarrow> u32 \<Rightarrow> hook_state \<Rightarrow> (ele7en_status \<times> hook_state) option" where
  "inlineUnHook os target s =
     (case find_hooked target (take (info_size s) (item s)) 0 of
        None \<Rightarrow> Some (ELE7EN_ERROR_NOT_HOOKED, s)
      | Some i \<Rightarrow>
          do { (pid, s1) \<leftarrow> freeze os (Some i) ACTION_DISABLE s;
               s2 \<leftarrow> doInlineUnHook i s1;
               Some (ELE7EN_OK, unFreeze pid s2) })"

lemma doInlineUnHook_size:
  "doInlineUnHook i s = Some s' \<Longrightarrow> info_size s = Suc (info_size s') \<and> length (item s') = length (item s)"
  by (auto simp: doInlineUnHook_def deleteInlineHookItem_def os_call_def bind_eq_Some_conv Let_def
      aset_eq_Some split: if_splits)

function unhook_loop :: "nat \<Rightarrow> hook_state \<Rightarrow> hook_state option" where
  "unhook_loop i s =
     (if i < info_size s then
        do { it \<leftarrow> aget (item s) i;
             if status it = HOOKED
             then (case doInlineUnHook i s of None \<Rightarrow> None | Some s' \<Rightarrow> unhook_loop i s')
             else unhook_loop (Suc i) s }
      else Some s)"
  by pat_completeness auto
termination
  by (relation "measure (\<lambda>(i, s). info_size s - i)") (auto dest: doInlineUnHook_size)

declare unhook_loop.simps [simp del]

definition inlineUnHookAll :: "os \<Rightarrow> hook_state \<Rightarrow> hook_state option" where
  "inlineUnHookAll os s =
     do { (pid, s1) \<leftarrow> freeze os None ACTION_DISABLE s;
          s2 \<leftarrow> unhook_loop 0 s1;
          Some (unFreeze pid s2) }"

text \<open>The jump to the new function that replaces the first instructions.\<close>

definition jump_code :: "u32 \<Rightarrow> u32 \<Rightarrow> u8 list" where
  "jump_code target new =
     (if TEST_BIT0 target then
        bytes16 ((if unat (CLEAR_BIT0 target) mod 4 \<noteq> 0 then [0xBF00] else []) @
                 [0xF8DF, 0xF000, ucast (new AND 0xFFFF), ucast (drop_bit 16 new)])
      else bytes32 [0xe51ff004, new])"

definition doInlineHook :: "nat \<Rightarrow> hook_state \<Rightarrow> hook_state option" where
  "doInlineHook k s =
     do { it \<leftarrow> aget (item s) k;
          let a = CLEAR_BIT0 (target_addr it);
          let s1 = os_call (Mprotect (PAGE_START a) (PAGE_SIZE * 2) True) s;
          let s2 = s1\<lparr>pmem := store_bytes (pmem s1) a (jump_code (target_addr it) (new_addr it))\<rparr>;
          let s3 = os_call (Mprotect (PAGE_START a) (PAGE_SIZE * 2) False) s2;
          let s4 = (if proto_addr it \<noteq> 0
                    then s3\<lparr>pmem := store_bytes (pmem s3) (proto_addr it)
                           (le32 (if TEST_BIT0 (target_addr it)
                                  then SET_BIT0 (trampoline_instructions it)
                                  else trampoline_instructions it))\<rparr>
                    else s3);
          its \<leftarrow> aset (item s4) k (it\<lparr>status := HOOKED\<rparr>);
          Some (os_call (Cacheflush a (a + of_nat (item_length it))) (s4\<lparr>item := its\<rparr>)) }"

definition inlineHook :: "os \<Rightarrow> u32 \<Rightarrow> hook_state \<Rightarrow> (ele7en_status \<times> hook_state) option" where
  "inlineHook os target s =
     (case find_slot target (take (info_size s) (item s)) 0 of
        None \<Rightarrow> Some (ELE7EN_ERROR_NOT_REGISTERED, s)
      | Some k \<Rightarrow>
          do { it \<leftarrow> aget (item s) k;
               if status it = REGISTERED then
                 do { (pid, s1) \<leftarrow> freeze os (Some k) ACTION_ENABLE s;
                      s2 \<leftarrow> doInlineHook k s1;
                      Some (ELE7EN_OK, unFreeze pid s2) }
               else if status it = HOOKED then Some (ELE7EN_ERROR_ALREADY_HOOKED, s)
               else Some (ELE7EN_ERROR_UNKNOWN, s) })"

fun hook_loop :: "nat \<Rightarrow> nat \<Rightarrow> hook_state \<Rightarrow> hook_state option" where
  "hook_loop i 0 s = Some s"
| "hook_loop i (Suc k) s =
     do { it \<leftarrow> aget (item s) i;
          s' \<leftarrow> (if status it = REGISTERED then doInlineHook i s else Some s);
          hook_loop (Suc i) k s' }"

definition inlineHookAll :: "os \<Rightarrow> hook_state \<Rightarrow> hook_state option" where
  "inlineHookAll os s =
     do { (pid, s1) \<leftarrow> freeze os None ACTION_ENABLE s;
          s2 \<leftarrow> hook_loop 0 (info_size s1) s1;
          Some (unFreeze pid s2) }"

section \<open>Searching the table\<close>

lemma find_slot_None: "find_slot a its i = None \<longleftrightarrow> a \<notin> target_addr ` set its"
  by (induction its arbitrary: i) auto

lemma find_slot_Some:
  "find_slot a its i = Some k \<Longrightarrow> i \<le> k \<and> k - i < length its \<and> target_addr (its ! (k - i)) = a"
proof (induction its arbitrary: i)
  case Nil
  then show ?case by simp
next
  case (Cons it its)
  show ?case
  proof (cases "target_addr it = a")
    case True
    with Cons.prems show ?thesis by simp
  next
    case False
    with Cons.prems have f: "find_slot a its (Suc i) = Some k" by simp
    from Cons.IH [OF this] have "k - i = Suc (k - Suc i)" by linarith
    with Cons.IH [OF f] show ?thesis by simp
  qed
qed

lemma find_hooked_eq:
  "distinct (map target_addr its) \<Longrightarrow> find_hooked a its i =
   (case find_slot a its i of None \<Rightarrow> None | Some k \<Rightarrow> if status (its ! (k - i)) = HOOKED then Some k else None)"
proof (induction its arbitrary: i)
  case Nil
  then show ?case by simp
next
  case (Cons it its)
  show ?case
  proof (cases "target_addr it = a")
    case True
    then have "find_slot a its (Suc i) = None"
      using Cons.prems by (auto simp: find_slot_None)
    with True Cons show ?thesis by simp
  next
    case False
    have "k - i = Suc (k - Suc i)" if "find_slot a its (Suc i) = Some k" for k
      using find_slot_Some [OF that] by linarith
    with False Cons show ?thesis by (auto split: option.splits)
  qed
qed

section \<open>The invariant of the table\<close>

definition item_ok :: "inlineHookItem \<Rightarrow> bool" where
  "item_ok it \<longleftrightarrow> length (item_orig_boundaries it) = 4 \<and> length (item_trampoline_boundaries it) = 20 \<and>
     item_count it \<le> 4"

definition live_ok :: "inlineHookItem \<Rightarrow> bool" where
  "live_ok it \<longleftrightarrow> (status it = REGISTERED \<or> status it = HOOKED) \<and>
     item_length it = (if TEST_BIT0 (target_addr it) then 12 else 8) \<and>
     length (orig_instructions it) = item_length it"

definition live :: "hook_state \<Rightarrow> inlineHookItem list" where
  "live s = take (info_size s) (item s)"

definition hook_inv :: "hook_state \<Rightarrow> bool" where
  "hook_inv s \<longleftrightarrow> length (item s) = 1024 \<and> info_size s \<le> 1024 \<and>
     list_all item_ok (item s) \<and> list_all live_ok (live s) \<and> distinct (map target_addr (live s))"

lemma hook_invD:
  assumes "hook_inv s"
  shows "length (item s) = 1024" "info_size s \<le> 1024"
    "i < 1024 \<Longrightarrow> item_ok (item s ! i)" "i < info_size s \<Longrightarrow> live_ok (item s ! i)"
    "distinct (map target_addr (live s))" "length (live s) = info_size s"
    "i < info_size s \<Longrightarrow> live s ! i = item s ! i"
  using assms by (auto simp: hook_inv_def live_def list_all_length)

lemma hook_inv_frame:
  "hook_inv s \<Longrightarrow> item s' = item s \<Longrightarrow> info_size s' = info_size s \<Longrightarrow> hook_inv s'"
  by (simp add: hook_inv_def live_def)

lemma init_hook_inv: "hook_inv (init_hook_state m p)"
  by (simp add: hook_inv_def live_def init_hook_state_def item_ok_def zero_item_def list_all_length)

subsection \<open>Threads do not change the table\<close>

lemma find_boundary_total:
  "i + k \<le> length from \<Longrightarrow> i + k \<le> length to \<Longrightarrow> find_boundary off from to i k \<noteq> None"
  by (induction k arbitrary: i) auto

lemma doProcessThreadPC_total: "item_ok it \<Longrightarrow> doProcessThreadPC it pc action \<noteq> None"
proof -
  assume ok: "item_ok it"
  have e: "find_boundary off (item_orig_boundaries it) (item_trampoline_boundaries it) 0 (item_count it) \<noteq> None"
    and d: "find_boundary off (item_trampoline_boundaries it) (item_orig_boundaries it) 0 (item_count it) \<noteq> None" for off
    by (rule find_boundary_total; use ok in \<open>simp add: item_ok_def\<close>)+
  show ?thesis
    using e [of "sint (pc - CLEAR_BIT0 (target_addr it))"] d [of "sint (pc - trampoline_instructions it)"]
    by (cases action) (auto simp: doProcessThreadPC_def split: option.splits)
qed

lemma process_items_total: "list_all item_ok its \<Longrightarrow> process_items its pc action \<noteq> None"
proof (induction its arbitrary: pc)
  case Nil
  then show ?case by simp
next
  case (Cons it its)
  then show ?case
    using doProcessThreadPC_total [of it pc action] by (auto split: bind_splits)
qed

definition only_pcs :: "hook_state \<Rightarrow> hook_state \<Rightarrow> bool" where
  "only_pcs s s' \<longleftrightarrow> s' = s\<lparr>pcs := pcs s'\<rparr>"

lemma only_pcs_simps:
  "only_pcs s s' \<Longrightarrow> item s' = item s \<and> info_size s' = info_size s \<and> pmem s' = pmem s \<and> oslog s' = oslog s"
  unfolding only_pcs_def by (cases s; cases s') simp

lemma only_pcs_intros [simp, intro]:
  "only_pcs s s" "only_pcs s (s\<lparr>pcs := p\<rparr>)" "only_pcs s s1 \<Longrightarrow> only_pcs s1 s2 \<Longrightarrow> only_pcs s s2"
  unfolding only_pcs_def by (cases s; cases s1; cases s2; simp)+

lemma hook_inv_only_pcs: "hook_inv s \<Longrightarrow> only_pcs s s' \<Longrightarrow> hook_inv s'"
  by (metis hook_inv_frame only_pcs_simps)

abbreviation slot_ok :: "nat option \<Rightarrow> hook_state \<Rightarrow> bool" where
  "slot_ok it s \<equiv> (case it of None \<Rightarrow> True | Some k \<Rightarrow> k < info_size s)"

lemma processThreadPC_frame: "processThreadPC os tid it action s = Some s' \<Longrightarrow> only_pcs s s'"
  by (auto simp: processThreadPC_def bind_eq_Some_conv split: if_splits)

lemma processThreadPC_total:
  assumes "hook_inv s" "slot_ok it s"
  shows "processThreadPC os tid it action s \<noteq> None"
proof (cases it)
  case None
  have "list_all item_ok (take (info_size s) (item s))"
    using assms(1) by (auto simp: hook_inv_def list_all_iff dest: in_set_takeD)
  from process_items_total [OF this, of "pcs s tid" action] None show ?thesis
    by (auto simp: processThreadPC_def)
next
  case (Some k)
  then have k: "k < length (item s)" "item_ok (item s ! k)" using assms hook_invD [OF assms(1)] by auto
  with doProcessThreadPC_total [OF k(2), of "pcs s tid" action] Some show ?thesis
    by (auto simp: processThreadPC_def)
qed

lemma freeze_threads_frame: "freeze_threads os tids it action s = Some s' \<Longrightarrow> only_pcs s s'"
  by (induction tids arbitrary: s)
     (auto simp: bind_eq_Some_conv split: if_splits dest!: processThreadPC_frame intro: only_pcs_intros(3))

lemma freeze_threads_total:
  "hook_inv s \<Longrightarrow> slot_ok it s \<Longrightarrow> freeze_threads os tids it action s \<noteq> None"
proof (induction tids arbitrary: s)
  case Nil
  then show ?case by simp
next
  case (Cons tid tids)
  have "freeze_threads os tids it action s1 \<noteq> None" if "only_pcs s s1" for s1
    using Cons.IH [OF hook_inv_only_pcs [OF Cons.prems(1) that]] Cons.prems(2) only_pcs_simps [OF that]
    by (auto split: option.splits)
  then show ?case
    using processThreadPC_total [OF Cons.prems, of os tid action] processThreadPC_frame
    by (auto split: bind_splits if_splits)
qed

definition few_threads :: "os \<Rightarrow> bool" where
  "few_threads os \<longleftrightarrow> length (getAllTids os) \<le> 1024"

lemma freeze_frame: "freeze os it action s = Some (pid, s') \<Longrightarrow> only_pcs s s'"
  using freeze_threads_frame
  by (auto simp: freeze_def Let_def bind_eq_Some_conv split: if_splits)

lemma freeze_total:
  assumes "hook_inv s" "slot_ok it s" "few_threads os"
  shows "\<exists>pid s'. freeze os it action s = Some (pid, s') \<and> only_pcs s s'"
proof -
  have "freeze os it action s \<noteq> None"
    using freeze_threads_total [OF assms(1,2), of os "getAllTids os" action] assms(3)
    by (auto simp: freeze_def few_threads_def Let_def)
  then show ?thesis using freeze_frame by force
qed

lemma unFreeze_frame [simp]:
  "item (unFreeze pid s) = item s" "info_size (unFreeze pid s) = info_size s" "pmem (unFreeze pid s) = pmem s"
  "pcs (unFreeze pid s) = pcs s"
  by (auto simp: unFreeze_def os_call_def)

section \<open>The table as a map\<close>

text \<open>What the table promises: for each hooked address the replacement and the status.\<close>

definition hook_abs :: "hook_state \<Rightarrow> u32 \<rightharpoonup> u32 \<times> int" where
  "hook_abs s = map_of (map (\<lambda>it. (target_addr it, new_addr it, status it)) (live s))"

lemma hook_abs_frame: "item s' = item s \<Longrightarrow> info_size s' = info_size s \<Longrightarrow> hook_abs s' = hook_abs s"
  by (simp add: hook_abs_def live_def)

lemma hook_abs_eq_Some:
  assumes "hook_inv s"
  shows "hook_abs s a = Some v \<longleftrightarrow> (\<exists>it \<in> set (live s). target_addr it = a \<and> v = (new_addr it, status it))"
proof -
  have "distinct (map fst (map (\<lambda>it. (target_addr it, new_addr it, status it)) (live s)))"
    using hook_invD(5) [OF assms] by (simp add: comp_def)
  from map_of_eq_Some_iff [OF this] show ?thesis by (auto simp: hook_abs_def)
qed

lemma hook_abs_eq_None: "hook_abs s a = None \<longleftrightarrow> a \<notin> target_addr ` set (live s)"
  by (force simp: hook_abs_def map_of_eq_None_iff)

lemma find_slot_abs:
  "find_slot a its i = None \<Longrightarrow> map_of (map (\<lambda>it. (target_addr it, new_addr it, status it)) its) a = None"
  "find_slot a its i = Some k \<Longrightarrow>
   map_of (map (\<lambda>it. (target_addr it, new_addr it, status it)) its) a = Some (new_addr (its ! (k - i)), status (its ! (k - i)))"
proof -
  show "find_slot a its i = None \<Longrightarrow> map_of (map (\<lambda>it. (target_addr it, new_addr it, status it)) its) a = None"
    by (induction its arbitrary: i) (auto split: if_splits)
  show "find_slot a its i = Some k \<Longrightarrow>
   map_of (map (\<lambda>it. (target_addr it, new_addr it, status it)) its) a = Some (new_addr (its ! (k - i)), status (its ! (k - i)))"
  proof (induction its arbitrary: i)
    case (Cons it its)
    have "k - i = Suc (k - Suc i)" if "find_slot a its (Suc i) = Some k"
      using find_slot_Some [OF that] by linarith
    with Cons show ?case by (auto split: if_splits)
  qed simp
qed

text \<open>The slot an address has and what the table holds there.\<close>

lemma hook_lookup_cases:
  assumes "hook_inv s"
  obtains (absent) "find_slot a (live s) 0 = None" "hook_abs s a = None"
  | (present) k where "find_slot a (live s) 0 = Some k" "k < info_size s" "k < length (item s)"
      "target_addr (item s ! k) = a" "hook_abs s a = Some (new_addr (item s ! k), status (item s ! k))"
      "live_ok (item s ! k)"
proof (cases "find_slot a (live s) 0")
  case None
  with find_slot_abs(1) [OF None] show ?thesis by (intro absent) (simp_all add: hook_abs_def)
next
  case (Some k)
  note D = hook_invD [OF assms]
  have k: "k < info_size s" "target_addr (item s ! k) = a" using find_slot_Some [OF Some] D by auto
  have "hook_abs s a = Some (new_addr (item s ! k), status (item s ! k))"
    using find_slot_abs(2) [OF Some] D(7) [OF k(1)] by (simp add: hook_abs_def)
  with Some k D show ?thesis by (intro present) auto
qed

text \<open>Replacing the item of one slot by another with the same address.\<close>

lemma update_slot:
  assumes inv: "hook_inv s" and k: "k < info_size s" and it: "item_ok it" "live_ok it" "target_addr it = target_addr (item s ! k)"
    and s': "item s' = (item s)[k := it]" "info_size s' = info_size s"
  shows "hook_inv s'" "hook_abs s' = (hook_abs s)(target_addr it \<mapsto> (new_addr it, status it))"
proof -
  note D = hook_invD [OF inv]
  have live': "live s' = (live s)[k := it]" by (simp add: live_def s' take_update_swap)
  have targets: "map target_addr (live s') = map target_addr (live s)"
    using k D by (simp add: live' map_update it list_update_same_conv)
  show inv': "hook_inv s'"
    using inv it targets D(5)
    by (auto simp: hook_inv_def live' s' list_all_iff dest!: set_update_subset_insert [THEN subsetD])
  show "hook_abs s' = (hook_abs s)(target_addr it \<mapsto> (new_addr it, status it))"
  proof (rule ext)
    fix a
    show "hook_abs s' a = ((hook_abs s)(target_addr it \<mapsto> (new_addr it, status it))) a"
    proof (cases "a = target_addr it")
      case True
      have "it \<in> set (live s')" using k D by (simp add: live' set_update_memI)
      then have "hook_abs s' a = Some (new_addr it, status it)"
        using True by (auto simp: hook_abs_eq_Some [OF inv'])
      with True show ?thesis by simp
    next
      case False
      have "(\<exists>x \<in> set (live s'). target_addr x = a \<and> v = (new_addr x, status x)) \<longleftrightarrow>
            (\<exists>x \<in> set (live s). target_addr x = a \<and> v = (new_addr x, status x))" for v
      proof
        assume "\<exists>x \<in> set (live s'). target_addr x = a \<and> v = (new_addr x, status x)"
        then show "\<exists>x \<in> set (live s). target_addr x = a \<and> v = (new_addr x, status x)"
          using False by (auto simp: live' dest!: set_update_subset_insert [THEN subsetD])
      next
        assume "\<exists>x \<in> set (live s). target_addr x = a \<and> v = (new_addr x, status x)"
        then obtain j where j: "j < length (live s)" "target_addr (live s ! j) = a" "v = (new_addr (live s ! j), status (live s ! j))"
          by (auto simp: in_set_conv_nth)
        then have "j \<noteq> k" using False D(7) [OF k] it by auto
        with j have "live s' ! j = live s ! j" "j < length (live s')" by (simp_all add: live')
        with j show "\<exists>x \<in> set (live s'). target_addr x = a \<and> v = (new_addr x, status x)"
          by (metis nth_mem)
      qed
      then have "hook_abs s' a = Some v \<longleftrightarrow> hook_abs s a = Some v" for v
        by (simp only: hook_abs_eq_Some [OF inv] hook_abs_eq_Some [OF inv'])
      then have "hook_abs s' a = hook_abs s a"
        by (metis not_Some_eq)
      with False show ?thesis by simp
    qed
  qed
qed

lemma mset_swap_delete:
  assumes "i < length xs"
  shows "add_mset (xs ! i) (mset (butlast (xs[i := last xs]))) = mset xs"
proof (cases "i = length xs - 1")
  case True
  have ne: "xs \<noteq> []" using assms by auto
  then have e: "xs ! i = last xs" "xs \<noteq> []" using True by (simp_all add: last_conv_nth)
  then have "xs[i := last xs] = xs" by (metis list_update_id)
  with e show ?thesis
    using append_butlast_last_id [of xs] by (metis add_mset_add_single mset.simps mset_append)
next
  case False
  define ys where "ys = butlast xs"
  have xs: "xs = ys @ [last xs]" using assms by (simp add: ys_def) (metis append_butlast_last_id length_0_conv not_less0)
  have i: "i < length ys" using assms False by (simp add: ys_def)
  obtain l where l: "xs = ys @ [l]" using xs by blast
  show ?thesis using i unfolding l
    by (simp add: list_update_append nth_append mset_update)
qed

lemma deleteInlineHookItem_live:
  assumes inv: "hook_inv s" and k: "k < info_size s"
  obtains s' where "deleteInlineHookItem k s = Some s'" "info_size s' = info_size s - 1" "length (item s') = 1024"
    "item s' = (item s)[k := item s ! (info_size s - 1)]"
    "pmem s' = pmem s" "pcs s' = pcs s" "oslog s' = oslog s"
    "mset (live s) = add_mset (item s ! k) (mset (live s'))" "list_all item_ok (item s')"
proof -
  note D = hook_invD [OF inv]
  let ?n = "info_size s"
  let ?l = "item s ! (?n - 1)"
  define s' where "s' = s\<lparr>item := (item s)[k := ?l], info_size := ?n - 1\<rparr>"
  have del: "deleteInlineHookItem k s = Some s'"
    using k D by (simp add: deleteInlineHookItem_def s'_def)
  have "live s \<noteq> []" using k D(6) by auto
  then have l: "last (live s) = ?l" using k D by (simp add: last_conv_nth)
  have "live s' = butlast ((live s)[k := last (live s)])"
    using k D unfolding l by (simp add: live_def s'_def butlast_take take_update_swap min_def butlast_conv_take)
  then have "mset (live s) = add_mset (item s ! k) (mset (live s'))"
    using mset_swap_delete [of k "live s"] D k by simp
  moreover have "list_all item_ok (item s')"
    using k D(1-3) by (auto simp: s'_def list_all_length nth_list_update)
  ultimately show ?thesis
    using del D by (intro that [of s']) (simp_all add: s'_def)
qed

lemma remove_slot:
  assumes inv: "hook_inv s" and m: "mset (live s) = add_mset it (mset (live s'))"
    and l: "length (item s') = 1024" "info_size s' \<le> 1024" "list_all item_ok (item s')"
  shows "hook_inv s'" "hook_abs s' = (hook_abs s)(target_addr it := None)"
proof -
  have "mset (map target_addr (live s)) = add_mset (target_addr it) (mset (map target_addr (live s')))"
    using m by (simp only: mset_map image_mset_add_mset)
  then have "mset (map target_addr (live s)) = mset (target_addr it # map target_addr (live s'))" by simp
  then have d: "distinct (target_addr it # map target_addr (live s'))"
    using hook_invD(5) [OF inv] mset_eq_imp_distinct_iff by blast
  have sets: "set (live s) = insert it (set (live s'))"
    using arg_cong [OF m, of set_mset] by simp
  show inv': "hook_inv s'"
    using inv d sets l by (auto simp: hook_inv_def list_all_iff)
  have "hook_abs s' a = Some v \<longleftrightarrow> ((hook_abs s)(target_addr it := None)) a = Some v" for a v
    using d by (cases "a = target_addr it") (auto simp: hook_abs_eq_Some [OF inv] hook_abs_eq_Some [OF inv'] sets image_iff Ball_def)
  then show "hook_abs s' = (hook_abs s)(target_addr it := None)"
    by (intro ext) (metis not_Some_eq)
qed

text \<open>A new item in the slot behind the last.\<close>

lemma extend_table:
  assumes inv: "hook_inv s" and n: "info_size s < 1024" and it: "item_ok it" "live_ok it" "hook_abs s (target_addr it) = None"
    and s': "item s' = (item s)[info_size s := it]" "info_size s' = info_size s + 1"
  shows "hook_inv s'" "hook_abs s' = (hook_abs s)(target_addr it \<mapsto> (new_addr it, status it))"
proof -
  note D = hook_invD [OF inv]
  have live': "live s' = live s @ [it]"
    using n D by (simp add: live_def s' take_Suc_conv_app_nth take_update_cancel)
  have fresh: "target_addr it \<notin> target_addr ` set (live s)"
    using it(3) by (simp add: hook_abs_eq_None)
  show inv': "hook_inv s'"
    using inv n it fresh by (auto simp: hook_inv_def live' s' list_all_iff dest!: set_update_subset_insert [THEN subsetD])
  have "hook_abs s' a = Some v \<longleftrightarrow> ((hook_abs s)(target_addr it \<mapsto> (new_addr it, status it))) a = Some v" for a v
    using fresh by (cases "a = target_addr it") (auto simp: hook_abs_eq_Some [OF inv] hook_abs_eq_Some [OF inv'] live' image_iff Ball_def)
  then show "hook_abs s' = (hook_abs s)(target_addr it \<mapsto> (new_addr it, status it))"
    by (intro ext) (metis not_Some_eq)
qed

section \<open>What each operation does\<close>

lemma os_call_frame [simp]:
  "item (os_call c s) = item s" "info_size (os_call c s) = info_size s" "pmem (os_call c s) = pmem s"
  "pcs (os_call c s) = pcs s"
  by (simp_all add: os_call_def)

text \<open>The memory after the jump and the pointer to the trampoline are stored.\<close>

definition hooked_mem :: "inlineHookItem \<Rightarrow> mem \<Rightarrow> mem" where
  "hooked_mem it m =
     (let m1 = store_bytes m (CLEAR_BIT0 (target_addr it)) (jump_code (target_addr it) (new_addr it))
      in if proto_addr it = 0 then m1
         else store_bytes m1 (proto_addr it)
           (le32 (if TEST_BIT0 (target_addr it) then SET_BIT0 (trampoline_instructions it)
                  else trampoline_instructions it)))"

lemma doInlineHook_spec:
  assumes "hook_inv s" "k < info_size s"
  obtains s' where "doInlineHook k s = Some s'" "item s' = (item s)[k := (item s ! k)\<lparr>status := HOOKED\<rparr>]"
    "info_size s' = info_size s" "pmem s' = hooked_mem (item s ! k) (pmem s)" "pcs s' = pcs s"
  using hook_invD(1,2) [OF assms(1)] assms(2)
  by (auto simp: doInlineHook_def hooked_mem_def Let_def)

lemma doInlineHook_inv:
  assumes "hook_inv s" "k < info_size s" "doInlineHook k s = Some s'"
  shows "hook_inv s'"
    "hook_abs s' = (hook_abs s)(target_addr (item s ! k) \<mapsto> (new_addr (item s ! k), HOOKED))"
proof -
  let ?it = "(item s ! k)\<lparr>status := HOOKED\<rparr>"
  have "item_ok ?it" "live_ok ?it"
    using hook_invD(3,4) [OF assms(1), of k] hook_invD(2) [OF assms(1)] assms(2) by (auto simp: item_ok_def live_ok_def)
  then show "hook_inv s'" "hook_abs s' = (hook_abs s)(target_addr (item s ! k) \<mapsto> (new_addr (item s ! k), HOOKED))"
    using update_slot [OF assms(1,2), of ?it s'] doInlineHook_spec [OF assms(1,2)] assms(3) by auto
qed

lemma doInlineUnHook_spec:
  assumes inv: "hook_inv s" and k: "k < info_size s"
  obtains s' where "doInlineUnHook k s = Some s'" "hook_inv s'"
    "hook_abs s' = (hook_abs s)(target_addr (item s ! k) := None)"
    "info_size s' = info_size s - 1" "item s' = (item s)[k := item s ! (info_size s - 1)]"
    "mset (live s) = add_mset (item s ! k) (mset (live s'))"
    "pmem s' = store_bytes (pmem s) (CLEAR_BIT0 (target_addr (item s ! k))) (orig_instructions (item s ! k))"
    "pcs s' = pcs s"
proof -
  note D = hook_invD [OF inv]
  let ?it = "item s ! k"
  let ?a = "CLEAR_BIT0 (target_addr ?it)"
  define s5 where "s5 = os_call (Free (orig_instructions ?it)) (os_call (Munmap (trampoline_instructions ?it) PAGE_SIZE)
     (os_call (Mprotect (PAGE_START ?a) (PAGE_SIZE * 2) False)
       ((os_call (Mprotect (PAGE_START ?a) (PAGE_SIZE * 2) True) s)
          \<lparr>pmem := store_bytes (pmem s) ?a (take (item_length ?it) (orig_instructions ?it))\<rparr>)))"
  have s5: "item s5 = item s" "info_size s5 = info_size s" "live s5 = live s" "pcs s5 = pcs s"
    by (simp_all add: s5_def live_def)
  have inv5: "hook_inv s5" by (rule hook_inv_frame [OF inv]) (simp_all add: s5)
  obtain s6 where s6: "deleteInlineHookItem k s5 = Some s6" "info_size s6 = info_size s - 1" "length (item s6) = 1024"
    "item s6 = (item s)[k := item s ! (info_size s - 1)]" "pmem s6 = pmem s5" "pcs s6 = pcs s"
    "mset (live s) = add_mset ?it (mset (live s6))" "list_all item_ok (item s6)"
    by (rule deleteInlineHookItem_live [OF inv5]) (use k s5 in auto)
  define s' where "s' = os_call (Cacheflush (CLEAR_BIT0 (target_addr (item s6 ! k)))
     (CLEAR_BIT0 (target_addr (item s6 ! k)) + of_nat (item_length (item s6 ! k)))) s6"
  have run: "doInlineUnHook k s = Some s'"
    using k D s6(1,3) by (simp add: doInlineUnHook_def Let_def s5_def [symmetric] s'_def)
  have live': "live s' = live s6" by (simp add: s'_def live_def)
  have m: "mset (live s) = add_mset ?it (mset (live s'))" using s6 by (simp add: live')
  have "length (orig_instructions ?it) = item_length ?it"
    using D(4) [OF k] by (simp add: live_ok_def)
  then have p: "pmem s' = store_bytes (pmem s) ?a (orig_instructions ?it)"
    by (simp add: s'_def s6(5) s5_def)
  note r = remove_slot [OF inv m]
  show ?thesis
    using r s6 D(2) run m p by (intro that [of s']) (simp_all add: s'_def)
qed

lemma fill_item_ok:
  assumes "fill_item target new proto page m it = Some (it', m')" "item_ok it"
  obtains code where "item_ok it'" "live_ok it'" "target_addr it' = target" "new_addr it' = new"
    "proto_addr it' = proto" "trampoline_instructions it' = page" "status it' = REGISTERED"
    "orig_instructions it' = load_bytes m (CLEAR_BIT0 target) (item_length it')"
    "item_length it' \<le> 12" "m' = store_bytes m page code" "length code \<le> 4096"
proof -
  let ?len = "if TEST_BIT0 target then 12 else 8 :: nat"
  let ?orig = "load_bytes m (CLEAR_BIT0 target) ?len"
  obtain code ob tb cnt where r: "relocateInstruction m target ?orig ?len (item_orig_boundaries it)
      (item_trampoline_boundaries it) (item_count it) = Some (code, ob, tb, cnt)"
    and code: "length code \<le> 4096"
    and it': "it' = it\<lparr>target_addr := target, new_addr := new, proto_addr := proto, orig_instructions := ?orig,
        item_orig_boundaries := ob, item_trampoline_boundaries := tb, item_count := cnt,
        trampoline_instructions := page, item_length := ?len, status := REGISTERED\<rparr>"
      "m' = store_bytes m page code"
    using assms(1) by (auto simp: fill_item_def Let_def PAGE_SIZE_def bind_eq_Some_conv split: if_splits)
  have "item_ok it'"
    using relocateInstruction_lengths [OF r] assms(2) by (simp add: item_ok_def it')
  moreover have "live_ok it'" by (simp add: live_ok_def it')
  ultimately show ?thesis using code by (intro that [of code]) (simp_all add: it')
qed

lemma registerInlineHook_known:
  assumes "hook_inv s" "isExecutableAddr os t" "isExecutableAddr os n" "hook_abs s t = Some (n', st)"
  shows "registerInlineHook os t n p s =
     Some (if st = REGISTERED then ELE7EN_ERROR_ALREADY_REGISTERED else ELE7EN_ERROR_ALREADY_HOOKED, s)"
  by (rule hook_lookup_cases [OF assms(1), of t])
     (use assms in \<open>auto simp: registerInlineHook_def findInlineHookItem_def live_def [symmetric] live_ok_def\<close>)

lemma registerInlineHook_OK:
  assumes inv: "hook_inv s" and r: "registerInlineHook os t n p s = Some (ELE7EN_OK, s')"
  obtains page it m' where "os_mmap os = Some page" "fill_item t n p page (pmem s) (item s ! info_size s) = Some (it, m')"
    "info_size s < 1024" "item s' = (item s)[info_size s := it]" "info_size s' = info_size s + 1" "pmem s' = m'"
    "pcs s' = pcs s" "hook_abs s t = None" "hook_inv s'" "hook_abs s' = (hook_abs s)(t \<mapsto> (n, REGISTERED))"
proof (rule hook_lookup_cases [OF inv, of t])
  fix k
  assume "find_slot t (live s) 0 = Some k" "k < length (item s)" "live_ok (item s ! k)"
  then show thesis
    using r by (auto simp: registerInlineHook_def findInlineHookItem_def live_def [symmetric] split: if_splits)
next
  assume slot: "find_slot t (live s) 0 = None" and none: "hook_abs s t = None"
  note D = hook_invD [OF inv]
  obtain page it m' where r': "os_mmap os = Some page" "fill_item t n p page (pmem s) (item s ! info_size s) = Some (it, m')"
    "info_size s < 1024" "s' = s\<lparr>info_size := info_size s + 1, item := (item s)[info_size s := it], pmem := m'\<rparr>"
    using r slot by (auto simp: registerInlineHook_def findInlineHookItem_def live_def [symmetric] addInlineHookItem_def
        bind_eq_Some_conv aget_eq_Some aset_eq_Some split: if_splits)
  obtain code where it: "item_ok it" "live_ok it" "target_addr it = t" "new_addr it = n" "status it = REGISTERED"
    by (rule fill_item_ok [OF r'(2)]) (use D(3) r'(3) in auto)
  have "hook_inv s'" "hook_abs s' = (hook_abs s)(t \<mapsto> (n, REGISTERED))"
    using extend_table [OF inv r'(3) it(1,2), of s'] none it by (simp_all add: r'(4))
  with r' none show thesis by (intro that) simp_all
qed


lemma find_slot_unique:
  assumes "hook_inv s" "k < info_size s"
  shows "find_slot (target_addr (item s ! k)) (live s) 0 = Some k"
proof (rule hook_lookup_cases [OF assms(1), of "target_addr (item s ! k)"])
  assume "hook_abs s (target_addr (item s ! k)) = None"
  then show ?thesis
    using assms hook_invD(6,7) [OF assms(1)] by (metis hook_abs_eq_None imageI nth_mem)
next
  fix j
  assume j: "find_slot (target_addr (item s ! k)) (live s) 0 = Some j" "j < info_size s"
    "target_addr (item s ! j) = target_addr (item s ! k)"
  note D = hook_invD [OF assms(1)]
  have "j = k"
    using nth_eq_iff_index_eq [OF D(5), of j k] j assms(2) D(6,7) by simp
  with j show ?thesis by simp
qed

lemma inlineHook_cases:
  assumes inv: "hook_inv s" and few: "few_threads os"
  shows "case hook_abs s t of
      None \<Rightarrow> inlineHook os t s = Some (ELE7EN_ERROR_NOT_REGISTERED, s)
    | Some (n, st) \<Rightarrow> if st = HOOKED then inlineHook os t s = Some (ELE7EN_ERROR_ALREADY_HOOKED, s)
        else (\<exists>k s'. find_slot t (live s) 0 = Some k \<and> k < info_size s \<and>
               inlineHook os t s = Some (ELE7EN_OK, s') \<and> hook_inv s' \<and>
               hook_abs s' = (hook_abs s)(t \<mapsto> (n, HOOKED)) \<and>
               item s' = (item s)[k := (item s ! k)\<lparr>status := HOOKED\<rparr>] \<and> info_size s' = info_size s \<and>
               pmem s' = hooked_mem (item s ! k) (pmem s))"
proof (rule hook_lookup_cases [OF inv, of t])
  assume "find_slot t (live s) 0 = None" "hook_abs s t = None"
  then show ?thesis by (simp add: inlineHook_def live_def [symmetric])
next
  fix k
  let ?it = "item s ! k"
  assume k: "find_slot t (live s) 0 = Some k" "k < info_size s" "k < length (item s)" "target_addr ?it = t"
    "hook_abs s t = Some (new_addr ?it, status ?it)" "live_ok ?it"
  show ?thesis
  proof (cases "status ?it = HOOKED")
    case True
    with k show ?thesis by (simp add: inlineHook_def live_def [symmetric] HOOKED_def REGISTERED_def)
  next
    case False
    then have st: "status ?it = REGISTERED" using k(6) by (simp add: live_ok_def)
    obtain pid s1 where fr: "freeze os (Some k) ACTION_ENABLE s = Some (pid, s1)" "only_pcs s s1"
      using freeze_total [OF inv _ few, of "Some k" ACTION_ENABLE] k(2) by auto
    note o = only_pcs_simps [OF fr(2)]
    have inv1: "hook_inv s1" by (rule hook_inv_only_pcs [OF inv fr(2)])
    obtain s2 where s2: "doInlineHook k s1 = Some s2" "item s2 = (item s1)[k := (item s1 ! k)\<lparr>status := HOOKED\<rparr>]"
        "info_size s2 = info_size s1" "pmem s2 = hooked_mem (item s1 ! k) (pmem s1)"
      by (rule doInlineHook_spec [OF inv1, of k]) (use k o in auto)
    note h = doInlineHook_inv [OF inv1 _ s2(1)]
    have abs1: "hook_abs s1 = hook_abs s" by (rule hook_abs_frame) (use o in auto)
    have "hook_inv (unFreeze pid s2)" by (rule hook_inv_frame [OF h(1)]) (use k o in auto)
    moreover have "hook_abs (unFreeze pid s2) = hook_abs s2" by (rule hook_abs_frame) simp_all
    ultimately show ?thesis
      using k st fr s2 h(2) o abs1
      by (auto simp: inlineHook_def live_def [symmetric] HOOKED_def REGISTERED_def)
  qed
qed

lemma inlineUnHook_cases:
  assumes inv: "hook_inv s" and few: "few_threads os"
  shows "case hook_abs s t of
      Some (n, st) \<Rightarrow> if st = HOOKED
        then (\<exists>k s'. find_slot t (live s) 0 = Some k \<and> k < info_size s \<and>
               inlineUnHook os t s = Some (ELE7EN_OK, s') \<and> hook_inv s' \<and>
               hook_abs s' = (hook_abs s)(t := None) \<and>
               pmem s' = store_bytes (pmem s) (CLEAR_BIT0 t) (orig_instructions (item s ! k)))
        else inlineUnHook os t s = Some (ELE7EN_ERROR_NOT_HOOKED, s)
    | None \<Rightarrow> inlineUnHook os t s = Some (ELE7EN_ERROR_NOT_HOOKED, s)"
proof (rule hook_lookup_cases [OF inv, of t])
  assume "find_slot t (live s) 0 = None" "hook_abs s t = None"
  then show ?thesis
    using find_hooked_eq [OF hook_invD(5) [OF inv], of t 0] by (simp add: inlineUnHook_def live_def [symmetric])
next
  fix k
  let ?it = "item s ! k"
  assume k: "find_slot t (live s) 0 = Some k" "k < info_size s" "k < length (item s)" "target_addr ?it = t"
    "hook_abs s t = Some (new_addr ?it, status ?it)" "live_ok ?it"
  have fh: "find_hooked t (live s) 0 = (if status ?it = HOOKED then Some k else None)"
    using find_hooked_eq [OF hook_invD(5) [OF inv], of t 0] k hook_invD(7) [OF inv k(2)] by simp
  show ?thesis
  proof (cases "status ?it = HOOKED")
    case False
    with k fh show ?thesis by (simp add: inlineUnHook_def live_def [symmetric])
  next
    case True
    obtain pid s1 where fr: "freeze os (Some k) ACTION_DISABLE s = Some (pid, s1)" "only_pcs s s1"
      using freeze_total [OF inv _ few, of "Some k" ACTION_DISABLE] k(2) by auto
    note o = only_pcs_simps [OF fr(2)]
    have inv1: "hook_inv s1" by (rule hook_inv_only_pcs [OF inv fr(2)])
    have abs1: "hook_abs s1 = hook_abs s" by (rule hook_abs_frame) (use o in auto)
    obtain s2 where s2: "doInlineUnHook k s1 = Some s2" "hook_inv s2"
        "hook_abs s2 = (hook_abs s1)(target_addr (item s1 ! k) := None)"
        "pmem s2 = store_bytes (pmem s1) (CLEAR_BIT0 (target_addr (item s1 ! k))) (orig_instructions (item s1 ! k))"
      by (rule doInlineUnHook_spec [OF inv1, of k]) (use k o in auto)
    have "hook_inv (unFreeze pid s2)" by (rule hook_inv_frame [OF s2(2)]) simp_all
    moreover have "hook_abs (unFreeze pid s2) = hook_abs s2" by (rule hook_abs_frame) simp_all
    ultimately show ?thesis
      using k True fh fr s2 o abs1
      by (auto simp: inlineUnHook_def live_def [symmetric])
  qed
qed

section \<open>The contract of the hook service\<close>

text \<open>
  What a client may rely on, over an abstract view that maps an address to its replacement and
  status: the three operations and the answers they give in each situation.
\<close>

locale hook_service =
  fixes inv :: "'s \<Rightarrow> bool" and view :: "'s \<Rightarrow> u32 \<rightharpoonup> u32 \<times> int"
    and reg :: "u32 \<Rightarrow> u32 \<Rightarrow> 's \<Rightarrow> (ele7en_status \<times> 's) option"
    and hook :: "u32 \<Rightarrow> 's \<Rightarrow> (ele7en_status \<times> 's) option"
    and unhook :: "u32 \<Rightarrow> 's \<Rightarrow> (ele7en_status \<times> 's) option"
  assumes reg_OK: "inv s \<Longrightarrow> reg t n s = Some (ELE7EN_OK, s') \<Longrightarrow>
      view s t = None \<and> inv s' \<and> view s' = (view s)(t \<mapsto> (n, REGISTERED))"
    and hook_unknown: "inv s \<Longrightarrow> view s t = None \<Longrightarrow> hook t s = Some (ELE7EN_ERROR_NOT_REGISTERED, s)"
    and hook_hooked: "inv s \<Longrightarrow> view s t = Some (n, HOOKED) \<Longrightarrow> hook t s = Some (ELE7EN_ERROR_ALREADY_HOOKED, s)"
    and hook_registered: "inv s \<Longrightarrow> view s t = Some (n, REGISTERED) \<Longrightarrow>
      \<exists>s'. hook t s = Some (ELE7EN_OK, s') \<and> inv s' \<and> view s' = (view s)(t \<mapsto> (n, HOOKED))"
    and unhook_other: "inv s \<Longrightarrow> (\<forall>n. view s t \<noteq> Some (n, HOOKED)) \<Longrightarrow>
      unhook t s = Some (ELE7EN_ERROR_NOT_HOOKED, s)"
    and unhook_hooked: "inv s \<Longrightarrow> view s t = Some (n, HOOKED) \<Longrightarrow>
      \<exists>s'. unhook t s = Some (ELE7EN_OK, s') \<and> inv s' \<and> view s' = (view s)(t := None)"
begin

lemma lifecycle:
  assumes "inv s" "reg t n s = Some (ELE7EN_OK, s1)"
  obtains s2 s3 where "hook t s1 = Some (ELE7EN_OK, s2)" "view s2 t = Some (n, HOOKED)"
    "hook t s2 = Some (ELE7EN_ERROR_ALREADY_HOOKED, s2)"
    "unhook t s2 = Some (ELE7EN_OK, s3)" "inv s3" "view s3 = view s"
    "unhook t s3 = Some (ELE7EN_ERROR_NOT_HOOKED, s3)" "hook t s3 = Some (ELE7EN_ERROR_NOT_REGISTERED, s3)"
proof -
  from reg_OK [OF assms] have 1: "view s t = None" "inv s1" "view s1 = (view s)(t \<mapsto> (n, REGISTERED))" by auto
  then obtain s2 where 2: "hook t s1 = Some (ELE7EN_OK, s2)" "inv s2" "view s2 = (view s1)(t \<mapsto> (n, HOOKED))"
    using hook_registered [of s1 t n] by auto
  then obtain s3 where 3: "unhook t s2 = Some (ELE7EN_OK, s3)" "inv s3" "view s3 = (view s2)(t := None)"
    using unhook_hooked [of s2 t n] by auto
  have same: "view s3 = view s" using 1 2 3 by (auto simp: fun_eq_iff)
  with 1 2 3 show thesis
    by (intro that [of s2 s3]) (auto intro: hook_hooked unhook_other hook_unknown)
qed

lemma unhook_registered_only:
  assumes "inv s" "reg t n s = Some (ELE7EN_OK, s1)"
  shows "unhook t s1 = Some (ELE7EN_ERROR_NOT_HOOKED, s1)"
  using reg_OK [OF assms] by (intro unhook_other) (auto simp: HOOKED_def REGISTERED_def)

lemma other_address:
  assumes "inv s" "view s t = Some (n, REGISTERED)" "hook t s = Some (r, s')" "u \<noteq> t"
  shows "view s' u = view s u"
  using hook_registered [OF assms(1,2)] assms(3,4) by auto

end

definition on_os :: "(os \<Rightarrow> hook_state \<Rightarrow> (ele7en_status \<times> hook_state) option) \<Rightarrow>
    os \<times> hook_state \<Rightarrow> (ele7en_status \<times> os \<times> hook_state) option" where
  "on_os f x = map_option (\<lambda>(r, s). (r, fst x, s)) (f (fst x) (snd x))"

interpretation hs: hook_service "\<lambda>x. hook_inv (snd x) \<and> few_threads (fst x)" "\<lambda>x. hook_abs (snd x)"
  "\<lambda>t n. on_os (\<lambda>os. registerInlineHook os t n p)" "\<lambda>t. on_os (\<lambda>os. inlineHook os t)" "\<lambda>t. on_os (\<lambda>os. inlineUnHook os t)"
proof (unfold_locales, goal_cases)
  case (1 s t n s')
  then have r: "hook_inv (snd s)" "registerInlineHook (fst s) t n p (snd s) = Some (ELE7EN_OK, snd s')" "fst s' = fst s"
    by (auto simp: on_os_def)
  show ?case
    by (rule registerInlineHook_OK [OF r(1,2)]) (use 1 r(3) in simp)
next
  case (2 s t)
  then show ?case using inlineHook_cases [of "snd s" "fst s" t] by (auto simp: on_os_def)
next
  case (3 s t n)
  then show ?case using inlineHook_cases [of "snd s" "fst s" t] by (auto simp: on_os_def)
next
  case (4 s t n)
  then show ?case
    using inlineHook_cases [of "snd s" "fst s" t] by (auto simp: on_os_def HOOKED_def REGISTERED_def)
next
  case (5 s t)
  then show ?case
    using inlineUnHook_cases [of "snd s" "fst s" t] by (auto simp: on_os_def split: option.splits if_splits)
next
  case (6 s t n)
  then show ?case using inlineUnHook_cases [of "snd s" "fst s" t] by (auto simp: on_os_def)
qed


section \<open>Hooking and unhooking everything\<close>

abbreviation set_hooked :: "inlineHookItem \<Rightarrow> inlineHookItem" where
  "set_hooked it \<equiv> it\<lparr>status := HOOKED\<rparr>"

definition registered_items :: "inlineHookItem list \<Rightarrow> inlineHookItem list" where
  "registered_items its = filter (\<lambda>it. status it = REGISTERED) its"

lemma set_hooked_id: "live_ok it \<Longrightarrow> status it \<noteq> REGISTERED \<Longrightarrow> set_hooked it = it"
  by (cases it) (auto simp: live_ok_def)

lemma hook_loop_spec:
  "hook_inv s \<Longrightarrow> i + k \<le> info_size s \<Longrightarrow>
   \<exists>s'. hook_loop i k s = Some s' \<and> hook_inv s' \<and> info_size s' = info_size s \<and>
     item s' = take i (item s) @ map set_hooked (take k (drop i (item s))) @ drop (i + k) (item s) \<and>
     pmem s' = fold hooked_mem (registered_items (take k (drop i (item s)))) (pmem s)"
proof (induction k arbitrary: i s)
  case 0
  then show ?case by (auto simp: registered_items_def)
next
  case (Suc k)
  note D = hook_invD [OF Suc.prems(1)]
  let ?it = "item s ! i"
  have i: "i < info_size s" "i < length (item s)" using Suc.prems(2) D by auto
  obtain s1 where s1: "(if status ?it = REGISTERED then doInlineHook i s else Some s) = Some s1"
    "hook_inv s1" "info_size s1 = info_size s" "item s1 = (item s)[i := set_hooked ?it]"
    "pmem s1 = fold hooked_mem (registered_items [?it]) (pmem s)"
  proof (cases "status ?it = REGISTERED")
    case True
    obtain t where t: "doInlineHook i s = Some t" "item t = (item s)[i := set_hooked ?it]"
        "info_size t = info_size s" "pmem t = hooked_mem ?it (pmem s)"
      by (rule doInlineHook_spec [OF Suc.prems(1) i(1)]) auto
    with doInlineHook_inv(1) [OF Suc.prems(1) i(1) t(1)] True show ?thesis
      by (intro that [of t]) (simp_all add: registered_items_def)
  next
    case False
    with set_hooked_id [OF D(4) [OF i(1)]] Suc.prems(1) show ?thesis
      by (intro that [of s]) (simp_all add: registered_items_def)
  qed
  have d: "drop (Suc i) (item s1) = drop (Suc i) (item s)" "drop (Suc (i + k)) (item s1) = drop (Suc (i + k)) (item s)"
    by (simp_all add: s1(4))
  have t: "take (Suc i) (item s1) = take i (item s) @ [set_hooked ?it]"
    using i by (simp add: s1(4) take_Suc_conv_app_nth)
  have c: "take (Suc k) (drop i (item s)) = ?it # take k (drop (Suc i) (item s))"
    using i by (simp add: Cons_nth_drop_Suc [symmetric])
  from Suc.IH [OF s1(2), of "Suc i"] Suc.prems(2) s1(3)
  obtain s' where s': "hook_loop (Suc i) k s1 = Some s'" "hook_inv s'" "info_size s' = info_size s"
     "item s' = take (Suc i) (item s1) @ map set_hooked (take k (drop (Suc i) (item s1))) @ drop (Suc i + k) (item s1)"
     "pmem s' = fold hooked_mem (registered_items (take k (drop (Suc i) (item s1)))) (pmem s1)"
    by auto
  have "hook_loop i (Suc k) s = Some s'" using i s1(1) s'(1) by simp
  with s' show ?case
    by (simp add: d t c s1(5) registered_items_def del: fold_simps(2))
qed

lemma map_of_relabel:
  "map_of (map (\<lambda>it. (f it, g it, h)) its) a = map_option (\<lambda>(n, st). (n, h)) (map_of (map (\<lambda>it. (f it, g it, k it)) its) a)"
  by (induction its) auto

text \<open>(C22) \<open>inlineHookAll\<close> completes for every table in its invariant and leaves every entry hooked
  with its replacement unchanged; the memory is the one after the jumps of the entries that were
  only registered have been stored in table order.\<close>

theorem inlineHookAll_hooks_all:
  assumes "hook_inv s" "few_threads os"
  shows "\<exists>s'. inlineHookAll os s = Some s' \<and> hook_inv s' \<and>
     (\<forall>a. hook_abs s' a = map_option (\<lambda>(n, st). (n, HOOKED)) (hook_abs s a)) \<and>
     pmem s' = fold hooked_mem (registered_items (live s)) (pmem s)"
proof -
  obtain pid s1 where fr: "freeze os None ACTION_ENABLE s = Some (pid, s1)" "only_pcs s s1"
    using freeze_total [OF assms(1) _ assms(2), of None ACTION_ENABLE] by auto
  note o = only_pcs_simps [OF fr(2)]
  have inv1: "hook_inv s1" by (rule hook_inv_only_pcs [OF assms(1) fr(2)])
  from hook_loop_spec [OF inv1, of 0 "info_size s1"] obtain s2 where s2: "hook_loop 0 (info_size s1) s1 = Some s2"
    "hook_inv s2" "info_size s2 = info_size s" "take (info_size s) (item s2) = map set_hooked (live s)"
    "pmem s2 = fold hooked_mem (registered_items (live s)) (pmem s)"
    using o hook_invD(1,2) [OF assms(1)] by (auto simp: live_def)
  have "hook_abs s2 a = map_option (\<lambda>(n, st). (n, HOOKED)) (hook_abs s a)" for a
    using s2(3,4) map_of_relabel [of target_addr new_addr HOOKED "live s" a status]
    by (simp add: hook_abs_def live_def comp_def)
  moreover have "hook_inv (unFreeze pid s2)" by (rule hook_inv_frame [OF s2(2)]) simp_all
  moreover have "hook_abs (unFreeze pid s2) = hook_abs s2" by (rule hook_abs_frame) simp_all
  ultimately show ?thesis using fr s2 by (auto simp: inlineHookAll_def)
qed

text \<open>The bytes a hook may overwrite.\<close>

definition in_target :: "inlineHookItem \<Rightarrow> u32 \<Rightarrow> bool" where
  "in_target it x \<longleftrightarrow> unat (x - CLEAR_BIT0 (target_addr it)) < item_length it"

definition hooked_items :: "inlineHookItem list \<Rightarrow> inlineHookItem set" where
  "hooked_items its = {it \<in> set its. status it = HOOKED}"

lemma live_ok_length: "live_ok it \<Longrightarrow> length (orig_instructions it) = item_length it \<and> item_length it \<le> 12"
  by (auto simp: live_ok_def)

lemma mset_drop_delete:
  assumes "mset (take n xs) = add_mset x (mset (take m (xs[i := y])))" "i \<le> n" "i \<le> m"
  shows "mset (drop i (take n xs)) = add_mset x (mset (drop i (take m (xs[i := y]))))"
proof -
  have split: "mset zs = mset (take i zs) + mset (drop i zs)" for zs :: "'a list"
    by (metis append_take_drop_id mset_append)
  have "take i (take n xs) = take i (take m (xs[i := y]))" using assms(2,3) by (simp add: min_def)
  with assms(1) split [of "take n xs"] split [of "take m (xs[i := y])"] show ?thesis by simp
qed

lemma unhook_loop_step:
  "hook_inv s \<Longrightarrow> i < info_size s \<Longrightarrow> unhook_loop i s =
     (if status (item s ! i) = HOOKED
      then (case doInlineUnHook i s of None \<Rightarrow> None | Some s' \<Rightarrow> unhook_loop i s')
      else unhook_loop (Suc i) s)"
  using hook_invD(1,2) [of s] by (subst unhook_loop.simps) simp

lemma unhook_loop_stop: "info_size s \<le> i \<Longrightarrow> unhook_loop i s = Some s"
  by (subst unhook_loop.simps) simp

definition loop_result :: "nat \<Rightarrow> hook_state \<Rightarrow> hook_state \<Rightarrow> bool" where
  "loop_result i s s' \<longleftrightarrow> hook_inv s' \<and>
     hook_abs s' = (\<lambda>a. if a \<in> target_addr ` hooked_items (drop i (live s)) then None else hook_abs s a) \<and>
     (\<forall>x. (\<forall>it \<in> hooked_items (drop i (live s)). \<not> in_target it x) \<longrightarrow> pmem s' x = pmem s x) \<and>
     (\<forall>it \<in> hooked_items (drop i (live s)). \<forall>x. in_target it x \<longrightarrow>
        (\<forall>it' \<in> hooked_items (drop i (live s)). in_target it' x \<longrightarrow> it' = it) \<longrightarrow>
        pmem s' x = orig_instructions it ! unat (x - CLEAR_BIT0 (target_addr it)))"

lemma loop_resultD:
  assumes "loop_result i s s'"
  shows "hook_inv s'"
    "hook_abs s' = (\<lambda>a. if a \<in> target_addr ` hooked_items (drop i (live s)) then None else hook_abs s a)"
    "(\<And>it. it \<in> hooked_items (drop i (live s)) \<Longrightarrow> \<not> in_target it x) \<Longrightarrow> pmem s' x = pmem s x"
    "it \<in> hooked_items (drop i (live s)) \<Longrightarrow> in_target it x \<Longrightarrow>
     (\<And>it'. it' \<in> hooked_items (drop i (live s)) \<Longrightarrow> in_target it' x \<Longrightarrow> it' = it) \<Longrightarrow>
     pmem s' x = orig_instructions it ! unat (x - CLEAR_BIT0 (target_addr it))"
  using assms unfolding loop_result_def by blast+

lemma loop_result_skip:
  assumes "hook_inv s" "i < info_size s" "status (item s ! i) \<noteq> HOOKED" "loop_result (Suc i) s s'"
  shows "loop_result i s s'"
proof -
  have "drop i (live s) = item s ! i # drop (Suc i) (live s)"
    using hook_invD(6,7) [OF assms(1)] assms(2) by (metis Cons_nth_drop_Suc)
  then have eq: "hooked_items (drop i (live s)) = hooked_items (drop (Suc i) (live s))"
    using assms(3) by (auto simp: hooked_items_def)
  show ?thesis using assms(4) unfolding loop_result_def eq .
qed

lemma loop_result_unhook:
  assumes inv: "hook_inv s" and i: "i < info_size s" "status (item s ! i) = HOOKED"
    and s1: "doInlineUnHook i s = Some s1" and r: "loop_result i s1 s'"
  shows "loop_result i s s'"
proof -
  let ?it = "item s ! i"
  note D = hook_invD [OF inv]
  obtain inv1: "hook_inv s1" and abs1: "hook_abs s1 = (hook_abs s)(target_addr ?it := None)"
    and tab: "info_size s1 = info_size s - 1" "item s1 = (item s)[i := item s ! (info_size s - 1)]"
    and m: "mset (live s) = add_mset ?it (mset (live s1))"
    and mem1: "pmem s1 = store_bytes (pmem s) (CLEAR_BIT0 (target_addr ?it)) (orig_instructions ?it)"
    by (rule doInlineUnHook_spec [OF inv i(1)]) (use s1 in auto)
  have "mset (drop i (live s)) = add_mset ?it (mset (drop i (live s1)))"
    using mset_drop_delete [of "info_size s" "item s" ?it "info_size s1" i "item s ! (info_size s - 1)"] m i tab
    by (simp add: live_def)
  then have "set (drop i (live s)) = insert ?it (set (drop i (live s1)))"
    by (metis set_mset_add_mset_insert set_mset_mset)
  then have H: "hooked_items (drop i (live s)) = insert ?it (hooked_items (drop i (live s1)))"
    using i(2) by (auto simp: hooked_items_def)
  have len: "length (orig_instructions ?it) = item_length ?it" "item_length ?it \<le> 2 ^ 32"
    using live_ok_length [OF D(4) [OF i(1)]] by auto
  have at: "pmem s1 x = (if in_target ?it x then orig_instructions ?it ! unat (x - CLEAR_BIT0 (target_addr ?it)) else pmem s x)" for x
    using len by (simp add: mem1 store_bytes_apply in_target_def)
  have "?it \<notin> set (drop i (live s1))"
  proof
    assume "?it \<in> set (drop i (live s1))"
    then have "?it \<in> set (live s1)" by (rule in_set_dropD)
    moreover have "hook_abs s1 (target_addr ?it) = None" by (simp add: abs1)
    ultimately show False by (auto simp: hook_abs_eq_None)
  qed
  then have new: "?it \<notin> hooked_items (drop i (live s1))" by (simp add: hooked_items_def)
  show ?thesis
    unfolding loop_result_def
  proof (intro conjI ballI allI impI)
    show "hook_inv s'" by (rule loop_resultD(1) [OF r])
    show "hook_abs s' = (\<lambda>a. if a \<in> target_addr ` hooked_items (drop i (live s)) then None else hook_abs s a)"
      unfolding loop_resultD(2) [OF r] H abs1 by (auto simp: fun_eq_iff)
  next
    fix x
    assume out: "\<forall>it \<in> hooked_items (drop i (live s)). \<not> in_target it x"
    then have "pmem s' x = pmem s1 x" by (intro loop_resultD(3) [OF r]) (simp add: H)
    also have "\<dots> = pmem s x" using out by (simp add: at H)
    finally show "pmem s' x = pmem s x" .
  next
    fix it x
    assume it: "it \<in> hooked_items (drop i (live s))" "in_target it x"
      and only: "\<forall>it' \<in> hooked_items (drop i (live s)). in_target it' x \<longrightarrow> it' = it"
    show "pmem s' x = orig_instructions it ! unat (x - CLEAR_BIT0 (target_addr it))"
    proof (cases "it = ?it")
      case True
      have "pmem s' x = pmem s1 x"
        by (rule loop_resultD(3) [OF r]) (use only new True H in blast)
      with it True show ?thesis by (simp add: at)
    next
      case False
      show ?thesis
        by (rule loop_resultD(4) [OF r]) (use it only False H in blast)+
    qed
  qed
qed

lemma unhook_loop_result: "hook_inv s \<Longrightarrow> \<exists>s'. unhook_loop i s = Some s' \<and> loop_result i s s'"
proof (induction i s rule: unhook_loop.induct)
  case (1 i s)
  note D = hook_invD [OF "1.prems"]
  show ?case
  proof (cases "i < info_size s")
    case False
    then have "drop i (live s) = []" using D(6) by simp
    with False "1.prems" show ?thesis
      by (simp add: unhook_loop_stop loop_result_def hooked_items_def)
  next
    case True
    then have it: "aget (item s) i = Some (item s ! i)" using D by simp
    show ?thesis
    proof (cases "status (item s ! i) = HOOKED")
      case hk: True
      obtain s1 where s1: "doInlineUnHook i s = Some s1" "hook_inv s1"
        by (rule doInlineUnHook_spec [OF "1.prems" True]) auto
      from "1.IH"(1) [OF True it hk s1(1,2)] obtain s' where
        "unhook_loop i s1 = Some s'" "loop_result i s1 s'" by auto
      with loop_result_unhook [OF "1.prems" True hk s1(1)] show ?thesis
        using unhook_loop_step [OF "1.prems" True] hk s1 by auto
    next
      case False
      from "1.IH"(2) [OF True it False "1.prems"] obtain s' where
        "unhook_loop (Suc i) s = Some s'" "loop_result (Suc i) s s'" by auto
      with loop_result_skip [OF "1.prems" True False] show ?thesis
        using unhook_loop_step [OF "1.prems" True] False by auto
    qed
  qed
qed

text \<open>(C21) \<open>inlineUnHookAll\<close> completes for every table in its invariant.  It removes exactly the hooked
  entries, keeps those that are only registered, restores every byte that belongs to one hooked
  function alone and changes no byte outside the hooked functions.\<close>

theorem inlineUnHookAll_restores:
  assumes "hook_inv s" "few_threads os"
  shows "\<exists>s'. inlineUnHookAll os s = Some s' \<and> hook_inv s' \<and>
     (\<forall>a. hook_abs s' a = (case hook_abs s a of Some (n, st) \<Rightarrow> if st = HOOKED then None else Some (n, st) | None \<Rightarrow> None)) \<and>
     (\<forall>x. (\<forall>it \<in> hooked_items (live s). \<not> in_target it x) \<longrightarrow> pmem s' x = pmem s x) \<and>
     (\<forall>it \<in> hooked_items (live s). \<forall>x. in_target it x \<longrightarrow>
        (\<forall>it' \<in> hooked_items (live s). in_target it' x \<longrightarrow> it' = it) \<longrightarrow>
        pmem s' x = orig_instructions it ! unat (x - CLEAR_BIT0 (target_addr it)))"
proof -
  obtain pid s1 where fr: "freeze os None ACTION_DISABLE s = Some (pid, s1)" "only_pcs s s1"
    using freeze_total [OF assms(1) _ assms(2), of None ACTION_DISABLE] by auto
  note o = only_pcs_simps [OF fr(2)]
  have inv1: "hook_inv s1" by (rule hook_inv_only_pcs [OF assms(1) fr(2)])
  have same: "live s1 = live s" "hook_abs s1 = hook_abs s" using o by (simp_all add: live_def hook_abs_def)
  obtain s2 where s2: "unhook_loop 0 s1 = Some s2" "loop_result 0 s1 s2"
    using unhook_loop_result [OF inv1, of 0] by auto
  note r2 = loop_resultD [OF s2(2), unfolded same drop_0]
  have abs2: "hook_abs s2 a = (case hook_abs s a of Some (n, st) \<Rightarrow> if st = HOOKED then None else Some (n, st) | None \<Rightarrow> None)" for a
  proof (cases "hook_abs s a")
    case None
    then show ?thesis by (simp add: r2(2))
  next
    case (Some v)
    then obtain it where it: "it \<in> set (live s)" "target_addr it = a" "v = (new_addr it, status it)"
      using hook_abs_eq_Some [OF assms(1)] by auto
    have "a \<in> target_addr ` hooked_items (live s) \<longleftrightarrow> status it = HOOKED"
    proof
      assume "a \<in> target_addr ` hooked_items (live s)"
      then obtain it' where it': "it' \<in> set (live s)" "status it' = HOOKED" "target_addr it' = a"
        by (auto simp: hooked_items_def)
      then have "hook_abs s a = Some (new_addr it', status it')"
        using hook_abs_eq_Some [OF assms(1)] by blast
      with Some it it' show "status it = HOOKED" by simp
    next
      assume "status it = HOOKED"
      with it show "a \<in> target_addr ` hooked_items (live s)" by (auto simp: hooked_items_def)
    qed
    with Some it show ?thesis by (simp add: r2(2))
  qed
  have "hook_inv (unFreeze pid s2)" by (rule hook_inv_frame [OF r2(1)]) simp_all
  moreover have "hook_abs (unFreeze pid s2) = hook_abs s2" by (rule hook_abs_frame) simp_all
  moreover have "inlineUnHookAll os s = Some (unFreeze pid s2)"
    using fr(1) s2(1) by (simp add: inlineUnHookAll_def)
  moreover have "\<forall>x. (\<forall>it \<in> hooked_items (live s). \<not> in_target it x) \<longrightarrow> pmem (unFreeze pid s2) x = pmem s x"
    using r2(3) o by simp
  moreover have "\<forall>it \<in> hooked_items (live s). \<forall>x. in_target it x \<longrightarrow>
        (\<forall>it' \<in> hooked_items (live s). in_target it' x \<longrightarrow> it' = it) \<longrightarrow>
        pmem (unFreeze pid s2) x = orig_instructions it ! unat (x - CLEAR_BIT0 (target_addr it))"
    unfolding unFreeze_frame using r2(4) by blast
  ultimately show ?thesis
    by (metis (no_types, lifting) abs2)
qed


section \<open>Registration and the room in the boundary tables\<close>

text \<open>The number of instructions the relocator finds in its window at \<open>t\<close>.\<close>

definition insn_count :: "mem \<Rightarrow> u32 \<Rightarrow> nat" where
  "insn_count m t =
     (if TEST_BIT0 t then length (thumb_code m (halfwords (load_bytes m (CLEAR_BIT0 t) 12)) 6 0 (t - 1 + 4)) else 2)"

lemma relocateInstruction_room:
  assumes "length orig = len" "len = (if TEST_BIT0 t then 12 else 8)"
    "orig = load_bytes m (CLEAR_BIT0 t) len"
  shows "relocateInstruction m t orig len ob tb cnt = None \<longleftrightarrow>
     \<not> (cnt + insn_count m t \<le> length ob \<and> cnt + insn_count m t \<le> length tb)"
    and "relocateInstruction m t orig len ob tb cnt = Some (code, ob', tb', cnt') \<Longrightarrow>
     cnt' = cnt + insn_count m t \<and> length code \<le> 28 * insn_count m t + 8"
proof -
  show "relocateInstruction m t orig len ob tb cnt = None \<longleftrightarrow>
     \<not> (cnt + insn_count m t \<le> length ob \<and> cnt + insn_count m t \<le> length tb)"
    using assms by (auto simp: relocateInstruction_def relocateArm_with_code relocateInstructionInThumb_def
        thumb_loop_code with_code_def insn_count_def TEST_BIT0_def Let_def split: if_splits)
  assume r: "relocateInstruction m t orig len ob tb cnt = Some (code, ob', tb', cnt')"
  show "cnt' = cnt + insn_count m t \<and> length code \<le> 28 * insn_count m t + 8"
  proof (cases "TEST_BIT0 t")
    case True
    let ?L = "thumb_code m (halfwords orig) 6 0 (t - 1 + 4)"
    have "length (concat (map snd ?L)) \<le> length (map snd ?L) * 14"
      by (rule length_concat_le) (use thumb_code_chunks [of _ m "halfwords orig" 6 0 "t - 1 + 4"] in auto)
    with True r assms show ?thesis
      by (auto simp: relocateInstruction_def relocateInstructionInThumb_def thumb_loop_code with_code_def
          insn_count_def TEST_BIT0_def Let_def bind_eq_Some_conv split: if_splits)
  next
    case False
    let ?L = "arm_code m (fullwords orig) 2 0 (t + 8)"
    have "length (concat (map snd ?L)) \<le> length (map snd ?L) * 6"
      by (rule length_concat_le) (use arm_code_chunks [of _ m "fullwords orig" 2 0 "t + 8"] in auto)
    with False r assms show ?thesis
      by (auto simp: relocateInstruction_def relocateArm_with_code with_code_def
          insn_count_def TEST_BIT0_def Let_def bind_eq_Some_conv simp del: arm_code.simps split: if_splits)
  qed
qed

lemma fill_item_room:
  assumes "item_ok it"
  shows "(\<exists>x. fill_item t n p page m it = Some x) \<longleftrightarrow> item_count it + insn_count m t \<le> 4"
    and "fill_item t n p page m it = Some (it', m') \<Longrightarrow> item_count it' = item_count it + insn_count m t"
proof -
  let ?len = "if TEST_BIT0 t then 12 else 8 :: nat"
  let ?r = "relocateInstruction m t (load_bytes m (CLEAR_BIT0 t) ?len) ?len (item_orig_boundaries it)
      (item_trampoline_boundaries it) (item_count it)"
  note room = relocateInstruction_room [of _ ?len t m, OF _ refl refl]
  have none: "?r = None \<longleftrightarrow> \<not> item_count it + insn_count m t \<le> 4"
    using assms by (subst room(1)) (auto simp: item_ok_def)
  have small: "length code \<le> 120" "cnt = item_count it + insn_count m t" if "?r = Some (code, ob, tb, cnt)" for code ob tb cnt
  proof -
    have "item_count it + insn_count m t \<le> 4" using none that by simp
    then show "length code \<le> 120" "cnt = item_count it + insn_count m t" using room(2) [OF _ that] by auto
  qed
  show "(\<exists>x. fill_item t n p page m it = Some x) \<longleftrightarrow> item_count it + insn_count m t \<le> 4"
  proof (cases ?r)
    case None
    then show ?thesis using none by (simp add: fill_item_def Let_def)
  next
    case (Some v)
    obtain code ob tb cnt where v: "v = (code, ob, tb, cnt)" by (cases v) auto
    then show ?thesis
      using Some none small [of code ob tb cnt] by (simp add: fill_item_def Let_def PAGE_SIZE_def)
  qed
  show "fill_item t n p page m it = Some (it', m') \<Longrightarrow> item_count it' = item_count it + insn_count m t"
    using small by (auto simp: fill_item_def Let_def bind_eq_Some_conv split: if_splits)
qed

definition can_register :: "os \<Rightarrow> u32 \<Rightarrow> u32 \<Rightarrow> hook_state \<Rightarrow> bool" where
  "can_register os t n s \<longleftrightarrow> isExecutableAddr os t \<and> isExecutableAddr os n \<and> hook_abs s t = None \<and>
     info_size s < 1024 \<and> os_malloc os \<and> os_mmap os \<noteq> None"

lemma registerInlineHook_fill:
  assumes "hook_inv s" "can_register os t n s" "os_mmap os = Some page"
  shows "registerInlineHook os t n p s =
     (case fill_item t n p page (pmem s) (item s ! info_size s) of
        None \<Rightarrow> None
      | Some (it, m') \<Rightarrow> Some (ELE7EN_OK, s\<lparr>info_size := info_size s + 1, item := (item s)[info_size s := it], pmem := m'\<rparr>))"
proof (rule hook_lookup_cases [OF assms(1), of t])
  assume "find_slot t (live s) 0 = None"
  with assms hook_invD(1) [OF assms(1)] show ?thesis
    by (auto simp: registerInlineHook_def can_register_def findInlineHookItem_def live_def [symmetric]
        addInlineHookItem_def split: option.splits bind_splits)
next
  fix k
  assume "hook_abs s t = Some (new_addr (item s ! k), status (item s ! k))"
  with assms show ?thesis by (simp add: can_register_def)
qed

text \<open>(C31) A new address is registered exactly when the counter its slot inherited and the
  instructions of the overwritten window fit the four entries of \<open>orig_boundaries\<close>; in every
  other case the relocator writes behind the array.  ARM code needs two entries, Thumb code up
  to six.\<close>

theorem registerInlineHook_room:
  assumes "hook_inv s" "can_register os t n s"
  shows "(\<exists>s'. registerInlineHook os t n p s = Some (ELE7EN_OK, s')) \<longleftrightarrow>
         item_count (item s ! info_size s) + insn_count (pmem s) t \<le> 4"
    (is "_ \<longleftrightarrow> ?room")
proof -
  obtain page where page: "os_mmap os = Some page" using assms(2) by (auto simp: can_register_def)
  have "item_ok (item s ! info_size s)"
    using hook_invD(3) [OF assms(1)] assms(2) by (simp add: can_register_def)
  from fill_item_room(1) [OF this, of t n p page "pmem s"]
  show ?thesis by (auto simp: registerInlineHook_fill [OF assms page] split: option.splits)
qed

text \<open>Registering, hooking and unhooking a function leaves its counter behind: the free slot
  that the next registration uses has the instructions of the function added to the counter it
  had before.  After two rounds on an ARM function a third registration no longer fits.\<close>

theorem hook_round_keeps_count:
  assumes inv: "hook_inv s" and few: "few_threads os"
    and r: "registerInlineHook os t n p s = Some (ELE7EN_OK, s1)"
    and h: "inlineHook os t s1 = Some (ELE7EN_OK, s2)"
    and u: "inlineUnHook os t s2 = Some (ELE7EN_OK, s3)"
  shows "info_size s3 = info_size s \<and>
     item_count (item s3 ! info_size s3) = item_count (item s ! info_size s) + insn_count (pmem s) t"
proof -
  obtain page it m' where 1: "fill_item t n p page (pmem s) (item s ! info_size s) = Some (it, m')"
    "info_size s < 1024" "item s1 = (item s)[info_size s := it]" "info_size s1 = info_size s + 1"
    "hook_inv s1" "hook_abs s1 = (hook_abs s)(t \<mapsto> (n, REGISTERED))"
    by (rule registerInlineHook_OK [OF inv r]) blast
  let ?k = "info_size s"
  have ok: "item_ok (item s ! ?k)" "length (item s) = 1024" using hook_invD(1,3) [OF inv] 1(2) by auto
  obtain code where it: "target_addr it = t" by (rule fill_item_ok [OF 1(1) ok(1)]) blast
  have cnt: "item_count it = item_count (item s ! ?k) + insn_count (pmem s) t"
    by (rule fill_item_room(2) [OF ok(1) 1(1)])
  have slot1: "find_slot t (live s1) 0 = Some ?k"
    using find_slot_unique [OF 1(5), of ?k] 1 it ok by simp
  have 2: "item s2 = (item s1)[?k := (item s1 ! ?k)\<lparr>status := HOOKED\<rparr>]" "info_size s2 = info_size s1"
    "hook_inv s2" "hook_abs s2 = (hook_abs s1)(t \<mapsto> (n, HOOKED))"
    using inlineHook_cases [OF 1(5) few, of t] h slot1 1(6) by (auto simp: HOOKED_def REGISTERED_def)
  have item2: "item s2 = (item s)[?k := it\<lparr>status := HOOKED\<rparr>]" using 2(1) 1(3) ok 1(2) by simp
  have slot2: "find_hooked t (live s2) 0 = Some ?k"
    using find_slot_unique [OF 2(3), of ?k] find_hooked_eq [OF hook_invD(5) [OF 2(3)], of t 0]
      hook_invD(7) [OF 2(3), of ?k] 2(2) 1(2,4) item2 it ok by simp
  obtain pid s2' s3' where f: "freeze os (Some ?k) ACTION_DISABLE s2 = Some (pid, s2')" "doInlineUnHook ?k s2' = Some s3'"
      "s3 = unFreeze pid s3'"
    using u slot2 by (auto simp: inlineUnHook_def live_def [symmetric] bind_eq_Some_conv)
  note o = only_pcs_simps [OF freeze_frame [OF f(1)]]
  have inv2': "hook_inv s2'" by (rule hook_inv_only_pcs [OF 2(3) freeze_frame [OF f(1)]])
  have "item s3' = (item s2')[?k := item s2' ! (info_size s2' - 1)]" "info_size s3' = info_size s2' - 1"
    by (rule doInlineUnHook_spec [OF inv2', of ?k]; use f(2) o 2(2) 1(4) in auto)+
  then show ?thesis
    using o f(3) 2(2) 1(2,4) item2 cnt ok by simp
qed


section \<open>Reachable tables\<close>

text \<open>
  The calls of a process that uses the library, the five entry points with any answers of the operating
  system, and everything the rest of the program does to memory and threads.  A call that leaves an
  array, writes through a null pointer or into a failed mapping leads to the state \<open>None\<close>.
\<close>

datatype hook_call =
    Register os u32 u32 u32 | Hook os u32 | UnHook os u32 | HookAll os | UnHookAll os | Program mem "int \<Rightarrow> u32"

fun run_call :: "hook_call \<Rightarrow> hook_state \<Rightarrow> hook_state option" where
  "run_call (Register os t n p) s = map_option snd (registerInlineHook os t n p s)"
| "run_call (Hook os t) s = map_option snd (inlineHook os t s)"
| "run_call (UnHook os t) s = map_option snd (inlineUnHook os t s)"
| "run_call (HookAll os) s = inlineHookAll os s"
| "run_call (UnHookAll os) s = inlineUnHookAll os s"
| "run_call (Program m q) s = Some (s\<lparr>pmem := m, pcs := q\<rparr>)"

inductive hook_step :: "hook_state option \<Rightarrow> hook_state option \<Rightarrow> bool" where
  hook_step_call: "hook_step (Some s) (run_call c s)"

inductive_cases hook_stepE: "hook_step r r'"

text \<open>The calls that are undefined: a registration of a new function when the table is full, memory cannot be obtained, or the
  counter left in the slot and the instructions of the function together exceed the four boundaries; and a call
  that has to stop more than 1024 threads.\<close>

fun call_faults :: "hook_call \<Rightarrow> hook_state \<Rightarrow> bool" where
  "call_faults (Register os t n p) s \<longleftrightarrow> isExecutableAddr os t \<and> isExecutableAddr os n \<and> hook_abs s t = None \<and>
     (info_size s = 1024 \<or> \<not> os_malloc os \<or> os_mmap os = None \<or> 4 < item_count (item s ! info_size s) + insn_count (pmem s) t)"
| "call_faults (Hook os t) s \<longleftrightarrow> \<not> few_threads os \<and> (\<exists>n. hook_abs s t = Some (n, REGISTERED))"
| "call_faults (UnHook os t) s \<longleftrightarrow> \<not> few_threads os \<and> (\<exists>n. hook_abs s t = Some (n, HOOKED))"
| "call_faults (HookAll os) s \<longleftrightarrow> \<not> few_threads os"
| "call_faults (UnHookAll os) s \<longleftrightarrow> \<not> few_threads os"
| "call_faults (Program m q) s \<longleftrightarrow> False"

lemma freeze_few: "freeze os it action s = Some x \<Longrightarrow> few_threads os"
  by (auto simp: freeze_def few_threads_def Let_def split: if_splits)

lemma registerInlineHook_inv:
  assumes "hook_inv s" "registerInlineHook os t n p s = Some (r, s')"
  shows "hook_inv s'"
proof (cases "r = ELE7EN_OK")
  case True
  show ?thesis by (rule registerInlineHook_OK [OF assms(1) assms(2) [unfolded True]])
next
  case False
  with assms show ?thesis
    by (auto simp: registerInlineHook_def bind_eq_Some_conv split: if_splits option.splits prod.splits)
qed

lemma inlineHook_inv:
  assumes "hook_inv s" "inlineHook os t s = Some (r, s')"
  shows "hook_inv s'"
proof (cases "few_threads os")
  case True
  show ?thesis
    using inlineHook_cases [OF assms(1) True, of t] assms by (auto split: option.splits if_splits)
next
  case False
  then have "freeze os it a s = None" for it a using freeze_few by fastforce
  with assms show ?thesis
    by (auto simp: inlineHook_def bind_eq_Some_conv split: option.splits if_splits)
qed

lemma inlineUnHook_inv:
  assumes "hook_inv s" "inlineUnHook os t s = Some (r, s')"
  shows "hook_inv s'"
proof (cases "few_threads os")
  case True
  show ?thesis
    using inlineUnHook_cases [OF assms(1) True, of t] assms by (auto split: option.splits if_splits)
next
  case False
  then have "freeze os it a s = None" for it a using freeze_few by fastforce
  with assms show ?thesis
    by (auto simp: inlineUnHook_def split: option.splits)
qed

lemma inlineHookAll_inv: "hook_inv s \<Longrightarrow> inlineHookAll os s = Some s' \<Longrightarrow> hook_inv s'"
proof -
  assume inv: "hook_inv s" and "inlineHookAll os s = Some s'"
  then obtain pid s1 s2 where s: "freeze os None ACTION_ENABLE s = Some (pid, s1)"
    "hook_loop 0 (info_size s1) s1 = Some s2" "s' = unFreeze pid s2"
    by (auto simp: inlineHookAll_def bind_eq_Some_conv)
  have "hook_inv s1" by (rule hook_inv_only_pcs [OF inv freeze_frame [OF s(1)]])
  with hook_loop_spec [of s1 0 "info_size s1"] s(2) have "hook_inv s2" by auto
  then show "hook_inv s'" by (rule hook_inv_frame) (simp_all add: s(3))
qed

lemma inlineUnHookAll_inv: "hook_inv s \<Longrightarrow> inlineUnHookAll os s = Some s' \<Longrightarrow> hook_inv s'"
proof -
  assume inv: "hook_inv s" and "inlineUnHookAll os s = Some s'"
  then obtain pid s1 s2 where s: "freeze os None ACTION_DISABLE s = Some (pid, s1)"
    "unhook_loop 0 s1 = Some s2" "s' = unFreeze pid s2"
    by (auto simp: inlineUnHookAll_def bind_eq_Some_conv)
  have "hook_inv s1" by (rule hook_inv_only_pcs [OF inv freeze_frame [OF s(1)]])
  with unhook_loop_result [of s1 0] s(2) have "hook_inv s2" by (auto dest: loop_resultD(1))
  then show "hook_inv s'" by (rule hook_inv_frame) (simp_all add: s(3))
qed

lemma run_call_inv: "hook_inv s \<Longrightarrow> run_call c s = Some s' \<Longrightarrow> hook_inv s'"
  by (cases c) (auto intro: registerInlineHook_inv inlineHook_inv inlineUnHook_inv inlineHookAll_inv inlineUnHookAll_inv hook_inv_frame)

lemma freeze_many: "\<not> few_threads os \<Longrightarrow> freeze os it a s = None"
  using freeze_few by fastforce

lemma registerInlineHook_faults:
  assumes inv: "hook_inv s"
  shows "registerInlineHook os t n p s = None \<longleftrightarrow> call_faults (Register os t n p) s"
proof (cases "isExecutableAddr os t \<and> isExecutableAddr os n")
  case exec: True
  show ?thesis
  proof (cases "hook_abs s t")
    case (Some x)
    then show ?thesis using registerInlineHook_known [OF inv, of os t n "fst x" "snd x" p] exec by simp
  next
    case abs: None
    then have f: "findInlineHookItem t s = None"
      using hook_lookup_cases [OF inv, of t] by (simp add: findInlineHookItem_def live_def [symmetric])
    consider "info_size s = 1024 \<or> \<not> os_malloc os \<or> os_mmap os = None" | "can_register os t n s"
      using exec abs hook_invD(2) [OF inv] by (fastforce simp: can_register_def)
    then show ?thesis
    proof cases
      case 1
      then show ?thesis using exec abs f by (auto simp: registerInlineHook_def addInlineHookItem_def)
    next
      case 2
      then obtain page where page: "os_mmap os = Some page" and size: "info_size s < 1024" by (auto simp: can_register_def)
      have "item_ok (item s ! info_size s)" by (rule hook_invD(3) [OF inv size])
      from fill_item_room(1) [OF this, of t n p page "pmem s"] show ?thesis
        using 2 by (auto simp: registerInlineHook_fill [OF inv 2 page] can_register_def not_le split: option.splits)
    qed
  qed
qed (auto simp: registerInlineHook_def)

lemma inlineHook_faults:
  assumes inv: "hook_inv s"
  shows "inlineHook os t s = None \<longleftrightarrow> call_faults (Hook os t) s"
proof (cases "few_threads os")
  case True
  then show ?thesis using inlineHook_cases [OF inv True, of t] by (auto split: option.splits if_splits)
next
  case False
  show ?thesis
    by (rule hook_lookup_cases [OF inv, of t])
      (use False in \<open>auto simp: inlineHook_def live_def [symmetric] freeze_many [OF False] REGISTERED_def HOOKED_def\<close>)
qed

lemma inlineUnHook_faults:
  assumes inv: "hook_inv s"
  shows "inlineUnHook os t s = None \<longleftrightarrow> call_faults (UnHook os t) s"
proof (cases "few_threads os")
  case True
  then show ?thesis using inlineUnHook_cases [OF inv True, of t] by (auto split: option.splits if_splits)
next
  case False
  note eq = find_hooked_eq [OF hook_invD(5) [OF inv], of t 0]
  show ?thesis
    by (rule hook_lookup_cases [OF inv, of t])
      (use False eq hook_invD(7) [OF inv] in \<open>auto simp: inlineUnHook_def live_def [symmetric] freeze_many [OF False]\<close>)
qed

lemma hook_all_faults:
  assumes inv: "hook_inv s"
  shows "inlineHookAll os s = None \<longleftrightarrow> \<not> few_threads os" "inlineUnHookAll os s = None \<longleftrightarrow> \<not> few_threads os"
proof -
  have run: "\<exists>pid s1. freeze os None a s = Some (pid, s1) \<and> hook_inv s1" if "few_threads os" for a
    using freeze_total [OF inv, of None os a] that hook_inv_only_pcs [OF inv] by auto
  have loops: "hook_loop 0 (info_size s1) s1 \<noteq> None" "unhook_loop 0 s1 \<noteq> None" if "hook_inv s1" for s1
    using hook_loop_spec [OF that, of 0 "info_size s1"] unhook_loop_result [OF that, of 0] by auto
  show "inlineHookAll os s = None \<longleftrightarrow> \<not> few_threads os"
  proof (cases "few_threads os")
    case True
    obtain pid s1 where "freeze os None ACTION_ENABLE s = Some (pid, s1)" "hook_inv s1" using run [OF True] by blast
    with loops(1) [of s1] True show ?thesis by (auto simp: inlineHookAll_def)
  qed (simp add: inlineHookAll_def freeze_many)
  show "inlineUnHookAll os s = None \<longleftrightarrow> \<not> few_threads os"
  proof (cases "few_threads os")
    case True
    obtain pid s1 where "freeze os None ACTION_DISABLE s = Some (pid, s1)" "hook_inv s1" using run [OF True] by blast
    with loops(2) [of s1] True show ?thesis by (auto simp: inlineUnHookAll_def)
  qed (simp add: inlineUnHookAll_def freeze_many)
qed

lemma run_call_faults: "hook_inv s \<Longrightarrow> run_call c s = None \<longleftrightarrow> call_faults c s"
  using registerInlineHook_faults inlineHook_faults inlineUnHook_faults hook_all_faults
  by (cases c) (simp_all del: call_faults.simps(1-3))

lemma hook_reachable:
  assumes "hook_step\<^sup>*\<^sup>* r r'" "r = Some s0" "hook_inv s0" "r' = Some s"
  shows "hook_inv s"
  using assms(1,4)
proof (induction arbitrary: s rule: rtranclp_induct)
  case base
  then show ?case using assms(2,3) by simp
next
  case (step r1 r2)
  from step.hyps(2) step.prems obtain s1 c where "r1 = Some s1" "run_call c s1 = Some s" by (auto elim: hook_stepE)
  with step.IH show ?case using run_call_inv by blast
qed

text \<open>(C4) In every state that a process reaches by defined calls, the hook table keeps its invariant: at most 1024 items, no
  address twice, every status one of the two constants, every saved code block of the length its instruction set needs and every
  counter at most four.  From every such state the undefined calls are exactly those of \<open>call_faults\<close>, and a slot is
  handed out exactly when the table is not full.\<close>

theorem hook_reachable_inv:
  assumes "hook_step\<^sup>*\<^sup>* (Some (init_hook_state m q)) (Some s)"
  shows "hook_inv s \<and> (\<forall>c. run_call c s = None \<longleftrightarrow> call_faults c s) \<and>
    addInlineHookItem s = (if info_size s = 1024 then (None, s) else (Some (info_size s), s\<lparr>info_size := info_size s + 1\<rparr>))"
proof -
  have inv: "hook_inv s" by (rule hook_reachable [OF assms refl init_hook_inv refl])
  with hook_invD(2) [OF inv] show ?thesis by (auto simp: run_call_faults addInlineHookItem_def)
qed

section \<open>The life of one hook\<close>

text \<open>(C20) Registering, hooking and unhooking a function: each operation answers
  \<open>ELE7EN_OK\<close>, a second hook is refused as already hooked, a second unhook as not hooked, and
  the table is the one before as far as lookups can tell.\<close>

theorem hook_lifecycle:
  assumes "hook_inv s" "few_threads os" "registerInlineHook os t n p s = Some (ELE7EN_OK, s1)"
  shows "\<exists>s2 s3. inlineHook os t s1 = Some (ELE7EN_OK, s2) \<and> hook_abs s2 t = Some (n, HOOKED) \<and>
     inlineHook os t s2 = Some (ELE7EN_ERROR_ALREADY_HOOKED, s2) \<and>
     inlineUnHook os t s2 = Some (ELE7EN_OK, s3) \<and> hook_inv s3 \<and> hook_abs s3 = hook_abs s \<and>
     inlineUnHook os t s3 = Some (ELE7EN_ERROR_NOT_HOOKED, s3) \<and>
     inlineHook os t s3 = Some (ELE7EN_ERROR_NOT_REGISTERED, s3)"
  by (rule hs.lifecycle [of "(os, s)" t n p "(os, s1)"]) (use assms in \<open>auto simp: on_os_def\<close>)

text \<open>(C5) The same three operations change no byte of memory but those of the trampoline page and of
  the variable that receives the trampoline's address: the code of the function is what it was.\<close>

theorem hook_unhook_restores_memory:
  assumes inv: "hook_inv s" and few: "few_threads os"
    and r: "registerInlineHook os t n p s = Some (ELE7EN_OK, s1)"
    and h: "inlineHook os t s1 = Some (ELE7EN_OK, s2)"
    and u: "inlineUnHook os t s2 = Some (ELE7EN_OK, s3)"
    and page: "os_mmap os = Some page"
    and x: "4096 \<le> unat (x - page)" "p = 0 \<or> 4 \<le> unat (x - p)"
  shows "pmem s3 x = pmem s x"
proof -
  let ?k = "info_size s"
  obtain page' it m' where 1: "os_mmap os = Some page'" "fill_item t n p page' (pmem s) (item s ! ?k) = Some (it, m')"
    "?k < 1024" "item s1 = (item s)[?k := it]" "info_size s1 = ?k + 1" "pmem s1 = m'"
    "hook_inv s1" "hook_abs s1 = (hook_abs s)(t \<mapsto> (n, REGISTERED))"
    by (rule registerInlineHook_OK [OF inv r]) blast
  have ok: "item_ok (item s ! ?k)" "length (item s) = 1024" using hook_invD(1,3) [OF inv] 1(3) by auto
  obtain code where it: "live_ok it" "target_addr it = t" "new_addr it = n" "proto_addr it = p" "status it = REGISTERED"
      "orig_instructions it = load_bytes (pmem s) (CLEAR_BIT0 t) (item_length it)"
      "m' = store_bytes (pmem s) page code" "length code \<le> 4096"
    by (rule fill_item_ok [OF 1(2) ok(1)]) (use page 1(1) in auto)
  have slot1: "find_slot t (live s1) 0 = Some ?k" using find_slot_unique [OF 1(7), of ?k] 1 it ok by simp
  have 2: "pmem s2 = hooked_mem it m'" "item s2 = (item s)[?k := it\<lparr>status := HOOKED\<rparr>]" "info_size s2 = ?k + 1"
    "hook_inv s2" "hook_abs s2 t = Some (n, HOOKED)"
    using inlineHook_cases [OF 1(7) few, of t] h slot1 1 ok by (auto simp: HOOKED_def REGISTERED_def)
  have slot2: "find_slot t (live s2) 0 = Some ?k" using find_slot_unique [OF 2(4), of ?k] 2 it ok 1(3) by simp
  have 3: "pmem s3 = store_bytes (pmem s2) (CLEAR_BIT0 t) (orig_instructions it)"
    using inlineUnHook_cases [OF 2(4) few, of t] u slot2 2 ok 1(3) by auto
  have len: "item_length it \<le> 12" "length (orig_instructions it) = item_length it"
    "length (jump_code t n) \<le> item_length it"
    using it(1,2) by (auto simp: live_ok_def jump_code_def)
  have inside: "load_bytes (pmem s) (CLEAR_BIT0 t) (item_length it) ! unat (x - CLEAR_BIT0 t) = pmem s x"
    if "unat (x - CLEAR_BIT0 t) < item_length it"
    using that by (simp add: load_bytes_def)
  show ?thesis
    using len x inside it(2-4,6-8)
    by (auto simp: 3 2(1) hooked_mem_def Let_def store_bytes_apply)
qed

section \<open>Moving threads between the function and its trampoline\<close>

lemma find_boundary_nth:
  assumes "k \<le> i" "i < n" "n \<le> length from" "n \<le> length to" "\<And>j. k \<le> j \<Longrightarrow> j < i \<Longrightarrow> from ! j \<noteq> from ! i"
  shows "find_boundary (from ! i) from to k (n - k) = Some (Some (to ! i))"
  using assms
proof (induction "n - k" arbitrary: k)
  case 0
  then show ?case by simp
next
  case (Suc d)
  then have d: "n - k = Suc d" "d = n - Suc k" by auto
  show ?case
  proof (cases "k = i")
    case True
    with Suc.prems show ?thesis by (simp add: d(1) [unfolded True])
  next
    case False
    then have ne: "from ! i \<noteq> from ! k" using Suc.prems(1) Suc.prems(5) [of k] by auto
    have "find_boundary (from ! i) from to (Suc k) (n - Suc k) = Some (Some (to ! i))"
      using Suc.hyps(1) [OF d(2)] Suc.prems False by simp
    with ne Suc.prems show ?thesis by (simp add: d)
  qed
qed

lemma find_boundary_miss:
  "k \<le> n \<Longrightarrow> n \<le> length from \<Longrightarrow> (\<And>j. k \<le> j \<Longrightarrow> j < n \<Longrightarrow> from ! j \<noteq> off) \<Longrightarrow>
   find_boundary off from to k (n - k) = Some None"
proof (induction "n - k" arbitrary: k)
  case 0
  then show ?case by simp
next
  case (Suc d)
  then have d: "n - k = Suc d" "d = n - Suc k" by auto
  have k: "k < n" using d by linarith
  then have "off \<noteq> from ! k" using Suc.prems(3) [of k] by auto
  moreover have "find_boundary off from to (Suc k) (n - Suc k) = Some None"
    using Suc.hyps(1) [OF d(2)] Suc.prems k by simp
  ultimately show ?case using Suc.prems k by (simp add: d)
qed

lemma sint_of_int: "0 \<le> i \<Longrightarrow> i < 2 ^ 31 \<Longrightarrow> sint (word_of_int i :: u32) = i"
  by (simp add: signed_of_int signed_take_bit_int_eq_self)

text \<open>(C23) For a function registered in a slot whose counter was zero, that is, one that no registration has used
  before: a thread stopped at the start of any of the overwritten instructions is moved to the code that replaces it when
  the hook is enabled, and a thread stopped there is moved back to that instruction when it is disabled.  In a slot that
  was used before, the boundaries of the function it had are searched first.\<close>

theorem thread_pc_round_trip:
  assumes inv: "hook_inv s" and r: "registerInlineHook os t n p s = Some (ELE7EN_OK, s')"
    and zero: "item_count (item s ! info_size s) = 0"
    and it: "it = item s' ! info_size s" and i: "i < item_count it"
  defines "there \<equiv> CLEAR_BIT0 t + of_int (item_orig_boundaries it ! i)"
    and "here \<equiv> trampoline_instructions it + of_int (item_trampoline_boundaries it ! i)"
  shows "doProcessThreadPC it there ACTION_ENABLE = Some (True, here) \<and>
         doProcessThreadPC it here ACTION_DISABLE = Some (True, there)"
proof -
  let ?z = "item s ! info_size s"
  obtain page it' m' where 1: "fill_item t n p page (pmem s) ?z = Some (it', m')" "info_size s < 1024"
      "item s' = (item s)[info_size s := it']"
    by (rule registerInlineHook_OK [OF inv r]) blast
  note D = hook_invD [OF inv]
  have it': "it' = it" using it 1 D(1) by simp
  let ?len = "if TEST_BIT0 t then 12 else 8 :: nat"
  obtain code where rel: "relocateInstruction (pmem s) t (load_bytes (pmem s) (CLEAR_BIT0 t) ?len) ?len
      (item_orig_boundaries ?z) (item_trampoline_boundaries ?z) 0 =
      Some (code, item_orig_boundaries it, item_trampoline_boundaries it, item_count it)"
    and small: "length code \<le> 4096" and t: "target_addr it = t"
    using 1(1) zero it' by (auto simp: fill_item_def Let_def PAGE_SIZE_def bind_eq_Some_conv split: if_splits)
  have tab: "tables_increasing 0 (item_count it) (item_orig_boundaries it) (item_trampoline_boundaries it)"
    by (rule relocateInstruction_increasing [OF rel]) auto
  have b: "0 \<le> item_orig_boundaries it ! i \<and> item_orig_boundaries it ! i < int ?len \<and>
      0 \<le> item_trampoline_boundaries it ! i \<and> item_trampoline_boundaries it ! i \<le> int (length code)"
    by (rule relocateInstruction_bounds [OF rel]) (use i in auto)
  have sint: "sint (word_of_int (item_orig_boundaries it ! i) :: u32) = item_orig_boundaries it ! i"
    "sint (word_of_int (item_trampoline_boundaries it ! i) :: u32) = item_trampoline_boundaries it ! i"
    by (rule sint_of_int; use b small in \<open>auto split: if_splits\<close>)+
  have lt: "item_orig_boundaries it ! j < item_orig_boundaries it ! i" "item_trampoline_boundaries it ! j < item_trampoline_boundaries it ! i"
    if "j < i" for j
    using tab i that unfolding tables_increasing_def by auto
  have len: "item_count it \<le> length (item_orig_boundaries it)" "item_count it \<le> length (item_trampoline_boundaries it)"
    using tab by (simp_all add: tables_increasing_def)
  have "find_boundary (item_orig_boundaries it ! i) (item_orig_boundaries it) (item_trampoline_boundaries it) 0 (item_count it - 0) =
      Some (Some (item_trampoline_boundaries it ! i))"
    "find_boundary (item_trampoline_boundaries it ! i) (item_trampoline_boundaries it) (item_orig_boundaries it) 0 (item_count it - 0) =
      Some (Some (item_orig_boundaries it ! i))"
    by (rule find_boundary_nth; use i len lt in \<open>simp add: less_imp_neq\<close>)+
  then show ?thesis
    by (simp add: doProcessThreadPC_def there_def here_def t sint)
qed


section \<open>A concrete process\<close>

text \<open>An ARM function at \<open>0x1000\<close> that starts with a call and a move, hooked to \<open>0x2000\<close> in a
  process with one further thread.\<close>

definition demo_os :: os where
  "demo_os = \<lparr>os_pid = 100, os_tasks = Some [''.'', ''..'', ''100'', ''101''], os_fork = 200,
     os_attach = (\<lambda>_. True), os_getregs = (\<lambda>_. True), os_setregs = (\<lambda>_. True),
     os_maps = Some [''00001000-00003000 r-xp 00000000 b3:17 1234 /system/lib/libc.so''],
     os_malloc = True, os_mmap = Some 0x8000\<rparr>"

definition demo_state :: hook_state where
  "demo_state = init_hook_state
     (store_bytes (\<lambda>_. 0) 0x1000 [0x10, 0, 0, 0xEB, 0x0E, 0xF0, 0xA0, 0xE1]) (\<lambda>_. 0x1004)"

lemma demo_few: "few_threads demo_os"
proof -
  have "getAllTids demo_os = [101]" by code_simp
  then show ?thesis by (simp add: few_threads_def)
qed

lemma demo_inv: "hook_inv demo_state"
  unfolding demo_state_def by (rule init_hook_inv)

lemma demo_can_register: "can_register demo_os 0x1000 0x2000 demo_state"
proof -
  have "isExecutableAddr demo_os 0x1000" "isExecutableAddr demo_os 0x2000" by code_simp+
  then show ?thesis
    by (simp add: can_register_def demo_state_def init_hook_state_def hook_abs_def live_def) (simp add: demo_os_def)
qed

lemma demo_slot:
  "item_count (item demo_state ! info_size demo_state) = 0" "insn_count (pmem demo_state) 0x1000 = 2"
  by (simp_all add: demo_state_def init_hook_state_def zero_item_def insn_count_def TEST_BIT0_def)

lemma demo_registered: "\<exists>s1. registerInlineHook demo_os 0x1000 0x2000 0x5000 demo_state = Some (ELE7EN_OK, s1)"
proof -
  have "item_ok (item demo_state ! info_size demo_state)"
    using hook_invD(3) [OF demo_inv] demo_can_register by (simp add: can_register_def)
  from fill_item_room(1) [OF this, of "0x1000" "0x2000" "0x5000" "0x8000" "pmem demo_state"] demo_slot
  obtain x where "fill_item 0x1000 0x2000 0x5000 0x8000 (pmem demo_state) (item demo_state ! info_size demo_state) = Some x"
    by auto
  moreover have "os_mmap demo_os = Some 0x8000" by (simp add: demo_os_def)
  ultimately show ?thesis
    by (simp add: registerInlineHook_fill [OF demo_inv demo_can_register] split: prod.splits)
qed

lemma demo_round:
  obtains s1 s2 s3 where "registerInlineHook demo_os 0x1000 0x2000 0x5000 demo_state = Some (ELE7EN_OK, s1)"
    "inlineHook demo_os 0x1000 s1 = Some (ELE7EN_OK, s2)" "inlineUnHook demo_os 0x1000 s2 = Some (ELE7EN_OK, s3)"
    "hook_inv s1" "hook_inv s2" "hook_abs s2 0x1000 = Some (0x2000, HOOKED)"
proof -
  obtain s1 where s1: "registerInlineHook demo_os 0x1000 0x2000 0x5000 demo_state = Some (ELE7EN_OK, s1)"
    using demo_registered by blast
  have i1: "hook_inv s1" by (rule registerInlineHook_inv [OF demo_inv s1])
  have "hook_abs s1 0x1000 = Some (0x2000, REGISTERED)"
    by (rule registerInlineHook_OK [OF demo_inv s1]) simp
  with inlineHook_cases [OF i1 demo_few, of "0x1000"] obtain s2 where
    s2: "inlineHook demo_os 0x1000 s1 = Some (ELE7EN_OK, s2)" "hook_inv s2" "hook_abs s2 0x1000 = Some (0x2000, HOOKED)"
    by (auto simp: HOOKED_def REGISTERED_def)
  with inlineUnHook_cases [OF s2(2) demo_few, of "0x1000"] obtain s3 where
    "inlineUnHook demo_os 0x1000 s2 = Some (ELE7EN_OK, s3)" by auto
  with s1 i1 s2 show thesis by (intro that)
qed

theorem registerInlineHook_room_witness:
  "hook_inv demo_state \<and> can_register demo_os 0x1000 0x2000 demo_state \<and>
   (\<exists>s'. registerInlineHook demo_os 0x1000 0x2000 0 demo_state = Some (ELE7EN_OK, s'))"
  using registerInlineHook_room [OF demo_inv demo_can_register] demo_inv demo_can_register demo_slot by simp

theorem hook_round_keeps_count_witness:
  "\<exists>s1 s2 s3. hook_inv demo_state \<and> few_threads demo_os \<and>
     registerInlineHook demo_os 0x1000 0x2000 0x5000 demo_state = Some (ELE7EN_OK, s1) \<and>
     inlineHook demo_os 0x1000 s1 = Some (ELE7EN_OK, s2) \<and> inlineUnHook demo_os 0x1000 s2 = Some (ELE7EN_OK, s3) \<and>
     info_size s3 = 0 \<and> item_count (item s3 ! 0) = 2"
proof -
  obtain s1 s2 s3 where r: "registerInlineHook demo_os 0x1000 0x2000 0x5000 demo_state = Some (ELE7EN_OK, s1)"
    "inlineHook demo_os 0x1000 s1 = Some (ELE7EN_OK, s2)" "inlineUnHook demo_os 0x1000 s2 = Some (ELE7EN_OK, s3)"
    by (rule demo_round)
  have "info_size demo_state = 0" by (simp add: demo_state_def init_hook_state_def)
  with hook_round_keeps_count [OF demo_inv demo_few r] demo_slot r demo_inv demo_few show ?thesis by auto
qed

theorem hook_lifecycle_witness:
  "\<exists>s1 s2 s3. hook_inv demo_state \<and> few_threads demo_os \<and>
     registerInlineHook demo_os 0x1000 0x2000 0x5000 demo_state = Some (ELE7EN_OK, s1) \<and>
     inlineHook demo_os 0x1000 s1 = Some (ELE7EN_OK, s2) \<and> hook_abs s2 0x1000 = Some (0x2000, HOOKED) \<and>
     inlineUnHook demo_os 0x1000 s2 = Some (ELE7EN_OK, s3) \<and> hook_abs s3 = hook_abs demo_state"
proof -
  obtain s1 where s1: "registerInlineHook demo_os 0x1000 0x2000 0x5000 demo_state = Some (ELE7EN_OK, s1)"
    using demo_registered by blast
  from hook_lifecycle [OF demo_inv demo_few this] s1 demo_inv demo_few show ?thesis by blast
qed

theorem hook_unhook_restores_memory_witness:
  "\<exists>s1 s2 s3. registerInlineHook demo_os 0x1000 0x2000 0x5000 demo_state = Some (ELE7EN_OK, s1) \<and>
     inlineHook demo_os 0x1000 s1 = Some (ELE7EN_OK, s2) \<and> inlineUnHook demo_os 0x1000 s2 = Some (ELE7EN_OK, s3) \<and>
     hook_inv demo_state \<and> few_threads demo_os \<and> os_mmap demo_os = Some 0x8000 \<and>
     4096 \<le> unat (0x1000 - 0x8000 :: u32) \<and> 4 \<le> unat (0x1000 - 0x5000 :: u32) \<and> pmem s3 0x1000 = 0x10"
proof -
  obtain s1 s2 s3 where r: "registerInlineHook demo_os 0x1000 0x2000 0x5000 demo_state = Some (ELE7EN_OK, s1)"
    "inlineHook demo_os 0x1000 s1 = Some (ELE7EN_OK, s2)" "inlineUnHook demo_os 0x1000 s2 = Some (ELE7EN_OK, s3)"
    by (rule demo_round)
  have page: "os_mmap demo_os = Some 0x8000" by (simp add: demo_os_def)
  have "pmem s3 0x1000 = pmem demo_state 0x1000"
    by (rule hook_unhook_restores_memory [OF demo_inv demo_few r page]) simp_all
  also have "\<dots> = 0x10" by (simp add: demo_state_def init_hook_state_def)
  finally show ?thesis using r page demo_inv demo_few by auto
qed

theorem hook_reachable_inv_witness:
  "\<exists>m q s1. registerInlineHook demo_os 0x1000 0x2000 0x5000 (init_hook_state m q) = Some (ELE7EN_OK, s1) \<and>
     hook_step\<^sup>*\<^sup>* (Some (init_hook_state m q)) (Some s1) \<and> hook_inv s1 \<and> run_call (Hook demo_os 0x1000) s1 \<noteq> None"
proof -
  obtain s1 where s1: "registerInlineHook demo_os 0x1000 0x2000 0x5000 demo_state = Some (ELE7EN_OK, s1)"
    using demo_registered by blast
  have "hook_step (Some demo_state) (Some s1)"
    using hook_step_call [of demo_state "Register demo_os 0x1000 0x2000 0x5000"] s1 by simp
  then have reach: "hook_step\<^sup>*\<^sup>* (Some demo_state) (Some s1)" by blast
  have "\<not> call_faults (Hook demo_os 0x1000) s1" by (simp add: demo_few)
  with hook_reachable_inv [OF reach [unfolded demo_state_def]] reach s1 show ?thesis
    unfolding demo_state_def by blast
qed

theorem inlineHookAll_hooks_all_witness:
  "\<exists>s1 s'. registerInlineHook demo_os 0x1000 0x2000 0x5000 demo_state = Some (ELE7EN_OK, s1) \<and> hook_inv s1 \<and>
     few_threads demo_os \<and> inlineHookAll demo_os s1 = Some s' \<and> hook_abs s' 0x1000 = Some (0x2000, HOOKED)"
proof -
  obtain s1 where s1: "registerInlineHook demo_os 0x1000 0x2000 0x5000 demo_state = Some (ELE7EN_OK, s1)"
    using demo_registered by blast
  have i: "hook_inv s1" by (rule registerInlineHook_inv [OF demo_inv s1])
  have "hook_abs s1 0x1000 = Some (0x2000, REGISTERED)"
    by (rule registerInlineHook_OK [OF demo_inv s1]) simp
  with inlineHookAll_hooks_all [OF i demo_few] s1 i demo_few show ?thesis by auto
qed

theorem inlineUnHookAll_restores_witness:
  "\<exists>s2 s'. hook_abs s2 0x1000 = Some (0x2000, HOOKED) \<and> hook_inv s2 \<and> few_threads demo_os \<and>
     inlineUnHookAll demo_os s2 = Some s' \<and> hook_abs s' 0x1000 = None"
proof -
  obtain s2 where s2: "hook_inv s2" "hook_abs s2 0x1000 = Some (0x2000, HOOKED)"
    by (rule demo_round)
  from inlineUnHookAll_restores [OF s2(1) demo_few] obtain s' where
    "inlineUnHookAll demo_os s2 = Some s'"
    "\<forall>a. hook_abs s' a = (case hook_abs s2 a of Some (n, st) \<Rightarrow> if st = HOOKED then None else Some (n, st) | None \<Rightarrow> None)"
    by blast
  with s2 demo_few show ?thesis by auto
qed

theorem thread_pc_round_trip_witness:
  "\<exists>s' it. registerInlineHook demo_os 0x1000 0x2000 0x5000 demo_state = Some (ELE7EN_OK, s') \<and>
     hook_inv demo_state \<and> item_count (item demo_state ! info_size demo_state) = 0 \<and>
     it = item s' ! info_size demo_state \<and> 1 < item_count it \<and>
     doProcessThreadPC it (CLEAR_BIT0 0x1000 + of_int (item_orig_boundaries it ! 1)) ACTION_ENABLE =
       Some (True, trampoline_instructions it + of_int (item_trampoline_boundaries it ! 1))"
proof -
  obtain s' where s': "registerInlineHook demo_os 0x1000 0x2000 0x5000 demo_state = Some (ELE7EN_OK, s')"
    using demo_registered by blast
  have "item_count (item s' ! info_size demo_state) = 2"
  proof (rule registerInlineHook_OK [OF demo_inv s'])
    fix page it m'
    assume f: "fill_item 0x1000 0x2000 0x5000 page (pmem demo_state) (item demo_state ! info_size demo_state) = Some (it, m')"
      and "info_size demo_state < 1024" "item s' = (item demo_state)[info_size demo_state := it]"
    moreover have "item_ok (item demo_state ! info_size demo_state)"
      using hook_invD(3) [OF demo_inv] demo_can_register by (simp add: can_register_def)
    ultimately show ?thesis
      using fill_item_room(2) [OF _ f] demo_slot hook_invD(1) [OF demo_inv] by simp
  qed
  then have i: "1 < item_count (item s' ! info_size demo_state)" by simp
  with thread_pc_round_trip [OF demo_inv s' demo_slot(1) refl i] s' demo_inv demo_slot show ?thesis by blast
qed

end
