(* ===== verification/ElfHook.thy ===== *)
theory ElfHook
  imports InlineHook
begin

text \<open>
  Hooking of imported functions, \<open>libmemcheck/elfHook\<close>: the tables of a library that is loaded in the
  process (\<open>elfutils.cpp\<close>), the search for the library (\<open>elfio.cpp\<close>), and the replacement of the
  addresses in the slots that its relocations name (\<open>elfhook.cpp\<close>).

  Memory is a map from addresses to bytes; an access to an address that is not mapped is \<open>None\<close>.  A
  pointer into it is its address.  The members of the struct \<open>ElfInfo\<close>, which the code declares
  without values, are \<open>None\<close> until they are assigned.  The end of the process by \<open>exit\<close> or a failed
  \<open>assert\<close> is \<open>Some None\<close>.
\<close>

section \<open>Reading memory\<close>

type_synonym maps_mem = "u32 \<rightharpoonup> u8"

definition get8 :: "maps_mem \<Rightarrow> u32 \<Rightarrow> u8 option" where "get8 m a = m a"

definition get16 :: "maps_mem \<Rightarrow> u32 \<Rightarrow> u16 option" where
  "get16 m a = do { x \<leftarrow> get8 m a; y \<leftarrow> get8 m (a + 1); Some (of_le16 x y) }"

definition get32 :: "maps_mem \<Rightarrow> u32 \<Rightarrow> u32 option" where
  "get32 m a =
     do { x \<leftarrow> get8 m a; y \<leftarrow> get8 m (a + 1); z \<leftarrow> get8 m (a + 2); w \<leftarrow> get8 m (a + 3); Some (of_le32 x y z w) }"

definition put32 :: "maps_mem \<Rightarrow> u32 \<Rightarrow> u32 \<Rightarrow> maps_mem option" where
  "put32 m a v = do { _ \<leftarrow> get32 m a;
     Some (m(a \<mapsto> le32 v ! 0, a + 1 \<mapsto> le32 v ! 1, a + 2 \<mapsto> le32 v ! 2, a + 3 \<mapsto> le32 v ! 3)) }"

text \<open>\<open>!strcmp(s, t)\<close> and \<open>!strncmp(s, t, strlen(t))\<close> for a text in memory and one given by its bytes.\<close>

fun str_eq :: "maps_mem \<Rightarrow> u32 \<Rightarrow> u8 list \<Rightarrow> bool option" where
  "str_eq m a [] = do { b \<leftarrow> get8 m a; Some (b = 0) }"
| "str_eq m a (c # cs) = do { b \<leftarrow> get8 m a; if b = c then str_eq m (a + 1) cs else Some False }"

fun str_prefix :: "maps_mem \<Rightarrow> u32 \<Rightarrow> u8 list \<Rightarrow> bool option" where
  "str_prefix m a [] = Some True"
| "str_prefix m a (c # cs) = do { b \<leftarrow> get8 m a; if b = c then str_prefix m (a + 1) cs else Some False }"

section \<open>The tables of a library\<close>

record ElfHandle =
  base :: u32
  space_size :: u32
  fromfile :: bool

record ElfInfo =
  handle :: ElfHandle
  elf_base :: u32
  ehdr :: u32
  phdr :: u32
  shdr :: u32
  dyn :: "u32 option"
  dynsz :: "u32 option"
  sym :: "u32 option"
  symsz :: "u32 option"
  relplt :: "u32 option"
  relpltsz :: "u32 option"
  reldyn :: "u32 option"
  reldynsz :: "u32 option"
  nbucket :: "u32 option"
  nchain :: "u32 option"
  bucket :: "u32 option"
  chain :: "u32 option"
  shstr :: "u32 option"
  symstr :: "u32 option"

text \<open>The members of the headers, by their offsets in \<open>Elf32_Ehdr\<close>, \<open>Elf32_Phdr\<close> and \<open>Elf32_Shdr\<close>.\<close>

definition new_info :: "maps_mem \<Rightarrow> ElfHandle \<Rightarrow> ElfInfo option" where
  "new_info m h =
     do { let b = base h;
          e_shoff \<leftarrow> get32 m (b + 32);
          e_phoff \<leftarrow> get32 m (b + 28);
          Some \<lparr>handle = h, elf_base = b, ehdr = b, phdr = b + e_phoff, shdr = b + e_shoff, dyn = None, dynsz = None,
                sym = None, symsz = None, relplt = None, relpltsz = None, reldyn = None, reldynsz = None,
                nbucket = None, nchain = None, bucket = None, chain = None, shstr = None, symstr = None\<rparr> }"

fun find_segment :: "maps_mem \<Rightarrow> nat \<Rightarrow> u32 \<Rightarrow> u32 \<Rightarrow> u32 option option" where
  "find_segment m 0 p type = Some None"
| "find_segment m (Suc n) p type =
     do { p_type \<leftarrow> get32 m p; if p_type = type then Some (Some p) else find_segment m n (p + 32) type }"

definition findSegmentByType :: "maps_mem \<Rightarrow> ElfInfo \<Rightarrow> u32 \<Rightarrow> u32 option option" where
  "findSegmentByType m info type = do { e_phnum \<leftarrow> get16 m (ehdr info + 44); find_segment m (unat e_phnum) (phdr info) type }"

text \<open>The address of the data of a segment and its size; the process ends when there is none.\<close>

definition getSegmentInfo :: "maps_mem \<Rightarrow> ElfInfo \<Rightarrow> u32 \<Rightarrow> (u32 \<times> u32) option option" where
  "getSegmentInfo m info type =
     do { r \<leftarrow> findSegmentByType m info type;
          case r of
            None \<Rightarrow> Some None
          | Some p \<Rightarrow>
              if fromfile (handle info)
              then do { p_offset \<leftarrow> get32 m (p + 4); p_filesz \<leftarrow> get32 m (p + 16); Some (Some (elf_base info + p_offset, p_filesz)) }
              else do { p_vaddr \<leftarrow> get32 m (p + 8); p_memsz \<leftarrow> get32 m (p + 20); Some (Some (elf_base info + p_vaddr, p_memsz)) } }"

text \<open>One entry of the dynamic section.\<close>

definition hash_table :: "maps_mem \<Rightarrow> u32 \<Rightarrow> ElfInfo \<Rightarrow> ElfInfo option" where
  "hash_table m rawdata info =
     do { nb \<leftarrow> get32 m rawdata;
          nc \<leftarrow> get32 m (rawdata + 4);
          Some (info\<lparr>nbucket := Some nb, nchain := Some nc, bucket := Some (rawdata + 8),
                     chain := Some (rawdata + 8 + 4 * nb)\<rparr>) }"

definition dyn_entry :: "maps_mem \<Rightarrow> u32 \<Rightarrow> u32 \<Rightarrow> ElfInfo \<Rightarrow> ElfInfo option" where
  "dyn_entry m d_tag v info =
     (let p = elf_base info + v in
      if d_tag = 6 then Some (info\<lparr>sym := Some p\<rparr>)
      else if d_tag = 5 then Some (info\<lparr>symstr := Some p\<rparr>)
      else if d_tag = 17 then Some (info\<lparr>reldyn := Some p\<rparr>)
      else if d_tag = 18 then Some (info\<lparr>reldynsz := Some (v div 8)\<rparr>)
      else if d_tag = 23 then Some (info\<lparr>relplt := Some p\<rparr>)
      else if d_tag = 2 then Some (info\<lparr>relpltsz := Some (v div 8)\<rparr>)
      else if d_tag = 4 then do { info' \<leftarrow> hash_table m p info; Some (info'\<lparr>symsz := nchain info'\<rparr>) }
      else Some info)"

fun dyn_loop :: "maps_mem \<Rightarrow> nat \<Rightarrow> u32 \<Rightarrow> ElfInfo \<Rightarrow> ElfInfo option" where
  "dyn_loop m 0 p info = Some info"
| "dyn_loop m (Suc n) p info =
     do { d_tag \<leftarrow> get32 m p; v \<leftarrow> get32 m (p + 4); info' \<leftarrow> dyn_entry m d_tag v info; dyn_loop m n (p + 8) info' }"

definition PT_DYNAMIC :: u32 where "PT_DYNAMIC = 2"

definition getElfInfoBySegmentView :: "maps_mem \<Rightarrow> ElfHandle \<Rightarrow> ElfInfo option option" where
  "getElfInfoBySegmentView m h =
     do { info \<leftarrow> new_info m h;
          r \<leftarrow> getSegmentInfo m info PT_DYNAMIC;
          case r of
            None \<Rightarrow> Some None
          | Some (d, sz) \<Rightarrow>
              do { info' \<leftarrow> dyn_loop m (unat (sz div 8)) d (info\<lparr>dyn := Some d, dynsz := Some (sz div 8)\<rparr>);
                   Some (Some info') } }"

text \<open>The view of a file by its sections.\<close>

fun find_section :: "maps_mem \<Rightarrow> u32 \<Rightarrow> nat \<Rightarrow> u32 \<Rightarrow> u8 list \<Rightarrow> u32 option option" where
  "find_section m names 0 p sname = Some None"
| "find_section m names (Suc n) p sname =
     do { sh_name \<leftarrow> get32 m p;
          hit \<leftarrow> str_prefix m (sh_name + names) sname;
          if hit then Some (Some p) else find_section m names n (p + 40) sname }"

definition findSectionByName :: "maps_mem \<Rightarrow> ElfInfo \<Rightarrow> u8 list \<Rightarrow> u32 option option" where
  "findSectionByName m info sname =
     do { names \<leftarrow> shstr info; e_shnum \<leftarrow> get16 m (ehdr info + 48); find_section m names (unat e_shnum) (shdr info) sname }"

text \<open>The data of a section, and the number of its entries when \<open>pSize\<close> is given.\<close>

definition getSectionInfo :: "maps_mem \<Rightarrow> ElfInfo \<Rightarrow> u8 list \<Rightarrow> bool \<Rightarrow> (u32 \<times> u32 option) option option" where
  "getSectionInfo m info name pSize =
     do { r \<leftarrow> findSectionByName m info name;
          case r of
            None \<Rightarrow> Some None
          | Some p \<Rightarrow>
              do { n \<leftarrow> (if pSize then do { sh_size \<leftarrow> get32 m (p + 20); sh_entsize \<leftarrow> get32 m (p + 36);
                                       if sh_entsize = 0 then None else Some (Some (sh_size div sh_entsize)) }
                         else Some None);
                   sh_offset \<leftarrow> get32 m (p + 16);
                   Some (Some (elf_base info + sh_offset, n)) } }"

definition ascii :: "string \<Rightarrow> u8 list" where "ascii s = map (\<lambda>c. of_nat (of_char c)) s"

text \<open>The five sections in turn, each with the assignment of its data and size.\<close>

fun section_loop :: "maps_mem \<Rightarrow> (string \<times> bool \<times> (u32 \<Rightarrow> u32 option \<Rightarrow> ElfInfo \<Rightarrow> ElfInfo)) list \<Rightarrow> ElfInfo \<Rightarrow> ElfInfo option option" where
  "section_loop m [] info = Some (Some info)"
| "section_loop m ((name, pSize, set_data) # ss) info =
     do { r \<leftarrow> getSectionInfo m info (ascii name) pSize;
          case r of None \<Rightarrow> Some None | Some (p, n) \<Rightarrow> section_loop m ss (set_data p n info) }"

definition getElfInfoBySectionView :: "maps_mem \<Rightarrow> ElfHandle \<Rightarrow> ElfInfo option option" where
  "getElfInfoBySectionView m h =
     do { info0 \<leftarrow> new_info m h;
          e_shstrndx \<leftarrow> get16 m (ehdr info0 + 50);
          sh_offset \<leftarrow> get32 m (shdr info0 + 40 * ucast e_shstrndx + 16);
          let info1 = info0\<lparr>shstr := Some (elf_base info0 + sh_offset)\<rparr>;
          r \<leftarrow> section_loop m
            [(''.dynstr'', False, \<lambda>p n info. info\<lparr>symstr := Some p\<rparr>),
             (''.dynamic'', True, \<lambda>p n info. info\<lparr>dynsz := n, dyn := Some p\<rparr>),
             (''.dynsym'', True, \<lambda>p n info. info\<lparr>symsz := n, sym := Some p\<rparr>),
             (''.rel.dyn'', True, \<lambda>p n info. info\<lparr>reldynsz := n, reldyn := Some p\<rparr>),
             (''.rel.plt'', True, \<lambda>p n info. info\<lparr>relpltsz := n, relplt := Some p\<rparr>)] info1;
          case r of
            None \<Rightarrow> Some None
          | Some info \<Rightarrow>
              do { hs \<leftarrow> findSectionByName m info (ascii ''.hash'');
                   case hs of
                     None \<Rightarrow> Some (Some info)
                   | Some p \<Rightarrow> do { off \<leftarrow> get32 m (p + 16); info' \<leftarrow> hash_table m (elf_base info + off) info; Some (Some info') } } }"

section \<open>Searching a symbol\<close>

fun elf_hash_loop :: "u8 list \<Rightarrow> u32 \<Rightarrow> u32" where
  "elf_hash_loop [] h = h"
| "elf_hash_loop (c # cs) h =
     (let h1 = push_bit 4 h + ucast c; g = h1 AND 0xf0000000; h2 = h1 XOR g; h3 = h2 XOR drop_bit 24 g
      in elf_hash_loop cs h3)"

definition elf_hash :: "u8 list \<Rightarrow> u32" where "elf_hash name = elf_hash_loop name 0"

definition has_name :: "maps_mem \<Rightarrow> u32 \<Rightarrow> u32 \<Rightarrow> u8 list \<Rightarrow> u32 \<Rightarrow> bool option" where
  "has_name m syms strs symbol index = do { st_name \<leftarrow> get32 m (syms + 16 * index); str_eq m (strs + st_name) symbol }"

partial_function (option) chain_loop :: "maps_mem \<Rightarrow> u32 \<Rightarrow> u32 \<Rightarrow> u32 \<Rightarrow> u8 list \<Rightarrow> u32 \<Rightarrow> u32 option option" where
  "chain_loop m ch syms strs symbol index =
     do { index' \<leftarrow> get32 m (ch + 4 * index);
          hit \<leftarrow> has_name m syms strs symbol index';
          if hit then Some (Some index')
          else if index' \<noteq> 0 then chain_loop m ch syms strs symbol index' else Some None }"

declare chain_loop.simps [code]

definition findSymByName :: "maps_mem \<Rightarrow> ElfInfo \<Rightarrow> u8 list \<Rightarrow> u32 option option" where
  "findSymByName m info symbol =
     do { nb \<leftarrow> nbucket info; bk \<leftarrow> bucket info; ch \<leftarrow> chain info; syms \<leftarrow> sym info; strs \<leftarrow> symstr info;
          if nb = 0 then None
          else do { index \<leftarrow> get32 m (bk + 4 * (elf_hash symbol mod nb));
                    hit \<leftarrow> has_name m syms strs symbol index;
                    if hit then Some (Some index) else chain_loop m ch syms strs symbol index } }"

section \<open>Finding the library\<close>

fun findLibBase :: "string list \<Rightarrow> string option \<Rightarrow> u32" where
  "findLibBase [] soname = 0"
| "findLibBase (line # lines) soname =
     (if (case soname of None \<Rightarrow> True | Some n \<Rightarrow> strstr line n)
      then of_int (min (strtoul16 (take 8 line) 0) 0xFFFFFFFF) else findLibBase lines soname)"

text \<open>\<open>lines\<close> is what \<open>fgets\<close> delivers, \<open>None\<close> when \<open>/proc/self/maps\<close> cannot be opened, which is not tested.\<close>

definition openElfBySoname :: "string list option \<Rightarrow> string option \<Rightarrow> ElfHandle option option" where
  "openElfBySoname lines soname =
     do { ls \<leftarrow> lines;
          let b = findLibBase ls soname;
          Some (if b = 0 then None else Some \<lparr>base = b, space_size = - 1, fromfile = False\<rparr>) }"

text \<open>A file that is mapped: \<open>fd\<close>, the size and the result of \<open>mmap\<close> are the answers of the system.\<close>

definition openElfByFile :: "int \<Rightarrow> u32 \<Rightarrow> u32 option \<Rightarrow> ElfHandle option" where
  "openElfByFile fd st_size mapped =
     (if fd < 0 then None
      else case mapped of None \<Rightarrow> None | Some b \<Rightarrow> Some \<lparr>base = b, space_size = st_size, fromfile = True\<rparr>)"

section \<open>Replacing the slots\<close>

datatype elf_call = Protect_page u32 u32 | Clear_cache u32 u32

record elf_state =
  emem :: maps_mem
  old_func :: u32
  elf_calls :: "elf_call list"

record elf_os =
  elf_maps :: "string list option"
  getpagesize :: u32
  mprotect_ok :: "u32 \<Rightarrow> bool"

definition page_start :: "elf_os \<Rightarrow> u32 \<Rightarrow> u32" where
  "page_start os addr = NOT (getpagesize os - 1) AND addr"

definition replaceFunc :: "elf_os \<Rightarrow> u32 \<Rightarrow> u32 \<Rightarrow> elf_state \<Rightarrow> (int \<times> elf_state) option" where
  "replaceFunc os addr replace s =
     do { cur \<leftarrow> get32 (emem s) addr;
          if cur = replace then Some (0, s)
          else do {
            let s1 = (if old_func s = 0 then s\<lparr>old_func := cur\<rparr> else s);
            let s2 = s1\<lparr>elf_calls := elf_calls s1 @ [Protect_page (page_start os addr) (getpagesize os)]\<rparr>;
            if \<not> mprotect_ok os (page_start os addr) then Some (1, s2)
            else do { m' \<leftarrow> put32 (emem s2) addr replace;
                      Some (0, s2\<lparr>emem := m', elf_calls := elf_calls s2 @ [Clear_cache addr (getpagesize os)]\<rparr>) } } }"

definition R_ARM_ABS32 :: u32 where "R_ARM_ABS32 = 0x02"
definition R_ARM_GLOB_DAT :: u32 where "R_ARM_GLOB_DAT = 0x15"
definition R_ARM_JUMP_SLOT :: u32 where "R_ARM_JUMP_SLOT = 0x16"

definition plt_match :: "u32 \<Rightarrow> u32 \<Rightarrow> bool" where
  "plt_match symidx r_info \<longleftrightarrow> drop_bit 8 r_info = symidx \<and> r_info AND 0xff = R_ARM_JUMP_SLOT"

definition dyn_match :: "u32 \<Rightarrow> u32 \<Rightarrow> bool" where
  "dyn_match symidx r_info \<longleftrightarrow> drop_bit 8 r_info = symidx \<and>
     (r_info AND 0xff = R_ARM_ABS32 \<or> r_info AND 0xff = R_ARM_GLOB_DAT)"

text \<open>The two loops over the relocations; the result is false after \<open>goto fails\<close>.\<close>

fun plt_loop :: "elf_os \<Rightarrow> u32 \<Rightarrow> u32 \<Rightarrow> u32 \<Rightarrow> nat \<Rightarrow> u32 \<Rightarrow> elf_state \<Rightarrow> (bool \<times> elf_state) option" where
  "plt_loop os eb symidx replace 0 p s = Some (True, s)"
| "plt_loop os eb symidx replace (Suc n) p s =
     do { r_info \<leftarrow> get32 (emem s) (p + 4);
          if plt_match symidx r_info then
            do { r_offset \<leftarrow> get32 (emem s) p; (res, s') \<leftarrow> replaceFunc os (eb + r_offset) replace s; Some (res = 0, s') }
          else plt_loop os eb symidx replace n (p + 8) s }"

fun dynrel_loop :: "elf_os \<Rightarrow> u32 \<Rightarrow> u32 \<Rightarrow> u32 \<Rightarrow> nat \<Rightarrow> u32 \<Rightarrow> elf_state \<Rightarrow> (bool \<times> elf_state) option" where
  "dynrel_loop os eb symidx replace 0 p s = Some (True, s)"
| "dynrel_loop os eb symidx replace (Suc n) p s =
     do { r_info \<leftarrow> get32 (emem s) (p + 4);
          if dyn_match symidx r_info then
            do { r_offset \<leftarrow> get32 (emem s) p; (res, s') \<leftarrow> replaceFunc os (eb + r_offset) replace s;
                 if res \<noteq> 0 then Some (False, s') else dynrel_loop os eb symidx replace n (p + 8) s' }
          else dynrel_loop os eb symidx replace n (p + 8) s }"

definition elfHook :: "elf_os \<Rightarrow> string option \<Rightarrow> u8 list \<Rightarrow> u32 \<Rightarrow> elf_state \<Rightarrow> (int \<times> elf_state) option option" where
  "elfHook os soname symbol replace_func s =
     (if replace_func = 0 then Some None
      else do { h \<leftarrow> openElfBySoname (elf_maps os) soname;
        case h of
          None \<Rightarrow> Some (Some (0, s))
        | Some hdl \<Rightarrow> do { v \<leftarrow> getElfInfoBySegmentView (emem s) hdl;
            case v of
              None \<Rightarrow> Some None
            | Some info \<Rightarrow> do { k \<leftarrow> findSymByName (emem s) info symbol;
                case k of
                  None \<Rightarrow> Some (Some (0, s))
                | Some symidx \<Rightarrow>
                    do { n1 \<leftarrow> relpltsz info;
                         (go, s1) \<leftarrow> (if n1 = 0 then Some (True, s) else
                            do { p1 \<leftarrow> relplt info; plt_loop os (elf_base info) symidx replace_func (unat n1) p1 s });
                         if \<not> go then Some (Some (0, s1))
                         else do { n2 \<leftarrow> reldynsz info;
                            (_, s2) \<leftarrow> (if n2 = 0 then Some (True, s1) else
                              do { p2 \<leftarrow> reldyn info; dynrel_loop os (elf_base info) symidx replace_func (unat n2) p2 s1 });
                            Some (Some (0, s2)) } } } } })"


section \<open>The hash function\<close>

text \<open>The hash function of the ELF specification, on the numbers.\<close>

definition sysv_step :: "nat \<Rightarrow> u8 \<Rightarrow> nat" where
  "sysv_step h c = (let x = (16 * h + unat c) mod 2 ^ 32 in (x mod 2 ^ 28) XOR (16 * (x div 2 ^ 28)))"

definition sysv_hash :: "u8 list \<Rightarrow> nat" where "sysv_hash name = foldl sysv_step 0 name"

lemma fold_top:
  fixes x :: u32
  shows "(x XOR (x AND 0xf0000000)) XOR drop_bit 24 (x AND 0xf0000000) = take_bit 28 x XOR push_bit 4 (drop_bit 28 x)"
proof -
  define M :: u32 where "M = 0xf0000000"
  have "M = push_bit 28 (mask 4)" by (simp add: M_def mask_eq_exp_minus_1 push_bit_eq_mult)
  then have b: "bit M n \<longleftrightarrow> 28 \<le> n \<and> n < 32" for n by (auto simp: bit_simps)
  show ?thesis
    unfolding M_def [symmetric] by (rule bit_word_eqI) (auto simp: bit_simps b dest: bit_imp_le_length)
qed

lemma elf_hash_step:
  fixes h :: u32
  shows "unat (let h1 = push_bit 4 h + ucast c; g = h1 AND 0xf0000000; h2 = h1 XOR g in h2 XOR drop_bit 24 g) = sysv_step (unat h) c"
proof -
  define x where "x = push_bit 4 h + ucast c"
  have x: "unat x = (16 * unat h + unat c) mod 2 ^ 32"
    unfolding x_def by (simp add: push_bit_eq_mult unat_word_ariths mod_simps mult.commute unsigned_ucast_eq take_bit_eq_mod)
  have "unat x div 2 ^ 28 < 2 ^ 4" using unsigned_less [of x, where 'a = nat] by (simp add: less_mult_imp_div_less)
  then have "take_bit 32 (push_bit 4 (drop_bit 28 (unat x))) = push_bit 4 (drop_bit 28 (unat x))"
    by (simp add: take_bit_nat_eq_self drop_bit_eq_div push_bit_eq_mult)
  moreover have "take_bit 32 (unat x) = unat x" using unsigned_less [of x, where 'a = nat] by (simp add: take_bit_nat_eq_self)
  ultimately have "unat (take_bit 28 x XOR push_bit 4 (drop_bit 28 x)) = take_bit 28 (unat x) XOR push_bit 4 (drop_bit 28 (unat x))"
    by (simp add: unsigned_xor_eq unsigned_take_bit_eq unsigned_push_bit_eq unsigned_drop_bit_eq)
  then show ?thesis
    unfolding sysv_step_def Let_def x [symmetric] fold_top x_def [symmetric]
    by (simp add: take_bit_eq_mod push_bit_eq_mult drop_bit_eq_div mult.commute)
qed

lemma elf_hash_sysv: "unat (elf_hash name) = sysv_hash name"
proof -
  have "unat (elf_hash_loop name h) = foldl sysv_step (unat h) name" for h
  proof (induction name arbitrary: h)
    case (Cons c cs)
    then show ?case unfolding elf_hash_loop.simps foldl_Cons elf_hash_step [symmetric] by (simp only: Let_def)
  qed simp
  then show ?thesis by (simp add: elf_hash_def sysv_hash_def)
qed

section \<open>Reading is monotone in the mapped memory\<close>

text \<open>A computation that succeeds in a part of the memory has the same result in the whole.\<close>

definition opt_le :: "'a option \<Rightarrow> 'a option \<Rightarrow> bool" where
  "opt_le x y \<longleftrightarrow> x = None \<or> x = y"

named_theorems elf_le \<open>operations that are monotone in the mapped memory\<close>

lemma opt_leD: "opt_le x y \<Longrightarrow> x = Some v \<Longrightarrow> y = Some v"
  by (auto simp: opt_le_def)

lemma opt_le_rules [elf_le]:
  "opt_le x x" "opt_le None x"
  "opt_le u v \<Longrightarrow> (\<And>c. opt_le (f c) (g c)) \<Longrightarrow> opt_le (Option.bind u f) (Option.bind v g)"
  "(b \<Longrightarrow> opt_le x y) \<Longrightarrow> (\<not> b \<Longrightarrow> opt_le x' y') \<Longrightarrow> opt_le (if b then x else x') (if b then y else y')"
  "opt_le x y \<Longrightarrow> (\<And>d. opt_le (f' d) (g' d)) \<Longrightarrow> opt_le (case_option x f' z) (case_option y g' z)"
  "(\<And>d e. opt_le (f'' d e) (g'' d e)) \<Longrightarrow> opt_le (case_prod f'' w) (case_prod g'' w)"
  by (auto simp: opt_le_def split: option.splits prod.splits) (metis bind.bind_lunit option.exhaust bind.bind_lzero)+

lemma get8_le [elf_le]: "m \<subseteq>\<^sub>m m' \<Longrightarrow> opt_le (get8 m a) (get8 m' a)"
  by (auto simp: get8_def opt_le_def map_le_def dom_def)

lemma get_le [elf_le]:
  assumes "m \<subseteq>\<^sub>m m'" shows "opt_le (get16 m a) (get16 m' a)" "opt_le (get32 m a) (get32 m' a)"
  using assms unfolding get16_def get32_def by (auto intro!: elf_le)

lemma str_eq_le [elf_le]: "m \<subseteq>\<^sub>m m' \<Longrightarrow> opt_le (str_eq m a cs) (str_eq m' a cs)"
  by (induction cs arbitrary: a) (auto intro!: elf_le)

lemma has_name_le [elf_le]: "m \<subseteq>\<^sub>m m' \<Longrightarrow> opt_le (has_name m syms strs symbol i) (has_name m' syms strs symbol i)"
  unfolding has_name_def by (auto intro!: elf_le)

lemma find_segment_le [elf_le]: "m \<subseteq>\<^sub>m m' \<Longrightarrow> opt_le (find_segment m n p t) (find_segment m' n p t)"
  by (induction n arbitrary: p) (auto intro!: elf_le)

lemma dyn_entry_le [elf_le]: "m \<subseteq>\<^sub>m m' \<Longrightarrow> opt_le (dyn_entry m t v info) (dyn_entry m' t v info)"
  unfolding dyn_entry_def hash_table_def Let_def by (auto intro!: elf_le)

lemma dyn_loop_le [elf_le]: "m \<subseteq>\<^sub>m m' \<Longrightarrow> opt_le (dyn_loop m n p info) (dyn_loop m' n p info)"
  by (induction n arbitrary: p info) (auto intro!: elf_le)

lemma getElfInfoBySegmentView_le [elf_le]: "m \<subseteq>\<^sub>m m' \<Longrightarrow> opt_le (getElfInfoBySegmentView m h) (getElfInfoBySegmentView m' h)"
  unfolding getElfInfoBySegmentView_def new_info_def getSegmentInfo_def findSegmentByType_def Let_def by (auto intro!: elf_le)

section \<open>The symbol search finds the symbol\<close>

text \<open>The names of the symbols, of which the first is the empty one; the rows of the hash table, in which each
  symbol stands in the one of its hash value.\<close>

definition symbols :: "maps_mem \<Rightarrow> ElfInfo \<Rightarrow> u8 list list \<Rightarrow> bool" where
  "symbols m info names \<longleftrightarrow> names \<noteq> [] \<and> names ! 0 = [] \<and> length names < 2 ^ 32 \<and> sym info \<noteq> None \<and> symstr info \<noteq> None \<and>
     (\<forall>i < length names. 0 \<notin> set (names ! i) \<and> has_name m (the (sym info)) (the (symstr info)) (names ! i) (of_nat i) = Some True)"

fun chain_at :: "maps_mem \<Rightarrow> u32 \<Rightarrow> u32 \<Rightarrow> u32 list \<Rightarrow> bool" where
  "chain_at m ch i [] \<longleftrightarrow> i = 0"
| "chain_at m ch i (k # ks) \<longleftrightarrow> i = k \<and> k \<noteq> 0 \<and> (case get32 m (ch + 4 * k) of None \<Rightarrow> False | Some j \<Rightarrow> chain_at m ch j ks)"

definition hash_chains :: "maps_mem \<Rightarrow> ElfInfo \<Rightarrow> u8 list list \<Rightarrow> u32 list list \<Rightarrow> bool" where
  "hash_chains m info names rows \<longleftrightarrow>
     nbucket info = Some (of_nat (length rows)) \<and> rows \<noteq> [] \<and> length rows < 2 ^ 32 \<and> bucket info \<noteq> None \<and> chain info \<noteq> None \<and>
     get32 m (the (chain info)) = Some 0 \<and>
     (\<forall>b < length rows.
        (case get32 m (the (bucket info) + 4 * of_nat b) of None \<Rightarrow> False | Some i \<Rightarrow> chain_at m (the (chain info)) i (rows ! b)) \<and>
        (\<forall>k \<in> set (rows ! b). unat k < length names)) \<and>
     (\<forall>k < length names. 0 < k \<longrightarrow> of_nat k \<in> set (rows ! (sysv_hash (names ! k) mod length rows)))"

lemma str_eq_exact:
  assumes "str_eq m a t = Some True" "0 \<notin> set t" "0 \<notin> set s"
  shows "str_eq m a s = Some (t = s)"
  using assms
proof (induction t arbitrary: a s)
  case Nil
  then show ?case by (cases s) (auto simp: bind_eq_Some_conv)
next
  case (Cons c t)
  then show ?case by (cases s) (auto simp: bind_eq_Some_conv split: if_splits)
qed

lemma has_name_exact:
  assumes "symbols m info names" "0 \<notin> set symbol" "unat k < length names"
  shows "has_name m (the (sym info)) (the (symstr info)) symbol k = Some (names ! unat k = symbol)"
proof -
  have n: "0 \<notin> set (names ! unat k)" "has_name m (the (sym info)) (the (symstr info)) (names ! unat k) k = Some True"
    using assms(1,3) by (auto simp: symbols_def)
  then obtain st where "get32 m (the (sym info) + 16 * k) = Some st" "str_eq m (the (symstr info) + st) (names ! unat k) = Some True"
    by (auto simp: has_name_def bind_eq_Some_conv)
  with str_eq_exact [OF this(2) n(1) assms(2)] show ?thesis by (simp add: has_name_def)
qed

lemma chain_loop_walks:
  assumes sy: "symbols m info names" and symbol: "0 \<notin> set symbol" "symbol \<noteq> []"
    and j: "get32 m (ch + 4 * i) = Some j" "chain_at m ch j ks" "\<forall>k \<in> set ks. unat k < length names"
  shows "chain_loop m ch (the (sym info)) (the (symstr info)) symbol i = Some (find (\<lambda>k. names ! unat k = symbol) ks)"
  using j
proof (induction ks arbitrary: i j)
  case Nil
  have "has_name m (the (sym info)) (the (symstr info)) symbol 0 = Some False"
    using has_name_exact [OF sy symbol(1), of 0] sy symbol(2) by (auto simp: symbols_def)
  with Nil show ?case by (subst chain_loop.simps) simp
next
  case (Cons k ks)
  then obtain j' where j': "j = k" "k \<noteq> 0" "get32 m (ch + 4 * k) = Some j'" "chain_at m ch j' ks" by (auto split: option.splits)
  have "has_name m (the (sym info)) (the (symstr info)) symbol k = Some (names ! unat k = symbol)"
    using has_name_exact [OF sy symbol(1)] Cons.prems(3) by simp
  with Cons j' show ?case by (subst chain_loop.simps) simp
qed

lemma findSymByName_find:
  assumes sy: "symbols m info names" and hc: "hash_chains m info names rows" and symbol: "0 \<notin> set symbol" "symbol \<noteq> []"
  shows "findSymByName m info symbol =
    Some (find (\<lambda>k. names ! unat k = symbol) (rows ! (sysv_hash symbol mod length rows)))"
proof -
  define b where "b = sysv_hash symbol mod length rows"
  have b: "b < length rows" using hc by (simp add: b_def hash_chains_def)
  have len: "unat (of_nat (length rows) :: u32) = length rows"
    using hc by (simp add: hash_chains_def unat_of_nat take_bit_nat_eq_self)
  have "b = unat (elf_hash symbol mod of_nat (length rows))"
    by (simp add: unat_mod_distrib len elf_hash_sysv b_def)
  then have e: "elf_hash symbol mod of_nat (length rows) = of_nat b" by simp
  obtain i where i: "get32 m (the (bucket info) + 4 * of_nat b) = Some i" "chain_at m (the (chain info)) i (rows ! b)"
    "\<forall>k \<in> set (rows ! b). unat k < length names"
    using hc b by (auto simp: hash_chains_def split: option.splits)
  have nz: "of_nat (length rows) \<noteq> (0 :: u32)" using len hc by (metis hash_chains_def length_0_conv unat_0)
  have hit: "unat k < length names \<Longrightarrow> has_name m (the (sym info)) (the (symstr info)) symbol k = Some (names ! unat k = symbol)" for k
    by (rule has_name_exact [OF sy symbol(1)])
  have top: "findSymByName m info symbol =
      (if names ! unat i = symbol then Some (Some i)
       else chain_loop m (the (chain info)) (the (sym info)) (the (symstr info)) symbol i)" if "unat i < length names"
    using sy hc i(1) e nz hit [OF that] by (auto simp: findSymByName_def symbols_def hash_chains_def)
  show ?thesis
  proof (cases "rows ! b")
    case Nil
    with i have "i = 0" by simp
    moreover have "get32 m (the (chain info) + 4 * 0) = Some 0" using hc by (simp add: hash_chains_def)
    from chain_loop_walks [OF sy symbol this, of "[]"]
    have "chain_loop m (the (chain info)) (the (sym info)) (the (symstr info)) symbol 0 = Some None" by simp
    moreover have "names ! 0 \<noteq> symbol" "0 < length names" using sy symbol(2) by (auto simp: symbols_def)
    ultimately show ?thesis using top Nil by (simp add: b_def)
  next
    case (Cons k ks)
    with i obtain j where "i = k" "get32 m (the (chain info) + 4 * k) = Some j" "chain_at m (the (chain info)) j ks"
      by (auto split: option.splits)
    with chain_loop_walks [OF sy symbol this(2,3)] top i(3) Cons show ?thesis by (simp add: b_def)
  qed
qed

lemma findSymByName_cases:
  assumes sy: "symbols m info names" and hc: "hash_chains m info names rows" and symbol: "0 \<notin> set symbol" "symbol \<noteq> []"
  shows "case findSymByName m info symbol of
      None \<Rightarrow> False
    | Some None \<Rightarrow> symbol \<notin> set names
    | Some (Some k) \<Rightarrow> 0 < k \<and> unat k < length names \<and> names ! unat k = symbol"
proof -
  define b where "b = sysv_hash symbol mod length rows"
  have b: "b < length rows" using hc by (simp add: b_def hash_chains_def)
  note f = findSymByName_find [OF assms, folded b_def]
  show ?thesis
  proof (cases "find (\<lambda>k. names ! unat k = symbol) (rows ! b)")
    case None
    then have none: "\<forall>k \<in> set (rows ! b). names ! unat k \<noteq> symbol" by (simp add: find_None_iff)
    have "names ! j \<noteq> symbol" if "j < length names" for j
    proof (cases "j = 0")
      case True
      then show ?thesis using sy symbol(2) by (auto simp: symbols_def)
    next
      case False
      have "unat (of_nat j :: u32) = j" using that sy by (simp add: symbols_def unat_of_nat take_bit_nat_eq_self)
      then show ?thesis using none hc that False unfolding hash_chains_def b_def by (metis gr0I)
    qed
    then show ?thesis using f None by (auto simp: in_set_conv_nth)
  next
    case (Some k)
    then have k: "k \<in> set (rows ! b)" "names ! unat k = symbol" by (auto simp: find_Some_iff)
    then have "unat k < length names" using hc b by (auto simp: hash_chains_def)
    moreover have "k \<noteq> 0" using k(2) sy symbol(2) by (auto simp: symbols_def)
    ultimately show ?thesis using f Some k(2) by (simp add: word_neq_0_conv)
  qed
qed

section \<open>Which slots are replaced\<close>

definition slot_bytes :: "u32 \<Rightarrow> u32 set" where "slot_bytes a = {a, a + 1, a + 2, a + 3}"

lemma u8_high: "8 \<le> n \<Longrightarrow> bit (x :: u8) n = False"
  by (auto dest: bit_imp_le_length)

lemma le32_of_le32: "le32 (of_le32 x y z w) = [x, y, z, w]"
  unfolding le32_def of_le32_def by (auto intro!: bit_word_eqI simp: bit_simps u8_high)

lemma get32_bytes: "get32 m a = Some v \<longleftrightarrow> [m a, m (a + 1), m (a + 2), m (a + 3)] = map Some (le32 v)"
proof
  assume "get32 m a = Some v"
  then obtain x y z w where "m a = Some x" "m (a + 1) = Some y" "m (a + 2) = Some z" "m (a + 3) = Some w" "v = of_le32 x y z w"
    by (auto simp: get32_def get8_def bind_eq_Some_conv)
  then show "[m a, m (a + 1), m (a + 2), m (a + 3)] = map Some (le32 v)" by (simp add: le32_of_le32)
next
  assume "[m a, m (a + 1), m (a + 2), m (a + 3)] = map Some (le32 v)"
  then show "get32 m a = Some v" by (simp add: get32_def get8_def le32_def)
qed

lemma get32_cong: "(\<And>x. x \<in> slot_bytes a \<Longrightarrow> m' x = m x) \<Longrightarrow> get32 m' a = get32 m a"
  by (simp add: get32_def get8_def slot_bytes_def)

lemma put32_effect:
  assumes "get32 m a \<noteq> None"
  shows "\<exists>m'. put32 m a v = Some m' \<and> get32 m' a = Some v \<and> (\<forall>x. x \<notin> slot_bytes a \<longrightarrow> m' x = m x)"
proof -
  obtain c where c: "get32 m a = Some c" using assms by auto
  let ?m' = "m(a \<mapsto> le32 v ! 0, a + 1 \<mapsto> le32 v ! 1, a + 2 \<mapsto> le32 v ! 2, a + 3 \<mapsto> le32 v ! 3)"
  have "put32 m a v = Some ?m'" using c by (simp add: put32_def)
  moreover have "get32 ?m' a = Some v" unfolding get32_bytes by (simp add: le32_def)
  moreover have "\<forall>x. x \<notin> slot_bytes a \<longrightarrow> ?m' x = m x" by (simp add: slot_bytes_def)
  ultimately show ?thesis by blast
qed

text \<open>The relocations of a table, as pairs of their offset and their information.\<close>

fun rels_at :: "maps_mem \<Rightarrow> u32 \<Rightarrow> (u32 \<times> u32) list \<Rightarrow> bool" where
  "rels_at m p [] \<longleftrightarrow> True"
| "rels_at m p ((r_offset, r_info) # rs) \<longleftrightarrow> get32 m p = Some r_offset \<and> get32 m (p + 4) = Some r_info \<and> rels_at m (p + 8) rs"

definition plt_slots :: "u32 \<Rightarrow> u32 \<Rightarrow> (u32 \<times> u32) list \<Rightarrow> u32 list" where
  "plt_slots eb symidx rs = map (\<lambda>r. eb + fst r) (take 1 (filter (\<lambda>r. plt_match symidx (snd r)) rs))"

definition dyn_slots :: "u32 \<Rightarrow> u32 \<Rightarrow> (u32 \<times> u32) list \<Rightarrow> u32 list" where
  "dyn_slots eb symidx rs = map (\<lambda>r. eb + fst r) (filter (\<lambda>r. dyn_match symidx (snd r)) rs)"

fun replace_all :: "elf_os \<Rightarrow> u32 \<Rightarrow> u32 list \<Rightarrow> elf_state \<Rightarrow> (bool \<times> elf_state) option" where
  "replace_all os v [] s = Some (True, s)"
| "replace_all os v (a # as) s =
     do { (res, s') \<leftarrow> replaceFunc os a v s; if res \<noteq> 0 then Some (False, s') else replace_all os v as s' }"

lemma plt_loop_slots:
  "rels_at (emem s) p rs \<Longrightarrow> plt_loop os eb symidx v (length rs) p s = replace_all os v (plt_slots eb symidx rs) s"
proof (induction rs arbitrary: p)
  case (Cons r rs)
  obtain o' i where "r = (o', i)" by (cases r)
  with Cons show ?case
    by (cases "replaceFunc os (eb + o') v s") (auto simp: plt_slots_def split: prod.splits)
qed (simp add: plt_slots_def)

lemma restrict_cong: "(\<And>x. x \<in> T \<Longrightarrow> m' x = m x) \<Longrightarrow> m' |` T = m |` T"
  by (auto simp: restrict_map_def)

lemma rels_at_le: "m \<subseteq>\<^sub>m m' \<Longrightarrow> rels_at m p rs \<Longrightarrow> rels_at m' p rs"
  by (induction rs arbitrary: p) (auto dest: opt_leD [OF get_le(2)])

lemma restrict_le: "m |` T \<subseteq>\<^sub>m m"
  by (auto simp: map_le_def restrict_map_def split: if_splits)

lemma replaceFunc_tables:
  assumes "replaceFunc os a v s = Some (res, s')" "slot_bytes a \<inter> T = {}"
  shows "emem s' |` T = emem s |` T"
proof -
  obtain cur where cur: "get32 (emem s) a = Some cur" using assms(1) by (auto simp: replaceFunc_def bind_eq_Some_conv)
  obtain m' where m': "put32 (emem s) a v = Some m'" "\<forall>x. x \<notin> slot_bytes a \<longrightarrow> m' x = emem s x"
    using put32_effect [of "emem s" a v] cur by auto
  have "emem s' = emem s \<or> emem s' = m'"
    using assms(1) cur m'(1) by (auto simp: replaceFunc_def Let_def split: if_splits)
  then show ?thesis using m'(2) assms(2) by (auto intro!: restrict_cong)
qed

lemma replace_all_tables:
  assumes "replace_all os v as s = Some (go, s')" "\<forall>a \<in> set as. slot_bytes a \<inter> T = {}"
  shows "emem s' |` T = emem s |` T"
  using assms
proof (induction as arbitrary: s)
  case (Cons a as)
  then obtain res s1 where "replaceFunc os a v s = Some (res, s1)" "res = 0 \<longrightarrow> replace_all os v as s1 = Some (go, s')" "res \<noteq> 0 \<longrightarrow> s' = s1"
    by (auto simp: bind_eq_Some_conv split: if_splits)
  with Cons replaceFunc_tables show ?case by (cases "res = 0") auto
qed simp

lemma dynrel_loop_slots:
  assumes "rels_at (emem s |` T) p rs" "\<forall>a \<in> set (dyn_slots eb symidx rs). slot_bytes a \<inter> T = {}"
  shows "dynrel_loop os eb symidx v (length rs) p s = replace_all os v (dyn_slots eb symidx rs) s"
  using assms
proof (induction rs arbitrary: p s)
  case (Cons r rs)
  obtain o' i where r: "r = (o', i)" by (cases r)
  have rd: "get32 (emem s) p = Some o'" "get32 (emem s) (p + 4) = Some i" "rels_at (emem s |` T) (p + 8) rs"
    using rels_at_le [OF restrict_le Cons.prems(1)] Cons.prems(1) r by auto
  show ?case
  proof (cases "dyn_match symidx i")
    case True
    have t: "slot_bytes (eb + o') \<inter> T = {}" "\<forall>a \<in> set (dyn_slots eb symidx rs). slot_bytes a \<inter> T = {}"
      using Cons.prems(2) True r by (auto simp: dyn_slots_def)
    have "dynrel_loop os eb symidx v (length rs) (p + 8) s' = replace_all os v (dyn_slots eb symidx rs) s'"
      if "replaceFunc os (eb + o') v s = Some (res, s')" for res s'
      using Cons.IH [of s' "p + 8"] replaceFunc_tables [OF that t(1)] rd(3) t(2) by simp
    with True r rd(1,2) show ?thesis
      by (cases "replaceFunc os (eb + o') v s") (auto simp: dyn_slots_def split: prod.splits)
  next
    case False
    with Cons.IH [OF rd(3)] Cons.prems(2) r rd(2) show ?thesis by (simp add: dyn_slots_def)
  qed
qed (simp add: dyn_slots_def)

lemma replace_all_append:
  "replace_all os v (as @ bs) s = do { (go, s') \<leftarrow> replace_all os v as s; if go then replace_all os v bs s' else Some (False, s') }"
  by (induction as arbitrary: s) (auto split: Option.bind_splits)

text \<open>The pointer that the caller gets back: the first address that was in a slot and is not the replacement.\<close>

definition first_old :: "u32 \<Rightarrow> u32 \<Rightarrow> u32 list \<Rightarrow> u32" where
  "first_old v old cs = (if old \<noteq> 0 then old else case find (\<lambda>c. c \<noteq> v \<and> c \<noteq> 0) cs of None \<Rightarrow> 0 | Some c \<Rightarrow> c)"

definition disjoint_slots :: "u32 list \<Rightarrow> bool" where
  "disjoint_slots as \<longleftrightarrow> distinct as \<and> (\<forall>a \<in> set as. \<forall>b \<in> set as. a \<noteq> b \<longrightarrow> slot_bytes a \<inter> slot_bytes b = {})"

lemma replaceFunc_effect:
  assumes "get32 (emem s) a = Some c" "mprotect_ok os (page_start os a)"
  shows "\<exists>s'. replaceFunc os a v s = Some (0, s') \<and> get32 (emem s') a = Some v \<and>
    (\<forall>x. x \<notin> slot_bytes a \<longrightarrow> emem s' x = emem s x) \<and> old_func s' = first_old v (old_func s) [c]"
proof (cases "c = v")
  case True
  with assms show ?thesis by (auto simp: replaceFunc_def first_old_def)
next
  case False
  obtain m' where "put32 (emem s) a v = Some m'" "get32 m' a = Some v" "\<forall>x. x \<notin> slot_bytes a \<longrightarrow> m' x = emem s x"
    using put32_effect [of "emem s" a v] assms(1) by auto
  with assms False show ?thesis by (auto simp: replaceFunc_def Let_def first_old_def)
qed

lemma replace_all_effect:
  assumes "\<forall>a \<in> set as. get32 (emem s) a \<noteq> None \<and> mprotect_ok os (page_start os a)" "disjoint_slots as"
  shows "\<exists>s'. replace_all os v as s = Some (True, s') \<and> (\<forall>a \<in> set as. get32 (emem s') a = Some v) \<and>
    (\<forall>x. (\<forall>a \<in> set as. x \<notin> slot_bytes a) \<longrightarrow> emem s' x = emem s x) \<and>
    old_func s' = first_old v (old_func s) (map (\<lambda>a. the (get32 (emem s) a)) as)"
  using assms
proof (induction as arbitrary: s)
  case Nil
  then show ?case by (simp add: first_old_def)
next
  case (Cons a as)
  obtain c where c: "get32 (emem s) a = Some c" using Cons.prems(1) by auto
  then obtain s1 where s1: "replaceFunc os a v s = Some (0, s1)" "get32 (emem s1) a = Some v"
    "\<forall>x. x \<notin> slot_bytes a \<longrightarrow> emem s1 x = emem s x" "old_func s1 = first_old v (old_func s) [c]"
    using replaceFunc_effect [OF c, of os v] Cons.prems(1) by auto
  have apart: "slot_bytes a \<inter> slot_bytes b = {}" if "b \<in> set as" for b
    using that Cons.prems(2) by (auto simp: disjoint_slots_def)
  have same: "get32 (emem s1) b = get32 (emem s) b" if "b \<in> set as" for b
    using apart [OF that] s1(3) by (intro get32_cong) blast
  have "\<forall>b \<in> set as. get32 (emem s1) b \<noteq> None \<and> mprotect_ok os (page_start os b)" "disjoint_slots as"
    using Cons.prems same by (auto simp: disjoint_slots_def)
  from Cons.IH [OF this] obtain s2 where s2: "replace_all os v as s1 = Some (True, s2)" "\<forall>b \<in> set as. get32 (emem s2) b = Some v"
    "\<forall>x. (\<forall>b \<in> set as. x \<notin> slot_bytes b) \<longrightarrow> emem s2 x = emem s1 x"
    "old_func s2 = first_old v (old_func s1) (map (\<lambda>b. the (get32 (emem s1) b)) as)"
    by blast
  have "get32 (emem s2) a = get32 (emem s1) a"
    using apart s2(3) by (intro get32_cong) blast
  moreover have e: "map (\<lambda>b. the (get32 (emem s1) b)) as = map (\<lambda>b. the (get32 (emem s) b)) as" by (simp add: same)
  have "old_func s2 = first_old v (old_func s) (map (\<lambda>b. the (get32 (emem s) b)) (a # as))"
    using s2(4) [unfolded e s1(4)] c by (auto simp: first_old_def)
  ultimately show ?case using s1 s2 by auto
qed

section \<open>Hooking an imported function\<close>

text \<open>A library in memory: its handle, what the code reads of its headers, the names of its symbols, the
  chains of its hash table and its two relocation tables.\<close>

record library =
  lib_handle :: ElfHandle
  lib_info :: ElfInfo
  lib_names :: "u8 list list"
  lib_rows :: "u32 list list"
  lib_plt :: "(u32 \<times> u32) list"
  lib_dyn :: "(u32 \<times> u32) list"

definition loaded :: "elf_os \<Rightarrow> string option \<Rightarrow> maps_mem \<Rightarrow> library \<Rightarrow> bool" where
  "loaded os soname m L \<longleftrightarrow>
     openElfBySoname (elf_maps os) soname = Some (Some (lib_handle L)) \<and>
     getElfInfoBySegmentView m (lib_handle L) = Some (Some (lib_info L)) \<and>
     symbols m (lib_info L) (lib_names L) \<and> hash_chains m (lib_info L) (lib_names L) (lib_rows L) \<and> distinct (lib_names L) \<and>
     relpltsz (lib_info L) = Some (of_nat (length (lib_plt L))) \<and> length (lib_plt L) < 2 ^ 32 \<and>
     reldynsz (lib_info L) = Some (of_nat (length (lib_dyn L))) \<and> length (lib_dyn L) < 2 ^ 32 \<and>
     (lib_plt L \<noteq> [] \<longrightarrow> relplt (lib_info L) \<noteq> None \<and> rels_at m (the (relplt (lib_info L))) (lib_plt L)) \<and>
     (lib_dyn L \<noteq> [] \<longrightarrow> reldyn (lib_info L) \<noteq> None \<and> rels_at m (the (reldyn (lib_info L))) (lib_dyn L))"

text \<open>The addresses of the slots that the relocations of a symbol name.\<close>

definition lib_slots :: "library \<Rightarrow> u8 list \<Rightarrow> u32 list" where
  "lib_slots L symbol =
     (case find (\<lambda>k. lib_names L ! k = symbol) [0..<length (lib_names L)] of
        None \<Rightarrow> []
      | Some k \<Rightarrow> plt_slots (elf_base (lib_info L)) (of_nat k) (lib_plt L) @ dyn_slots (elf_base (lib_info L)) (of_nat k) (lib_dyn L))"

lemma symbols_le: "m \<subseteq>\<^sub>m m' \<Longrightarrow> symbols m info names \<Longrightarrow> symbols m' info names"
  by (auto simp: symbols_def dest: opt_leD [OF has_name_le])

lemma chain_at_le: "m \<subseteq>\<^sub>m m' \<Longrightarrow> chain_at m ch i ks \<Longrightarrow> chain_at m' ch i ks"
  by (induction ks arbitrary: i) (auto split: option.splits dest: opt_leD [OF get_le(2)])

lemma hash_chains_le:
  assumes "m \<subseteq>\<^sub>m m'" "hash_chains m info names rows"
  shows "hash_chains m' info names rows"
proof -
  have "case get32 m' (the (bucket info) + 4 * of_nat b) of None \<Rightarrow> False | Some i \<Rightarrow> chain_at m' (the (chain info)) i (rows ! b)"
    if "b < length rows" for b
  proof -
    have "case get32 m (the (bucket info) + 4 * of_nat b) of None \<Rightarrow> False | Some i \<Rightarrow> chain_at m (the (chain info)) i (rows ! b)"
      using assms(2) that unfolding hash_chains_def by blast
    then obtain i where "get32 m (the (bucket info) + 4 * of_nat b) = Some i" "chain_at m (the (chain info)) i (rows ! b)"
      by (auto split: option.splits)
    then show ?thesis using opt_leD [OF get_le(2) [OF assms(1)]] chain_at_le [OF assms(1)] by simp
  qed
  moreover have "get32 m' (the (chain info)) = Some 0"
    using assms(2) opt_leD [OF get_le(2) [OF assms(1)]] by (simp add: hash_chains_def)
  ultimately show ?thesis using assms(2) by (simp add: hash_chains_def)
qed

lemma loaded_le: "m \<subseteq>\<^sub>m m' \<Longrightarrow> loaded os soname m L \<Longrightarrow> loaded os soname m' L"
  by (auto simp: loaded_def intro: symbols_le hash_chains_le rels_at_le dest: opt_leD [OF getElfInfoBySegmentView_le])

lemma findSymByName_index:
  assumes "loaded os soname m L" "0 \<notin> set symbol" "symbol \<noteq> []"
  shows "findSymByName m (lib_info L) symbol =
    Some (map_option of_nat (find (\<lambda>k. lib_names L ! k = symbol) [0..<length (lib_names L)]))"
proof -
  have l: "symbols m (lib_info L) (lib_names L)" "hash_chains m (lib_info L) (lib_names L) (lib_rows L)" "distinct (lib_names L)"
    using assms(1) by (auto simp: loaded_def)
  have f: "case findSymByName m (lib_info L) symbol of None \<Rightarrow> False | Some None \<Rightarrow> symbol \<notin> set (lib_names L)
    | Some (Some k) \<Rightarrow> 0 < k \<and> unat k < length (lib_names L) \<and> lib_names L ! unat k = symbol"
    by (rule findSymByName_cases [OF l(1,2) assms(2,3)])
  show ?thesis
  proof (cases "find (\<lambda>k. lib_names L ! k = symbol) [0..<length (lib_names L)]")
    case None
    then have "symbol \<notin> set (lib_names L)" by (auto simp: find_None_iff in_set_conv_nth)
    with None f show ?thesis by (auto split: option.splits)
  next
    case (Some k)
    then have k: "k < length (lib_names L)" "lib_names L ! k = symbol" by (auto simp: find_Some_iff)
    then have "symbol \<in> set (lib_names L)" by auto
    with f obtain j where j: "findSymByName m (lib_info L) symbol = Some (Some j)" "unat j < length (lib_names L)"
      "lib_names L ! unat j = symbol"
      by (auto split: option.splits)
    with k l(3) have "unat j = k" by (metis nth_eq_iff_index_eq)
    then have "j = of_nat k" by auto
    with j(1) Some show ?thesis by simp
  qed
qed

lemma elfHook_replaces:
  assumes L: "loaded os soname (emem s |` T) L" and symbol: "0 \<notin> set symbol" "symbol \<noteq> []" and v: "v \<noteq> 0"
    and apart: "\<forall>a \<in> set (lib_slots L symbol). slot_bytes a \<inter> T = {}"
  shows "elfHook os soname symbol v s = map_option (\<lambda>r. Some (0, snd r)) (replace_all os v (lib_slots L symbol) s)"
proof -
  note L' = loaded_le [OF restrict_le L]
  note l = L' [unfolded loaded_def]
  show ?thesis
  proof (cases "find (\<lambda>k. lib_names L ! k = symbol) [0..<length (lib_names L)]")
    case None
    then show ?thesis
      using l v findSymByName_index [OF L' symbol] by (simp add: elfHook_def lib_slots_def)
  next
    case (Some k)
    define as where "as = plt_slots (elf_base (lib_info L)) (of_nat k) (lib_plt L)"
    define bs where "bs = dyn_slots (elf_base (lib_info L)) (of_nat k) (lib_dyn L)"
    have sl: "lib_slots L symbol = as @ bs" by (simp add: lib_slots_def Some as_def bs_def)
    have len: "unat (of_nat (length (lib_plt L)) :: u32) = length (lib_plt L)" "unat (of_nat (length (lib_dyn L)) :: u32) = length (lib_dyn L)"
      using l by (simp_all add: unat_of_nat take_bit_nat_eq_self)
    have plt: "(if of_nat (length (lib_plt L)) = (0 :: u32) then Some (True, s) else
        do { p1 \<leftarrow> relplt (lib_info L); plt_loop os (elf_base (lib_info L)) (of_nat k) v (unat (of_nat (length (lib_plt L)) :: u32)) p1 s }) =
      replace_all os v as s"
      using l plt_loop_slots [of s "the (relplt (lib_info L))" "lib_plt L"] len(1) by (cases "lib_plt L = []") (auto simp: as_def plt_slots_def)
    have dyn: "(if of_nat (length (lib_dyn L)) = (0 :: u32) then Some (True, s1) else
        do { p2 \<leftarrow> reldyn (lib_info L); dynrel_loop os (elf_base (lib_info L)) (of_nat k) v (unat (of_nat (length (lib_dyn L)) :: u32)) p2 s1 }) =
      replace_all os v bs s1" if "replace_all os v as s = Some (go, s1)" for go s1
    proof (cases "lib_dyn L = []")
      case True
      then show ?thesis by (simp add: bs_def dyn_slots_def)
    next
      case False
      have sl': "\<forall>a \<in> set as. slot_bytes a \<inter> T = {}" "\<forall>a \<in> set bs. slot_bytes a \<inter> T = {}" using apart sl by auto
      have "rels_at (emem s |` T) (the (reldyn (lib_info L))) (lib_dyn L)" using L False by (simp add: loaded_def)
      then have "rels_at (emem s1 |` T) (the (reldyn (lib_info L))) (lib_dyn L)"
        using replace_all_tables [OF that sl'(1)] by simp
      from dynrel_loop_slots [OF this sl'(2) [unfolded bs_def]] l len(2) False show ?thesis by (auto simp: bs_def)
    qed
    have "elfHook os soname symbol v s = do { (go, s1) \<leftarrow> replace_all os v as s;
        if \<not> go then Some (Some (0, s1)) else do { (_, s2) \<leftarrow> replace_all os v bs s1; Some (Some (0, s2)) } }"
    proof (cases "replace_all os v as s")
      case None
      with l v findSymByName_index [OF L' symbol] Some plt show ?thesis by (simp add: elfHook_def)
    next
      case (Some r)
      obtain go s1 where r: "r = (go, s1)" by (cases r)
      show ?thesis
        using l v findSymByName_index [OF L' symbol] \<open>find _ _ = Some k\<close> plt Some r dyn [of go s1] by (simp add: elfHook_def)
    qed
    then show ?thesis
      by (cases "replace_all os v as s"; cases "fst (the (replace_all os v as s))";
          cases "replace_all os v bs (snd (the (replace_all os v as s)))")
        (auto simp: sl replace_all_append)
  qed
qed

section \<open>Properties\<close>

text \<open>(C18) In a library whose hash table holds each symbol in the chain of its hash value, as the ELF specification
  defines it, the search ends, stays in the tables, and finds a symbol of the given name exactly when there is one.\<close>

theorem findSymByName_finds:
  assumes "symbols m info names" "hash_chains m info names rows" "0 \<notin> set symbol" "symbol \<noteq> []"
  shows "case findSymByName m info symbol of
      None \<Rightarrow> False
    | Some None \<Rightarrow> symbol \<notin> set names
    | Some (Some k) \<Rightarrow> 0 < k \<and> unat k < length names \<and> names ! unat k = symbol"
  using assms by (rule findSymByName_cases)

text \<open>What the theorems on hooking assume: the library is loaded, with its tables in \<open>T\<close>; the slots of the symbol
  are mapped outside \<open>T\<close>, do not overlap, and their pages can be made writeable.\<close>

definition hookable :: "elf_os \<Rightarrow> string option \<Rightarrow> u8 list \<Rightarrow> u32 set \<Rightarrow> maps_mem \<Rightarrow> library \<Rightarrow> bool" where
  "hookable os soname symbol T m L \<longleftrightarrow>
     loaded os soname (m |` T) L \<and> 0 \<notin> set symbol \<and> symbol \<noteq> [] \<and> disjoint_slots (lib_slots L symbol) \<and>
     (\<forall>a \<in> set (lib_slots L symbol). slot_bytes a \<inter> T = {} \<and> get32 m a \<noteq> None \<and> mprotect_ok os (page_start os a))"

lemma elfHook_effect:
  assumes "hookable os soname symbol T (emem s) L" "v \<noteq> 0"
  shows "\<exists>s'. elfHook os soname symbol v s = Some (Some (0, s')) \<and>
    (\<forall>a \<in> set (lib_slots L symbol). get32 (emem s') a = Some v) \<and>
    (\<forall>x. (\<forall>a \<in> set (lib_slots L symbol). x \<notin> slot_bytes a) \<longrightarrow> emem s' x = emem s x) \<and>
    old_func s' = first_old v (old_func s) (map (\<lambda>a. the (get32 (emem s) a)) (lib_slots L symbol))"
proof -
  note h = assms(1) [unfolded hookable_def]
  have "elfHook os soname symbol v s = map_option (\<lambda>r. Some (0, snd r)) (replace_all os v (lib_slots L symbol) s)"
    by (rule elfHook_replaces) (use h assms(2) in auto)
  moreover have "\<forall>a \<in> set (lib_slots L symbol). get32 (emem s) a \<noteq> None \<and> mprotect_ok os (page_start os a)"
    "disjoint_slots (lib_slots L symbol)"
    using h by auto
  from replace_all_effect [OF this, of v] obtain s' where
    "replace_all os v (lib_slots L symbol) s = Some (True, s')" "\<forall>a \<in> set (lib_slots L symbol). get32 (emem s') a = Some v"
    "\<forall>x. (\<forall>a \<in> set (lib_slots L symbol). x \<notin> slot_bytes a) \<longrightarrow> emem s' x = emem s x"
    "old_func s' = first_old v (old_func s) (map (\<lambda>a. the (get32 (emem s) a)) (lib_slots L symbol))"
    by blast
  ultimately show ?thesis by simp
qed

lemma hookable_after:
  assumes "hookable os soname symbol T m L" "\<forall>a \<in> set (lib_slots L symbol). get32 m' a = Some v"
    "\<forall>x. (\<forall>a \<in> set (lib_slots L symbol). x \<notin> slot_bytes a) \<longrightarrow> m' x = m x"
  shows "hookable os soname symbol T m' L"
proof -
  have "m' |` T = m |` T"
    using assms(1,3) by (intro restrict_cong) (auto simp: hookable_def)
  with assms(1,2) show ?thesis by (simp add: hookable_def)
qed

text \<open>(C16) Hooking a function that a loaded library imports puts the replacement into exactly the slots that its
  relocations name: the first jump slot of the symbol and all its absolute and global data slots.  Every
  other byte stays as it is, and the caller gets the first other address that was in a slot.\<close>

theorem elfHook_hooks:
  assumes "hookable os soname symbol T (emem s) L" "v \<noteq> 0"
  shows "\<exists>s'. elfHook os soname symbol v s = Some (Some (0, s')) \<and>
    (\<forall>a \<in> set (lib_slots L symbol). get32 (emem s') a = Some v) \<and>
    (\<forall>x. (\<forall>a \<in> set (lib_slots L symbol). x \<notin> slot_bytes a) \<longrightarrow> emem s' x = emem s x) \<and>
    old_func s' = first_old v (old_func s) (map (\<lambda>a. the (get32 (emem s) a)) (lib_slots L symbol))"
  using assms by (rule elfHook_effect)

lemma get32_bytes_eq:
  assumes "get32 m a = Some v" "get32 m' a = Some v" "x \<in> slot_bytes a"
  shows "m' x = m x"
  using assms unfolding get32_bytes by (auto simp: slot_bytes_def le32_def)

text \<open>(C17) When all slots of a function hold its address, as the dynamic linker leaves them, hooking it and then
  hooking it again with the address that was given back restores every byte of memory.\<close>

theorem elfHook_unhook:
  assumes h: "hookable os soname symbol T (emem s) L" and v: "v \<noteq> 0" "f \<noteq> 0" "f \<noteq> v" and old: "old_func s = 0"
    and ne: "lib_slots L symbol \<noteq> []" and f: "\<forall>a \<in> set (lib_slots L symbol). get32 (emem s) a = Some f"
  shows "\<exists>s1 s2. elfHook os soname symbol v s = Some (Some (0, s1)) \<and> old_func s1 = f \<and>
    elfHook os soname symbol (old_func s1) (s1\<lparr>old_func := 0\<rparr>) = Some (Some (0, s2)) \<and> emem s2 = emem s"
proof -
  obtain s1 where s1: "elfHook os soname symbol v s = Some (Some (0, s1))"
    "\<forall>a \<in> set (lib_slots L symbol). get32 (emem s1) a = Some v"
    "\<forall>x. (\<forall>a \<in> set (lib_slots L symbol). x \<notin> slot_bytes a) \<longrightarrow> emem s1 x = emem s x"
    "old_func s1 = first_old v (old_func s) (map (\<lambda>a. the (get32 (emem s) a)) (lib_slots L symbol))"
    using elfHook_effect [OF h v(1)] by blast
  obtain a as where sl: "lib_slots L symbol = a # as" using ne by (cases "lib_slots L symbol") simp_all
  then have o1: "old_func s1 = f" using s1(4) f v old by (simp add: first_old_def)
  have "hookable os soname symbol T (emem (s1\<lparr>old_func := 0\<rparr>)) L" using hookable_after [OF h s1(2,3)] by simp
  from elfHook_effect [OF this v(2)] obtain s2 where s2: "elfHook os soname symbol f (s1\<lparr>old_func := 0\<rparr>) = Some (Some (0, s2))"
    "\<forall>a \<in> set (lib_slots L symbol). get32 (emem s2) a = Some f"
    "\<forall>x. (\<forall>a \<in> set (lib_slots L symbol). x \<notin> slot_bytes a) \<longrightarrow> emem s2 x = emem s1 x"
    by auto
  have "emem s2 x = emem s x" for x
  proof (cases "\<forall>a \<in> set (lib_slots L symbol). x \<notin> slot_bytes a")
    case True
    with s1(3) s2(3) show ?thesis by simp
  next
    case False
    with f s2(2) show ?thesis by (auto intro: get32_bytes_eq)
  qed
  with s1(1) o1 s2(1) show ?thesis by auto
qed

text \<open>The result is \<open>0\<close> in every case, also when the library or the symbol is not found or a page cannot be made
  writeable.\<close>

lemma elfHook_result: "elfHook os soname symbol v s = Some (Some (r, s')) \<Longrightarrow> r = 0"
  by (auto simp: elfHook_def bind_eq_Some_conv split: if_splits option.splits prod.splits)

section \<open>An example\<close>

text \<open>A library of 220 bytes at \<open>0x1000\<close> with one symbol \<open>f\<close>, a jump slot and a data slot for it: the bytes that
  are not zero.  The header, one program header, the dynamic section, the symbol, its name, the hash table, the
  two relocations and the slots.\<close>

definition demo_elf :: "(u32 \<times> u8) list" where
  "demo_elf = [(28, 52), (44, 1), (52, 2), (60, 84), (72, 56),
     (84, 6), (88, 140), (92, 5), (96, 172), (100, 4), (104, 176), (108, 23), (112, 196),
     (116, 2), (120, 8), (124, 17), (128, 204), (132, 18), (136, 8),
     (156, 1), (173, 0x66), (176, 1), (180, 2), (184, 1),
     (196, 212), (200, 0x16), (201, 0x01), (204, 216), (208, 0x15), (209, 0x01), (213, 0x50), (217, 0x50)]"

definition demo_area :: "u32 \<Rightarrow> maps_mem" where
  "demo_area n a = (if a - 0x1000 < n then Some (case map_of demo_elf (a - 0x1000) of None \<Rightarrow> 0 | Some b \<Rightarrow> b) else None)"

definition demo_process :: elf_state where
  "demo_process = \<lparr>emem = demo_area 220, old_func = 0, elf_calls = []\<rparr>"

definition demo_elf_os :: elf_os where
  "demo_elf_os = \<lparr>elf_maps = Some [''00001000-00002000 r-xp lib''], getpagesize = 4096, mprotect_ok = (\<lambda>_. True)\<rparr>"

definition demo_handle :: ElfHandle where "demo_handle = \<lparr>base = 0x1000, space_size = - 1, fromfile = False\<rparr>"

definition demo_info :: ElfInfo where
  "demo_info = \<lparr>handle = demo_handle, elf_base = 0x1000, ehdr = 0x1000, phdr = 0x1034, shdr = 0x1000,
     dyn = Some 0x1054, dynsz = Some 7, sym = Some 0x108c, symsz = Some 2, relplt = Some 0x10c4, relpltsz = Some 1,
     reldyn = Some 0x10cc, reldynsz = Some 1, nbucket = Some 1, nchain = Some 2, bucket = Some 0x10b8, chain = Some 0x10bc,
     shstr = None, symstr = Some 0x10ac\<rparr>"

definition demo_library :: library where
  "demo_library = \<lparr>lib_handle = demo_handle, lib_info = demo_info,
     lib_names = [[], [0x66]], lib_rows = [[1]], lib_plt = [(212, 0x116)], lib_dyn = [(216, 0x115)]\<rparr>"

lemma demo_info_read: "getElfInfoBySegmentView (demo_area 212) demo_handle = Some (Some demo_info)"
  by code_simp

lemma demo_tables_read: "has_name (demo_area 212) 0x108c 0x10ac [] 0 = Some True" "has_name (demo_area 212) 0x108c 0x10ac [0x66] 1 = Some True"
  "get32 (demo_area 212) 0x10b8 = Some 1" "get32 (demo_area 212) 0x10bc = Some 0" "get32 (demo_area 212) 0x10c0 = Some 0"
  "rels_at (demo_area 212) 0x10c4 [(212, 0x116)]" "rels_at (demo_area 212) 0x10cc [(216, 0x115)]"
  by code_simp+

lemma demo_library_found: "openElfBySoname (elf_maps demo_elf_os) (Some ''lib'') = Some (Some demo_handle)"
  by code_simp

lemma demo_slots: "lib_slots demo_library [0x66] = [0x10d4, 0x10d8]"
  by code_simp

lemma demo_symbols: "symbols (demo_area 212) demo_info [[], [0x66]]"
  by (auto simp: symbols_def demo_info_def demo_tables_read less_Suc_eq)

lemma demo_chains: "hash_chains (demo_area 212) demo_info [[], [0x66]] [[1]]"
  by (auto simp: hash_chains_def demo_info_def demo_tables_read less_Suc_eq)

lemma demo_loaded: "loaded demo_elf_os (Some ''lib'') (demo_area 212) demo_library"
  using demo_library_found demo_info_read demo_symbols demo_chains demo_tables_read
  by (simp add: loaded_def demo_library_def) (simp add: demo_info_def)

definition demo_tables :: "u32 set" where "demo_tables = {a. a - 0x1000 < 212}"

lemma demo_restrict: "demo_area 220 |` demo_tables = demo_area 212"
proof -
  have "x < 220" if "x < 212" for x :: u32 by (rule order.strict_trans [OF that]) simp
  then show ?thesis by (intro ext) (auto simp: restrict_map_def demo_tables_def demo_area_def)
qed

lemma demo_slot_values: "get32 (demo_area 220) 0x10d4 = Some 0x5000" "get32 (demo_area 220) 0x10d8 = Some 0x5000"
  by code_simp+

lemma demo_hookable: "hookable demo_elf_os (Some ''lib'') [0x66] demo_tables (emem demo_process) demo_library"
proof -
  have e: "emem demo_process = demo_area 220" by (simp add: demo_process_def)
  have "slot_bytes 0x10d4 \<inter> demo_tables = {}" "slot_bytes 0x10d8 \<inter> demo_tables = {}"
    "disjoint_slots [0x10d4, 0x10d8]" "mprotect_ok demo_elf_os a" for a
    by (simp_all add: slot_bytes_def demo_tables_def disjoint_slots_def demo_elf_os_def)
  then show ?thesis unfolding hookable_def demo_slots e demo_restrict by (simp add: demo_loaded demo_slot_values)
qed

theorem findSymByName_finds_witness:
  "case findSymByName (demo_area 212) (lib_info demo_library) [0x66] of
      None \<Rightarrow> False
    | Some None \<Rightarrow> [0x66] \<notin> set [[], [0x66 :: u8]]
    | Some (Some k) \<Rightarrow> 0 < k \<and> unat k < 2 \<and> [[], [0x66]] ! unat k = [0x66 :: u8]"
proof -
  from findSymByName_finds [OF demo_symbols demo_chains, of "[0x66]"] show ?thesis
    by (simp add: demo_library_def split: option.splits)
qed

theorem elfHook_hooks_witness:
  "\<exists>s'. elfHook demo_elf_os (Some ''lib'') [0x66] 0x9000 demo_process = Some (Some (0, s')) \<and>
    get32 (emem s') 0x10d4 = Some 0x9000 \<and> get32 (emem s') 0x10d8 = Some 0x9000 \<and> old_func s' = 0x5000"
proof -
  have "first_old 0x9000 (old_func demo_process) (map (\<lambda>a. the (get32 (emem demo_process) a)) [0x10d4, 0x10d8]) = 0x5000"
    by code_simp
  with elfHook_hooks [OF demo_hookable, where v = "0x9000"] show ?thesis unfolding demo_slots by auto
qed

theorem elfHook_unhook_witness:
  "\<exists>s1 s2. elfHook demo_elf_os (Some ''lib'') [0x66] 0x9000 demo_process = Some (Some (0, s1)) \<and> old_func s1 = 0x5000 \<and>
    elfHook demo_elf_os (Some ''lib'') [0x66] (old_func s1) (s1\<lparr>old_func := 0\<rparr>) = Some (Some (0, s2)) \<and> emem s2 = emem demo_process"
proof -
  have "\<forall>a \<in> set (lib_slots demo_library [0x66]). get32 (emem demo_process) a = Some 0x5000" 
    unfolding demo_slots by (simp add: demo_process_def demo_slot_values)
  moreover have "lib_slots demo_library [0x66] \<noteq> []" by (simp add: demo_slots)
  moreover have "old_func demo_process = 0" by (simp add: demo_process_def)
  ultimately show ?thesis by (intro elfHook_unhook [OF demo_hookable]) simp_all
qed

end
