(* ===== verification/LzwSpec.thy ===== *)
theory LzwSpec
  imports Prelude
begin

text \<open>
  A reference definition of the LZW codes of GIF, independent of hash tables, bit packing and the
  arrays of the decoder.  A dictionary is the list of its entries, each a prefix code and a pixel;
  \<open>clear\<close> is the clear code, \<open>clear + 1\<close> the end code, and entry \<open>j\<close> has the code \<open>clear + 2 + j\<close>.
\<close>

section \<open>Dictionaries\<close>

type_synonym entries = "(int \<times> u8) list"

function str :: "int \<Rightarrow> entries \<Rightarrow> int \<Rightarrow> u8 list" where
  "str clear es c =
     (if c < clear then [of_int c]
      else if clear + 2 \<le> c \<and> nat (c - clear - 2) < length es
      then str clear (take (nat (c - clear - 2)) es) (fst (es ! nat (c - clear - 2))) @ [snd (es ! nat (c - clear - 2))]
      else [])"
  by pat_completeness auto
termination
  by (relation "measure (\<lambda>(clear, es, c). length es)") auto

declare str.simps [simp del]

definition valid :: "int \<Rightarrow> entries \<Rightarrow> int \<Rightarrow> bool" where
  "valid clear es c \<longleftrightarrow> 0 \<le> c \<and> c < clear \<or> clear + 2 \<le> c \<and> c < clear + 2 + int (length es)"

definition wf_entries :: "int \<Rightarrow> entries \<Rightarrow> bool" where
  "wf_entries clear es \<longleftrightarrow> (\<forall>j < length es. valid clear (take j es) (fst (es ! j)))"

lemma str_pixel: "c < clear \<Longrightarrow> str clear es c = [of_int c]"
  by (subst str.simps) simp

lemma str_entry:
  "j < length es \<Longrightarrow> str clear es (clear + 2 + int j) = str clear (take j es) (fst (es ! j)) @ [snd (es ! j)]"
  by (subst str.simps) simp

lemma valid_cases:
  assumes "valid clear es c"
  obtains (pixel) "0 \<le> c" "c < clear" | (entry) j where "j < length es" "c = clear + 2 + int j"
proof -
  consider "0 \<le> c \<and> c < clear" | "clear + 2 \<le> c \<and> c < clear + 2 + int (length es)" using assms by (auto simp: valid_def)
  then show thesis
  proof cases
    case 2
    then show thesis by (intro entry [of "nat (c - clear - 2)"]) auto
  qed (use pixel in blast)
qed

lemma str_append: "valid clear es c \<Longrightarrow> str clear (es @ es') c = str clear es c"
  by (erule valid_cases) (simp_all add: str_pixel str_entry nth_append)

lemma str_take: "valid clear (take j es) c \<Longrightarrow> str clear es c = str clear (take j es) c"
  using str_append [of clear "take j es" c "drop j es"] by simp

lemma valid_mono: "valid clear (take j es) c \<Longrightarrow> valid clear es c" "valid clear es c \<Longrightarrow> valid clear (es @ es') c"
  by (auto simp: valid_def)

lemma wf_entries_snoc: "wf_entries clear (es @ [(c, b)]) \<longleftrightarrow> wf_entries clear es \<and> valid clear es c"
  by (auto simp: wf_entries_def nth_append less_Suc_eq)

lemma str_not_Nil: "wf_entries clear es \<Longrightarrow> valid clear es c \<Longrightarrow> str clear es c \<noteq> []"
  by (erule valid_cases) (simp_all add: str_pixel str_entry)

text \<open>The string of an entry is the string of its prefix and its pixel.\<close>

lemma str_extend:
  assumes "wf_entries clear es" "j < length es" "es ! j = (c, b)"
  shows "str clear es (clear + 2 + int j) = str clear es c @ [b]"
proof -
  have "valid clear (take j es) c" using assms by (force simp: wf_entries_def)
  then show ?thesis using assms by (simp add: str_entry str_take)
qed

section \<open>Encoding and decoding\<close>

fun find_entry :: "entries \<Rightarrow> int \<Rightarrow> u8 \<Rightarrow> nat option" where
  "find_entry [] c b = None"
| "find_entry (e # es) c b = (if e = (c, b) then Some 0 else map_option Suc (find_entry es c b))"

lemma find_entry_Some: "find_entry es c b = Some j \<Longrightarrow> j < length es \<and> es ! j = (c, b)"
  by (induction es arbitrary: j) (auto split: if_splits)

lemma find_entry_None: "find_entry es c b = None \<longleftrightarrow> (c, b) \<notin> set es"
  by (induction es) auto

lemma find_entry_snoc:
  "find_entry (es @ [e]) c b = (case find_entry es c b of Some j \<Rightarrow> Some j | None \<Rightarrow> if e = (c, b) then Some (length es) else None)"
  by (induction es) (auto split: option.splits)

text \<open>The codes for the pixels \<open>ps\<close> when the code \<open>c\<close> stands for the pixels read and not yet sent.\<close>

fun enc :: "int \<Rightarrow> entries \<Rightarrow> int \<Rightarrow> u8 list \<Rightarrow> int list" where
  "enc clear es c [] = [c]"
| "enc clear es c (b # ps) =
     (case find_entry es c b of
        Some j \<Rightarrow> enc clear es (clear + 2 + int j) ps
      | None \<Rightarrow>
          c # (if clear + 2 + int (length es) \<ge> 4095 then clear # enc clear [] (uint b) ps
               else enc clear (es @ [(c, b)]) (uint b) ps))"

definition new_entry :: "int \<Rightarrow> entries \<Rightarrow> int \<Rightarrow> int \<Rightarrow> int \<times> u8" where
  "new_entry clear es l c = (l, hd (str clear es (if valid clear es c then c else l)))"

fun dec :: "int \<Rightarrow> entries \<Rightarrow> int option \<Rightarrow> int list \<Rightarrow> u8 list" where
  "dec clear es l [] = []"
| "dec clear es l (c # cs) =
     (if c = clear then dec clear [] None cs
      else case l of
        None \<Rightarrow> str clear es c @ dec clear es (Some c) cs
      | Some l \<Rightarrow> let es' = es @ [new_entry clear es l c] in str clear es' c @ dec clear es' (Some c) cs)"

lemma valid_pixel: "uint b < clear \<Longrightarrow> valid clear es (uint b)"
  by (simp add: valid_def)

text \<open>The decoder's entry completes the encoder's last one: its pixel is the first of the pending string.\<close>

lemma new_entry_pending:
  assumes wf: "wf_entries clear es" and es: "es = es0 @ [(l, hd (str clear es c))]" and c: "valid clear es c"
  shows "new_entry clear es0 l c = (l, hd (str clear es c))"
proof (cases "valid clear es0 c")
  case True
  then have "str clear es c = str clear es0 c" using es str_append by metis
  with True show ?thesis by (simp add: new_entry_def)
next
  case False
  have w0: "wf_entries clear es0" "valid clear es0 l" using wf es wf_entries_snoc by metis+
  have len: "length es = Suc (length es0)" by (subst es) simp
  have "c = clear + 2 + int (length es0)" using c False len by (auto simp: valid_def)
  moreover have "es ! length es0 = (l, hd (str clear es c))" by (subst es) simp
  ultimately have "str clear es c = str clear es l @ [hd (str clear es c)]"
    using str_extend [OF wf, of "length es0" l] len by simp
  moreover have "str clear es l = str clear es0 l" using es str_append w0(2) by metis
  ultimately have "hd (str clear es c) = hd (str clear es0 l)" using str_not_Nil [OF w0] by (metis hd_append2)
  with False show ?thesis by (simp add: new_entry_def)
qed

lemma dec_enc_step:
  assumes "1 \<le> clear" "clear \<le> 256" "\<forall>b \<in> set ps. uint b < clear"
  shows "0 \<le> c \<Longrightarrow> c < clear \<Longrightarrow> dec clear [] None (enc clear [] c ps) = of_int c # ps"
    "wf_entries clear es \<Longrightarrow> valid clear es c \<Longrightarrow> es = es0 @ [(l, hd (str clear es c))] \<Longrightarrow>
       dec clear es0 (Some l) (enc clear es c ps) = str clear es c @ ps"
  using assms(3)
proof (induction ps arbitrary: c es es0 l)
  case Nil
  { case 1
    then show ?case by (simp add: str_pixel)
  next
    case 2
    then have "c \<noteq> clear" by (auto simp: valid_def)
    moreover have "es0 @ [new_entry clear es0 l c] = es" using new_entry_pending [OF 2(1,3,2)] 2(3) by simp
    ultimately show ?case by simp }
next
  case (Cons b ps)
  note pixel = Cons.IH(1) [of "uint b"] and pending = Cons.IH(2)
  { case 1
    have "dec clear [] (Some c) (enc clear [(c, b)] (uint b) ps) = str clear [(c, b)] (uint b) @ ps"
      by (rule pending) (use 1 in \<open>auto simp: wf_entries_def valid_def str_pixel\<close>)
    with 1 assms(2) show ?case by (simp add: str_pixel)
  next
    case 2
    have b: "0 \<le> uint b" "uint b < clear" using 2(4) by auto
    have c: "c \<noteq> clear" using 2(2) by (auto simp: valid_def)
    have es: "es0 @ [new_entry clear es0 l c] = es" using new_entry_pending [OF 2(1,3,2)] 2(3) by simp
    show ?case
    proof (cases "find_entry es c b")
      case (Some j)
      note j = find_entry_Some [OF Some]
      let ?c = "clear + 2 + int j"
      have s: "str clear es ?c = str clear es c @ [b]" using str_extend [OF 2(1)] j by simp
      then have "hd (str clear es ?c) = hd (str clear es c)" using str_not_Nil [OF 2(1,2)] by simp
      then have "dec clear es0 (Some l) (enc clear es ?c ps) = str clear es ?c @ ps"
        using 2 j by (intro pending) (auto simp: valid_def)
      with Some s show ?thesis by simp
    next
      case None
      show ?thesis
      proof (cases "clear + 2 + int (length es) \<ge> 4095")
        case True
        with None c es pixel [OF b] 2 show ?thesis by (simp add: Let_def)
      next
        case False
        have "dec clear es (Some c) (enc clear (es @ [(c, b)]) (uint b) ps) = str clear (es @ [(c, b)]) (uint b) @ ps"
          by (rule pending) (use 2 b in \<open>auto simp: wf_entries_snoc valid_pixel str_pixel\<close>)
        with None False c es b show ?thesis by (simp add: Let_def str_pixel)
      qed
    qed }
qed

text \<open>Decoding inverts encoding.\<close>

lemma dec_enc:
  assumes "1 \<le> clear" "clear \<le> 256" "\<forall>b \<in> set (b # ps). uint b < clear"
  shows "dec clear [] None (enc clear [] (uint b) ps) = b # ps"
  using dec_enc_step(1) [OF assms(1,2), of ps "uint b"] assms(3) by simp

text \<open>The code sequences a decoder accepts: the first code after a clear code is a pixel, a later one is an
  entry of the dictionary with the entry it completes, and the dictionary is cleared in time.\<close>

fun good :: "int \<Rightarrow> entries \<Rightarrow> int option \<Rightarrow> int list \<Rightarrow> bool" where
  "good clear es l [] \<longleftrightarrow> True"
| "good clear es l (c # cs) \<longleftrightarrow>
     (if c = clear then good clear [] None cs
      else case l of
        None \<Rightarrow> 0 \<le> c \<and> c < clear \<and> good clear es (Some c) cs
      | Some l \<Rightarrow> let es' = es @ [new_entry clear es l c]
                 in valid clear es' c \<and> clear + 2 + int (length es') \<le> 4095 \<and> good clear es' (Some c) cs)"

lemma good_enc_step:
  assumes "1 \<le> clear" "clear \<le> 256" "\<forall>b \<in> set ps. uint b < clear"
  shows "0 \<le> c \<Longrightarrow> c < clear \<Longrightarrow> good clear [] None (enc clear [] c ps)"
    "wf_entries clear es \<Longrightarrow> valid clear es c \<Longrightarrow> es = es0 @ [(l, hd (str clear es c))] \<Longrightarrow>
       clear + 2 + int (length es) \<le> 4095 \<Longrightarrow> good clear es0 (Some l) (enc clear es c ps)"
  using assms(3)
proof (induction ps arbitrary: c es es0 l)
  case Nil
  { case 1
    then show ?case by simp
  next
    case 2
    then have "c \<noteq> clear" by (auto simp: valid_def)
    moreover have "es0 @ [new_entry clear es0 l c] = es" using new_entry_pending [OF 2(1,3,2)] 2(3) by simp
    ultimately show ?case using 2 by (simp add: Let_def) }
next
  case (Cons b ps)
  note pixel = Cons.IH(1) [of "uint b"] and pending = Cons.IH(2)
  { case 1
    have "good clear [] (Some c) (enc clear [(c, b)] (uint b) ps)"
      by (rule pending) (use 1 assms(2) in \<open>auto simp: wf_entries_def valid_def str_pixel\<close>)
    with 1 assms(2) show ?case by simp
  next
    case 2
    have b: "0 \<le> uint b" "uint b < clear" using 2(5) by auto
    have c: "c \<noteq> clear" using 2(2) by (auto simp: valid_def)
    have es: "es0 @ [new_entry clear es0 l c] = es" using new_entry_pending [OF 2(1,3,2)] 2(3) by simp
    show ?case
    proof (cases "find_entry es c b")
      case (Some j)
      note j = find_entry_Some [OF Some]
      let ?c = "clear + 2 + int j"
      have "str clear es ?c = str clear es c @ [b]" using str_extend [OF 2(1)] j by simp
      then have "hd (str clear es ?c) = hd (str clear es c)" using str_not_Nil [OF 2(1,2)] by simp
      then have "good clear es0 (Some l) (enc clear es ?c ps)"
        using 2 j by (intro pending) (auto simp: valid_def)
      with Some show ?thesis by simp
    next
      case None
      show ?thesis
      proof (cases "clear + 2 + int (length es) \<ge> 4095")
        case True
        with None c es pixel [OF b] 2 show ?thesis by (simp add: Let_def)
      next
        case False
        have "good clear es (Some c) (enc clear (es @ [(c, b)]) (uint b) ps)"
          by (rule pending) (use 2 b False in \<open>auto simp: wf_entries_snoc valid_pixel str_pixel\<close>)
        with None False c es 2 show ?thesis by (simp add: Let_def)
      qed
    qed }
qed

lemma good_enc:
  assumes "1 \<le> clear" "clear \<le> 256" "\<forall>b \<in> set (b # ps). uint b < clear"
  shows "good clear [] None (enc clear [] (uint b) ps)"
  using good_enc_step(1) [OF assms(1,2), of ps "uint b"] assms(3) by simp

lemma str_length:
  "wf_entries clear es \<Longrightarrow> valid clear es c \<Longrightarrow> length (str clear es c) \<le> length es + 1"
proof (induction "length es" arbitrary: es c rule: less_induct)
  case less
  from less.prems(2) show ?case
  proof (cases rule: valid_cases)
    case pixel
    then show ?thesis by (simp add: str_pixel)
  next
    case (entry j)
    have "wf_entries clear (take j es)" using less.prems(1) entry(1) by (auto simp: wf_entries_def min_def)
    moreover have "valid clear (take j es) (fst (es ! j))" using less.prems(1) entry(1) by (simp add: wf_entries_def)
    ultimately have "length (str clear (take j es) (fst (es ! j))) \<le> length (take j es) + 1"
      using less.hyps [of "take j es"] entry(1) by simp
    with entry show ?thesis by (simp add: str_entry)
  qed
qed

section \<open>Widths and bits\<close>

text \<open>The width of each code: it grows by one when the number of the next entry does not fit, and a clear
  code resets it.  \<open>rc\<close> is the number of the next entry.\<close>

definition next_bits :: "int \<Rightarrow> int \<Rightarrow> int" where
  "next_bits rc w = (if rc \<ge> 2 ^ nat w then w + 1 else w)"

fun widths :: "int \<Rightarrow> int \<Rightarrow> int \<Rightarrow> int list \<Rightarrow> (int \<times> int) list" where
  "widths bpp rc w [] = []"
| "widths bpp rc w (c # cs) =
     (c, w) # (if c = 2 ^ nat bpp then widths bpp (2 ^ nat bpp + 2) (bpp + 1) cs else widths bpp (rc + 1) (next_bits rc w) cs)"

fun width_state :: "int \<Rightarrow> int \<Rightarrow> int \<Rightarrow> int list \<Rightarrow> int \<times> int" where
  "width_state bpp rc w [] = (rc, w)"
| "width_state bpp rc w (c # cs) =
     (if c = 2 ^ nat bpp then width_state bpp (2 ^ nat bpp + 2) (bpp + 1) cs else width_state bpp (rc + 1) (next_bits rc w) cs)"

lemma widths_append:
  "width_state bpp rc w as = (rc', w') \<Longrightarrow> widths bpp rc w (as @ bs) = widths bpp rc w as @ widths bpp rc' w' bs"
  by (induction as arbitrary: rc w) auto

lemma width_state_append:
  "width_state bpp rc w as = (rc', w') \<Longrightarrow> width_state bpp rc w (as @ bs) = width_state bpp rc' w' bs"
  by (induction as arbitrary: rc w) auto

definition bits_of :: "nat \<Rightarrow> 'a :: semiring_bits \<Rightarrow> bool list" where
  "bits_of n x = map (bit x) [0..<n]"

definition byte_bits :: "u8 list \<Rightarrow> bool list" where
  "byte_bits bs = concat (map (bits_of 8) bs)"

definition code_bits :: "(int \<times> int) list \<Rightarrow> bool list" where
  "code_bits cws = concat (map (\<lambda>(c, w). bits_of (nat w) c) cws)"

text \<open>The codes of an image, each with its width.\<close>

definition image_codes :: "int \<Rightarrow> u8 list \<Rightarrow> (int \<times> int) list" where
  "image_codes bpp px = widths bpp (2 ^ nat bpp + 2) (bpp + 1)
     (2 ^ nat bpp # enc (2 ^ nat bpp) [] (uint (hd px)) (tl px) @ [2 ^ nat bpp + 1])"

lemma length_bits_of [simp]: "length (bits_of n x) = n"
  by (simp add: bits_of_def)

lemma byte_bits_simps [simp]:
  "byte_bits [] = []" "byte_bits (b # bs) = bits_of 8 b @ byte_bits bs" "byte_bits (as @ bs) = byte_bits as @ byte_bits bs"
  by (simp_all add: byte_bits_def)

lemma code_bits_simps [simp]:
  "code_bits [] = []" "code_bits ((c, w) # cws) = bits_of (nat w) c @ code_bits cws"
  "code_bits (as @ bs) = code_bits as @ code_bits bs"
  by (simp_all add: code_bits_def)

lemma bits_of_split: "m \<le> n \<Longrightarrow> bits_of n x = bits_of m x @ map (bit x) [m..<n]"
  unfolding bits_of_def using upt_add_eq_append [of 0 m "n - m"] by (simp flip: map_append)

lemma bits_of_drop_bit:
  fixes x :: "'a :: semiring_bit_operations"
  shows "bits_of n (drop_bit m x) = map (bit x) [m..<m + n]"
  by (auto simp: bits_of_def bit_drop_bit_eq intro: nth_equalityI)

lemma bits_of_eqI: "(\<And>i. i < n \<Longrightarrow> bit x i = bit y i) \<Longrightarrow> bits_of n x = bits_of n y"
  by (simp add: bits_of_def)

section \<open>Sub-blocks\<close>

text \<open>The data of an image is cut into blocks of up to 255 bytes with their length in front, and ended
  by an empty block.\<close>

function sub_blocks :: "u8 list \<Rightarrow> u8 list" where
  "sub_blocks bs =
     (if bs = [] then [0]
      else of_nat (min 255 (length bs)) # take 255 bs @ sub_blocks (drop 255 bs))"
  by pat_completeness auto
termination
  by (relation "measure length") auto

declare sub_blocks.simps [simp del]

lemma sub_blocks_Nil [simp]: "sub_blocks [] = [0]"
  by (subst sub_blocks.simps) simp

lemma sub_blocks_block:
  "bs \<noteq> [] \<Longrightarrow> sub_blocks bs = of_nat (min 255 (length bs)) # take (min 255 (length bs)) bs @ sub_blocks (drop 255 bs)"
  by (subst sub_blocks.simps) (simp add: min_def)

lemma sub_blocks_rest: "rest \<noteq> [] \<Longrightarrow> length rest \<le> 255 \<Longrightarrow> sub_blocks rest = of_nat (length rest) # rest @ [0]"
  by (subst sub_blocks.simps) (simp add: min_def)

lemma sub_blocks_chunks:
  "\<forall>ch \<in> set chunks. length ch = 255 \<Longrightarrow>
   sub_blocks (concat chunks @ rest) = concat (map (\<lambda>ch. 255 # ch) chunks) @ sub_blocks rest"
proof (induction chunks)
  case (Cons ch chunks)
  then show ?case by (subst sub_blocks.simps) auto
qed simp

end
