(* ===== verification/GifAlloc.thy ===== *)
theory GifAlloc
  imports Prelude
begin

text \<open>
  The data of giflib (\<open>gif_lib.h\<close>, \<open>gif_lib_private.h\<close>) and its construction tools
  (\<open>gifalloc.c\<close>, \<open>openbsd-reallocarray.c\<close>), for the 32-bit ABI the application ships.

  A pointer to a heap block that one structure owns is the value it points to, \<open>None\<close> for
  \<open>NULL\<close>.  The allocator is part of the state: \<open>outcomes\<close> lists the outcomes of the allocations to
  come (an exhausted list grants everything), a request of \<open>PTRDIFF_MAX\<close> bytes or more is never
  granted, and \<open>blocks\<close> counts the blocks that are allocated, so that a leak is a difference of
  the counter.  The content of a fresh block is zero in the model.
\<close>

section \<open>Allocation\<close>

record heap =
  outcomes :: "bool list"
  blocks :: int

definition granted :: "nat \<Rightarrow> heap \<Rightarrow> bool" where
  "granted n h \<longleftrightarrow> n < 2 ^ 31 \<and> (outcomes h = [] \<or> hd (outcomes h))"

definition malloc :: "nat \<Rightarrow> heap \<Rightarrow> bool \<times> heap" where
  "malloc n h = (if granted n h then (True, h\<lparr>outcomes := tl (outcomes h), blocks := blocks h + 1\<rparr>)
                 else (False, h\<lparr>outcomes := tl (outcomes h)\<rparr>))"

definition free :: "bool \<Rightarrow> heap \<Rightarrow> heap" where
  "free nonnull h = (if nonnull then h\<lparr>blocks := blocks h - 1\<rparr> else h)"

text \<open>\<open>realloc\<close> of a null pointer allocates; of a block it replaces the block or leaves it.\<close>

definition realloc :: "bool \<Rightarrow> nat \<Rightarrow> heap \<Rightarrow> bool \<times> heap" where
  "realloc nonnull n h =
     (if granted n h
      then (True, h\<lparr>outcomes := tl (outcomes h), blocks := blocks h + (if nonnull then 0 else 1)\<rparr>)
      else (False, h\<lparr>outcomes := tl (outcomes h)\<rparr>))"

definition MUL_NO_OVERFLOW :: u32 where "MUL_NO_OVERFLOW = push_bit 16 1"

text \<open>The byte count \<open>reallocarray\<close> asks for, \<open>None\<close> when it reports an overflow.\<close>

definition reallocarray_size :: "u32 \<Rightarrow> u32 \<Rightarrow> u32 option" where
  "reallocarray_size nmemb sz =
     (if (nmemb \<ge> MUL_NO_OVERFLOW \<or> sz \<ge> MUL_NO_OVERFLOW) \<and> nmemb > 0 \<and> (- 1) div nmemb < sz
      then None else Some (sz * nmemb))"

definition reallocarray :: "bool \<Rightarrow> u32 \<Rightarrow> u32 \<Rightarrow> heap \<Rightarrow> bool \<times> heap" where
  "reallocarray nonnull nmemb sz h =
     (case reallocarray_size nmemb sz of
        None \<Rightarrow> (False, h)
      | Some n \<Rightarrow> realloc nonnull (unat n) h)"

section \<open>Colour maps, images, files\<close>

record GifColorType =
  Red :: u8
  Green :: u8
  Blue :: u8

record ColorMapObject =
  ColorCount :: int
  BitsPerPixel :: int
  SortFlag :: bool
  Colors :: "GifColorType list"

record GifImageDesc =
  Left :: int
  Top :: int
  Width :: int
  Height :: int
  Interlace :: bool
  ColorMap :: "ColorMapObject option"

record ExtensionBlock =
  ByteCount :: int
  Bytes :: "u8 list option"
  Function :: int

record SavedImage =
  ImageDesc :: GifImageDesc
  RasterBits :: "u8 list option"
  ExtensionBlockCount :: int
  ExtensionBlocks :: "ExtensionBlock list option"

definition CONTINUE_EXT_FUNC_CODE :: int where "CONTINUE_EXT_FUNC_CODE = 0x00"
definition GRAPHICS_EXT_FUNC_CODE :: int where "GRAPHICS_EXT_FUNC_CODE = 0xf9"

definition black :: GifColorType where "black = \<lparr>Red = 0, Green = 0, Blue = 0\<rparr>"

definition zero_desc :: GifImageDesc where
  "zero_desc = \<lparr>Left = 0, Top = 0, Width = 0, Height = 0, Interlace = False, ColorMap = None\<rparr>"

definition zero_image :: SavedImage where
  "zero_image = \<lparr>ImageDesc = zero_desc, RasterBits = None, ExtensionBlockCount = 0, ExtensionBlocks = None\<rparr>"

text \<open>The array of images of a file and the number of those in use, with the allocator.\<close>

record images =
  ImageCount :: int
  SavedImages :: "SavedImage list option"
  gheap :: heap

datatype gif_status = GIF_ERROR | GIF_OK

text \<open>The result of a routine that uses only the private state: \<open>LzFail e\<close> is \<open>GIF_ERROR\<close> with the code
  stored in \<open>GifFile->Error\<close>, if one is.\<close>

datatype 'a lz_result = LzFail "int option" | LzOk 'a

text \<open>
  The state of the codec (\<open>GifFilePrivateType\<close>), without the stream it reads or writes, which the
  reader and the writer add, and the file record.  \<open>unsigned long\<close> has 32 bits.
\<close>

definition LZ_MAX_CODE :: int where "LZ_MAX_CODE = 4095"
definition LZ_BITS :: int where "LZ_BITS = 12"
definition FLUSH_OUTPUT :: int where "FLUSH_OUTPUT = 4096"
definition FIRST_CODE :: int where "FIRST_CODE = 4097"
definition NO_SUCH_CODE :: int where "NO_SUCH_CODE = 4098"

definition FILE_STATE_WRITE :: int where "FILE_STATE_WRITE = 0x01"
definition FILE_STATE_SCREEN :: int where "FILE_STATE_SCREEN = 0x02"
definition FILE_STATE_IMAGE :: int where "FILE_STATE_IMAGE = 0x04"
definition FILE_STATE_READ :: int where "FILE_STATE_READ = 0x08"

record GifFilePrivateType =
  FileState :: int
  LZBitsPerPixel :: int
  ClearCode :: int
  EOFCode :: int
  RunningCode :: int
  RunningBits :: int
  MaxCode1 :: int
  LastCode :: int
  CrntCode :: int
  StackPtr :: int
  CrntShiftState :: int
  CrntShiftDWord :: u32
  PixelCount :: u32
  Buf :: "int \<Rightarrow> u8"
  Stack :: "int \<Rightarrow> u8"
  Suffix :: "int \<Rightarrow> u8"
  Prefix :: "int \<Rightarrow> int"
  gif89 :: bool

definition IS_READABLE :: "'a GifFilePrivateType_scheme \<Rightarrow> bool" where
  "IS_READABLE p \<longleftrightarrow> FileState p AND FILE_STATE_READ \<noteq> 0"

definition IS_WRITEABLE :: "'a GifFilePrivateType_scheme \<Rightarrow> bool" where
  "IS_WRITEABLE p \<longleftrightarrow> FileState p AND FILE_STATE_WRITE \<noteq> 0"

record 'p GifFileType = images +
  SWidth :: int
  SHeight :: int
  SColorResolution :: int
  SBackGroundColor :: int
  AspectByte :: u8
  SColorMap :: "ColorMapObject option"
  Image :: GifImageDesc
  FileExtensionBlockCount :: int
  FileExtensionBlocks :: "ExtensionBlock list option"
  Error :: int
  Private :: 'p

text \<open>\<open>calloc\<close>ed private data.\<close>

definition zero_private :: GifFilePrivateType where
  "zero_private = \<lparr>FileState = 0, LZBitsPerPixel = 0, ClearCode = 0, EOFCode = 0, RunningCode = 0, RunningBits = 0,
     MaxCode1 = 0, LastCode = 0, CrntCode = 0, StackPtr = 0, CrntShiftState = 0, CrntShiftDWord = 0, PixelCount = 0,
     Buf = (\<lambda>_. 0), Stack = (\<lambda>_. 0), Suffix = (\<lambda>_. 0), Prefix = (\<lambda>_. 0), gif89 = False\<rparr>"

section \<open>Colour map objects\<close>

fun bit_size_from :: "nat \<Rightarrow> nat \<Rightarrow> int \<Rightarrow> nat" where
  "bit_size_from 0 i n = i"
| "bit_size_from (Suc k) i n = (if 2 ^ i \<ge> n then i else bit_size_from k (Suc i) n)"

definition GifBitSize :: "int \<Rightarrow> nat" where
  "GifBitSize n = bit_size_from 8 1 n"

definition GifMakeMapObject ::
    "int \<Rightarrow> GifColorType list option \<Rightarrow> heap \<Rightarrow> (ColorMapObject option \<times> heap) option" where
  "GifMakeMapObject cc colors h =
     (if cc \<noteq> 2 ^ GifBitSize cc then Some (None, h)
      else case malloc 16 h of
        (False, h1) \<Rightarrow> Some (None, h1)
      | (True, h1) \<Rightarrow>
          (case malloc (nat (cc * 3)) h1 of
             (False, h2) \<Rightarrow> Some (None, free True h2)
           | (True, h2) \<Rightarrow>
               do { cs \<leftarrow> (case colors of
                      None \<Rightarrow> Some (replicate (nat cc) black)
                    | Some cs \<Rightarrow> if nat cc \<le> length cs then Some (take (nat cc) cs) else None);
                    Some (Some \<lparr>ColorCount = cc, BitsPerPixel = int (GifBitSize cc), SortFlag = False,
                                Colors = cs\<rparr>, h2) }))"

definition GifFreeMapObject :: "ColorMapObject option \<Rightarrow> heap \<Rightarrow> heap" where
  "GifFreeMapObject m h = (case m of None \<Rightarrow> h | Some _ \<Rightarrow> free True (free True h))"

text \<open>The loop that backs down over the black colours at the end of the first map, from index
  \<open>slot - 1\<close>; it reads \<open>Colors[-1]\<close> when every colour is black.\<close>

function back_down :: "GifColorType list \<Rightarrow> int \<Rightarrow> int option" where
  "back_down cs slot =
     (case lread cs (slot - 1) of
        None \<Rightarrow> None
      | Some c \<Rightarrow> if c = black then back_down cs (slot - 1) else Some slot)"
  by pat_completeness auto
termination
  by (relation "measure (\<lambda>(cs, slot). nat slot)") (auto simp: lread_eq_Some)

declare back_down.simps [simp del]

fun find_color :: "GifColorType \<Rightarrow> GifColorType list \<Rightarrow> nat \<Rightarrow> nat" where
  "find_color c [] j = j"
| "find_color c (d # ds) j = (if d = c then j else find_color c ds (Suc j))"

text \<open>The loop over the second map: \<open>i\<close> and \<open>CrntSlot\<close>, the union's colours and the translation
  table, with \<open>k\<close> colours left.\<close>

fun union_loop :: "GifColorType list \<Rightarrow> GifColorType list \<Rightarrow> nat \<Rightarrow> int \<Rightarrow> int \<Rightarrow> GifColorType list \<Rightarrow>
    u8 list \<Rightarrow> (int \<times> GifColorType list \<times> u8 list) option" where
  "union_loop in1 in2 0 i slot out tab = Some (slot, out, tab)"
| "union_loop in1 in2 (Suc k) i slot out tab =
     (if slot \<le> 256 then
        do { c \<leftarrow> lread in2 i;
             let j = find_color c in1 0;
             if j < length in1 then
               do { tab' \<leftarrow> lwrite tab i (of_nat j);
                    union_loop in1 in2 k (i + 1) slot out tab' }
             else
               do { out' \<leftarrow> lwrite out slot c;
                    tab' \<leftarrow> lwrite tab i (of_int slot);
                    union_loop in1 in2 k (i + 1) (slot + 1) out' tab' } }
      else Some (slot, out, tab))"

text \<open>The copy of the first map and the zeroing of the slots up to the next power of two.\<close>

definition zero_slots :: "int \<Rightarrow> int \<Rightarrow> GifColorType list \<Rightarrow> GifColorType list option" where
  "zero_slots lo hi cs =
     (if hi \<le> int (length cs) \<or> hi \<le> lo then
        Some (map (\<lambda>j. if lo \<le> int j \<and> int j < hi then black else cs ! j) [0..<length cs])
      else None)"

definition GifUnionColorMap ::
    "ColorMapObject \<Rightarrow> ColorMapObject \<Rightarrow> u8 list \<Rightarrow> heap \<Rightarrow> (ColorMapObject option \<times> u8 list \<times> heap) option" where
  "GifUnionColorMap in1 in2 tab h =
     (case GifMakeMapObject (max (ColorCount in1) (ColorCount in2) * 2) None h of
        None \<Rightarrow> None
      | Some (None, h1) \<Rightarrow> Some (None, tab, h1)
      | Some (Some u, h1) \<Rightarrow>
          (if \<not> (nat (ColorCount in1) \<le> length (Colors in1) \<and> nat (ColorCount in1) \<le> length (Colors u)) then None
           else let out0 = take (nat (ColorCount in1)) (Colors in1) @ drop (nat (ColorCount in1)) (Colors u);
                    cs1 = take (nat (ColorCount in1)) (Colors in1)
           in do { slot0 \<leftarrow> back_down (Colors in1) (ColorCount in1);
                   (slot, out, tab') \<leftarrow> union_loop cs1 (Colors in2) (nat (ColorCount in2)) 0 slot0 out0 tab;
                   if slot > 256 then Some (None, tab', GifFreeMapObject (Some u) h1)
                   else
                     let n = GifBitSize slot; RoundUpTo = 2 ^ n in
                     if RoundUpTo \<noteq> ColorCount u then
                       do { cs \<leftarrow> zero_slots slot RoundUpTo out;
                            if RoundUpTo < ColorCount u then
                              (case reallocarray True (of_int RoundUpTo) 3 h1 of
                                 (False, h2) \<Rightarrow> Some (None, tab', GifFreeMapObject (Some u) h2)
                               | (True, h2) \<Rightarrow>
                                   Some (Some (u\<lparr>Colors := take (nat RoundUpTo) cs, ColorCount := RoundUpTo,
                                                 BitsPerPixel := int n\<rparr>), tab', h2))
                            else Some (Some (u\<lparr>Colors := cs, ColorCount := RoundUpTo, BitsPerPixel := int n\<rparr>), tab', h1) }
                     else Some (Some (u\<lparr>Colors := out, ColorCount := RoundUpTo, BitsPerPixel := int n\<rparr>), tab', h1) }))"

text \<open>\<open>Translation\<close> is the array of the caller.\<close>

fun translate_loop :: "u8 list \<Rightarrow> nat \<Rightarrow> int \<Rightarrow> u8 list \<Rightarrow> u8 list option" where
  "translate_loop tr 0 i bits = Some bits"
| "translate_loop tr (Suc k) i bits =
     do { b \<leftarrow> lread bits i;
          t \<leftarrow> lread tr (uint b);
          bits' \<leftarrow> lwrite bits i t;
          translate_loop tr k (i + 1) bits' }"

definition GifApplyTranslation :: "SavedImage \<Rightarrow> u8 list \<Rightarrow> SavedImage option" where
  "GifApplyTranslation img tr =
     (let n = Height (ImageDesc img) * Width (ImageDesc img) in
      case RasterBits img of
        None \<Rightarrow> if n \<le> 0 then Some img else None
      | Some bits \<Rightarrow> do { bits' \<leftarrow> translate_loop tr (nat n) 0 bits;
                          Some (img\<lparr>RasterBits := Some bits'\<rparr>) })"

section \<open>Extension records\<close>

definition zero_ext :: ExtensionBlock where
  "zero_ext = \<lparr>ByteCount = 0, Bytes = None, Function = 0\<rparr>"

text \<open>A block array brought to \<open>n\<close> entries by \<open>malloc\<close> or \<open>realloc\<close>.\<close>

definition resize :: "nat \<Rightarrow> 'a \<Rightarrow> 'a list \<Rightarrow> 'a list" where
  "resize n z xs = take n xs @ replicate (n - length xs) z"

text \<open>\<open>ExtData\<close> is the array of the caller, \<open>None\<close> for \<open>NULL\<close>; \<open>sizeof(ExtensionBlock)\<close> is 12.
  The status, the counter and the blocks afterwards.\<close>

definition GifAddExtensionBlock ::
    "int \<Rightarrow> ExtensionBlock list option \<Rightarrow> int \<Rightarrow> nat \<Rightarrow> u8 list option \<Rightarrow> heap \<Rightarrow>
     (gif_status \<times> int \<times> ExtensionBlock list option \<times> heap) option" where
  "GifAddExtensionBlock cnt ebs func len data h =
     (let (ok, h1) = (case ebs of None \<Rightarrow> malloc 12 h | Some _ \<Rightarrow> reallocarray True (of_int (cnt + 1)) 12 h);
          arr = (case ebs of None \<Rightarrow> [zero_ext] | Some es \<Rightarrow> resize (nat (cnt + 1)) zero_ext es)
      in if \<not> ok then Some (GIF_ERROR, cnt, ebs, h1)
         else
           (case malloc len h1 of
              (False, h2) \<Rightarrow>
                do { arr' \<leftarrow> lwrite arr cnt \<lparr>ByteCount = int len, Bytes = None, Function = func\<rparr>;
                     Some (GIF_ERROR, cnt + 1, Some arr', h2) }
            | (True, h2) \<Rightarrow>
                do { bs \<leftarrow> (case data of
                       None \<Rightarrow> Some (replicate len 0)
                     | Some d \<Rightarrow> if len \<le> length d then Some (take len d) else None);
                     arr' \<leftarrow> lwrite arr cnt \<lparr>ByteCount = int len, Bytes = Some bs, Function = func\<rparr>;
                     Some (GIF_OK, cnt + 1, Some arr', h2) }))"

definition free_bytes :: "ExtensionBlock list \<Rightarrow> heap \<Rightarrow> heap" where
  "free_bytes es h = fold (\<lambda>e. free (Bytes e \<noteq> None)) es h"

definition GifFreeExtensions ::
    "int \<Rightarrow> ExtensionBlock list option \<Rightarrow> heap \<Rightarrow> (int \<times> ExtensionBlock list option \<times> heap) option" where
  "GifFreeExtensions cnt ebs h =
     (case ebs of
        None \<Rightarrow> Some (cnt, None, h)
      | Some es \<Rightarrow> if nat cnt \<le> length es
                  then Some (0, None, free True (free_bytes (take (nat cnt) es) h)) else None)"

section \<open>Image blocks\<close>

definition free_image_parts :: "SavedImage \<Rightarrow> heap \<Rightarrow> (SavedImage \<times> heap) option" where
  "free_image_parts sp h =
     (let h1 = GifFreeMapObject (ColorMap (ImageDesc sp)) h;
          h2 = free (RasterBits sp \<noteq> None) h1
      in do { (c, es, h3) \<leftarrow> GifFreeExtensions (ExtensionBlockCount sp) (ExtensionBlocks sp) h2;
              Some (sp\<lparr>ImageDesc := (ImageDesc sp)\<lparr>ColorMap := None\<rparr>,
                       ExtensionBlockCount := c, ExtensionBlocks := es\<rparr>, h3) })"

definition FreeLastSavedImage :: "'a images_scheme \<Rightarrow> 'a images_scheme option" where
  "FreeLastSavedImage g =
     (case SavedImages g of
        None \<Rightarrow> Some g
      | Some imgs \<Rightarrow>
          do { let c = ImageCount g - 1;
               sp \<leftarrow> lread imgs c;
               (sp', h) \<leftarrow> free_image_parts sp (gheap g);
               imgs' \<leftarrow> lwrite imgs c sp';
               Some (g\<lparr>ImageCount := c, SavedImages := Some imgs', gheap := h\<rparr>) })"

text \<open>\<open>GifMakeSavedImage\<close> appends an image, a copy of \<open>CopyFrom\<close> when it is given; the result is
  the index of the new image, \<open>None\<close> for \<open>NULL\<close>.  \<open>sizeof(SavedImage)\<close> is 36.  When
  \<open>reallocarray\<close> fails the array pointer is overwritten by \<open>NULL\<close>.\<close>

definition copy_parts :: "SavedImage \<Rightarrow> 'a images_scheme \<Rightarrow> (int option \<times> 'a images_scheme) option" where
  "copy_parts from g =
     (let k = ImageCount g - 1;
          put = (\<lambda>sp g. do { imgs \<leftarrow> SavedImages g; imgs' \<leftarrow> lwrite imgs k sp;
                             Some (g\<lparr>SavedImages := Some imgs'\<rparr>) });
          fail = (\<lambda>g. do { g' \<leftarrow> FreeLastSavedImage g; Some (None, g') })
      in do {
        (m, h1) \<leftarrow> (case ColorMap (ImageDesc from) of
                  None \<Rightarrow> Some (None, gheap g)
                | Some cm \<Rightarrow> GifMakeMapObject (ColorCount cm) (Some (Colors cm)) (gheap g));
        let sp1 = from\<lparr>ImageDesc := (ImageDesc from)\<lparr>ColorMap := m\<rparr>\<rparr>;
        g1 \<leftarrow> put sp1 (g\<lparr>gheap := h1\<rparr>);
        if ColorMap (ImageDesc from) \<noteq> None \<and> m = None then fail g1
        else do {
          let n = Height (ImageDesc from) * Width (ImageDesc from);
          let (ok, h2) = reallocarray False (of_int n) 1 (gheap g1);
          bits \<leftarrow> (if \<not> ok then Some None
                   else case RasterBits from of
                     None \<Rightarrow> if n \<le> 0 then Some (Some []) else None
                   | Some b \<Rightarrow> if nat n \<le> length b then Some (Some (take (nat n) b)) else None);
          let sp2 = sp1\<lparr>RasterBits := bits\<rparr>;
          g2 \<leftarrow> put sp2 (g1\<lparr>gheap := h2\<rparr>);
          if \<not> ok then fail g2
          else (case ExtensionBlocks from of
              None \<Rightarrow> Some (Some k, g2)
            | Some es \<Rightarrow> do {
                let (ok, h3) = reallocarray False (of_int (ExtensionBlockCount from)) 12 (gheap g2);
                es' \<leftarrow> (if \<not> ok then Some None
                        else if nat (ExtensionBlockCount from) \<le> length es
                             then Some (Some (take (nat (ExtensionBlockCount from)) es)) else None);
                g3 \<leftarrow> put (sp2\<lparr>ExtensionBlocks := es'\<rparr>) (g2\<lparr>gheap := h3\<rparr>);
                if \<not> ok then fail g3 else Some (Some k, g3) }) } })"

definition GifMakeSavedImage :: "'a images_scheme \<Rightarrow> SavedImage option \<Rightarrow> (int option \<times> 'a images_scheme) option" where
  "GifMakeSavedImage g from =
     (let c = ImageCount g;
          (ok, h1) = (case SavedImages g of None \<Rightarrow> malloc 36 (gheap g)
                      | Some _ \<Rightarrow> reallocarray True (of_int (c + 1)) 36 (gheap g));
          arr = (case SavedImages g of None \<Rightarrow> [zero_image] | Some xs \<Rightarrow> resize (nat (c + 1)) zero_image xs)
      in if \<not> ok then Some (None, g\<lparr>SavedImages := None, gheap := h1\<rparr>)
         else do { arr' \<leftarrow> lwrite arr c zero_image;
                   let g1 = g\<lparr>ImageCount := c + 1, SavedImages := Some arr', gheap := h1\<rparr>;
                   case from of None \<Rightarrow> Some (Some c, g1) | Some f \<Rightarrow> copy_parts f g1 })"

fun free_images :: "SavedImage list \<Rightarrow> heap \<Rightarrow> heap option" where
  "free_images [] h = Some h"
| "free_images (sp # sps) h = do { (_, h') \<leftarrow> free_image_parts sp h; free_images sps h' }"

definition GifFreeSavedImages :: "'a images_scheme \<Rightarrow> 'a images_scheme option" where
  "GifFreeSavedImages g =
     (case SavedImages g of
        None \<Rightarrow> Some g
      | Some imgs \<Rightarrow>
          if nat (ImageCount g) \<le> length imgs
          then do { h \<leftarrow> free_images (take (nat (ImageCount g)) imgs) (gheap g);
                    Some (g\<lparr>SavedImages := None, gheap := free True h\<rparr>) }
          else None)"


section \<open>Graphics control blocks and interlacing\<close>

record GraphicsControlBlock =
  DisposalMode :: int
  UserInputFlag :: bool
  DelayTime :: int
  TransparentColor :: int

definition NO_TRANSPARENT_COLOR :: int where "NO_TRANSPARENT_COLOR = -1"
definition DISPOSAL_UNSPECIFIED :: int where "DISPOSAL_UNSPECIFIED = 0"

text \<open>The rows of an interlaced image in the order they are read and written.\<close>

function rows_from :: "int \<Rightarrow> nat \<Rightarrow> int \<Rightarrow> int list" where
  "rows_from j jump height = (if j < height \<and> 0 < jump then j # rows_from (j + int jump) jump height else [])"
  by pat_completeness auto
termination
  by (relation "measure (\<lambda>(j, jump, height). nat (height - j))") auto

declare rows_from.simps [simp del]

definition interlaced_rows :: "int \<Rightarrow> int list" where
  "interlaced_rows height = rows_from 0 8 height @ rows_from 4 8 height @ rows_from 2 4 height @ rows_from 1 2 height"


section \<open>Sizes of allocations\<close>

lemma reallocarray_size_product:
  "reallocarray_size nmemb sz =
     (if unat nmemb * unat sz < 2 ^ 32 then Some (of_nat (unat nmemb * unat sz)) else None)"
proof -
  let ?n = "unat nmemb" and ?s = "unat sz"
  have small: "?n < 2 ^ 16 \<longleftrightarrow> \<not> nmemb \<ge> MUL_NO_OVERFLOW" "?s < 2 ^ 16 \<longleftrightarrow> \<not> sz \<ge> MUL_NO_OVERFLOW"
    by (simp_all add: MUL_NO_OVERFLOW_def word_le_nat_alt not_le)
  have quot: "(- 1) div nmemb < sz \<longleftrightarrow> (2 ^ 32 - 1) div ?n < ?s"
    by (simp add: word_less_nat_alt unat_div unsigned_minus_1_eq_mask mask_eq_exp_minus_1)
  have prod: "of_nat (?n * ?s) = sz * nmemb" by (simp add: mult.commute)
  have both: "?n < 2 ^ 16 \<Longrightarrow> ?s < 2 ^ 16 \<Longrightarrow> ?n * ?s < 2 ^ 32"
    using mult_strict_mono [of ?n "2 ^ 16" ?s "2 ^ 16"] by simp
  have div: "?n * ?s < 2 ^ 32 \<longleftrightarrow> \<not> (2 ^ 32 - 1) div ?n < ?s" if "0 < ?n"
    using div_less_iff_less_mult [OF that, of "2 ^ 32 - 1" ?s] by (auto simp: mult.commute)
  have zero: "nmemb > 0 \<longleftrightarrow> 0 < ?n" by (simp add: word_less_nat_alt)
  show ?thesis
    using small both div by (cases "nmemb = 0") (auto simp: reallocarray_size_def quot prod zero unat_gt_0)
qed

text \<open>\<open>reallocarray\<close> asks for exactly \<open>nmemb * size\<close> bytes, and reports an overflow exactly when
  that product does not fit \<open>size_t\<close>.\<close>

theorem reallocarray_size_exact:
  "reallocarray_size nmemb sz =
     (if unat nmemb * unat sz < 2 ^ 32 then Some (of_nat (unat nmemb * unat sz)) else None)"
  by (rule reallocarray_size_product)

lemma bit_size_from_bounds:
  "i \<le> bit_size_from k i n" "bit_size_from k i n \<le> i + k"
  "i \<le> m \<Longrightarrow> m < bit_size_from k i n \<Longrightarrow> 2 ^ m < n"
  "bit_size_from k i n < i + k \<Longrightarrow> n \<le> 2 ^ bit_size_from k i n"
proof (induction k arbitrary: i)
  case 0
  { case 1 then show ?case by simp next case 2 then show ?case by simp
  next case 3 then show ?case by simp next case 4 then show ?case by simp }
next
  case (Suc k)
  { case 1 then show ?case using Suc.IH(1) [of "Suc i"] by auto
  next case 2 then show ?case using Suc.IH(2) [of "Suc i"] by auto
  next
    case 3
    then show ?case using Suc.IH(3) [of "Suc i"] by (cases "m = i") (auto split: if_splits)
  next case 4 then show ?case using Suc.IH(4) [of "Suc i"] by (auto split: if_splits) }
qed

lemma GifBitSize_bounds:
  "1 \<le> GifBitSize n" "GifBitSize n \<le> 9" "n \<le> 256 \<Longrightarrow> n \<le> 2 ^ GifBitSize n"
  "1 \<le> m \<Longrightarrow> m < GifBitSize n \<Longrightarrow> 2 ^ m < n"
proof -
  show "1 \<le> GifBitSize n" "GifBitSize n \<le> 9" "1 \<le> m \<Longrightarrow> m < GifBitSize n \<Longrightarrow> 2 ^ m < n"
    using bit_size_from_bounds(1) [of 1 8 n] bit_size_from_bounds(2) [of 8 1 n] bit_size_from_bounds(3) [of 1 m 8 n]
    by (auto simp: GifBitSize_def)
  show "n \<le> 256 \<Longrightarrow> n \<le> 2 ^ GifBitSize n"
    using bit_size_from_bounds(4) [of 8 1 n] bit_size_from_bounds(2) [of 8 1 n]
      bit_size_from_bounds(3) [of 1 8 8 n]
    by (cases "GifBitSize n = 9") (auto simp: GifBitSize_def)
qed

lemma GifBitSize_least: "n \<le> 2 ^ m \<Longrightarrow> 1 \<le> m \<Longrightarrow> GifBitSize n \<le> m"
  using GifBitSize_bounds(4) [of m n] by (meson not_le leD)

definition map_ok :: "ColorMapObject \<Rightarrow> bool" where
  "map_ok m \<longleftrightarrow> ColorCount m = int (length (Colors m)) \<and> ColorCount m = 2 ^ GifBitSize (ColorCount m)"

lemma map_okD:
  assumes "map_ok m"
  shows "ColorCount m = int (length (Colors m))" "2 ^ GifBitSize (ColorCount m) = ColorCount m"
  using assms unfolding map_ok_def by (blast dest: sym)+

lemma map_ok_bounds: "map_ok m \<Longrightarrow> 2 \<le> length (Colors m) \<and> length (Colors m) \<le> 512"
proof -
  assume m: "map_ok m"
  have "(2::int) ^ 1 \<le> 2 ^ GifBitSize (ColorCount m)" "(2::int) ^ GifBitSize (ColorCount m) \<le> 2 ^ 9"
    using GifBitSize_bounds(1,2) [of "ColorCount m"] by (simp_all only: power_increasing_iff)
  then have "2 ^ 1 \<le> ColorCount m" "ColorCount m \<le> 2 ^ 9" unfolding map_okD(2) [OF m] by auto
  then show ?thesis unfolding map_okD(1) [OF m] by simp
qed

lemma GifMakeMapObject_None:
  "\<exists>r h'. GifMakeMapObject cc None h = Some (r, h') \<and>
     (case r of None \<Rightarrow> blocks h' = blocks h
      | Some m \<Rightarrow> map_ok m \<and> ColorCount m = cc \<and> blocks h' = blocks h + 2 \<and> cc = 2 ^ GifBitSize cc)"
proof -
  have "0 \<le> cc" if "cc = 2 ^ GifBitSize cc"
    by (subst that) simp
  then show ?thesis
    by (auto simp: GifMakeMapObject_def malloc_def free_def map_ok_def split: prod.splits)
qed

section \<open>The union of colour maps\<close>

lemma find_color_bounds: "j \<le> find_color c ds j" "find_color c ds j \<le> j + length ds"
  "find_color c ds j < j + length ds \<Longrightarrow> ds ! (find_color c ds j - j) = c"
proof (induction ds arbitrary: j)
  case Nil
  { case 1 then show ?case by simp next case 2 then show ?case by simp next case 3 then show ?case by simp }
next
  case (Cons d ds)
  { case 1 then show ?case using Cons.IH(1) [of "Suc j"] by auto
  next case 2 then show ?case using Cons.IH(2) [of "Suc j"] by auto
  next
    case 3
    show ?case
    proof (cases "d = c")
      case False
      have "find_color c ds (Suc j) - j = Suc (find_color c ds (Suc j) - Suc j)"
        using Cons.IH(1) [of "Suc j"] by simp
      with False 3 Cons.IH(3) [of "Suc j"] show ?thesis by simp
    qed simp }
qed

lemma find_color_take: "c \<in> set (take k ds) \<Longrightarrow> find_color c ds j < j + k"
proof (induction ds arbitrary: j k)
  case (Cons d ds)
  show ?case
  proof (cases "d = c")
    case True
    with Cons.prems show ?thesis by (cases k) auto
  next
    case False
    with Cons.prems obtain k' where "k = Suc k'" "c \<in> set (take k' ds)" by (cases k) auto
    with Cons.IH [of k' "Suc j"] False show ?thesis by simp
  qed
qed simp

lemma find_color_absent: "c \<notin> set ds \<Longrightarrow> find_color c ds j = j + length ds"
  by (induction ds arbitrary: j) auto

text \<open>The colours that are translated right: those among the first \<open>k0\<close> of the first map, and those not in it.\<close>

definition settled :: "nat \<Rightarrow> GifColorType list \<Rightarrow> GifColorType \<Rightarrow> bool" where
  "settled k0 in1 c \<longleftrightarrow> c \<in> set (take k0 in1) \<or> c \<notin> set in1"

definition union_result :: "(GifColorType \<Rightarrow> bool) \<Rightarrow> GifColorType list \<Rightarrow> int \<Rightarrow> nat \<Rightarrow> int \<Rightarrow> GifColorType list \<Rightarrow> u8 list \<Rightarrow>
    int \<Rightarrow> GifColorType list \<Rightarrow> u8 list \<Rightarrow> bool" where
  "union_result P in2 i k slot out tab slot' out' tab' \<longleftrightarrow>
     slot \<le> slot' \<and> slot' \<le> slot + int k \<and> length out' = length out \<and> length tab' = length tab \<and>
     (\<forall>j < nat slot. out' ! j = out ! j) \<and> (\<forall>m < nat i. tab' ! m = tab ! m) \<and>
     (slot' \<le> 256 \<longrightarrow> (\<forall>m. nat i \<le> m \<and> m < nat i + k \<and> P (in2 ! m) \<longrightarrow>
        int (unat (tab' ! m)) < slot' \<and> out' ! unat (tab' ! m) = in2 ! m))"

lemma union_loop_result:
  assumes "length in1 \<le> 256" "0 \<le> i" "nat i + k = length in2" "length in2 \<le> length tab"
    "k0 \<le> length in1" "int k0 \<le> slot" "slot + int k \<le> int (length out)" "\<forall>j < k0. out ! j = in1 ! j"
  shows "\<exists>slot' out' tab'. union_loop in1 in2 k i slot out tab = Some (slot', out', tab') \<and>
     union_result (settled k0 in1) in2 i k slot out tab slot' out' tab'"
  using assms
proof (induction k arbitrary: i slot out tab)
  case 0
  then show ?case by (auto simp: union_result_def)
next
  case (Suc k)
  let ?c = "in2 ! nat i"
  let ?j = "find_color ?c in1 0"
  have i: "i < int (length in2)" "i < int (length tab)" "nat (i + 1) = Suc (nat i)" using Suc.prems by auto
  show ?case
  proof (cases "slot \<le> 256")
    case False
    with Suc.prems show ?thesis by (simp add: union_result_def)
  next
    case slot: True
    show ?thesis
    proof (cases "?j < length in1")
      case True
      let ?tab = "tab[nat i := of_nat ?j]"
      have "\<exists>slot' out' tab'. union_loop in1 in2 k (i + 1) slot out ?tab = Some (slot', out', tab') \<and>
          union_result (settled k0 in1) in2 (i + 1) k slot out ?tab slot' out' tab'"
        by (rule Suc.IH) (use Suc.prems i in auto)
      then obtain slot' out' tab' where r: "union_loop in1 in2 k (i + 1) slot out ?tab = Some (slot', out', tab')"
        and R: "union_result (settled k0 in1) in2 (i + 1) k slot out ?tab slot' out' tab'" by blast
      have tab': "tab' ! nat i = of_nat ?j" using R i by (simp add: union_result_def)
      have u: "unat (of_nat ?j :: u8) = ?j" using True Suc.prems(1) by (simp add: unat_of_nat take_bit_nat_eq_self)
      have here: "int (unat (tab' ! nat i)) < slot' \<and> out' ! unat (tab' ! nat i) = in2 ! nat i" if "settled k0 in1 ?c"
      proof -
        have "?c \<in> set (take k0 in1)" using that True find_color_absent [of ?c in1 0] by (auto simp: settled_def)
        then have j: "?j < k0" using find_color_take [of ?c k0 in1 0] by simp
        moreover have "in1 ! ?j = ?c" using True find_color_bounds(3) [of ?c in1 0] by simp
        ultimately have "out' ! ?j = ?c" using R Suc.prems(6,8) by (simp add: union_result_def)
        then show ?thesis using R j Suc.prems(6) by (simp add: tab' u union_result_def)
      qed
      have "union_result (settled k0 in1) in2 i (Suc k) slot out tab slot' out' tab'"
        unfolding union_result_def
      proof (intro conjI impI allI)
        fix m assume "slot' \<le> 256" "nat i \<le> m \<and> m < nat i + Suc k \<and> settled k0 in1 (in2 ! m)"
        then show "int (unat (tab' ! m)) < slot'" "out' ! unat (tab' ! m) = in2 ! m"
          using here R i by (cases "m = nat i"; simp add: union_result_def)+
      qed (use R i in \<open>auto simp: union_result_def\<close>)
      with r True slot i Suc.prems(2) show ?thesis by (simp add: Let_def)
    next
      case False
      let ?tab = "tab[nat i := of_int slot]" and ?out = "out[nat slot := ?c]"
      have s: "0 \<le> slot" "slot < int (length out)" using Suc.prems by auto
      have "\<exists>slot' out' tab'. union_loop in1 in2 k (i + 1) (slot + 1) ?out ?tab = Some (slot', out', tab') \<and>
          union_result (settled k0 in1) in2 (i + 1) k (slot + 1) ?out ?tab slot' out' tab'"
        by (rule Suc.IH) (use Suc.prems i s in auto)
      then obtain slot' out' tab' where r: "union_loop in1 in2 k (i + 1) (slot + 1) ?out ?tab = Some (slot', out', tab')"
        and R: "union_result (settled k0 in1) in2 (i + 1) k (slot + 1) ?out ?tab slot' out' tab'" by blast
      have tab': "tab' ! nat i = of_int slot" using R i by (simp add: union_result_def)
      have out': "out' ! nat slot = ?c" using R s by (simp add: union_result_def)
      have here: "int (unat (tab' ! nat i)) < slot' \<and> out' ! unat (tab' ! nat i) = in2 ! nat i" if "slot' \<le> 256"
      proof -
        have "slot < 256" using R that by (simp add: union_result_def)
        then have "uint (of_int slot :: u8) = slot" using s by (simp add: uint_word_of_int_eq take_bit_int_eq_self)
        then have "int (unat (of_int slot :: u8)) = slot" by simp
        moreover from this have "unat (of_int slot :: u8) = nat slot" by linarith
        ultimately show ?thesis using R out' by (simp add: tab' union_result_def)
      qed
      have "union_result (settled k0 in1) in2 i (Suc k) slot out tab slot' out' tab'"
        unfolding union_result_def
      proof (intro conjI impI allI)
        fix m assume "slot' \<le> 256" "nat i \<le> m \<and> m < nat i + Suc k \<and> settled k0 in1 (in2 ! m)"
        then show "int (unat (tab' ! m)) < slot'" "out' ! unat (tab' ! m) = in2 ! m"
          using here R i by (cases "m = nat i"; simp add: union_result_def)+
      qed (use R i s in \<open>auto simp: union_result_def\<close>)
      with r False slot i s Suc.prems(2) show ?thesis by (simp add: Let_def)
    qed
  qed
qed

text \<open>The number of colours up to the last one that is not black.\<close>

definition kept :: "GifColorType list \<Rightarrow> nat" where
  "kept cs = length (dropWhile (\<lambda>c. c = black) (rev cs))"

lemma kept_snoc: "kept (cs @ [c]) = (if c = black then kept cs else Suc (length cs))"
  by (simp add: kept_def)

lemma kept_le: "kept cs \<le> length cs"
  using length_dropWhile_le [of "\<lambda>c. c = black" "rev cs"] by (simp add: kept_def)

lemma kept_all: "cs \<noteq> [] \<Longrightarrow> last cs \<noteq> black \<Longrightarrow> kept cs = length cs"
  by (induction cs rule: rev_induct) (simp_all add: kept_snoc)

lemma kept_rest: "c \<in> set (drop (kept cs) cs) \<Longrightarrow> c = black"
proof (induction cs rule: rev_induct)
  case (snoc x cs)
  then show ?case using kept_le [of cs] by (auto simp: kept_snoc split: if_splits)
qed simp

lemma back_down_kept:
  assumes "n \<le> length cs" "\<exists>c \<in> set (take n cs). c \<noteq> black"
  shows "back_down cs (int n) = Some (int (kept (take n cs)))"
  using assms
proof (induction n)
  case (Suc n)
  have t: "take (Suc n) cs = take n cs @ [cs ! n]" using Suc.prems(1) by (simp add: take_Suc_conv_app_nth)
  have b: "back_down cs (int (Suc n)) = (if cs ! n = black then back_down cs (int n) else Some (int (Suc n)))"
    using Suc.prems(1) by (subst back_down.simps) simp
  show ?case
  proof (cases "cs ! n = black")
    case True
    then show ?thesis using Suc t b by (auto simp: kept_snoc)
  next
    case False
    then show ?thesis using Suc.prems(1) b by (simp add: t kept_snoc)
  qed
qed simp

lemma zero_slots_spec:
  assumes "zero_slots lo hi cs = Some cs'" "0 \<le> lo"
  shows "length cs' = length cs" "int j < lo \<Longrightarrow> j < length cs \<Longrightarrow> cs' ! j = cs ! j"
  using assms by (auto simp: zero_slots_def split: if_splits)

lemma map_ok_pow:
  assumes "map_ok m" "ColorCount m \<le> 256"
  obtains k where "ColorCount m = 2 ^ k" "1 \<le> k" "k \<le> 8"
proof -
  let ?k = "GifBitSize (ColorCount m)"
  have c: "ColorCount m = 2 ^ ?k" by (rule map_okD(2) [OF assms(1), symmetric])
  have "?k \<le> 8" using GifBitSize_least [of "ColorCount m" 8] assms(2) by simp
  with c GifBitSize_bounds(1) [of "ColorCount m"] show thesis by (intro that)
qed

lemma union_result_colors:
  assumes R: "union_result (settled k0 in1) in2 0 (length in2) (int k0) out0 tab slot out tab'"
    and pre: "\<And>j. j < k0 \<Longrightarrow> out0 ! j = in1 ! j" and s: "slot \<le> 256"
    and cs: "\<And>j. int j < slot \<Longrightarrow> cs ! j = out ! j" "slot \<le> int (length cs)"
  shows "(\<forall>j < k0. cs ! j = in1 ! j) \<and>
    (\<forall>m < length in2. settled k0 in1 (in2 ! m) \<longrightarrow> unat (tab' ! m) < length cs \<and> cs ! unat (tab' ! m) = in2 ! m)"
proof (intro conjI allI impI)
  fix j assume "j < k0"
  with cs(1) [of j] pre [of j] R show "cs ! j = in1 ! j" by (simp add: union_result_def)
next
  fix m assume "m < length in2" "settled k0 in1 (in2 ! m)"
  with R s have m: "int (unat (tab' ! m)) < slot" "out ! unat (tab' ! m) = in2 ! m"
    by (simp_all add: union_result_def)
  show "unat (tab' ! m) < length cs" using m(1) cs(2) by linarith
  show "cs ! unat (tab' ! m) = in2 ! m" using cs(1) [OF m(1)] m(2) by simp
qed

text \<open>The map of twice the larger count that the union starts from.\<close>

lemma GifMakeMapObject_union:
  assumes "map_ok in1" "ColorCount in1 \<le> 256" "map_ok in2" "ColorCount in2 \<le> 256"
  defines "c \<equiv> max (ColorCount in1) (ColorCount in2) * 2"
  obtains h1 where "GifMakeMapObject c None h = Some (None, h1)"
  | u h1 K where "GifMakeMapObject c None h = Some (Some u, h1)" "int (length (Colors u)) = c"
      "ColorCount u = c" "c = 2 ^ Suc K"
proof -
  obtain k1 where k1: "ColorCount in1 = 2 ^ k1" by (rule map_ok_pow [OF assms(1,2)])
  obtain k2 where k2: "ColorCount in2 = 2 ^ k2" by (rule map_ok_pow [OF assms(3,4)])
  have c: "c = 2 ^ Suc (max k1 k2)" unfolding c_def k1 k2 by (simp add: max_def)
  obtain r h1 where mk: "GifMakeMapObject c None h = Some (r, h1)"
    and r: "\<And>m. r = Some m \<Longrightarrow> map_ok m \<and> ColorCount m = c"
    using GifMakeMapObject_None [of c h] by (auto split: option.splits)
  show thesis
  proof (cases r)
    case None
    with mk show thesis by (intro that(1)) simp
  next
    case (Some u)
    with mk r [OF Some] c map_okD(1) [of u] show thesis
      by (intro that(2) [of u h1 "max k1 k2"]) (simp_all only:)
  qed
qed

text \<open>The padding to a power of two keeps the slots that are in use.\<close>

lemma zero_slots_round:
  assumes "slot \<le> 2 ^ k" "(2::int) ^ k \<le> int (length out)" "0 \<le> slot"
  obtains cs where "zero_slots slot (2 ^ k) out = Some cs"
    "\<And>j. int j < slot \<Longrightarrow> take (nat (2 ^ k)) cs ! j = out ! j" "slot \<le> int (length (take (nat (2 ^ k)) cs))"
proof -
  obtain cs where cs: "zero_slots slot (2 ^ k) out = Some cs" using assms(2) by (auto simp: zero_slots_def)
  note zs = zero_slots_spec [OF cs assms(3)]
  have "take (nat (2 ^ k)) cs ! j = out ! j" if "int j < slot" for j
  proof -
    have "j < nat (2 ^ k)" "j < length out" using that assms by linarith+
    then show ?thesis using zs(2) [OF that] by (simp only: nth_take)
  qed
  moreover have "slot \<le> int (length (take (nat (2 ^ k)) cs))"
    using assms unfolding length_take zs(1) by linarith
  ultimately show thesis using cs by (intro that)
qed

text \<open>(C32) The union of two colour maps of at most 256 colours stays inside its arrays when some colour of the first map is
  not black.  When it succeeds, the first map up to its last colour that is not black is a prefix of the union, and the
  translation table sends every colour of the second map to an entry of the union that holds the same colour, except
  perhaps black: that is certain only when the prefix contains it or the first map does not.\<close>

theorem GifUnionColorMap_translates:
  assumes m1: "map_ok in1" "ColorCount in1 \<le> 256" "\<exists>c \<in> set (Colors in1). c \<noteq> black"
    and m2: "map_ok in2" "ColorCount in2 \<le> 256" and tab: "length (Colors in2) \<le> length tab"
  shows "\<exists>r tab' h'. GifUnionColorMap in1 in2 tab h = Some (r, tab', h') \<and>
     (\<forall>u. r = Some u \<longrightarrow> (\<forall>j < kept (Colors in1). Colors u ! j = Colors in1 ! j) \<and>
        (\<forall>m < length (Colors in2).
           Colors in2 ! m \<noteq> black \<or> black \<in> set (take (kept (Colors in1)) (Colors in1)) \<or> black \<notin> set (Colors in1) \<longrightarrow>
           unat (tab' ! m) < length (Colors u) \<and> Colors u ! unat (tab' ! m) = Colors in2 ! m))"
proof (cases rule: GifMakeMapObject_union [OF m1(1,2) m2, of h])
  case (1 h1)
  then show ?thesis by (simp add: GifUnionColorMap_def)
next
  case (2 u h1 K)
  let ?n1 = "length (Colors in1)" and ?n2 = "length (Colors in2)" and ?k0 = "kept (Colors in1)"
  have k0: "?k0 \<le> ?n1" by (rule kept_le)
  have settled: "settled ?k0 (Colors in1) c" if "c \<noteq> black \<or> black \<in> set (take ?k0 (Colors in1)) \<or> black \<notin> set (Colors in1)" for c
  proof -
    have "c \<in> set (take ?k0 (Colors in1)) \<or> c \<in> set (drop ?k0 (Colors in1))" if "c \<in> set (Colors in1)"
      using that set_append [of "take ?k0 (Colors in1)" "drop ?k0 (Colors in1)"] by simp
    then show ?thesis using that kept_rest [of c "Colors in1"] by (auto simp: settled_def)
  qed
  have c1: "ColorCount in1 = int ?n1" "?n1 \<le> 256" "0 < ?n1" and c2: "ColorCount in2 = int ?n2"
    using m1(2) map_okD(1) [OF m1(1)] map_okD(1) [OF m2(1)] map_ok_bounds [OF m1(1)] by auto
  let ?out = "Colors in1 @ drop ?n1 (Colors u)"
  have "?n1 \<le> length (Colors u)" using 2(2) c1(1) c2 by linarith
  then have lout: "int (length ?out) = ColorCount u" "?n1 \<le> length (Colors u)" using 2(2,3) by simp_all
  have sum: "int ?k0 + int ?n2 \<le> int (length ?out)" using lout(1) 2(3) c1(1) c2 k0 by linarith
  obtain slot out tab' where ul: "union_loop (Colors in1) (Colors in2) ?n2 0 (int ?k0) ?out tab = Some (slot, out, tab')"
    and R: "union_result (settled ?k0 (Colors in1)) (Colors in2) 0 ?n2 (int ?k0) ?out tab slot out tab'"
    using union_loop_result [of "Colors in1" 0 ?n2 "Colors in2" tab ?k0 "int ?k0" ?out] c1 c2 tab sum k0
    by (auto simp: nth_append simp del: length_append)
  note good = union_result_colors [OF R]
  have bd: "back_down (Colors in1) (int ?n1) = Some (int ?k0)"
    using back_down_kept [of ?n1 "Colors in1"] m1(3) by simp
  have slot: "0 \<le> slot" "slot \<le> ColorCount u" "length out = length ?out"
    using R sum lout by (auto simp: union_result_def)
  let ?k = "GifBitSize slot"
  note run = GifUnionColorMap_def [of in1 in2 tab h] c1(1) c2 2(1) [unfolded c1(1) c2] bd ul lout(2)
  show ?thesis
  proof (cases "slot \<le> 256 \<and> 2 ^ ?k \<noteq> ColorCount u")
    case False
    then show ?thesis using good [of out] lout slot k0 settled by (auto simp: run Let_def nth_append)
  next
    case True
    have "?k \<le> Suc K" by (rule GifBitSize_least) (use slot 2 in simp_all)
    then have le: "(2::int) ^ ?k \<le> ColorCount u" unfolding 2(3,4) by (rule power_increasing) simp
    then have len: "(2::int) ^ ?k \<le> int (length out)" using lout(1) slot(3) by simp
    have up: "slot \<le> 2 ^ ?k" using True by (intro GifBitSize_bounds(3)) simp
    obtain cs where cs: "zero_slots slot (2 ^ ?k) out = Some cs"
      and low: "\<And>j. int j < slot \<Longrightarrow> take (nat (2 ^ ?k)) cs ! j = out ! j" "slot \<le> int (length (take (nat (2 ^ ?k)) cs))"
      by (rule zero_slots_round [OF up len slot(1)]) blast
    note g = good [OF _ _ low]
    obtain ok h2 where "reallocarray True (2 ^ ?k) 3 h1 = (ok, h2)" by fastforce
    with g True le k0 settled show ?thesis
      by (cases ok) (auto simp: run cs Let_def nth_append)
  qed
qed

definition demo_map :: "GifColorType list \<Rightarrow> ColorMapObject" where
  "demo_map cs = \<lparr>ColorCount = int (length cs), BitsPerPixel = 1, SortFlag = False, Colors = cs\<rparr>"

definition rgb :: "u8 \<Rightarrow> u8 \<Rightarrow> u8 \<Rightarrow> GifColorType" where
  "rgb r g b = \<lparr>Red = r, Green = g, Blue = b\<rparr>"

theorem GifUnionColorMap_translates_witness:
  "\<exists>r tab' h'. GifUnionColorMap (demo_map [rgb 1 2 3, rgb 0 0 0]) (demo_map [rgb 1 2 3, rgb 9 9 9]) [0, 0]
       \<lparr>outcomes = [], blocks = 0\<rparr> = Some (r, tab', h') \<and>
     (\<forall>u. r = Some u \<longrightarrow> (\<forall>j < 1. Colors u ! j = [rgb 1 2 3, rgb 0 0 0] ! j) \<and>
        (\<forall>m < 2. unat (tab' ! m) < length (Colors u) \<and> Colors u ! unat (tab' ! m) = [rgb 1 2 3, rgb 9 9 9] ! m))"
proof -
  have k: "kept [rgb 1 2 3, rgb 0 0 0] = 1" by (simp add: kept_def rgb_def black_def)
  have b: "rgb 1 2 3 \<noteq> black" "rgb 9 9 9 \<noteq> black" by (simp_all add: rgb_def black_def)
  then have "\<forall>m < 2. [rgb 1 2 3, rgb 9 9 9] ! m \<noteq> black" by (auto simp: numeral_2_eq_2 less_Suc_eq)
  then show ?thesis
    using GifUnionColorMap_translates [of "demo_map [rgb 1 2 3, rgb 0 0 0]" "demo_map [rgb 1 2 3, rgb 9 9 9]" "[0, 0]"
        "\<lparr>outcomes = [], blocks = 0\<rparr>"] k b(1)
    by (simp add: map_ok_def demo_map_def GifBitSize_def eval_nat_numeral)
qed

text \<open>The exception occurs: black in the second map is found in the last slot of the first map, and that slot is then given to another
  colour, so black is translated to green.\<close>

lemma black_translated_to_green:
  "case GifUnionColorMap (demo_map [rgb 255 0 0, rgb 0 0 0]) (demo_map [rgb 0 0 0, rgb 0 255 0]) [0, 0] \<lparr>outcomes = [], blocks = 0\<rparr> of
     Some (Some u, tab, _) \<Rightarrow> tab = [1, 1] \<and> Colors u ! 1 = rgb 0 255 0 | _ \<Rightarrow> False"
proof -
  let ?g = "rgb 0 255 0" and ?h = "\<lparr>outcomes = [], blocks = 0\<rparr>"
  have n: "rgb 255 0 0 \<noteq> black" "?g \<noteq> black" "rgb 0 0 0 = black" "rgb 255 0 0 \<noteq> ?g" by (simp_all add: rgb_def black_def)
  have z: "GifBitSize 4 = 2" "GifBitSize 2 = 1" "replicate 4 black = [black, black, black, black]" "[0..<4] = [0, 1, 2, 3]"
    by (simp_all add: GifBitSize_def eval_nat_numeral)
  have m: "GifMakeMapObject 4 None ?h = Some (Some \<lparr>ColorCount = 4, BitsPerPixel = 2, SortFlag = False,
      Colors = [black, black, black, black]\<rparr>, \<lparr>outcomes = [], blocks = 2\<rparr>)"
    by (simp add: GifMakeMapObject_def z malloc_def granted_def)
  have b: "back_down [rgb 255 0 0, black] 2 = Some 1"
    using back_down_kept [of 2 "[rgb 255 0 0, black]"] n(1) by (simp add: kept_def)
  have u: "union_loop [rgb 255 0 0, black] [black, ?g] 2 0 1 [rgb 255 0 0, black, black, black] [0, 0] =
      Some (2, [rgb 255 0 0, ?g, black, black], [1, 1])"
    using n by (simp add: numeral_2_eq_2 lread_def lwrite_def)
  show ?thesis using n by (simp add: GifUnionColorMap_def demo_map_def m b u z zero_slots_def reallocarray_def reallocarray_size_def
      MUL_NO_OVERFLOW_def realloc_def granted_def)
qed

end
