(* ===== verification/GifHash.thy ===== *)
theory GifHash
  imports GifAlloc
begin

text \<open>
  The hash table of the GIF writer (\<open>giflib/src/gif_hash.c\<close>, \<open>gif_hash.h\<close>): open addressing with
  linear probing over 8192 words, each a 20-bit key (prefix code and pixel) above a 12-bit code; the
  key \<open>0xFFFFF\<close> marks a free word.  The probing loops are partial: on a table without a free word
  they do not end.

  The table is shown to implement a finite map (\<open>hash_rep\<close>), and the contract that the encoder relies
  on is the locale \<open>code_dictionary\<close>, interpreted on the routines of \<open>gif_hash.c\<close>.
\<close>

section \<open>The routines\<close>

type_synonym GifHashTableType = "int \<Rightarrow> u32"

definition HT_SIZE :: int where "HT_SIZE = 8192"
definition HT_KEY_MASK :: int where "HT_KEY_MASK = 0x1FFF"

definition HT_GET_KEY :: "u32 \<Rightarrow> u32" where "HT_GET_KEY l = drop_bit 12 l"
definition HT_GET_CODE :: "u32 \<Rightarrow> u32" where "HT_GET_CODE l = l AND 0x0FFF"
definition HT_PUT_KEY :: "u32 \<Rightarrow> u32" where "HT_PUT_KEY l = push_bit 12 l"
definition HT_PUT_CODE :: "int \<Rightarrow> u32" where "HT_PUT_CODE l = of_int (l AND 0x0FFF)"

definition KeyItem :: "u32 \<Rightarrow> int" where
  "KeyItem Item = uint (drop_bit 12 Item XOR Item) AND HT_KEY_MASK"

definition ClearHashTable :: "GifHashTableType \<Rightarrow> GifHashTableType" where
  "ClearHashTable T = (\<lambda>i. if 0 \<le> i \<and> i < HT_SIZE then 0xFFFFFFFF else T i)"

text \<open>\<open>None\<close> inside the result stands for \<open>NULL\<close>.\<close>

definition InitHashTable :: "heap \<Rightarrow> GifHashTableType option \<times> heap" where
  "InitHashTable h = (case malloc 32768 h of
      (False, h') \<Rightarrow> (None, h')
    | (True, h') \<Rightarrow> (Some (ClearHashTable (\<lambda>_. 0)), h'))"

partial_function (option) find_free :: "GifHashTableType \<Rightarrow> int \<Rightarrow> int option" where
  "find_free T HKey =
     (case aread 8192 T HKey of None \<Rightarrow> None
      | Some w \<Rightarrow> if HT_GET_KEY w \<noteq> 0xFFFFF then find_free T ((HKey + 1) AND HT_KEY_MASK) else Some HKey)"

declare find_free.simps [code]

definition InsertHashTable :: "GifHashTableType \<Rightarrow> u32 \<Rightarrow> int \<Rightarrow> GifHashTableType option" where
  "InsertHashTable T Key Code =
     do { HKey \<leftarrow> find_free T (KeyItem Key);
          awrite 8192 T HKey (HT_PUT_KEY Key OR HT_PUT_CODE Code) }"

partial_function (option) find_key :: "GifHashTableType \<Rightarrow> u32 \<Rightarrow> int \<Rightarrow> int option" where
  "find_key T Key HKey =
     (case aread 8192 T HKey of None \<Rightarrow> None
      | Some w \<Rightarrow> if HT_GET_KEY w \<noteq> 0xFFFFF then
                    if Key = HT_GET_KEY w then Some (uint (HT_GET_CODE w))
                    else find_key T Key ((HKey + 1) AND HT_KEY_MASK)
                  else Some (- 1))"

declare find_key.simps [code]

definition ExistsHashTable :: "GifHashTableType \<Rightarrow> u32 \<Rightarrow> int option" where
  "ExistsHashTable T Key = find_key T Key (KeyItem Key)"

section \<open>The map a table represents\<close>

definition used :: "GifHashTableType \<Rightarrow> int \<Rightarrow> bool" where
  "used T i \<longleftrightarrow> HT_GET_KEY (T i) \<noteq> 0xFFFFF"

text \<open>The words with an entry are those of the map, a key occurs once, and the words from the place
  where the search for a key starts to the place of the key are all in use.\<close>

definition hash_rep :: "GifHashTableType \<Rightarrow> (u32 \<rightharpoonup> int) \<Rightarrow> bool" where
  "hash_rep T M \<longleftrightarrow>
     (\<forall>k c. M k = Some c \<longleftrightarrow> (\<exists>i. 0 \<le> i \<and> i < 8192 \<and> used T i \<and> HT_GET_KEY (T i) = k \<and> uint (HT_GET_CODE (T i)) = c)) \<and>
     (\<forall>i j. 0 \<le> i \<and> i < 8192 \<and> 0 \<le> j \<and> j < 8192 \<and> used T i \<and> HT_GET_KEY (T i) = HT_GET_KEY (T j) \<longrightarrow> i = j) \<and>
     (\<forall>i e. 0 \<le> i \<and> i < 8192 \<and> used T i \<and> 0 \<le> e \<and> e < (i - KeyItem (HT_GET_KEY (T i))) mod 8192 \<longrightarrow>
        used T ((KeyItem (HT_GET_KEY (T i)) + e) mod 8192))"

lemma and_key_mask: "x AND HT_KEY_MASK = x mod 8192"
proof -
  have "x AND mask 13 = x mod 2 ^ 13" unfolding take_bit_eq_mask [symmetric] take_bit_eq_mod ..
  then show ?thesis by (simp add: HT_KEY_MASK_def mask_eq_exp_minus_1)
qed

lemma KeyItem_range: "0 \<le> KeyItem k \<and> KeyItem k < 8192"
  by (simp add: KeyItem_def and_key_mask)

lemma probe_shift: "((i + 1) mod 8192 + e) mod 8192 = (i + (e + 1)) mod (8192 :: int)"
  by (metis add.assoc add.commute mod_add_left_eq)

lemma find_free_reaches:
  assumes "0 \<le> i" "i < 8192" "\<not> used T ((i + int d) mod 8192)"
  shows "\<exists>e. 0 \<le> e \<and> e \<le> int d \<and> find_free T i = Some ((i + e) mod 8192) \<and> \<not> used T ((i + e) mod 8192) \<and>
     (\<forall>e'. 0 \<le> e' \<and> e' < e \<longrightarrow> used T ((i + e') mod 8192))"
  using assms
proof (induction d arbitrary: i)
  case 0
  then have "find_free T i = Some i" by (subst find_free.simps) (simp add: used_def)
  with 0 show ?case by (intro exI [of _ 0]) auto
next
  case (Suc d)
  show ?case
  proof (cases "used T i")
    case False
    then have "find_free T i = Some i" using Suc.prems by (subst find_free.simps) (simp add: used_def)
    with False Suc.prems show ?thesis by (intro exI [of _ 0]) auto
  next
    case True
    let ?i = "(i + 1) mod 8192"
    have run: "find_free T i = find_free T ?i" using True Suc.prems by (subst find_free.simps) (simp add: used_def and_key_mask)
    have "\<not> used T ((?i + int d) mod 8192)" using Suc.prems(3) unfolding probe_shift by (simp add: ac_simps)
    from Suc.IH [OF _ _ this] obtain e where e: "0 \<le> e" "e \<le> int d" "find_free T ?i = Some ((?i + e) mod 8192)"
      "\<not> used T ((?i + e) mod 8192)" "\<forall>e'. 0 \<le> e' \<and> e' < e \<longrightarrow> used T ((?i + e') mod 8192)" by auto
    have "used T ((i + e') mod 8192)" if "0 \<le> e'" "e' < e + 1" for e'
    proof (cases "e' = 0")
      case True
      with \<open>used T i\<close> Suc.prems show ?thesis by simp
    next
      case False
      with e(5) [rule_format, of "e' - 1"] that show ?thesis by (simp add: probe_shift)
    qed
    with e run show ?thesis by (intro exI [of _ "e + 1"]) (simp add: probe_shift)
  qed
qed

lemma find_key_reaches:
  assumes "0 \<le> i" "i < 8192" "\<forall>e'. 0 \<le> e' \<and> e' < int d \<longrightarrow> used T ((i + e') mod 8192) \<and> HT_GET_KEY (T ((i + e') mod 8192)) \<noteq> k"
  shows "find_key T k i = find_key T k ((i + int d) mod 8192)"
  using assms
proof (induction d arbitrary: i)
  case (Suc d)
  let ?i = "(i + 1) mod 8192"
  have 0: "used T i" "HT_GET_KEY (T i) \<noteq> k" using Suc.prems(3) [rule_format, of 0] Suc.prems(1,2) by auto
  have run: "find_key T k i = find_key T k ?i"
    using 0 Suc.prems by (subst find_key.simps) (auto simp: used_def and_key_mask)
  have "find_key T k ?i = find_key T k ((?i + int d) mod 8192)"
  proof (rule Suc.IH)
    show "\<forall>e'. 0 \<le> e' \<and> e' < int d \<longrightarrow> used T ((?i + e') mod 8192) \<and> HT_GET_KEY (T ((?i + e') mod 8192)) \<noteq> k"
      unfolding probe_shift using Suc.prems(3) by simp
  qed simp_all
  with run show ?case unfolding probe_shift by (simp add: ac_simps)
qed simp

lemma offset_exists:
  assumes "0 \<le> i" "i < (8192 :: int)" "0 \<le> s" "s < 8192"
  shows "\<exists>d. d < 8192 \<and> (i + int d) mod 8192 = s \<and> int d = (s - i) mod 8192"
proof (intro exI conjI)
  let ?d = "nat ((s - i) mod 8192)"
  show "int ?d = (s - i) mod 8192" by simp
  then show "(i + int ?d) mod 8192 = s" using assms by (simp add: mod_add_right_eq)
  show "?d < 8192" by (simp add: nat_less_iff)
qed

lemma probe_inj:
  assumes "(i + e) mod 8192 = (i + e') mod (8192 :: int)" "0 \<le> e" "e < 8192" "0 \<le> e'" "e' < 8192"
  shows "e = e'"
proof -
  have "8192 dvd (i + e) - (i + e')" using assms(1) by (simp only: mod_eq_dvd_iff)
  then have "8192 dvd e - e'" "8192 dvd e' - e" by (simp_all add: dvd_diff_commute)
  then show ?thesis using zdvd_imp_le [of 8192 "e - e'"] zdvd_imp_le [of 8192 "e' - e"] assms(2-5) by linarith
qed

lemma hash_repD:
  assumes "hash_rep T M"
  shows "M k = Some c \<longleftrightarrow> (\<exists>i. 0 \<le> i \<and> i < 8192 \<and> used T i \<and> HT_GET_KEY (T i) = k \<and> uint (HT_GET_CODE (T i)) = c)"
    "0 \<le> i \<Longrightarrow> i < 8192 \<Longrightarrow> 0 \<le> j \<Longrightarrow> j < 8192 \<Longrightarrow> used T i \<Longrightarrow> HT_GET_KEY (T i) = HT_GET_KEY (T j) \<Longrightarrow> i = j"
    "0 \<le> i \<Longrightarrow> i < 8192 \<Longrightarrow> used T i \<Longrightarrow> 0 \<le> e \<Longrightarrow> e < (i - KeyItem (HT_GET_KEY (T i))) mod 8192 \<Longrightarrow>
        used T ((KeyItem (HT_GET_KEY (T i)) + e) mod 8192)"
  using assms unfolding hash_rep_def by blast+

text \<open>A table that represents fewer than 8192 entries has a free word.\<close>

lemma hash_rep_card:
  assumes rep: "hash_rep T M"
  shows "finite (dom M)" "card (dom M) = card {i. 0 \<le> i \<and> i < 8192 \<and> used T i}"
proof -
  let ?U = "{i. 0 \<le> i \<and> i < 8192 \<and> used T i}"
  have fin: "finite ?U" by (rule finite_subset [of _ "{0..<8192}"]) auto
  have dom: "dom M = (\<lambda>i. HT_GET_KEY (T i)) ` ?U" using hash_repD(1) [OF rep] by (auto simp: dom_def)
  then show "finite (dom M)" using fin by simp
  have "inj_on (\<lambda>i. HT_GET_KEY (T i)) ?U" using hash_repD(2) [OF rep] by (auto simp: inj_on_def)
  then show "card (dom M) = card ?U" using dom by (simp add: card_image)
qed

lemma hash_rep_free:
  assumes rep: "hash_rep T M" and room: "card (dom M) < 8192"
  shows "\<exists>s. 0 \<le> s \<and> s < 8192 \<and> \<not> used T s"
proof (rule ccontr)
  assume "\<not> ?thesis"
  then have "{i. 0 \<le> i \<and> i < 8192 \<and> used T i} = {0..<8192}" by auto
  then have "card {i. 0 \<le> i \<and> i < 8192 \<and> used T i} = 8192" by simp
  with hash_rep_card(2) [OF rep] room show False by simp
qed

lemma hash_rep_key:
  assumes "hash_rep T M" "M k = Some c"
  shows "k < 0xFFFFF"
proof -
  obtain i where i: "used T i" "HT_GET_KEY (T i) = k" using assms hash_repD(1) [OF assms(1)] by blast
  have "uint k = uint (T i) div 4096" using i(2) by (auto simp: HT_GET_KEY_def drop_bit_eq_div uint_div_distrib)
  moreover have "uint (T i) < 2 ^ 32" using uint_lt2p [of "T i"] by simp
  ultimately have "uint k < 2 ^ 20" by simp
  then show ?thesis using i by (simp add: used_def word_less_def word_uint_eq_iff)
qed

section \<open>Correctness of the routines\<close>

lemma hash_rep_clear: "hash_rep (ClearHashTable T) Map.empty"
proof -
  have "\<not> used (ClearHashTable T) i" if "0 \<le> i" "i < 8192" for i
    using that by (simp add: used_def ClearHashTable_def HT_SIZE_def HT_GET_KEY_def drop_bit_eq_div)
  then show ?thesis by (auto simp: hash_rep_def)
qed

lemma find_key_stop:
  assumes "0 \<le> i" "i < 8192"
  shows "\<not> used T i \<Longrightarrow> find_key T k i = Some (- 1)"
    "used T i \<Longrightarrow> HT_GET_KEY (T i) = k \<Longrightarrow> find_key T k i = Some (uint (HT_GET_CODE (T i)))"
  using assms by (subst find_key.simps; simp add: used_def)+

text \<open>The search returns the code of the map, or \<open>-1\<close>, and it ends.\<close>

lemma ExistsHashTable_correct:
  assumes rep: "hash_rep T M" and room: "card (dom M) < 8192"
  shows "ExistsHashTable T k = Some (case M k of None \<Rightarrow> - 1 | Some c \<Rightarrow> c)"
proof -
  let ?h = "KeyItem k"
  have h: "0 \<le> ?h" "?h < 8192" using KeyItem_range by auto
  show ?thesis
  proof (cases "M k")
    case (Some c)
    then obtain i where i: "0 \<le> i" "i < 8192" "used T i" "HT_GET_KEY (T i) = k" "uint (HT_GET_CODE (T i)) = c"
      using hash_repD(1) [OF rep] by blast
    obtain d where d: "(?h + int d) mod 8192 = i" "int d = (i - ?h) mod 8192" "d < 8192"
      using offset_exists [OF h i(1,2)] by blast
    have "find_key T k ?h = find_key T k ((?h + int d) mod 8192)"
    proof (rule find_key_reaches [OF h], intro allI impI conjI)
      fix e' assume e': "0 \<le> e' \<and> e' < int d"
      show "used T ((?h + e') mod 8192)" using hash_repD(3) [OF rep i(1-3), of e'] e' d(2) i(4) by simp
      show "HT_GET_KEY (T ((?h + e') mod 8192)) \<noteq> k"
      proof
        assume "HT_GET_KEY (T ((?h + e') mod 8192)) = k"
        then have "i = (?h + e') mod 8192" using hash_repD(2) [OF rep i(1,2), of "(?h + e') mod 8192"] i by simp
        with d(1) have eq: "(?h + int d) mod 8192 = (?h + e') mod 8192" by simp
        have "int d < 8192" "e' < 8192" using d(3) e' by linarith+
        then have "int d = e'" using probe_inj [OF eq] e' by simp
        with e' show False by simp
      qed
    qed
    then show ?thesis using d(1) find_key_stop(2) [OF i(1-4)] i(5) Some by (simp add: ExistsHashTable_def)
  next
    case None
    have fresh: "HT_GET_KEY (T i) \<noteq> k" if "0 \<le> i" "i < 8192" "used T i" for i
      using hash_repD(1) [OF rep, of k "uint (HT_GET_CODE (T i))"] None that by auto
    obtain s where "0 \<le> s" "s < 8192" "\<not> used T s" using hash_rep_free [OF rep room] by blast
    then obtain d where "\<not> used T ((?h + int d) mod 8192)" using offset_exists [OF h] by metis
    from find_free_reaches [OF h this] obtain e where e: "0 \<le> e" "\<not> used T ((?h + e) mod 8192)"
      "\<forall>e'. 0 \<le> e' \<and> e' < e \<longrightarrow> used T ((?h + e') mod 8192)" by blast
    have "find_key T k ?h = find_key T k ((?h + int (nat e)) mod 8192)"
      by (rule find_key_reaches [OF h]) (use e fresh in auto)
    then show ?thesis using e find_key_stop(1) [of "(?h + e) mod 8192" T k] None by (simp add: ExistsHashTable_def)
  qed
qed

text \<open>Packing and unpacking of a word.\<close>

lemma take_bit_self_of_less:
  fixes w :: u32
  shows "uint w < 2 ^ n \<Longrightarrow> take_bit n w = w"
  by (simp add: word_uint_eq_iff unsigned_take_bit_eq take_bit_int_eq_self)

lemma pack_word:
  assumes "k < 0xFFFFF" "0 \<le> c" "c < 4096"
  shows "HT_GET_KEY (HT_PUT_KEY k OR HT_PUT_CODE c) = k" "uint (HT_GET_CODE (HT_PUT_KEY k OR HT_PUT_CODE c)) = c"
proof -
  define w where "w = (of_int c :: u32)"
  have uw: "uint w = c" using assms by (simp add: w_def uint_word_of_int_eq take_bit_int_eq_self)
  have "take_bit 20 k = k" using assms(1) by (intro take_bit_self_of_less) (simp add: word_less_def)
  then have bk: "bit k n \<Longrightarrow> n < 20" for n by (metis bit_take_bit_iff)
  have "take_bit 12 w = w" using assms uw by (intro take_bit_self_of_less) simp
  then have bw: "bit w n \<Longrightarrow> n < 12" for n by (metis bit_take_bit_iff)
  have "c AND 0x0FFF = c" using assms take_bit_int_eq_self [of c 12] by (simp add: take_bit_eq_mask mask_eq_exp_minus_1)
  then have code: "HT_PUT_CODE c = w" by (simp add: HT_PUT_CODE_def w_def)
  show "HT_GET_KEY (HT_PUT_KEY k OR HT_PUT_CODE c) = k"
    unfolding HT_GET_KEY_def HT_PUT_KEY_def code by (rule bit_word_eqI) (use bk bw in \<open>fastforce simp: bit_simps\<close>)
  have "HT_GET_CODE (HT_PUT_KEY k OR HT_PUT_CODE c) = take_bit 12 (push_bit 12 k OR w)"
    by (simp add: HT_GET_CODE_def HT_PUT_KEY_def code take_bit_eq_mask mask_eq_exp_minus_1)
  also have "\<dots> = w" by (rule bit_word_eqI) (use bw in \<open>auto simp: bit_simps\<close>)
  finally show "uint (HT_GET_CODE (HT_PUT_KEY k OR HT_PUT_CODE c)) = c" using uw by simp
qed

text \<open>Inserting a new key extends the map.\<close>

lemma InsertHashTable_correct:
  assumes rep: "hash_rep T M" and room: "card (dom M) < 8192" and new: "M k = None" and k: "k < 0xFFFFF"
    and c: "0 \<le> c" "c < 4096"
  shows "\<exists>T'. InsertHashTable T k c = Some T' \<and> hash_rep T' (M(k \<mapsto> c))"
proof -
  let ?h = "KeyItem k" and ?w = "HT_PUT_KEY k OR HT_PUT_CODE c"
  note pk = pack_word [OF k c]
  have h: "0 \<le> ?h" "?h < 8192" using KeyItem_range by auto
  obtain s where "0 \<le> s" "s < 8192" "\<not> used T s" using hash_rep_free [OF rep room] by blast
  then obtain d where "\<not> used T ((?h + int d) mod 8192)" "d < 8192" using offset_exists [OF h] by metis
  from find_free_reaches [OF h this(1)] this(2) obtain e where e: "0 \<le> e" "e < 8192" "find_free T ?h = Some ((?h + e) mod 8192)"
    "\<not> used T ((?h + e) mod 8192)" "\<forall>e'. 0 \<le> e' \<and> e' < e \<longrightarrow> used T ((?h + e') mod 8192)" by force
  define s where "s = (?h + e) mod 8192"
  have s: "0 \<le> s" "s < 8192" "\<not> used T s" using e by (auto simp: s_def)
  define T' where "T' = T(s := ?w)"
  have run: "InsertHashTable T k c = Some T'" using e(3) s by (simp add: InsertHashTable_def s_def [symmetric] T'_def)
  have us: "used T' s" using pk k by (auto simp: used_def T'_def)
  have at: "T' s = ?w" "\<And>i. i \<noteq> s \<Longrightarrow> T' i = T i" by (simp_all add: T'_def)
  have ux: "used T' i \<longleftrightarrow> i = s \<or> used T i" for i using us at by (cases "i = s") (auto simp: used_def)
  have fresh: "HT_GET_KEY (T i) \<noteq> k" if "0 \<le> i" "i < 8192" "used T i" for i
    using hash_repD(1) [OF rep, of k "uint (HT_GET_CODE (T i))"] new that by auto
  have "hash_rep T' (M(k \<mapsto> c))"
    unfolding hash_rep_def
  proof (intro conjI allI impI)
    fix k' c'
    show "((M(k \<mapsto> c)) k' = Some c') = (\<exists>i. 0 \<le> i \<and> i < 8192 \<and> used T' i \<and> HT_GET_KEY (T' i) = k' \<and> uint (HT_GET_CODE (T' i)) = c')"
    proof (cases "k' = k")
      case True
      have only: "i = s" if "0 \<le> i" "i < 8192" "used T' i" "HT_GET_KEY (T' i) = k" for i
      proof (rule ccontr)
        assume "i \<noteq> s"
        then show False using that fresh [of i] at(2) [of i] ux [of i] by simp
      qed
      have "(\<exists>i. 0 \<le> i \<and> i < 8192 \<and> used T' i \<and> HT_GET_KEY (T' i) = k \<and> uint (HT_GET_CODE (T' i)) = c') \<longleftrightarrow>
          uint (HT_GET_CODE (T' s)) = c'"
        using only us s(1,2) pk(1) unfolding at(1) [symmetric] by blast
      with True at(1) pk(2) show ?thesis by simp
    next
      case False
      have "(0 \<le> i \<and> i < 8192 \<and> used T' i \<and> HT_GET_KEY (T' i) = k' \<and> uint (HT_GET_CODE (T' i)) = c') \<longleftrightarrow>
          (0 \<le> i \<and> i < 8192 \<and> used T i \<and> HT_GET_KEY (T i) = k' \<and> uint (HT_GET_CODE (T i)) = c')" for i
      proof (cases "i = s")
        case True
        then show ?thesis using False pk(1) at(1) s(3) by simp
      qed (simp add: at(2) ux)
      with hash_repD(1) [OF rep, of k' c'] False show ?thesis by simp
    qed
  next
    fix i j
    assume a: "0 \<le> i \<and> i < 8192 \<and> 0 \<le> j \<and> j < 8192 \<and> used T' i \<and> HT_GET_KEY (T' i) = HT_GET_KEY (T' j)"
    then have "used T' j" by (auto simp: used_def)
    with a show "i = j"
      using hash_repD(2) [OF rep, of i j] fresh [of i] fresh [of j] ux [of i] ux [of j] at(1) at(2) [of i] at(2) [of j] pk(1)
      by (cases "i = s"; cases "j = s") auto
  next
    fix i e'
    assume a: "0 \<le> i \<and> i < 8192 \<and> used T' i \<and> 0 \<le> e' \<and> e' < (i - KeyItem (HT_GET_KEY (T' i))) mod 8192"
    show "used T' ((KeyItem (HT_GET_KEY (T' i)) + e') mod 8192)"
    proof (cases "i = s")
      case True
      have "(s - ?h) mod 8192 = e" using e(1,2) by (simp add: s_def mod_diff_left_eq)
      with True a e(5) ux at(1) pk(1) show ?thesis by simp
    next
      case False
      with a hash_repD(3) [OF rep, of i e'] ux at(2) [OF False] show ?thesis by simp
    qed
  qed
  with run show ?thesis by blast
qed

section \<open>The contract of the encoder's dictionary\<close>

text \<open>Entries inserted one after the other.\<close>

fun insert_all :: "('d \<Rightarrow> u32 \<Rightarrow> int \<Rightarrow> 'd option) \<Rightarrow> 'd \<Rightarrow> (u32 \<times> int) list \<Rightarrow> 'd option" where
  "insert_all ins d [] = Some d"
| "insert_all ins d ((k, c) # kcs) = do { d' \<leftarrow> ins d k c; insert_all ins d' kcs }"

locale code_dictionary =
  fixes clear :: "'d \<Rightarrow> 'd"
    and ins :: "'d \<Rightarrow> u32 \<Rightarrow> int \<Rightarrow> 'd option"
    and lookup :: "'d \<Rightarrow> u32 \<Rightarrow> int option"
    and rep :: "'d \<Rightarrow> (u32 \<rightharpoonup> int) \<Rightarrow> bool"
    and capacity :: nat
  assumes rep_finite: "rep d M \<Longrightarrow> finite (dom M)"
    and rep_clear: "rep (clear d) Map.empty"
    and rep_ins: "rep d M \<Longrightarrow> card (dom M) < capacity \<Longrightarrow> M k = None \<Longrightarrow> k < 0xFFFFF \<Longrightarrow> 0 \<le> c \<Longrightarrow> c < 4096 \<Longrightarrow>
        \<exists>d'. ins d k c = Some d' \<and> rep d' (M(k \<mapsto> c))"
    and rep_lookup: "rep d M \<Longrightarrow> card (dom M) < capacity \<Longrightarrow> lookup d k = Some (case M k of None \<Rightarrow> - 1 | Some c \<Rightarrow> c)"
begin

lemma rep_ins_card:
  assumes "rep d M" "M k = None"
  shows "card (dom (M(k \<mapsto> c))) = Suc (card (dom M))"
  using rep_finite [OF assms(1)] assms(2) by (simp add: domIff)

lemma insert_all_rep:
  assumes "rep d M" "card (dom M) + length kcs < capacity" "distinct (map fst kcs)"
    "\<forall>(k, c) \<in> set kcs. k < 0xFFFFF \<and> 0 \<le> c \<and> c < 4096" "\<forall>k \<in> fst ` set kcs. M k = None"
  shows "\<exists>d'. insert_all ins d kcs = Some d' \<and> rep d' (M ++ map_of kcs) \<and> card (dom (M ++ map_of kcs)) = card (dom M) + length kcs"
  using assms
proof (induction kcs arbitrary: d M)
  case (Cons kc kcs)
  obtain k c where kc: "kc = (k, c)" by fastforce
  define M1 where "M1 = M(k \<mapsto> c)"
  have M1: "M1 k' = (if k' = k then Some c else M k')" for k' by (simp add: M1_def)
  obtain d1 where d1: "ins d k c = Some d1" "rep d1 M1"
    using rep_ins [of d M k c] Cons.prems kc by (auto simp: M1_def)
  have card: "card (dom M1) = Suc (card (dom M))"
    using rep_ins_card [of d M k c] Cons.prems kc by (simp add: M1_def)
  have room: "card (dom M1) + length kcs < capacity" using Cons.prems(2) card by simp
  have new: "\<forall>k' \<in> fst ` set kcs. M1 k' = None" using Cons.prems(3,5) kc by (auto simp: M1)
  have "\<exists>d'. insert_all ins d1 kcs = Some d' \<and> rep d' (M1 ++ map_of kcs) \<and>
      card (dom (M1 ++ map_of kcs)) = card (dom M1) + length kcs"
    by (rule Cons.IH [OF d1(2) room _ _ new]) (use Cons.prems(3,4) in auto)
  moreover have "M1 ++ map_of kcs = M ++ map_of (kc # kcs)"
  proof (rule ext)
    fix x
    have "map_of kcs k = None" using Cons.prems(3) kc by (simp add: map_of_eq_None_iff)
    then show "(M1 ++ map_of kcs) x = (M ++ map_of (kc # kcs)) x"
      by (cases "x = k") (auto simp: M1 kc map_add_def split: option.splits)
  qed
  moreover have "insert_all ins d (kc # kcs) = insert_all ins d1 kcs" using d1(1) kc by simp
  moreover have "card (dom M1) + length kcs = card (dom M) + length (kc # kcs)" using card by simp
  ultimately show ?case by (simp only:)
qed simp

lemma lookup_insert_all:
  assumes "length kcs < capacity" "distinct (map fst kcs)" "\<forall>(k, c) \<in> set kcs. k < 0xFFFFF \<and> 0 \<le> c \<and> c < 4096"
  shows "\<exists>d'. insert_all ins (clear d) kcs = Some d' \<and>
     (\<forall>k. lookup d' k = Some (case map_of kcs k of None \<Rightarrow> - 1 | Some c \<Rightarrow> c))"
proof -
  obtain d' where d': "insert_all ins (clear d) kcs = Some d'" "rep d' (Map.empty ++ map_of kcs)"
    "card (dom (Map.empty ++ map_of kcs)) = card (dom (Map.empty :: u32 \<rightharpoonup> int)) + length kcs"
    using insert_all_rep [OF rep_clear, of kcs d] assms by auto
  then show ?thesis using rep_lookup [OF d'(2)] assms(1) by simp
qed

end

interpretation ht: code_dictionary ClearHashTable InsertHashTable ExistsHashTable hash_rep 8192
  by unfold_locales
     (use hash_rep_card(1) hash_rep_clear InsertHashTable_correct ExistsHashTable_correct in blast)+

text \<open>(C24) After a table has been cleared and up to 8191 different keys have been inserted, the insertions
  and every search come to an end, a search for an inserted key returns its code, and a search for
  any other key returns \<open>-1\<close>.\<close>

theorem hash_table_lookup:
  assumes "length kcs < 8192" "distinct (map fst kcs)" "\<forall>(k, c) \<in> set kcs. k < 0xFFFFF \<and> 0 \<le> c \<and> c < 4096"
  shows "\<exists>T'. insert_all InsertHashTable (ClearHashTable T) kcs = Some T' \<and>
     (\<forall>k. ExistsHashTable T' k = Some (case map_of kcs k of None \<Rightarrow> - 1 | Some c \<Rightarrow> c))"
  using assms by (rule ht.lookup_insert_all)

theorem hash_table_lookup_witness:
  "\<exists>T'. insert_all InsertHashTable (ClearHashTable (\<lambda>_. 0)) [(0x1041, 258), (0x0041, 259), (0x2041, 260)] = Some T' \<and>
     (\<forall>k. ExistsHashTable T' k =
        Some (case map_of [(0x1041, 258), (0x0041, 259), (0x2041, 260)] k of None \<Rightarrow> - 1 | Some c \<Rightarrow> c))"
  by (rule hash_table_lookup) simp_all

end
