(* ===== verification/EGif.thy ===== *)
theory EGif
  imports GifHash
begin

text \<open>
  The GIF writer, \<open>giflib/src/egif_lib.c\<close>.

  The sink (the \<open>Write\<close> callback or the file) is the list \<open>written\<close> of the bytes it has accepted and
  the number \<open>space\<close> of bytes it still accepts, \<open>None\<close> when it accepts everything; \<open>InternalWrite\<close>
  returns the number of bytes accepted.  As in the reader, routines on the private state act on the
  record \<open>epriv\<close>, routines of the file return \<open>GIF_ERROR\<close> or \<open>GIF_OK\<close> with the file, and \<open>None\<close> is an
  access outside an array.
\<close>

section \<open>State and output\<close>

record epriv = GifFilePrivateType +
  HashTable :: GifHashTableType
  written :: "u8 list"
  space :: "nat option"

type_synonym egif = "epriv GifFileType"

definition E_GIF_ERR_OPEN_FAILED :: int where "E_GIF_ERR_OPEN_FAILED = 1"
definition E_GIF_ERR_WRITE_FAILED :: int where "E_GIF_ERR_WRITE_FAILED = 2"
definition E_GIF_ERR_HAS_SCRN_DSCR :: int where "E_GIF_ERR_HAS_SCRN_DSCR = 3"
definition E_GIF_ERR_HAS_IMAG_DSCR :: int where "E_GIF_ERR_HAS_IMAG_DSCR = 4"
definition E_GIF_ERR_NO_COLOR_MAP :: int where "E_GIF_ERR_NO_COLOR_MAP = 5"
definition E_GIF_ERR_DATA_TOO_BIG :: int where "E_GIF_ERR_DATA_TOO_BIG = 6"
definition E_GIF_ERR_NOT_ENOUGH_MEM :: int where "E_GIF_ERR_NOT_ENOUGH_MEM = 7"
definition E_GIF_ERR_DISK_IS_FULL :: int where "E_GIF_ERR_DISK_IS_FULL = 8"
definition E_GIF_ERR_CLOSE_FAILED :: int where "E_GIF_ERR_CLOSE_FAILED = 9"
definition E_GIF_ERR_NOT_WRITEABLE :: int where "E_GIF_ERR_NOT_WRITEABLE = 10"

definition COMMENT_EXT_FUNC_CODE :: int where "COMMENT_EXT_FUNC_CODE = 0xfe"
definition PLAINTEXT_EXT_FUNC_CODE :: int where "PLAINTEXT_EXT_FUNC_CODE = 0x01"
definition APPLICATION_EXT_FUNC_CODE :: int where "APPLICATION_EXT_FUNC_CODE = 0xff"

definition EXTENSION_INTRODUCER :: u8 where "EXTENSION_INTRODUCER = 0x21"
definition DESCRIPTOR_INTRODUCER :: u8 where "DESCRIPTOR_INTRODUCER = 0x2c"
definition TERMINATOR_INTRODUCER :: u8 where "TERMINATOR_INTRODUCER = 0x3b"

definition GIF87_STAMP :: "u8 list" where "GIF87_STAMP = [0x47, 0x49, 0x46, 0x38, 0x37, 0x61]"
definition GIF89_STAMP :: "u8 list" where "GIF89_STAMP = [0x47, 0x49, 0x46, 0x38, 0x39, 0x61]"

definition CodeMask :: "u8 list" where
  "CodeMask = [0x00, 0x01, 0x03, 0x07, 0x0f, 0x1f, 0x3f, 0x7f, 0xff]"

definition LOBYTE :: "int \<Rightarrow> u8" where "LOBYTE x = of_int (x AND 0xff)"
definition HIBYTE :: "int \<Rightarrow> u8" where "HIBYTE x = of_int (drop_bit 8 x AND 0xff)"

definition InternalWrite :: "u8 list \<Rightarrow> epriv \<Rightarrow> nat \<times> epriv" where
  "InternalWrite buf p =
     (let n = (case space p of None \<Rightarrow> length buf | Some s \<Rightarrow> min s (length buf))
      in (n, p\<lparr>written := written p @ take n buf, space := map_option (\<lambda>s. s - n) (space p)\<rparr>))"

text \<open>A write whose result is not looked at.\<close>

definition put :: "u8 list \<Rightarrow> epriv \<Rightarrow> epriv" where
  "put buf p = snd (InternalWrite buf p)"

definition EGifPutWord :: "int \<Rightarrow> epriv \<Rightarrow> gif_status \<times> epriv" where
  "EGifPutWord Word p =
     (let (n, p') = InternalWrite [LOBYTE Word, HIBYTE Word] p in (if n = 2 then GIF_OK else GIF_ERROR, p'))"

definition put_word :: "int \<Rightarrow> epriv \<Rightarrow> epriv" where
  "put_word Word p = snd (EGifPutWord Word p)"

section \<open>LZW compression\<close>

definition buf_bytes :: "(int \<Rightarrow> u8) \<Rightarrow> nat \<Rightarrow> u8 list" where
  "buf_bytes b n = map (\<lambda>i. b (int i)) [0..<n]"

text \<open>\<open>Buf[0]\<close> is the number of bytes that wait in \<open>Buf[1..]\<close>.\<close>

definition EGifBufferedOutput :: "int \<Rightarrow> epriv \<Rightarrow> (unit lz_result \<times> epriv) option" where
  "EGifBufferedOutput c p =
     do { b0 \<leftarrow> aread 256 (Buf p) 0;
          if c = FLUSH_OUTPUT then
            let (n, p1) = (if b0 \<noteq> 0 then InternalWrite (buf_bytes (Buf p) (unat b0 + 1)) p else (1, p))
            in if b0 \<noteq> 0 \<and> n \<noteq> unat b0 + 1 then Some (LzFail (Some E_GIF_ERR_WRITE_FAILED), p1)
               else do { buf \<leftarrow> awrite 256 (Buf p1) 0 0;
                         let (n, p2) = InternalWrite [0] (p1\<lparr>Buf := buf\<rparr>);
                         Some (if n \<noteq> 1 then LzFail (Some E_GIF_ERR_WRITE_FAILED) else LzOk (), p2) }
          else
            let (n, p1) = (if b0 = 255 then InternalWrite (buf_bytes (Buf p) 256) p else (256, p))
            in if b0 = 255 \<and> n \<noteq> 256 then Some (LzFail (Some E_GIF_ERR_WRITE_FAILED), p1)
               else do { let b1 = (if b0 = 255 then 0 else b0) + 1;
                         buf1 \<leftarrow> awrite 256 (Buf p1) 0 b1;
                         buf2 \<leftarrow> awrite 256 buf1 (uint b1) (of_int c);
                         Some (LzOk (), p1\<lparr>Buf := buf2\<rparr>) } }"

lemma EGifBufferedOutput_shift:
  "EGifBufferedOutput c p = Some (r, p') \<Longrightarrow> CrntShiftState p' = CrntShiftState p"
  by (auto simp: EGifBufferedOutput_def InternalWrite_def Let_def bind_eq_Some_conv split: if_splits)

text \<open>\<open>while (CrntShiftState >= limit)\<close>: full bytes are sent; \<open>err\<close> is the last error so far.  A failed
  byte does not stop the loop.\<close>

function drain_bits :: "int \<Rightarrow> int option \<Rightarrow> epriv \<Rightarrow> (int option \<times> epriv) option" where
  "drain_bits limit err p =
     (if CrntShiftState p \<ge> limit \<and> 0 < limit then
        (case EGifBufferedOutput (uint (CrntShiftDWord p AND 0xff)) p of
           None \<Rightarrow> None
         | Some (r, p1) \<Rightarrow>
             drain_bits limit (case r of LzFail e \<Rightarrow> e | LzOk _ \<Rightarrow> err)
               (p1\<lparr>CrntShiftDWord := drop_bit 8 (CrntShiftDWord p1), CrntShiftState := CrntShiftState p1 - 8\<rparr>))
      else Some (err, p))"
  by pat_completeness auto
termination
  by (relation "measure (\<lambda>(limit, err, p). nat (CrntShiftState p))") (auto dest: EGifBufferedOutput_shift)

declare drain_bits.simps [simp del]

definition to_result :: "int option \<Rightarrow> unit lz_result" where
  "to_result err = (case err of None \<Rightarrow> LzOk () | Some e \<Rightarrow> LzFail (Some e))"

definition EGifCompressOutput :: "int \<Rightarrow> epriv \<Rightarrow> (unit lz_result \<times> epriv) option" where
  "EGifCompressOutput Code p =
     do { (err, p1) \<leftarrow>
            (if Code = FLUSH_OUTPUT then
               do { (e1, q) \<leftarrow> drain_bits 1 None p;
                    (r, q') \<leftarrow> EGifBufferedOutput FLUSH_OUTPUT (q\<lparr>CrntShiftState := 0\<rparr>);
                    Some (case r of LzFail e \<Rightarrow> e | LzOk _ \<Rightarrow> e1, q') }
             else if 0 \<le> CrntShiftState p \<and> CrntShiftState p < 32 then
               drain_bits 8 None
                 (p\<lparr>CrntShiftDWord := CrntShiftDWord p OR push_bit (nat (CrntShiftState p)) (of_int Code),
                    CrntShiftState := CrntShiftState p + RunningBits p\<rparr>)
             else None);
          let p2 = (if RunningCode p1 \<ge> MaxCode1 p1 \<and> Code \<le> 4095
                    then p1\<lparr>RunningBits := RunningBits p1 + 1, MaxCode1 := 2 ^ nat (RunningBits p1 + 1)\<rparr> else p1);
          Some (to_result err, p2) }"

text \<open>The code size is chosen from the colour map in use, at least two bits.\<close>

definition EGifSetupCompress :: "ColorMapObject option \<Rightarrow> ColorMapObject option \<Rightarrow> epriv \<Rightarrow> (unit lz_result \<times> epriv) option" where
  "EGifSetupCompress local_map screen_map p =
     (case (case local_map of Some m \<Rightarrow> Some m | None \<Rightarrow> screen_map) of
        None \<Rightarrow> Some (LzFail (Some E_GIF_ERR_NO_COLOR_MAP), p)
      | Some m \<Rightarrow>
          let bpp = max 2 (BitsPerPixel m);
              p1 = put [of_int bpp] p
          in do { buf \<leftarrow> awrite 256 (Buf p1) 0 0;
                  let p2 = p1\<lparr>Buf := buf, LZBitsPerPixel := bpp, ClearCode := 2 ^ nat bpp, EOFCode := 2 ^ nat bpp + 1,
                              RunningCode := 2 ^ nat bpp + 2, RunningBits := bpp + 1, MaxCode1 := 2 ^ nat (bpp + 1),
                              CrntCode := FIRST_CODE, CrntShiftState := 0, CrntShiftDWord := 0,
                              HashTable := ClearHashTable (HashTable p1)\<rparr>;
                  (r, p3) \<leftarrow> EGifCompressOutput (ClearCode p2) p2;
                  Some (case r of LzFail _ \<Rightarrow> LzFail (Some E_GIF_ERR_DISK_IS_FULL) | LzOk _ \<Rightarrow> LzOk (), p3) })"

text \<open>One pixel: the string with it appended is in the table, or the code of the string is sent and
  the longer string becomes an entry; a full table is cleared.  \<open>Inl\<close> is the error return.\<close>

definition compress_pixel :: "u8 \<Rightarrow> int \<Rightarrow> epriv \<Rightarrow> (epriv + (int \<times> epriv)) option" where
  "compress_pixel Pixel crnt p =
     do { let NewKey = push_bit 8 (of_int crnt) + ucast Pixel;
          NewCode \<leftarrow> ExistsHashTable (HashTable p) NewKey;
          if NewCode \<ge> 0 then Some (Inr (NewCode, p))
          else do {
            (r, p1) \<leftarrow> EGifCompressOutput crnt p;
            case r of
              LzFail _ \<Rightarrow> Some (Inl p1)
            | LzOk _ \<Rightarrow>
                if RunningCode p1 \<ge> LZ_MAX_CODE then
                  do { (r, p2) \<leftarrow> EGifCompressOutput (ClearCode p1) p1;
                       case r of
                         LzFail _ \<Rightarrow> Some (Inl p2)
                       | LzOk _ \<Rightarrow>
                           Some (Inr (uint Pixel,
                             p2\<lparr>RunningCode := EOFCode p2 + 1, RunningBits := LZBitsPerPixel p2 + 1,
                                MaxCode1 := 2 ^ nat (LZBitsPerPixel p2 + 1), HashTable := ClearHashTable (HashTable p2)\<rparr>)) }
                else
                  do { T \<leftarrow> InsertHashTable (HashTable p1) NewKey (RunningCode p1);
                       Some (Inr (uint Pixel, p1\<lparr>HashTable := T, RunningCode := RunningCode p1 + 1\<rparr>)) } } }"

function compress_loop :: "u8 list \<Rightarrow> int \<Rightarrow> int \<Rightarrow> int \<Rightarrow> epriv \<Rightarrow> (epriv + (int \<times> epriv)) option" where
  "compress_loop Line LineLen i crnt p =
     (if i < LineLen then
        (case lread Line i of
           None \<Rightarrow> None
         | Some Pixel \<Rightarrow>
             (case compress_pixel Pixel crnt p of
                None \<Rightarrow> None
              | Some (Inl p') \<Rightarrow> Some (Inl p')
              | Some (Inr (c, p')) \<Rightarrow> compress_loop Line LineLen (i + 1) c p'))
      else Some (Inr (crnt, p)))"
  by pat_completeness auto
termination
  by (relation "measure (\<lambda>(Line, LineLen, i, c, p). nat (LineLen - i))") auto

declare compress_loop.simps [simp del]

text \<open>Codes sent one after the other until one fails.\<close>

fun send_codes :: "int list \<Rightarrow> epriv \<Rightarrow> (unit lz_result \<times> epriv) option" where
  "send_codes [] p = Some (LzOk (), p)"
| "send_codes (c # cs) p =
     do { (r, p') \<leftarrow> EGifCompressOutput c p;
          case r of LzFail _ \<Rightarrow> Some (LzFail (Some E_GIF_ERR_DISK_IS_FULL), p') | LzOk _ \<Rightarrow> send_codes cs p' }"

definition EGifCompressLine :: "u8 list \<Rightarrow> int \<Rightarrow> epriv \<Rightarrow> (unit lz_result \<times> epriv) option" where
  "EGifCompressLine Line LineLen p =
     do { (i, c) \<leftarrow> (if CrntCode p = FIRST_CODE then do { b \<leftarrow> lread Line 0; Some (1, uint b) } else Some (0, CrntCode p));
          r \<leftarrow> compress_loop Line LineLen i c p;
          case r of
            Inl p' \<Rightarrow> Some (LzFail (Some E_GIF_ERR_DISK_IS_FULL), p')
          | Inr (c', p') \<Rightarrow>
              let p2 = p'\<lparr>CrntCode := c'\<rparr>
              in if PixelCount p2 = 0 then send_codes [c', EOFCode p2, FLUSH_OUTPUT] p2
                 else Some (LzOk (), p2) }"

section \<open>Opening and versions\<close>

definition new_egif :: "nat option \<Rightarrow> GifHashTableType \<Rightarrow> heap \<Rightarrow> egif" where
  "new_egif room T h =
     \<lparr>ImageCount = 0, SavedImages = None, gheap = h, SWidth = 0, SHeight = 0, SColorResolution = 0,
      SBackGroundColor = 0, AspectByte = 0, SColorMap = None, Image = zero_desc, FileExtensionBlockCount = 0,
      FileExtensionBlocks = None, Error = 0,
      Private = GifFilePrivateType.extend (zero_private\<lparr>FileState := FILE_STATE_WRITE\<rparr>) (epriv.fields T [] room)\<rparr>"

text \<open>The file, \<open>None\<close> for \<open>NULL\<close>, and the value stored in \<open>*Error\<close>, if one is; \<open>EGifOpenFileHandle\<close>
  stores none when the first allocation fails.\<close>

definition open_sink :: "int option \<Rightarrow> nat option \<Rightarrow> heap \<Rightarrow> egif option \<times> int option \<times> heap" where
  "open_sink first_error room h =
     (case malloc 76 h of
        (False, h1) \<Rightarrow> (None, first_error, h1)
      | (True, h1) \<Rightarrow>
          (case malloc 24908 h1 of
             (False, h2) \<Rightarrow> (None, Some E_GIF_ERR_NOT_ENOUGH_MEM, free True h2)
           | (True, h2) \<Rightarrow>
               (case InitHashTable h2 of
                  (None, h3) \<Rightarrow> (None, Some E_GIF_ERR_NOT_ENOUGH_MEM, free True (free True h3))
                | (Some T, h3) \<Rightarrow> (Some (new_egif room T h3), None, h3))))"

definition EGifOpen :: "nat option \<Rightarrow> heap \<Rightarrow> egif option \<times> int option \<times> heap" where
  "EGifOpen = open_sink (Some E_GIF_ERR_NOT_ENOUGH_MEM)"

definition EGifOpenFileHandle :: "nat option \<Rightarrow> heap \<Rightarrow> egif option \<times> int option \<times> heap" where
  "EGifOpenFileHandle = open_sink None"

text \<open>\<open>opened\<close> is the answer of \<open>open\<close>: \<open>None\<close> for \<open>-1\<close>, otherwise the room behind the handle.  The flags
  depend on \<open>TestExistence\<close> and reach only \<open>open\<close>.\<close>

definition EGifOpenFileName :: "nat option option \<Rightarrow> heap \<Rightarrow> egif option \<times> int option \<times> heap" where
  "EGifOpenFileName opened h =
     (case opened of None \<Rightarrow> (None, Some E_GIF_ERR_OPEN_FAILED, h) | Some room \<Rightarrow> EGifOpenFileHandle room h)"

definition gif89_function :: "int \<Rightarrow> bool" where
  "gif89_function f \<longleftrightarrow> f = COMMENT_EXT_FUNC_CODE \<or> f = GRAPHICS_EXT_FUNC_CODE \<or> f = PLAINTEXT_EXT_FUNC_CODE \<or>
     f = APPLICATION_EXT_FUNC_CODE"

text \<open>Whether one of the first \<open>n\<close> blocks needs GIF89.\<close>

definition needs_gif89 :: "int \<Rightarrow> ExtensionBlock list option \<Rightarrow> bool option" where
  "needs_gif89 n ebs =
     (if n \<le> 0 then Some False
      else do { es \<leftarrow> ebs;
                if nat n \<le> length es then Some (list_ex (\<lambda>e. gif89_function (Function e)) (take (nat n) es)) else None })"

fun images_need_gif89 :: "SavedImage list \<Rightarrow> bool option" where
  "images_need_gif89 [] = Some False"
| "images_need_gif89 (sp # sps) =
     do { b \<leftarrow> needs_gif89 (ExtensionBlockCount sp) (ExtensionBlocks sp);
          b' \<leftarrow> images_need_gif89 sps;
          Some (b \<or> b') }"

text \<open>The first \<open>ImageCount\<close> images.\<close>

definition used_images :: "'a images_scheme \<Rightarrow> SavedImage list option" where
  "used_images g =
     (if ImageCount g \<le> 0 then Some []
      else do { imgs \<leftarrow> SavedImages g;
                if nat (ImageCount g) \<le> length imgs then Some (take (nat (ImageCount g)) imgs) else None })"

definition EGifGetGifVersion :: "egif \<Rightarrow> (u8 list \<times> egif) option" where
  "EGifGetGifVersion g =
     do { sps \<leftarrow> used_images g;
          b1 \<leftarrow> images_need_gif89 sps;
          b2 \<leftarrow> needs_gif89 (FileExtensionBlockCount g) (FileExtensionBlocks g);
          let p = (Private g)\<lparr>gif89 := gif89 (Private g) \<or> b1 \<or> b2\<rparr>;
          Some (if gif89 p then GIF89_STAMP else GIF87_STAMP, g\<lparr>Private := p\<rparr>) }"

definition EGifSetGifVersion :: "bool \<Rightarrow> egif \<Rightarrow> egif" where
  "EGifSetGifVersion v g = g\<lparr>Private := (Private g)\<lparr>gif89 := v\<rparr>\<rparr>"

section \<open>Descriptors\<close>

text \<open>The loop that writes the colours; \<open>False\<close> when a write is short.\<close>

fun write_colors :: "GifColorType list \<Rightarrow> epriv \<Rightarrow> bool \<times> epriv" where
  "write_colors [] p = (True, p)"
| "write_colors (c # cs) p =
     (let (n, p') = InternalWrite [Red c, Green c, Blue c] p in if n \<noteq> 3 then (False, p') else write_colors cs p')"

definition write_color_map :: "ColorMapObject option \<Rightarrow> epriv \<Rightarrow> (bool \<times> epriv) option" where
  "write_color_map m p =
     (case m of None \<Rightarrow> Some (True, p)
      | Some cm \<Rightarrow> if nat (ColorCount cm) \<le> length (Colors cm)
                  then Some (write_colors (take (nat (ColorCount cm)) (Colors cm)) p) else None)"

definition EGifPutScreenDesc :: "int \<Rightarrow> int \<Rightarrow> int \<Rightarrow> int \<Rightarrow> ColorMapObject option \<Rightarrow> egif \<Rightarrow> (gif_status \<times> egif) option" where
  "EGifPutScreenDesc W H ColorRes BackGround cmap g =
     (if FileState (Private g) AND FILE_STATE_SCREEN \<noteq> 0 then Some (GIF_ERROR, g\<lparr>Error := E_GIF_ERR_HAS_SCRN_DSCR\<rparr>)
      else if \<not> IS_WRITEABLE (Private g) then Some (GIF_ERROR, g\<lparr>Error := E_GIF_ERR_NOT_WRITEABLE\<rparr>)
      else do {
        (stamp, g1) \<leftarrow> EGifGetGifVersion g;
        let (n, p1) = InternalWrite stamp (Private g1);
        if n \<noteq> length stamp then Some (GIF_ERROR, g1\<lparr>Private := p1, Error := E_GIF_ERR_WRITE_FAILED\<rparr>)
        else do {
          let g2 = g1\<lparr>Private := p1, SWidth := W, SHeight := H, SColorResolution := ColorRes, SBackGroundColor := BackGround\<rparr>;
          (m, h) \<leftarrow> (case cmap of None \<Rightarrow> Some (None, gheap g2)
                     | Some cm \<Rightarrow> GifMakeMapObject (ColorCount cm) (Some (Colors cm)) (gheap g2));
          let g3 = g2\<lparr>SColorMap := m, gheap := h\<rparr>;
          if cmap \<noteq> None \<and> m = None then Some (GIF_ERROR, g3\<lparr>Error := E_GIF_ERR_NOT_ENOUGH_MEM\<rparr>)
          else do {
            let packed = (case cmap of
                None \<Rightarrow> push_bit 4 (ColorRes - 1) OR 0x07
              | Some cm \<Rightarrow> 0x80 OR push_bit 4 (ColorRes - 1) OR (BitsPerPixel cm - 1) OR (if SortFlag cm then 0x08 else 0));
            let p2 = put [of_int packed, of_int BackGround, AspectByte g3] (put_word H (put_word W p1));
            (ok, p3) \<leftarrow> write_color_map cmap p2;
            if \<not> ok then Some (GIF_ERROR, g3\<lparr>Private := p3, Error := E_GIF_ERR_WRITE_FAILED\<rparr>)
            else Some (GIF_OK, g3\<lparr>Private := p3\<lparr>FileState := FileState p3 OR FILE_STATE_SCREEN\<rparr>\<rparr>) } } })"

definition set_error :: "unit lz_result \<Rightarrow> egif \<Rightarrow> egif" where
  "set_error r g = (case r of LzFail (Some e) \<Rightarrow> g\<lparr>Error := e\<rparr> | _ \<Rightarrow> g)"

definition EGifPutImageDesc ::
    "int \<Rightarrow> int \<Rightarrow> int \<Rightarrow> int \<Rightarrow> bool \<Rightarrow> ColorMapObject option \<Rightarrow> egif \<Rightarrow> (gif_status \<times> egif) option" where
  "EGifPutImageDesc L T W H ilace cmap g =
     (if FileState (Private g) AND FILE_STATE_IMAGE \<noteq> 0 \<and> PixelCount (Private g) > 0xffff0000
      then Some (GIF_ERROR, g\<lparr>Error := E_GIF_ERR_HAS_IMAG_DSCR\<rparr>)
      else if \<not> IS_WRITEABLE (Private g) then Some (GIF_ERROR, g\<lparr>Error := E_GIF_ERR_NOT_WRITEABLE\<rparr>)
      else do {
        let d = (Image g)\<lparr>Left := L, Top := T, Width := W, Height := H, Interlace := ilace\<rparr>;
        (m, h) \<leftarrow> (case cmap of
            None \<Rightarrow> Some (None, gheap g)
          | Some cm \<Rightarrow> GifMakeMapObject (ColorCount cm) (Some (Colors cm)) (GifFreeMapObject (ColorMap d) (gheap g)));
        let g1 = g\<lparr>Image := d\<lparr>ColorMap := m\<rparr>, gheap := h\<rparr>;
        if cmap \<noteq> None \<and> m = None then Some (GIF_ERROR, g1\<lparr>Error := E_GIF_ERR_NOT_ENOUGH_MEM\<rparr>)
        else do {
          let packed = (case cmap of None \<Rightarrow> 0 | Some cm \<Rightarrow> 0x80 OR (BitsPerPixel cm - 1)) OR (if ilace then 0x40 else 0);
          let p1 = put [of_int packed] (put_word H (put_word W (put_word T (put_word L (put [DESCRIPTOR_INTRODUCER] (Private g1))))));
          (ok, p2) \<leftarrow> write_color_map cmap p1;
          if \<not> ok then Some (GIF_ERROR, g1\<lparr>Private := p2, Error := E_GIF_ERR_WRITE_FAILED\<rparr>)
          else if SColorMap g1 = None \<and> m = None
          then Some (GIF_ERROR, g1\<lparr>Private := p2, Error := E_GIF_ERR_NO_COLOR_MAP\<rparr>)
          else do {
            (r, p3) \<leftarrow> EGifSetupCompress m (SColorMap g1)
              (p2\<lparr>FileState := FileState p2 OR FILE_STATE_IMAGE, PixelCount := of_int W * of_int H\<rparr>);
            Some (GIF_OK, set_error r (g1\<lparr>Private := p3\<rparr>)) } } })"

section \<open>Pixels\<close>

definition mask_line :: "u8 \<Rightarrow> int \<Rightarrow> u8 list \<Rightarrow> u8 list option" where
  "mask_line m n Line =
     (if n \<le> int (length Line) then Some (map (\<lambda>b. b AND m) (take (nat n) Line) @ drop (nat n) Line) else None)"

text \<open>The line is masked in place: the status, the line and the file.\<close>

definition EGifPutLine :: "u8 list \<Rightarrow> int \<Rightarrow> egif \<Rightarrow> (gif_status \<times> u8 list \<times> egif) option" where
  "EGifPutLine Line LineLen0 g =
     (if \<not> IS_WRITEABLE (Private g) then Some (GIF_ERROR, Line, g\<lparr>Error := E_GIF_ERR_NOT_WRITEABLE\<rparr>)
      else
        let LineLen = (if LineLen0 = 0 then Width (Image g) else LineLen0);
            p = Private g
        in if PixelCount p < of_int LineLen then Some (GIF_ERROR, Line, g\<lparr>Error := E_GIF_ERR_DATA_TOO_BIG\<rparr>)
           else do {
             let p1 = p\<lparr>PixelCount := PixelCount p - of_int LineLen\<rparr>;
             m \<leftarrow> lread CodeMask (LZBitsPerPixel p1);
             Line' \<leftarrow> mask_line m LineLen Line;
             (r, p2) \<leftarrow> EGifCompressLine Line' LineLen p1;
             Some (case r of LzFail _ \<Rightarrow> GIF_ERROR | LzOk _ \<Rightarrow> GIF_OK, Line', set_error r (g\<lparr>Private := p2\<rparr>)) })"

definition EGifPutPixel :: "u8 \<Rightarrow> egif \<Rightarrow> (gif_status \<times> egif) option" where
  "EGifPutPixel Pixel g =
     (if \<not> IS_WRITEABLE (Private g) then Some (GIF_ERROR, g\<lparr>Error := E_GIF_ERR_NOT_WRITEABLE\<rparr>)
      else if PixelCount (Private g) = 0 then Some (GIF_ERROR, g\<lparr>Error := E_GIF_ERR_DATA_TOO_BIG\<rparr>)
      else do {
        let p1 = (Private g)\<lparr>PixelCount := PixelCount (Private g) - 1\<rparr>;
        m \<leftarrow> lread CodeMask (LZBitsPerPixel p1);
        (r, p2) \<leftarrow> EGifCompressLine [Pixel AND m] 1 p1;
        Some (case r of LzFail _ \<Rightarrow> GIF_ERROR | LzOk _ \<Rightarrow> GIF_OK, set_error r (g\<lparr>Private := p2\<rparr>)) })"

section \<open>Extensions\<close>

definition write_if :: "(epriv \<Rightarrow> epriv) \<Rightarrow> egif \<Rightarrow> gif_status \<times> egif" where
  "write_if f g =
     (if \<not> IS_WRITEABLE (Private g) then (GIF_ERROR, g\<lparr>Error := E_GIF_ERR_NOT_WRITEABLE\<rparr>)
      else (GIF_OK, g\<lparr>Private := f (Private g)\<rparr>))"

definition EGifPutExtensionLeader :: "int \<Rightarrow> egif \<Rightarrow> gif_status \<times> egif" where
  "EGifPutExtensionLeader ExtCode = write_if (put [EXTENSION_INTRODUCER, of_int ExtCode])"

text \<open>The first \<open>n\<close> bytes of the caller's array, \<open>None\<close> for a null pointer that is read or an array that
  is too short.\<close>

definition ext_bytes :: "int \<Rightarrow> u8 list option \<Rightarrow> u8 list option" where
  "ext_bytes n bs =
     (if n = 0 then Some []
      else do { l \<leftarrow> bs; if 0 < n \<and> nat n \<le> length l then Some (take (nat n) l) else None })"

definition EGifPutExtensionBlock :: "int \<Rightarrow> u8 list option \<Rightarrow> egif \<Rightarrow> (gif_status \<times> egif) option" where
  "EGifPutExtensionBlock ExtLen Extension g =
     (if \<not> IS_WRITEABLE (Private g) then Some (GIF_ERROR, g\<lparr>Error := E_GIF_ERR_NOT_WRITEABLE\<rparr>)
      else do { bs \<leftarrow> ext_bytes ExtLen Extension;
                Some (write_if (\<lambda>p. put bs (put [of_int ExtLen] p)) g) })"

definition EGifPutExtensionTrailer :: "egif \<Rightarrow> gif_status \<times> egif" where
  "EGifPutExtensionTrailer = write_if (put [0])"

definition EGifPutExtension :: "int \<Rightarrow> int \<Rightarrow> u8 list option \<Rightarrow> egif \<Rightarrow> (gif_status \<times> egif) option" where
  "EGifPutExtension ExtCode ExtLen Extension g =
     (if \<not> IS_WRITEABLE (Private g) then Some (GIF_ERROR, g\<lparr>Error := E_GIF_ERR_NOT_WRITEABLE\<rparr>)
      else do { bs \<leftarrow> ext_bytes ExtLen Extension;
                let head = (if ExtCode = 0 then [of_int ExtLen] else [EXTENSION_INTRODUCER, of_int ExtCode, of_int ExtLen]);
                Some (write_if (\<lambda>p. put [0] (put bs (put head p))) g) })"

text \<open>The blocks of 255 bytes of a long comment, and the rest.\<close>

function comment_blocks :: "u8 list \<Rightarrow> egif \<Rightarrow> (gif_status \<times> egif) option" where
  "comment_blocks buf g =
     (if length buf > 255 then
        (case EGifPutExtensionBlock 255 (Some (take 255 buf)) g of
           None \<Rightarrow> None
         | Some (GIF_ERROR, g') \<Rightarrow> Some (GIF_ERROR, g')
         | Some (GIF_OK, g') \<Rightarrow> comment_blocks (drop 255 buf) g')
      else if length buf > 0 then EGifPutExtensionBlock (int (length buf)) (Some buf) g
      else Some (GIF_OK, g))"
  by pat_completeness auto
termination
  by (relation "measure (\<lambda>(buf, g). length buf)") auto

declare comment_blocks.simps [simp del]

text \<open>\<open>Comment\<close> is the text without its terminating zero.\<close>

definition EGifPutComment :: "u8 list \<Rightarrow> egif \<Rightarrow> (gif_status \<times> egif) option" where
  "EGifPutComment Comment g =
     (if length Comment \<le> 255 then EGifPutExtension COMMENT_EXT_FUNC_CODE (int (length Comment)) (Some Comment) g
      else case EGifPutExtensionLeader COMMENT_EXT_FUNC_CODE g of
        (GIF_ERROR, g1) \<Rightarrow> Some (GIF_ERROR, g1)
      | (GIF_OK, g1) \<Rightarrow>
          do { (r, g2) \<leftarrow> comment_blocks Comment g1;
               case r of GIF_ERROR \<Rightarrow> Some (GIF_ERROR, g2) | GIF_OK \<Rightarrow> Some (EGifPutExtensionTrailer g2) })"

definition gcb_bytes :: "GraphicsControlBlock \<Rightarrow> u8 list" where
  "gcb_bytes gcb =
     [(if TransparentColor gcb = NO_TRANSPARENT_COLOR then 0x00 else 0x01) OR (if UserInputFlag gcb then 0x02 else 0x00)
        OR of_int (push_bit 2 (DisposalMode gcb AND 0x07)),
      LOBYTE (DelayTime gcb), HIBYTE (DelayTime gcb), of_int (TransparentColor gcb)]"

text \<open>The first four bytes of the caller's array are overwritten.\<close>

definition EGifGCBToExtension :: "GraphicsControlBlock \<Rightarrow> u8 list \<Rightarrow> (int \<times> u8 list) option" where
  "EGifGCBToExtension gcb ext = (if 4 \<le> length ext then Some (4, gcb_bytes gcb @ drop 4 ext) else None)"

fun replace_gcb :: "GraphicsControlBlock \<Rightarrow> ExtensionBlock list \<Rightarrow> (bool \<times> ExtensionBlock list) option" where
  "replace_gcb gcb [] = Some (False, [])"
| "replace_gcb gcb (e # es) =
     (if Function e = GRAPHICS_EXT_FUNC_CODE
      then do { bs \<leftarrow> Bytes e; (_, bs') \<leftarrow> EGifGCBToExtension gcb bs; Some (True, e\<lparr>Bytes := Some bs'\<rparr> # es) }
      else do { (found, es') \<leftarrow> replace_gcb gcb es; Some (found, e # es') })"

text \<open>\<open>sizeof(GraphicsControlBlock)\<close> is 16.\<close>

definition EGifGCBToSavedExtension :: "GraphicsControlBlock \<Rightarrow> int \<Rightarrow> 'a images_scheme \<Rightarrow> (gif_status \<times> 'a images_scheme) option" where
  "EGifGCBToSavedExtension gcb idx g =
     (if idx < 0 \<or> idx > ImageCount g - 1 then Some (GIF_ERROR, g)
      else do {
        imgs \<leftarrow> SavedImages g;
        sp \<leftarrow> lread imgs idx;
        let n = nat (ExtensionBlockCount sp);
        let es = (case ExtensionBlocks sp of None \<Rightarrow> [] | Some es \<Rightarrow> es);
        if n > length es then None
        else do {
          (found, es') \<leftarrow> replace_gcb gcb (take n es);
          if found then
            do { imgs' \<leftarrow> lwrite imgs idx (sp\<lparr>ExtensionBlocks := Some (es' @ drop n es)\<rparr>);
                 Some (GIF_OK, g\<lparr>SavedImages := Some imgs'\<rparr>) }
          else do {
            (len, buf) \<leftarrow> EGifGCBToExtension gcb (replicate 16 0);
            (r, c, ebs, h) \<leftarrow> GifAddExtensionBlock (ExtensionBlockCount sp) (ExtensionBlocks sp) GRAPHICS_EXT_FUNC_CODE
                                 (nat len) (Some buf) (gheap g);
            imgs' \<leftarrow> lwrite imgs idx (sp\<lparr>ExtensionBlockCount := c, ExtensionBlocks := ebs\<rparr>);
            Some (r, g\<lparr>SavedImages := Some imgs', gheap := h\<rparr>) } } })"

section \<open>Codes passed through\<close>

text \<open>\<open>CodeBlock\<close> is the block with its length in front, \<open>None\<close> for \<open>NULL\<close>.\<close>

definition EGifPutCodeNext :: "u8 list option \<Rightarrow> egif \<Rightarrow> (gif_status \<times> egif) option" where
  "EGifPutCodeNext CodeBlock g =
     (case CodeBlock of
        Some blk \<Rightarrow>
          do { b0 \<leftarrow> lread blk 0;
               if unat b0 + 1 \<le> length blk then
                 let (n, p) = InternalWrite (take (unat b0 + 1) blk) (Private g)
                 in Some (if n \<noteq> unat b0 + 1 then (GIF_ERROR, g\<lparr>Private := p, Error := E_GIF_ERR_WRITE_FAILED\<rparr>)
                          else (GIF_OK, g\<lparr>Private := p\<rparr>))
               else None }
      | None \<Rightarrow>
          let (n, p) = InternalWrite [0] (Private g)
          in Some (if n \<noteq> 1 then (GIF_ERROR, g\<lparr>Private := p, Error := E_GIF_ERR_WRITE_FAILED\<rparr>)
                   else (GIF_OK, g\<lparr>Private := p\<lparr>PixelCount := 0\<rparr>\<rparr>)))"

definition EGifPutCode :: "u8 list option \<Rightarrow> egif \<Rightarrow> (gif_status \<times> egif) option" where
  "EGifPutCode CodeBlock g =
     (if \<not> IS_WRITEABLE (Private g) then Some (GIF_ERROR, g\<lparr>Error := E_GIF_ERR_NOT_WRITEABLE\<rparr>)
      else EGifPutCodeNext CodeBlock g)"

section \<open>Closing and writing everything\<close>

text \<open>\<open>file_close\<close> is \<open>None\<close> when the sink is a callback, otherwise whether \<open>fclose\<close> succeeds.  The
  status, the value stored in \<open>*ErrorCode\<close>, the bytes written and the allocator.\<close>

definition EGifCloseFile :: "bool option \<Rightarrow> egif \<Rightarrow> gif_status \<times> int \<times> u8 list \<times> heap" where
  "EGifCloseFile file_close g =
     (if \<not> IS_WRITEABLE (Private g)
      then (GIF_ERROR, E_GIF_ERR_NOT_WRITEABLE, written (Private g), free True (gheap g))
      else
        let p = put [TERMINATOR_INTRODUCER] (Private g);
            h1 = GifFreeMapObject (ColorMap (Image g)) (gheap g);
            h2 = GifFreeMapObject (SColorMap g) h1;
            h3 = free True (free True h2)
        in if file_close = Some False then (GIF_ERROR, E_GIF_ERR_CLOSE_FAILED, written p, free True h3)
           else (GIF_OK, 0, written p, free True h3))"

fun write_extensions :: "ExtensionBlock list \<Rightarrow> egif \<Rightarrow> (gif_status \<times> egif) option" where
  "write_extensions [] g = Some (GIF_OK, g)"
| "write_extensions (e # es) g =
     (case (if Function e \<noteq> CONTINUE_EXT_FUNC_CODE then EGifPutExtensionLeader (Function e) g else (GIF_OK, g)) of
        (GIF_ERROR, g1) \<Rightarrow> Some (GIF_ERROR, g1)
      | (GIF_OK, g1) \<Rightarrow>
          do { (r, g2) \<leftarrow> EGifPutExtensionBlock (ByteCount e) (Bytes e) g1;
               if r = GIF_ERROR then Some (GIF_ERROR, g2)
               else
                 (case (if (case es of [] \<Rightarrow> True | e' # _ \<Rightarrow> Function e' \<noteq> CONTINUE_EXT_FUNC_CODE)
                        then EGifPutExtensionTrailer g2 else (GIF_OK, g2)) of
                    (GIF_ERROR, g3) \<Rightarrow> Some (GIF_ERROR, g3)
                  | (GIF_OK, g3) \<Rightarrow> write_extensions es g3) })"

definition EGifWriteExtensions :: "int \<Rightarrow> ExtensionBlock list option \<Rightarrow> egif \<Rightarrow> (gif_status \<times> egif) option" where
  "EGifWriteExtensions n ebs g =
     (case ebs of None \<Rightarrow> Some (GIF_OK, g)
      | Some es \<Rightarrow> if nat n \<le> length es then write_extensions (take (nat n) es) g else None)"

text \<open>The rows of an image; the line handed on starts at \<open>j * width\<close> of the raster and is masked in place.\<close>

fun write_rows :: "int \<Rightarrow> int list \<Rightarrow> u8 list \<Rightarrow> egif \<Rightarrow> (gif_status \<times> u8 list \<times> egif) option" where
  "write_rows w [] raster g = Some (GIF_OK, raster, g)"
| "write_rows w (j # js) raster g =
     (if 0 \<le> j * w \<and> j * w \<le> int (length raster) then
        do { (r, line, g') \<leftarrow> EGifPutLine (drop (nat (j * w)) raster) w g;
             let raster' = take (nat (j * w)) raster @ line;
             case r of GIF_ERROR \<Rightarrow> Some (GIF_ERROR, raster', g') | GIF_OK \<Rightarrow> write_rows w js raster' g' }
      else None)"

definition spew_image :: "int \<Rightarrow> SavedImage \<Rightarrow> egif \<Rightarrow> (gif_status \<times> egif) option" where
  "spew_image i sp g =
     (case RasterBits sp of
        None \<Rightarrow> Some (GIF_OK, g)
      | Some raster \<Rightarrow>
          do { (r1, g1) \<leftarrow> EGifWriteExtensions (ExtensionBlockCount sp) (ExtensionBlocks sp) g;
               if r1 = GIF_ERROR then Some (GIF_ERROR, g1)
               else do {
                 let d = ImageDesc sp;
                 (r2, g2) \<leftarrow> EGifPutImageDesc (Left d) (Top d) (Width d) (Height d) (Interlace d) (ColorMap d) g1;
                 if r2 = GIF_ERROR then Some (GIF_ERROR, g2)
                 else do {
                   (r3, raster', g3) \<leftarrow>
                     write_rows (Width d) (if Interlace d then interlaced_rows (Height d) else [0..Height d - 1]) raster g2;
                   imgs \<leftarrow> SavedImages g3;
                   imgs' \<leftarrow> lwrite imgs i (sp\<lparr>RasterBits := Some raster'\<rparr>);
                   Some (r3, g3\<lparr>SavedImages := Some imgs'\<rparr>) } } })"

fun spew_images :: "nat \<Rightarrow> int \<Rightarrow> egif \<Rightarrow> (gif_status \<times> egif) option" where
  "spew_images 0 i g = Some (GIF_OK, g)"
| "spew_images (Suc k) i g =
     do { imgs \<leftarrow> SavedImages g;
          sp \<leftarrow> lread imgs i;
          (r, g') \<leftarrow> spew_image i sp g;
          if r = GIF_ERROR then Some (GIF_ERROR, g') else spew_images k (i + 1) g' }"

text \<open>\<open>Inl\<close> is the file left open by an error, \<open>Inr\<close> the bytes and the allocator after the close.\<close>

definition EGifSpew :: "bool option \<Rightarrow> egif \<Rightarrow> (gif_status \<times> (egif + (u8 list \<times> heap))) option" where
  "EGifSpew file_close g =
     do { (r1, g1) \<leftarrow> EGifPutScreenDesc (SWidth g) (SHeight g) (SColorResolution g) (SBackGroundColor g) (SColorMap g) g;
          if r1 = GIF_ERROR then Some (GIF_ERROR, Inl g1)
          else do {
            (r2, g2) \<leftarrow> spew_images (nat (ImageCount g1)) 0 g1;
            if r2 = GIF_ERROR then Some (GIF_ERROR, Inl g2)
            else do {
              (r3, g3) \<leftarrow> EGifWriteExtensions (FileExtensionBlockCount g2) (FileExtensionBlocks g2) g2;
              if r3 = GIF_ERROR then Some (GIF_ERROR, Inl g3)
              else let (r4, _, bytes, h) = EGifCloseFile file_close g3 in Some (r4, Inr (bytes, h)) } } }"

end
