(* ===== verification/LzwWrite.thy ===== *)
theory LzwWrite
  imports LzwSpec EGif
begin

text \<open>
  The writer against the reference definition: the hash table holds the entries of the dictionary, and
  the bytes handed to the sink are the sub-blocks of the packed codes.
\<close>

section \<open>Bytes to sub-blocks\<close>

text \<open>The bytes \<open>Y\<close> have been sent since \<open>W\<close> was written: full blocks are written, the rest waits in
  the buffer.\<close>

definition sent :: "epriv \<Rightarrow> u8 list \<Rightarrow> u8 list \<Rightarrow> bool" where
  "sent p W Y \<longleftrightarrow> space p = None \<and>
     (\<exists>chunks rest. Y = concat chunks @ rest \<and> (\<forall>ch \<in> set chunks. length ch = 255) \<and> length rest \<le> 255 \<and>
        written p = W @ concat (map (\<lambda>ch. 255 # ch) chunks) \<and> Buf p 0 = of_nat (length rest) \<and>
        (\<forall>i < length rest. Buf p (1 + int i) = rest ! i))"

text \<open>Only the buffer and the sink differ.\<close>

definition same_coder :: "epriv \<Rightarrow> epriv \<Rightarrow> bool" where
  "same_coder p q \<longleftrightarrow> q = p\<lparr>Buf := Buf q, written := written q, space := space q\<rparr>"

lemma InternalWrite_None: "space p = None \<Longrightarrow> InternalWrite buf p = (length buf, p\<lparr>written := written p @ buf\<rparr>)"
  by (simp add: InternalWrite_def)

lemma buf_bytes_rest:
  assumes "b 0 = of_nat (length rest)" "\<forall>i < length rest. b (1 + int i) = rest ! i"
  shows "buf_bytes b (length rest + 1) = of_nat (length rest) # rest"
proof (rule nth_equalityI)
  fix i assume i: "i < length (buf_bytes b (length rest + 1))"
  show "buf_bytes b (length rest + 1) ! i = (of_nat (length rest) # rest) ! i"
    using i assms by (cases i) (simp_all add: buf_bytes_def del: upt_Suc)
qed (simp add: buf_bytes_def)

lemma unat_of_length: "length rest \<le> 255 \<Longrightarrow> unat (of_nat (length rest) :: u8) = length rest"
  by (simp add: unat_of_nat take_bit_nat_eq_self)

lemma EGifBufferedOutput_sent:
  assumes s: "sent p W Y" and c: "0 \<le> c" "c < 256"
  shows "\<exists>p'. EGifBufferedOutput c p = Some (LzOk (), p') \<and> sent p' W (Y @ [of_int c]) \<and> same_coder p p'"
proof -
  obtain chunks rest where r: "Y = concat chunks @ rest" "\<forall>ch \<in> set chunks. length ch = 255" "length rest \<le> 255"
    "written p = W @ concat (map (\<lambda>ch. 255 # ch) chunks)" "Buf p 0 = of_nat (length rest)"
    "\<forall>i < length rest. Buf p (1 + int i) = rest ! i" and sp: "space p = None" using s by (auto simp: sent_def)
  have nf: "c \<noteq> FLUSH_OUTPUT" using c by (simp add: FLUSH_OUTPUT_def)
  note ul = unat_of_length [OF r(3)]
  show ?thesis
  proof (cases "length rest = 255")
    case True
    then have b0: "Buf p 0 = 255" using r(5) by simp
    have bb: "buf_bytes (Buf p) 256 = 255 # rest" using buf_bytes_rest [OF r(5,6)] True by simp
    let ?p' = "p\<lparr>written := written p @ (255 # rest), Buf := (Buf p)(0 := 1, 1 := of_int c)\<rparr>"
    have "EGifBufferedOutput c p = Some (LzOk (), ?p')"
      using b0 bb sp nf True by (simp add: EGifBufferedOutput_def InternalWrite_None Let_def)
    moreover have "sent ?p' W (Y @ [of_int c])"
      unfolding sent_def using r sp True by (intro conjI exI [of _ "chunks @ [rest]"] exI [of _ "[of_int c]"]) auto
    moreover have "same_coder p ?p'" by (simp add: same_coder_def)
    ultimately show ?thesis by blast
  next
    case False
    then have len: "length rest < 255" using r(3) by simp
    have b0: "Buf p 0 \<noteq> 255" using ul len r(5) by auto
    have nx: "uint (of_nat (length rest) + 1 :: u8) = int (length rest) + 1"
    proof -
      have "of_nat (length rest) + 1 = (of_nat (Suc (length rest)) :: u8)" by simp
      also have "uint \<dots> = int (Suc (length rest))"
        unfolding unsigned_of_nat using len by (simp add: take_bit_nat_eq_self)
      finally show ?thesis by simp
    qed
    let ?p' = "p\<lparr>Buf := (Buf p)(0 := of_nat (length rest) + 1, int (length rest) + 1 := of_int c)\<rparr>"
    have "EGifBufferedOutput c p = Some (LzOk (), ?p')"
      using b0 nf nx len r(5) by (simp add: EGifBufferedOutput_def Let_def)
    moreover have "sent ?p' W (Y @ [of_int c])"
      unfolding sent_def using r sp len
      by (intro conjI exI [of _ chunks] exI [of _ "rest @ [of_int c]"]) (auto simp: nth_append less_Suc_eq add.commute)
    moreover have "same_coder p ?p'" by (simp add: same_coder_def)
    ultimately show ?thesis by blast
  qed
qed

lemma EGifBufferedOutput_flush:
  assumes "sent p W Y"
  shows "\<exists>p'. EGifBufferedOutput FLUSH_OUTPUT p = Some (LzOk (), p') \<and> written p' = W @ sub_blocks Y \<and> same_coder p p'"
proof -
  obtain chunks rest where r: "Y = concat chunks @ rest" "\<forall>ch \<in> set chunks. length ch = 255" "length rest \<le> 255"
    "written p = W @ concat (map (\<lambda>ch. 255 # ch) chunks)" "Buf p 0 = of_nat (length rest)"
    "\<forall>i < length rest. Buf p (1 + int i) = rest ! i" and sp: "space p = None" using assms by (auto simp: sent_def)
  note ul = unat_of_length [OF r(3)]
  show ?thesis
  proof (cases "rest = []")
    case True
    then show ?thesis
      using r sp sub_blocks_chunks [OF r(2), of "[]"]
      by (auto simp: EGifBufferedOutput_def InternalWrite_None Let_def same_coder_def)
  next
    case False
    have "of_nat (length rest) \<noteq> (0 :: u8)" using False ul by (metis length_0_conv unat_0)
    then show ?thesis
      using r sp ul buf_bytes_rest [OF r(5,6)] sub_blocks_chunks [OF r(2), of rest] sub_blocks_rest [OF False r(3)]
      by (auto simp: EGifBufferedOutput_def InternalWrite_None Let_def same_coder_def)
  qed
qed

section \<open>Codes to bytes\<close>

text \<open>The bits \<open>B\<close> have been sent: all but fewer than eight as bytes.\<close>

definition packed :: "epriv \<Rightarrow> u8 list \<Rightarrow> bool list \<Rightarrow> bool" where
  "packed p W B \<longleftrightarrow> (\<exists>Y. sent p W Y \<and> 0 \<le> CrntShiftState p \<and>
     (\<forall>n. bit (CrntShiftDWord p) n \<longrightarrow> int n < CrntShiftState p) \<and>
     B = byte_bits Y @ bits_of (nat (CrntShiftState p)) (CrntShiftDWord p))"

lemma same_coder_trans: "same_coder p q \<Longrightarrow> same_coder q r \<Longrightarrow> same_coder p r"
  unfolding same_coder_def by (cases p; cases q; cases r; simp)

lemma same_coder_fields:
  assumes "same_coder p q"
  shows "CrntShiftState q = CrntShiftState p" "CrntShiftDWord q = CrntShiftDWord p" "RunningCode q = RunningCode p"
    "RunningBits q = RunningBits p" "MaxCode1 q = MaxCode1 p" "HashTable q = HashTable p" "ClearCode q = ClearCode p"
    "EOFCode q = EOFCode p" "LZBitsPerPixel q = LZBitsPerPixel p" "CrntCode q = CrntCode p" "PixelCount q = PixelCount p"
  using assms unfolding same_coder_def by (cases p; cases q; simp)+

lemma low_byte_bits: "bits_of 8 (of_int (uint (w AND 0xff :: u32)) :: u8) = bits_of 8 w"
proof (rule bits_of_eqI)
  fix i :: nat assume i: "i < 8"
  have "(0xff :: u32) = mask 8" by (simp add: mask_eq_exp_minus_1)
  then have "w AND 0xff = take_bit 8 w" by (simp add: take_bit_eq_mask)
  moreover have "(of_int (uint x) :: u8) = ucast x" for x :: u32 by simp
  ultimately show "bit (of_int (uint (w AND 0xff)) :: u8) i = bit w i" using i by (simp add: bit_simps)
qed

lemma append_low_byte: "byte_bits (Y @ [of_int (uint (w AND 0xff :: u32))]) = byte_bits Y @ bits_of 8 w"
  by (simp only: byte_bits_simps low_byte_bits append_Nil2)

text \<open>The state after some bits of the shift register have been sent.\<close>

definition shifted :: "epriv \<Rightarrow> epriv \<Rightarrow> bool" where
  "shifted p q \<longleftrightarrow> q = p\<lparr>Buf := Buf q, written := written q, space := space q,
      CrntShiftState := CrntShiftState q, CrntShiftDWord := CrntShiftDWord q\<rparr>"

lemma shifted_trans: "shifted p q \<Longrightarrow> shifted q r \<Longrightarrow> shifted p r"
  unfolding shifted_def by (cases p; cases q; cases r; simp)

lemma shifted_fields:
  assumes "shifted p q"
  shows "RunningCode q = RunningCode p" "RunningBits q = RunningBits p" "MaxCode1 q = MaxCode1 p" "HashTable q = HashTable p"
    "ClearCode q = ClearCode p" "EOFCode q = EOFCode p" "LZBitsPerPixel q = LZBitsPerPixel p" "CrntCode q = CrntCode p"
    "PixelCount q = PixelCount p"
  using assms unfolding shifted_def by (cases p; cases q; simp)+

lemma sent_frame [simp]:
  "sent (p\<lparr>CrntShiftState := a, CrntShiftDWord := d\<rparr>) W Y = sent p W Y"
  "sent (p\<lparr>CrntShiftDWord := d, CrntShiftState := a\<rparr>) W Y = sent p W Y"
  "sent (p\<lparr>CrntShiftState := a\<rparr>) W Y = sent p W Y" "sent (p\<lparr>CrntShiftDWord := d\<rparr>) W Y = sent p W Y"
  by (simp_all add: sent_def)

text \<open>One byte leaves the shift register.\<close>

lemma drain_byte:
  assumes "sent p W Y"
  shows "\<exists>p1. EGifBufferedOutput (uint (CrntShiftDWord p AND 0xff)) p = Some (LzOk (), p1) \<and> same_coder p p1 \<and>
     sent p1 W (Y @ [of_int (uint (CrntShiftDWord p AND 0xff))])"
proof -
  have "uint (CrntShiftDWord p AND 0xff) \<le> 0xff" using word_and_le1 [of "CrntShiftDWord p" "0xff"] by (simp add: word_le_def)
  then show ?thesis using EGifBufferedOutput_sent [OF assms, of "uint (CrntShiftDWord p AND 0xff)"] by auto
qed

lemma drain_bits_packed:
  "packed p W B \<Longrightarrow>
   \<exists>p'. drain_bits 8 None p = Some (None, p') \<and> packed p' W B \<and> CrntShiftState p' < 8 \<and> shifted p p'"
proof (induction "nat (CrntShiftState p)" arbitrary: p rule: less_induct)
  case less
  obtain Y where Y: "sent p W Y" "0 \<le> CrntShiftState p" "\<And>n. bit (CrntShiftDWord p) n \<Longrightarrow> int n < CrntShiftState p"
    "B = byte_bits Y @ bits_of (nat (CrntShiftState p)) (CrntShiftDWord p)" using less.prems by (auto simp: packed_def)
  show ?case
  proof (cases "CrntShiftState p < 8")
    case True
    then have "drain_bits 8 None p = Some (None, p)" by (subst drain_bits.simps) simp
    with True less.prems show ?thesis by (simp add: shifted_def)
  next
    case False
    obtain p1 where p1: "EGifBufferedOutput (uint (CrntShiftDWord p AND 0xff)) p = Some (LzOk (), p1)" "same_coder p p1"
      "sent p1 W (Y @ [of_int (uint (CrntShiftDWord p AND 0xff))])" using drain_byte [OF Y(1)] by blast
    note f = same_coder_fields [OF p1(2)]
    let ?q = "p1\<lparr>CrntShiftDWord := drop_bit 8 (CrntShiftDWord p1), CrntShiftState := CrntShiftState p1 - 8\<rparr>"
    have run: "drain_bits 8 None p = drain_bits 8 None ?q" using False p1(1) by (subst drain_bits.simps) simp
    have n: "nat (CrntShiftState p) = 8 + nat (CrntShiftState p - 8)" using False by simp
    have "packed ?q W B"
      unfolding packed_def
    proof (intro exI conjI allI impI)
      show "sent ?q W (Y @ [of_int (uint (CrntShiftDWord p AND 0xff))])" using p1(3) by simp
      show "0 \<le> CrntShiftState ?q" using False f by simp
      show "int n < CrntShiftState ?q" if "bit (CrntShiftDWord ?q) n" for n
        using Y(3) [of "8 + n"] that f by (simp add: bit_simps)
      show "B = byte_bits (Y @ [of_int (uint (CrntShiftDWord p AND 0xff))]) @ bits_of (nat (CrntShiftState ?q)) (CrntShiftDWord ?q)"
        unfolding Y(4) n append_low_byte using f
        by (simp add: bits_of_drop_bit bits_of_split [of 8 "8 + nat (CrntShiftState p - 8)"])
    qed
    moreover have "nat (CrntShiftState ?q) < nat (CrntShiftState p)" using False f by simp
    ultimately obtain p' where p': "drain_bits 8 None ?q = Some (None, p')" "packed p' W B" "CrntShiftState p' < 8" "shifted ?q p'"
      using less.hyps by blast
    have "shifted p ?q" using p1(2) by (cases p; cases p1) (simp add: shifted_def same_coder_def)
    from shifted_trans [OF this p'(4)] run p'(1-3) show ?thesis by auto
  qed
qed

lemma drain_bits_flush:
  assumes pk: "packed p W B" and lt: "CrntShiftState p < 8"
  shows "\<exists>p' Y pad. drain_bits 1 None p = Some (None, p') \<and> sent p' W Y \<and> byte_bits Y = B @ pad \<and> shifted p p'"
proof -
  obtain Y where Y: "sent p W Y" "0 \<le> CrntShiftState p"
    "B = byte_bits Y @ bits_of (nat (CrntShiftState p)) (CrntShiftDWord p)" using pk by (auto simp: packed_def)
  show ?thesis
  proof (cases "CrntShiftState p = 0")
    case True
    then have "drain_bits 1 None p = Some (None, p)" by (subst drain_bits.simps) simp
    with True Y show ?thesis by (intro exI [of _ p] exI [of _ Y]) (simp add: shifted_def bits_of_def)
  next
    case False
    obtain p1 where p1: "EGifBufferedOutput (uint (CrntShiftDWord p AND 0xff)) p = Some (LzOk (), p1)" "same_coder p p1"
      "sent p1 W (Y @ [of_int (uint (CrntShiftDWord p AND 0xff))])" using drain_byte [OF Y(1)] by blast
    note f = same_coder_fields [OF p1(2)]
    let ?q = "p1\<lparr>CrntShiftDWord := drop_bit 8 (CrntShiftDWord p1), CrntShiftState := CrntShiftState p1 - 8\<rparr>"
    have "drain_bits 1 None ?q = Some (None, ?q)" using f lt by (subst drain_bits.simps) simp
    then have "drain_bits 1 None p = Some (None, ?q)" using False Y(2) p1(1) by (subst drain_bits.simps) simp
    moreover have "byte_bits (Y @ [of_int (uint (CrntShiftDWord p AND 0xff))]) =
        B @ map (bit (CrntShiftDWord p)) [nat (CrntShiftState p)..<8]"
      unfolding append_low_byte using lt Y(2,3) bits_of_split [of "nat (CrntShiftState p)" 8 "CrntShiftDWord p"] by simp
    moreover have "shifted p ?q" using p1(2) by (cases p; cases p1) (simp add: shifted_def same_coder_def)
    moreover have "sent ?q W (Y @ [of_int (uint (CrntShiftDWord p AND 0xff))])" using p1(3) by simp
    ultimately show ?thesis by blast
  qed
qed

text \<open>A code of the running width is appended to the bits, and the width is adjusted.\<close>

definition coder_ok :: "epriv \<Rightarrow> bool" where
  "coder_ok p \<longleftrightarrow> CrntShiftState p < 8 \<and> 0 \<le> RunningBits p \<and> RunningBits p \<le> 12 \<and> MaxCode1 p = 2 ^ nat (RunningBits p)"

definition code_sent :: "epriv \<Rightarrow> epriv \<Rightarrow> bool" where
  "code_sent p q \<longleftrightarrow> RunningCode q = RunningCode p \<and> HashTable q = HashTable p \<and> ClearCode q = ClearCode p \<and>
     EOFCode q = EOFCode p \<and> LZBitsPerPixel q = LZBitsPerPixel p \<and> CrntCode q = CrntCode p \<and> PixelCount q = PixelCount p"

lemma bits_of_or_shift:
  fixes w :: u32 and c :: int
  assumes "\<And>n. bit w n \<Longrightarrow> n < s" "s + k \<le> 32"
  shows "bits_of (s + k) (w OR push_bit s (of_int c)) = bits_of s w @ bits_of k c"
proof (rule nth_equalityI)
  fix i assume i: "i < length (bits_of (s + k) (w OR push_bit s (of_int c)))"
  show "bits_of (s + k) (w OR push_bit s (of_int c)) ! i = (bits_of s w @ bits_of k c) ! i"
    using i assms(1) [of i] assms(2) by (auto simp: bits_of_def nth_append bit_simps)
qed simp

lemma EGifCompressOutput_packed:
  assumes pk: "packed p W B" and ok: "coder_ok p" and c: "0 \<le> c" "c < 2 ^ nat (RunningBits p)"
  shows "\<exists>p'. EGifCompressOutput c p = Some (LzOk (), p') \<and> packed p' W (B @ bits_of (nat (RunningBits p)) c) \<and>
    CrntShiftState p' < 8 \<and> RunningBits p' = next_bits (RunningCode p) (RunningBits p) \<and>
    MaxCode1 p' = 2 ^ nat (RunningBits p') \<and> code_sent p p'"
proof -
  let ?s = "nat (CrntShiftState p)" and ?w = "nat (RunningBits p)"
  have w: "0 \<le> RunningBits p" "RunningBits p \<le> 12" "MaxCode1 p = 2 ^ ?w" and st: "CrntShiftState p < 8"
    using ok by (auto simp: coder_ok_def)
  obtain Y where Y: "sent p W Y" "0 \<le> CrntShiftState p" "\<And>n. bit (CrntShiftDWord p) n \<Longrightarrow> int n < CrntShiftState p"
    "B = byte_bits Y @ bits_of ?s (CrntShiftDWord p)" using pk by (auto simp: packed_def)
  have "(2 :: int) ^ ?w \<le> 2 ^ 12" using w by (intro power_increasing) auto
  then have c4: "c \<le> 4095" using c by simp
  then have nf: "c \<noteq> FLUSH_OUTPUT" by (simp add: FLUSH_OUTPUT_def)
  let ?q = "p\<lparr>CrntShiftDWord := CrntShiftDWord p OR push_bit ?s (of_int c), CrntShiftState := CrntShiftState p + RunningBits p\<rparr>"
  have cb: "n < ?w" if "bit (of_int c :: u32) n" for n
  proof -
    have "bit c n" using that by (auto simp: bit_simps)
    moreover have "take_bit ?w c = c" using c by (simp add: take_bit_int_eq_self)
    ultimately show ?thesis by (metis bit_take_bit_iff)
  qed
  have "packed ?q W (B @ bits_of ?w c)"
    unfolding packed_def
  proof (intro exI conjI allI impI)
    show "sent ?q W Y" using Y(1) by simp
    show "0 \<le> CrntShiftState ?q" using Y(2) w by simp
    show "int n < CrntShiftState ?q" if "bit (CrntShiftDWord ?q) n" for n
      using that Y(2) Y(3) [of n] cb [of "n - ?s"] w by (auto simp: bit_simps)
    have "bit (CrntShiftDWord p) n \<Longrightarrow> n < ?s" for n using Y(3) [of n] by linarith
    moreover have "nat (CrntShiftState ?q) = ?s + ?w" "?s + ?w \<le> 32" using Y(2) w st by auto
    ultimately show "B @ bits_of ?w c = byte_bits Y @ bits_of (nat (CrntShiftState ?q)) (CrntShiftDWord ?q)"
      using Y(4) bits_of_or_shift [of "CrntShiftDWord p" ?s ?w c] by simp
  qed
  from drain_bits_packed [OF this] obtain p1 where p1: "drain_bits 8 None ?q = Some (None, p1)" "packed p1 W (B @ bits_of ?w c)"
    "CrntShiftState p1 < 8" "shifted ?q p1" by blast
  note f = shifted_fields [OF p1(4)]
  have pk': "packed (p1\<lparr>RunningBits := r, MaxCode1 := m\<rparr>) W X = packed p1 W X" for r m X by (simp add: packed_def sent_def)
  define p' where "p' = (if RunningCode p1 \<ge> MaxCode1 p1 \<and> c \<le> 4095
      then p1\<lparr>RunningBits := RunningBits p1 + 1, MaxCode1 := 2 ^ nat (RunningBits p1 + 1)\<rparr> else p1)"
  have "EGifCompressOutput c p = Some (LzOk (), p')"
    using nf Y(2) st p1(1) by (simp add: EGifCompressOutput_def to_result_def p'_def)
  then show ?thesis
    using p1 f w c4 pk' by (intro exI [of _ p']) (auto simp: p'_def next_bits_def code_sent_def)
qed

text \<open>The end of the data: the register is emptied and the last block written.\<close>

lemma EGifCompressOutput_flush:
  assumes pk: "packed p W B" and lt: "CrntShiftState p < 8"
  shows "\<exists>p' Y pad. EGifCompressOutput FLUSH_OUTPUT p = Some (LzOk (), p') \<and> written p' = W @ sub_blocks Y \<and> byte_bits Y = B @ pad"
proof -
  obtain p1 Y pad where d: "drain_bits 1 None p = Some (None, p1)" "sent p1 W Y" "byte_bits Y = B @ pad"
    using drain_bits_flush [OF assms] by blast
  obtain p2 where "EGifBufferedOutput FLUSH_OUTPUT (p1\<lparr>CrntShiftState := 0\<rparr>) = Some (LzOk (), p2)" "written p2 = W @ sub_blocks Y"
    using EGifBufferedOutput_flush [of "p1\<lparr>CrntShiftState := 0\<rparr>" W Y] d(2) by auto
  with d show ?thesis by (auto simp: EGifCompressOutput_def to_result_def FLUSH_OUTPUT_def)
qed


section \<open>The hash table as a dictionary\<close>

definition key :: "int \<Rightarrow> u8 \<Rightarrow> u32" where
  "key c b = push_bit 8 (of_int c) + ucast b"

definition table_ok :: "int \<Rightarrow> entries \<Rightarrow> GifHashTableType \<Rightarrow> bool" where
  "table_ok clear es T \<longleftrightarrow> (\<exists>M. hash_rep T M \<and> card (dom M) = length es \<and>
     (\<forall>c b. 0 \<le> c \<and> c < 4096 \<longrightarrow> M (key c b) = map_option (\<lambda>j. clear + 2 + int j) (find_entry es c b)))"

lemma uint_key: "0 \<le> c \<Longrightarrow> c < 4096 \<Longrightarrow> uint (key c b) = c * 256 + uint b"
proof -
  assume c: "0 \<le> c" "c < 4096"
  have b: "uint b < 256" using uint_lt2p [of b] by simp
  have "key c b = of_int (c * 256 + uint b)"
    by (simp add: key_def push_bit_eq_mult)
  then show ?thesis using c b by (simp add: uint_word_of_int_eq take_bit_int_eq_self del: of_int_add of_int_mult)
qed

lemma key_inj:
  assumes "0 \<le> c" "c < 4096" "0 \<le> c'" "c' < 4096" "key c b = key c' b'"
  shows "c = c' \<and> b = b'"
proof -
  have b: "uint b < 256" "uint b' < 256" using uint_lt2p [of b] uint_lt2p [of b'] by simp_all
  have eq: "c * 256 + uint b = c' * 256 + uint b'" using uint_key assms by metis
  have "c = (c * 256 + uint b) div 256" "c' = (c' * 256 + uint b') div 256" using b by simp_all
  then have "c = c'" using eq by metis
  with eq show ?thesis by (simp add: word_uint_eq_iff)
qed

lemma table_ok_clear: "table_ok clear [] (ClearHashTable T)"
  unfolding table_ok_def by (intro exI [of _ Map.empty]) (simp add: hash_rep_clear)

lemma table_ok_lookup:
  assumes "table_ok clear es T" "length es < 8192" "0 \<le> c" "c < 4096"
  shows "ExistsHashTable T (key c b) = Some (case find_entry es c b of None \<Rightarrow> - 1 | Some j \<Rightarrow> clear + 2 + int j)"
proof -
  obtain M where M: "hash_rep T M" "card (dom M) = length es"
    "M (key c b) = map_option (\<lambda>j. clear + 2 + int j) (find_entry es c b)" using assms by (auto simp: table_ok_def)
  then show ?thesis using ht.rep_lookup [OF M(1)] assms(2) by (auto split: option.splits)
qed

lemma table_ok_insert:
  assumes t: "table_ok clear es T" and new: "find_entry es c b = None" and c: "0 \<le> c" "c < 4095"
    and code: "0 \<le> clear" "clear + 2 + int (length es) < 4096"
  shows "\<exists>T'. InsertHashTable T (key c b) (clear + 2 + int (length es)) = Some T' \<and> table_ok clear (es @ [(c, b)]) T'"
proof -
  obtain M where M: "hash_rep T M" "card (dom M) = length es"
    "\<And>c b. 0 \<le> c \<Longrightarrow> c < 4096 \<Longrightarrow> M (key c b) = map_option (\<lambda>j. clear + 2 + int j) (find_entry es c b)"
    using t unfolding table_ok_def by blast
  have none: "M (key c b) = None" using M(3) c new by simp
  have "uint (key c b) < 0xFFFFF" using uint_key [of c b] c uint_lt2p [of b] by simp
  then have small: "key c b < 0xFFFFF" by (simp add: word_less_def)
  have "card (dom M) < 8192" using M(2) code by simp
  from ht.rep_ins [OF M(1) this none small, of "clear + 2 + int (length es)"] code obtain T' where
    T': "InsertHashTable T (key c b) (clear + 2 + int (length es)) = Some T'"
      "hash_rep T' (M(key c b \<mapsto> clear + 2 + int (length es)))" by auto
  have "table_ok clear (es @ [(c, b)]) T'"
    unfolding table_ok_def
  proof (intro exI [of _ "M(key c b \<mapsto> clear + 2 + int (length es))"] conjI allI impI)
    show "card (dom (M(key c b \<mapsto> clear + 2 + int (length es)))) = length (es @ [(c, b)])"
      using ht.rep_ins_card [OF M(1) none] M(2) by simp
  next
    fix c' :: int and b' :: u8 assume c': "0 \<le> c' \<and> c' < 4096"
    show "(M(key c b \<mapsto> clear + 2 + int (length es))) (key c' b') =
        map_option (\<lambda>j. clear + 2 + int j) (find_entry (es @ [(c, b)]) c' b')"
    proof (cases "c' = c \<and> b' = b")
      case True
      then show ?thesis using new by (simp add: find_entry_snoc)
    next
      case False
      then have "key c' b' \<noteq> key c b" using key_inj [of c' c b' b] c c' by auto
      with False M(3) [of c' b'] c' show ?thesis by (auto simp: find_entry_snoc split: option.splits)
    qed
  qed (rule T'(2))
  with T'(1) show ?thesis by blast
qed

section \<open>Pixels to codes\<close>

text \<open>The writer has the dictionary \<open>es\<close>, the pending code \<open>c\<close>, and has sent the bits \<open>B\<close>.\<close>

definition writing :: "int \<Rightarrow> u8 list \<Rightarrow> bool list \<Rightarrow> entries \<Rightarrow> int \<Rightarrow> epriv \<Rightarrow> bool" where
  "writing bpp W B es c p \<longleftrightarrow>
     2 \<le> bpp \<and> bpp \<le> 8 \<and> LZBitsPerPixel p = bpp \<and> ClearCode p = 2 ^ nat bpp \<and> EOFCode p = 2 ^ nat bpp + 1 \<and>
     packed p W B \<and> coder_ok p \<and> table_ok (2 ^ nat bpp) es (HashTable p) \<and> wf_entries (2 ^ nat bpp) es \<and>
     valid (2 ^ nat bpp) es c \<and> RunningCode p = 2 ^ nat bpp + 2 + int (length es) \<and> RunningCode p \<le> 4095 \<and>
     RunningCode p \<le> 2 ^ nat (RunningBits p)"

lemma clear_bounds:
  assumes "2 \<le> bpp" "bpp \<le> (8 :: int)"
  shows "4 \<le> (2 :: int) ^ nat bpp" "(2 :: int) ^ nat bpp \<le> 256" "(2 :: int) ^ nat (bpp + 1) = 2 * 2 ^ nat bpp"
proof -
  have "(2 :: int) ^ 2 \<le> 2 ^ nat bpp" "(2 :: int) ^ nat bpp \<le> 2 ^ 8" using assms by (intro power_increasing; simp)+
  then show "4 \<le> (2 :: int) ^ nat bpp" "(2 :: int) ^ nat bpp \<le> 256" by simp_all
  show "(2 :: int) ^ nat (bpp + 1) = 2 * 2 ^ nat bpp" using assms by (simp add: nat_add_distrib)
qed

text \<open>Sending a code keeps the code widths those of the reference.\<close>

lemma send_code:
  assumes wr: "writing bpp W B es c0 p" and c: "0 \<le> c" "c < RunningCode p"
  shows "\<exists>p'. EGifCompressOutput c p = Some (LzOk (), p') \<and> packed p' W (B @ bits_of (nat (RunningBits p)) c) \<and>
    coder_ok p' \<and> RunningBits p' = next_bits (RunningCode p) (RunningBits p) \<and>
    RunningCode p + 1 \<le> 2 ^ nat (RunningBits p') \<and> code_sent p p'"
proof -
  have ok: "coder_ok p" and pk: "packed p W B" and rc: "RunningCode p \<le> 2 ^ nat (RunningBits p)" "RunningCode p \<le> 4095"
    using wr by (auto simp: writing_def)
  have w: "0 \<le> RunningBits p" "RunningBits p \<le> 12" using ok by (auto simp: coder_ok_def)
  have "c < 2 ^ nat (RunningBits p)" using c rc by linarith
  from EGifCompressOutput_packed [OF pk ok c(1) this] obtain p' where p': "EGifCompressOutput c p = Some (LzOk (), p')"
    "packed p' W (B @ bits_of (nat (RunningBits p)) c)" "CrntShiftState p' < 8"
    "RunningBits p' = next_bits (RunningCode p) (RunningBits p)" "MaxCode1 p' = 2 ^ nat (RunningBits p')" "code_sent p p'" by blast
  have lt: "RunningBits p < 12" if "2 ^ nat (RunningBits p) \<le> RunningCode p"
  proof (rule ccontr)
    assume "\<not> RunningBits p < 12"
    then have "RunningBits p = 12" using w by simp
    with that rc(2) show False by simp
  qed
  have pow: "(2 :: int) ^ nat (RunningBits p + 1) = 2 * 2 ^ nat (RunningBits p)" using w by (simp add: nat_add_distrib)
  have "RunningCode p + 1 \<le> 2 ^ nat (RunningBits p')" "0 \<le> RunningBits p'" "RunningBits p' \<le> 12"
    using lt rc w c by (auto simp: p'(4) next_bits_def pow not_le)
  with p' show ?thesis by (auto simp: coder_ok_def)
qed

lemma compress_pixel_enc:
  assumes wr: "writing bpp W B es c p" and b: "uint b < 2 ^ nat bpp"
  shows "\<exists>c' p' es' cs. compress_pixel b c p = Some (Inr (c', p')) \<and>
    writing bpp W (B @ code_bits (widths bpp (RunningCode p) (RunningBits p) cs)) es' c' p' \<and>
    (\<forall>qs. enc (2 ^ nat bpp) es c (b # qs) = cs @ enc (2 ^ nat bpp) es' c' qs) \<and>
    width_state bpp (RunningCode p) (RunningBits p) cs = (RunningCode p', RunningBits p') \<and> PixelCount p' = PixelCount p"
proof -
  let ?clear = "(2 :: int) ^ nat bpp"
  have bpp: "2 \<le> bpp" "bpp \<le> 8" and fields: "LZBitsPerPixel p = bpp" "ClearCode p = ?clear" "EOFCode p = ?clear + 1"
    and pk: "packed p W B" and ok: "coder_ok p" and tab: "table_ok ?clear es (HashTable p)" and wf: "wf_entries ?clear es"
    and c: "valid ?clear es c" and rc: "RunningCode p = ?clear + 2 + int (length es)" "RunningCode p \<le> 4095"
    "RunningCode p \<le> 2 ^ nat (RunningBits p)" using wr by (auto simp: writing_def)
  note cb = clear_bounds [OF bpp]
  have cr: "0 \<le> c" "c < RunningCode p" "c \<noteq> ?clear" using c rc cb by (auto simp: valid_def)
  have len: "length es < 8192" using rc cb by linarith
  have c4: "c < 4096" using cr rc by linarith
  have vb: "valid ?clear es' (uint b)" for es' using b by (rule valid_pixel)
  have look: "ExistsHashTable (HashTable p) (key c b) =
      Some (case find_entry es c b of None \<Rightarrow> - 1 | Some j \<Rightarrow> ?clear + 2 + int j)"
    by (rule table_ok_lookup [OF tab len cr(1) c4])
  show ?thesis
  proof (cases "find_entry es c b")
    case (Some j)
    let ?c = "?clear + 2 + int j"
    have j: "j < length es" using find_entry_Some [OF Some] by simp
    have run: "compress_pixel b c p = Some (Inr (?c, p))"
      using look Some cb by (simp add: compress_pixel_def key_def)
    have "valid ?clear es ?c" using j by (simp add: valid_def)
    with wr have "writing bpp W (B @ code_bits (widths bpp (RunningCode p) (RunningBits p) [])) es ?c p"
      by (simp add: writing_def)
    with run Some show ?thesis by (intro exI [of _ ?c] exI [of _ p] exI [of _ es] exI [of _ "[]"]) simp
  next
    case None
    obtain p1 where p1: "EGifCompressOutput c p = Some (LzOk (), p1)" "packed p1 W (B @ bits_of (nat (RunningBits p)) c)"
      "coder_ok p1" "RunningBits p1 = next_bits (RunningCode p) (RunningBits p)"
      "RunningCode p + 1 \<le> 2 ^ nat (RunningBits p1)" "code_sent p p1" using send_code [OF wr cr(1,2)] by blast
    have f1: "RunningCode p1 = RunningCode p" "HashTable p1 = HashTable p" "ClearCode p1 = ?clear" "EOFCode p1 = ?clear + 1"
      "LZBitsPerPixel p1 = bpp" "PixelCount p1 = PixelCount p" using p1(6) fields by (auto simp: code_sent_def)
    show ?thesis
    proof (cases "RunningCode p < 4095")
      case True
      have "c < 4095" using cr(2) rc(2) by linarith
      then obtain T where T: "InsertHashTable (HashTable p) (key c b) (RunningCode p) = Some T" "table_ok ?clear (es @ [(c, b)]) T"
        using table_ok_insert [OF tab None cr(1)] rc cb True by auto
      let ?p' = "p1\<lparr>HashTable := T, RunningCode := RunningCode p + 1\<rparr>"
      have run: "compress_pixel b c p = Some (Inr (uint b, ?p'))"
        using look None p1(1) f1 True T(1) by (simp add: compress_pixel_def key_def LZ_MAX_CODE_def)
      have pk': "packed ?p' W X = packed p1 W X" for X by (simp add: packed_def sent_def)
      have "writing bpp W (B @ code_bits (widths bpp (RunningCode p) (RunningBits p) [c])) (es @ [(c, b)]) (uint b) ?p'"
        using bpp f1 p1 pk' T(2) wf c vb rc True cr(3) unfolding writing_def
        by (simp add: wf_entries_snoc coder_ok_def)
      moreover have "enc ?clear es c (b # qs) = [c] @ enc ?clear (es @ [(c, b)]) (uint b) qs" for qs
        using None True rc by simp
      ultimately show ?thesis
        using run cr(3) p1(4) f1 by (intro exI [of _ "uint b"] exI [of _ ?p'] exI [of _ "es @ [(c, b)]"] exI [of _ "[c]"]) simp
    next
      case False
      then have full: "RunningCode p = 4095" using rc by simp
      have wr1: "writing bpp W (B @ bits_of (nat (RunningBits p)) c) es c p1"
        using bpp f1 p1 tab wf c rc unfolding writing_def by simp
      obtain p2 where p2: "EGifCompressOutput ?clear p1 = Some (LzOk (), p2)"
        "packed p2 W ((B @ bits_of (nat (RunningBits p)) c) @ bits_of (nat (RunningBits p1)) ?clear)" "coder_ok p2" "code_sent p1 p2"
        using send_code [OF wr1, of ?clear] f1 rc cb by auto
      have f2: "HashTable p2 = HashTable p" "ClearCode p2 = ?clear" "EOFCode p2 = ?clear + 1"
        "LZBitsPerPixel p2 = bpp" "PixelCount p2 = PixelCount p" using p2(4) f1 by (auto simp: code_sent_def)
      let ?p' = "p2\<lparr>RunningCode := ?clear + 2, RunningBits := bpp + 1, MaxCode1 := 2 ^ nat (bpp + 1),
          HashTable := ClearHashTable (HashTable p)\<rparr>"
      have run: "compress_pixel b c p = Some (Inr (uint b, ?p'))"
        using look None p1(1) f1 full p2(1) f2 by (simp add: compress_pixel_def key_def LZ_MAX_CODE_def)
      have pk': "packed ?p' W X = packed p2 W X" for X by (simp add: packed_def sent_def)
      have "writing bpp W (B @ code_bits (widths bpp (RunningCode p) (RunningBits p) [c, ?clear])) [] (uint b) ?p'"
        using bpp f2 p2 p1(4) pk' vb cr(3) cb table_ok_clear unfolding writing_def
        by (simp add: coder_ok_def wf_entries_def)
      moreover have "enc ?clear es c (b # qs) = [c, ?clear] @ enc ?clear [] (uint b) qs" for qs
        using None full rc by simp
      ultimately show ?thesis
        using run cr(3) f2 by (intro exI [of _ "uint b"] exI [of _ ?p'] exI [of _ "[]"] exI [of _ "[c, ?clear]"]) simp
    qed
  qed
qed


lemma compress_loop_enc:
  assumes "writing bpp W B es c p" "i \<le> n" "n \<le> length Line" "\<forall>b \<in> set (take n Line). uint b < 2 ^ nat bpp"
  shows "\<exists>c' p' es' cs. compress_loop Line (int n) (int i) c p = Some (Inr (c', p')) \<and>
    writing bpp W (B @ code_bits (widths bpp (RunningCode p) (RunningBits p) cs)) es' c' p' \<and>
    (\<forall>qs. enc (2 ^ nat bpp) es c (drop i (take n Line) @ qs) = cs @ enc (2 ^ nat bpp) es' c' qs) \<and>
    width_state bpp (RunningCode p) (RunningBits p) cs = (RunningCode p', RunningBits p') \<and> PixelCount p' = PixelCount p"
  using assms
proof (induction "n - i" arbitrary: i B es c p)
  case 0
  then have "i = n" by simp
  then have "compress_loop Line (int n) (int i) c p = Some (Inr (c, p))" by (subst compress_loop.simps) simp
  with 0 \<open>i = n\<close> show ?case by (intro exI [of _ c] exI [of _ p] exI [of _ es] exI [of _ "[]"]) simp
next
  case (Suc k)
  let ?clear = "(2 :: int) ^ nat bpp"
  have i: "i < n" "i < length Line" using Suc by auto
  then have px: "drop i (take n Line) = Line ! i # drop (Suc i) (take n Line)"
    by (simp add: Cons_nth_drop_Suc [symmetric])
  have "Line ! i \<in> set (take n Line)" using i by (force simp: in_set_conv_nth)
  then have "uint (Line ! i) < ?clear" using Suc.prems(4) by blast
  from compress_pixel_enc [OF Suc.prems(1) this] obtain c1 p1 es1 cs1 where
    s: "compress_pixel (Line ! i) c p = Some (Inr (c1, p1))"
    "writing bpp W (B @ code_bits (widths bpp (RunningCode p) (RunningBits p) cs1)) es1 c1 p1"
    "\<forall>qs. enc ?clear es c (Line ! i # qs) = cs1 @ enc ?clear es1 c1 qs"
    "width_state bpp (RunningCode p) (RunningBits p) cs1 = (RunningCode p1, RunningBits p1)" "PixelCount p1 = PixelCount p" by blast
  have "k = n - Suc i" "Suc i \<le> n" using Suc.hyps(2) i by auto
  from Suc.hyps(1) [OF this(1) s(2) this(2) Suc.prems(3,4)] obtain c' p' es' cs2 where
    t: "compress_loop Line (int n) (int (Suc i)) c1 p1 = Some (Inr (c', p'))"
    "writing bpp W ((B @ code_bits (widths bpp (RunningCode p) (RunningBits p) cs1)) @
        code_bits (widths bpp (RunningCode p1) (RunningBits p1) cs2)) es' c' p'"
    "\<forall>qs. enc ?clear es1 c1 (drop (Suc i) (take n Line) @ qs) = cs2 @ enc ?clear es' c' qs"
    "width_state bpp (RunningCode p1) (RunningBits p1) cs2 = (RunningCode p', RunningBits p')" "PixelCount p' = PixelCount p1" by blast
  have "compress_loop Line (int n) (int i) c p = Some (Inr (c', p'))"
    using i s(1) t(1) by (subst compress_loop.simps) (simp add: add.commute)
  moreover have "writing bpp W (B @ code_bits (widths bpp (RunningCode p) (RunningBits p) (cs1 @ cs2))) es' c' p'"
    using t(2) widths_append [OF s(4)] by simp
  moreover have "width_state bpp (RunningCode p) (RunningBits p) (cs1 @ cs2) = (RunningCode p', RunningBits p')"
    using width_state_append [OF s(4)] t(4) by simp
  moreover have "enc ?clear es c (drop i (take n Line) @ qs) = (cs1 @ cs2) @ enc ?clear es' c' qs" for qs
    using s(3) t(3) px by simp
  ultimately show ?case using s(5) t(5) by metis
qed

section \<open>A whole image\<close>

text \<open>The pixels \<open>px\<close> of an image have been written; the codes are those of the reference.\<close>

definition wrote :: "int \<Rightarrow> u8 list \<Rightarrow> u8 list \<Rightarrow> epriv \<Rightarrow> bool" where
  "wrote bpp W px p \<longleftrightarrow> (let clear = 2 ^ nat bpp in
     if px = [] then CrntCode p = FIRST_CODE \<and> writing bpp W (code_bits (widths bpp (clear + 2) (bpp + 1) [clear])) [] 0 p \<and>
        RunningBits p = bpp + 1
     else \<exists>es cs. writing bpp W (code_bits (widths bpp (clear + 2) (bpp + 1) (clear # cs))) es (CrntCode p) p \<and>
        (\<forall>qs. enc clear [] (uint (hd px)) (tl px @ qs) = cs @ enc clear es (CrntCode p) qs) \<and>
        width_state bpp (clear + 2) (bpp + 1) (clear # cs) = (RunningCode p, RunningBits p))"

lemma EGifSetupCompress_wrote:
  assumes m: "(case local_map of Some m \<Rightarrow> Some m | None \<Rightarrow> screen_map) = Some m" and bpp: "bpp = max 2 (BitsPerPixel m)" "bpp \<le> 8"
    and sp: "space p = None"
  shows "\<exists>p'. EGifSetupCompress local_map screen_map p = Some (LzOk (), p') \<and> wrote bpp (written p @ [of_int bpp]) [] p' \<and>
     PixelCount p' = PixelCount p"
proof -
  let ?clear = "(2 :: int) ^ nat bpp"
  have b2: "2 \<le> bpp" using bpp by simp
  note cb = clear_bounds [OF b2 bpp(2)]
  let ?W = "written p @ [of_int bpp]"
  let ?p2 = "p\<lparr>written := ?W, Buf := (Buf p)(0 := 0), LZBitsPerPixel := bpp, ClearCode := ?clear, EOFCode := ?clear + 1,
      RunningCode := ?clear + 2, RunningBits := bpp + 1, MaxCode1 := 2 ^ nat (bpp + 1), CrntCode := FIRST_CODE,
      CrntShiftState := 0, CrntShiftDWord := 0, HashTable := ClearHashTable (HashTable p)\<rparr>"
  have "sent ?p2 ?W []" unfolding sent_def using sp by (intro conjI exI [of _ "[]"]) auto
  then have "packed ?p2 ?W []" unfolding packed_def by (intro exI [of _ "[]"]) (simp add: bits_of_def)
  then have w2: "writing bpp ?W [] [] 0 ?p2"
    using b2 bpp(2) cb table_ok_clear by (simp add: writing_def coder_ok_def wf_entries_def valid_def)
  obtain p' where p': "EGifCompressOutput ?clear ?p2 = Some (LzOk (), p')" "packed p' ?W ([] @ bits_of (nat (RunningBits ?p2)) ?clear)"
    "coder_ok p'" "RunningBits p' = next_bits (RunningCode ?p2) (RunningBits ?p2)" "code_sent ?p2 p'"
    using send_code [OF w2, of ?clear] cb by auto
  have cc: "CrntCode p' = FIRST_CODE" using p'(5) by (simp add: code_sent_def)
  have rb: "RunningBits p' = bpp + 1" using p'(4) cb by (simp add: next_bits_def)
  have "EGifSetupCompress local_map screen_map p = Some (LzOk (), p')"
    using m bpp(1) sp p'(1) by (simp add: EGifSetupCompress_def put_def InternalWrite_None Let_def)
  moreover have "wrote bpp ?W [] p'"
    using p' cc rb w2 b2 bpp(2) cb by (simp add: wrote_def writing_def code_sent_def)
  moreover have "PixelCount p' = PixelCount p" using p'(5) by (simp add: code_sent_def)
  ultimately show ?thesis by blast
qed

lemma writing_frame [simp]:
  "writing bpp W B es c (p\<lparr>CrntCode := x\<rparr>) = writing bpp W B es c p"
  "writing bpp W B es c (p\<lparr>PixelCount := n\<rparr>) = writing bpp W B es c p"
  by (simp_all add: writing_def packed_def sent_def coder_ok_def)

lemma wrote_nonempty:
  "px \<noteq> [] \<Longrightarrow> wrote bpp W px p \<longleftrightarrow>
     (\<exists>es cs. writing bpp W (code_bits (widths bpp (2 ^ nat bpp + 2) (bpp + 1) (2 ^ nat bpp # cs))) es (CrntCode p) p \<and>
        (\<forall>qs. enc (2 ^ nat bpp) [] (uint (hd px)) (tl px @ qs) = cs @ enc (2 ^ nat bpp) es (CrntCode p) qs) \<and>
        width_state bpp (2 ^ nat bpp + 2) (bpp + 1) (2 ^ nat bpp # cs) = (RunningCode p, RunningBits p))"
  unfolding wrote_def Let_def by (simp only: if_False)

lemma wrote_frame [simp]: "wrote bpp W px (p\<lparr>PixelCount := n\<rparr>) = wrote bpp W px p"
  by (simp add: wrote_def)

lemma writing_not_first: "writing bpp W B es c p \<Longrightarrow> c \<noteq> FIRST_CODE"
  using clear_bounds [of bpp] by (auto simp: writing_def valid_def FIRST_CODE_def)

text \<open>The loop over a line, with the pending code taken from the state or from the first pixel.\<close>

lemma wrote_line:
  assumes wr: "wrote bpp W px p" and n: "0 < n" "n \<le> length Line" and b: "\<forall>b \<in> set (take n Line). uint b < 2 ^ nat bpp"
  shows "\<exists>i c c' p'. (if CrntCode p = FIRST_CODE then do { b \<leftarrow> lread Line 0; Some (1, uint b) } else Some (0, CrntCode p)) = Some (i, c) \<and>
    compress_loop Line (int n) i c p = Some (Inr (c', p')) \<and> wrote bpp W (px @ take n Line) (p'\<lparr>CrntCode := c'\<rparr>) \<and>
    PixelCount p' = PixelCount p"
proof (cases "px = []")
  case True
  let ?clear = "(2 :: int) ^ nat bpp"
  have p: "CrntCode p = FIRST_CODE" "writing bpp W (code_bits (widths bpp (?clear + 2) (bpp + 1) [?clear])) [] 0 p" "RunningBits p = bpp + 1"
    using wr True by (auto simp: wrote_def)
  have rc: "RunningCode p = ?clear + 2" using p(2) by (simp add: writing_def)
  have hd: "take n Line = Line ! 0 # drop 1 (take n Line)" using n by (cases Line; cases n) auto
  then have "Line ! 0 \<in> set (take n Line)" by (metis list.set_intros(1))
  then have "uint (Line ! 0) < ?clear" using b by blast
  then have "writing bpp W (code_bits (widths bpp (?clear + 2) (bpp + 1) [?clear])) [] (uint (Line ! 0)) p"
    using p(2) by (simp add: writing_def valid_def)
  from compress_loop_enc [OF this _ n(2) b, of 1] n(1) obtain c' p' es' cs where
    l: "compress_loop Line (int n) (int 1) (uint (Line ! 0)) p = Some (Inr (c', p'))"
    "writing bpp W (code_bits (widths bpp (?clear + 2) (bpp + 1) [?clear]) @ code_bits (widths bpp (RunningCode p) (RunningBits p) cs)) es' c' p'"
    "\<forall>qs. enc ?clear [] (uint (Line ! 0)) (drop 1 (take n Line) @ qs) = cs @ enc ?clear es' c' qs"
    "width_state bpp (RunningCode p) (RunningBits p) cs = (RunningCode p', RunningBits p')" "PixelCount p' = PixelCount p" by auto
  have ht: "hd (take n Line) = Line ! 0" "tl (take n Line) = drop 1 (take n Line)" "take n Line \<noteq> []" by (subst hd, simp)+
  have "wrote bpp W (px @ take n Line) (p'\<lparr>CrntCode := c'\<rparr>)"
    unfolding True append_Nil wrote_nonempty [OF ht(3)]
    by (intro exI [of _ es'] exI [of _ cs]) (use l ht rc p(3) in simp)
  moreover have "lread Line 0 = Some (Line ! 0)" using n by (auto simp: lread_def)
  ultimately show ?thesis using p(1) l by auto
next
  case False
  let ?clear = "(2 :: int) ^ nat bpp"
  obtain es cs where p: "writing bpp W (code_bits (widths bpp (?clear + 2) (bpp + 1) (?clear # cs))) es (CrntCode p) p"
    "\<forall>qs. enc ?clear [] (uint (hd px)) (tl px @ qs) = cs @ enc ?clear es (CrntCode p) qs"
    "width_state bpp (?clear + 2) (bpp + 1) (?clear # cs) = (RunningCode p, RunningBits p)"
    using wr False by (auto simp: wrote_def Let_def)
  from compress_loop_enc [OF p(1) _ n(2) b, of 0] obtain c' p' es' cs' where
    l: "compress_loop Line (int n) (int 0) (CrntCode p) p = Some (Inr (c', p'))"
    "writing bpp W (code_bits (widths bpp (?clear + 2) (bpp + 1) (?clear # cs)) @ code_bits (widths bpp (RunningCode p) (RunningBits p) cs')) es' c' p'"
    "\<forall>qs. enc ?clear es (CrntCode p) (drop 0 (take n Line) @ qs) = cs' @ enc ?clear es' c' qs"
    "width_state bpp (RunningCode p) (RunningBits p) cs' = (RunningCode p', RunningBits p')" "PixelCount p' = PixelCount p" by auto
  have a: "writing bpp W (code_bits (widths bpp (?clear + 2) (bpp + 1) (?clear # cs @ cs'))) es' c' p'"
    using l(2) widths_append [OF p(3), of cs'] by simp
  have w: "width_state bpp (?clear + 2) (bpp + 1) (?clear # cs @ cs') = (RunningCode p', RunningBits p')"
    using width_state_append [OF p(3), of cs'] l(4) by simp
  have e: "enc ?clear [] (uint (hd (px @ take n Line))) (tl (px @ take n Line) @ qs) = (cs @ cs') @ enc ?clear es' c' qs" for qs
    using p(2) l(3) False by simp
  have ne: "px @ take n Line \<noteq> []" using False by simp
  have "wrote bpp W (px @ take n Line) (p'\<lparr>CrntCode := c'\<rparr>)"
    unfolding wrote_nonempty [OF ne]
  proof (intro exI conjI allI)
    show "writing bpp W (code_bits (widths bpp (?clear + 2) (bpp + 1) (?clear # cs @ cs'))) es'
        (CrntCode (p'\<lparr>CrntCode := c'\<rparr>)) (p'\<lparr>CrntCode := c'\<rparr>)" using a unfolding writing_frame by simp
  qed (use w e in simp_all)
  with writing_not_first [OF p(1)] l show ?thesis by auto
qed

lemma EGifCompressLine_part:
  assumes "wrote bpp W px p" "0 < n" "n \<le> length Line" "\<forall>b \<in> set (take n Line). uint b < 2 ^ nat bpp" "PixelCount p \<noteq> 0"
  shows "\<exists>p'. EGifCompressLine Line (int n) p = Some (LzOk (), p') \<and> wrote bpp W (px @ take n Line) p' \<and> PixelCount p' = PixelCount p"
proof -
  obtain i c c' p' where s: "(if CrntCode p = FIRST_CODE then do { b \<leftarrow> lread Line 0; Some (1, uint b) } else Some (0, CrntCode p)) = Some (i, c)"
    "compress_loop Line (int n) i c p = Some (Inr (c', p'))" "wrote bpp W (px @ take n Line) (p'\<lparr>CrntCode := c'\<rparr>)"
    "PixelCount p' = PixelCount p" using wrote_line [OF assms(1-4)] by blast
  have "EGifCompressLine Line (int n) p = Some (LzOk (), p'\<lparr>CrntCode := c'\<rparr>)"
    unfolding EGifCompressLine_def s(1) using s(2,4) assms(5) by (simp add: Let_def)
  with s(3,4) show ?thesis by (intro exI [of _ "p'\<lparr>CrntCode := c'\<rparr>"]) simp
qed

lemma EGifCompressLine_last:
  assumes "wrote bpp W px p" "0 < n" "n \<le> length Line" "\<forall>b \<in> set (take n Line). uint b < 2 ^ nat bpp" "PixelCount p = 0"
  shows "\<exists>p' Y pad. EGifCompressLine Line (int n) p = Some (LzOk (), p') \<and> written p' = W @ sub_blocks Y \<and>
     byte_bits Y = code_bits (image_codes bpp (px @ take n Line)) @ pad"
proof -
  let ?clear = "(2 :: int) ^ nat bpp" and ?px = "px @ take n Line"
  obtain i c c' p' where s: "(if CrntCode p = FIRST_CODE then do { b \<leftarrow> lread Line 0; Some (1, uint b) } else Some (0, CrntCode p)) = Some (i, c)"
    "compress_loop Line (int n) i c p = Some (Inr (c', p'))" "wrote bpp W ?px (p'\<lparr>CrntCode := c'\<rparr>)"
    "PixelCount p' = PixelCount p" using wrote_line [OF assms(1-4)] by blast
  define p2 where "p2 = p'\<lparr>CrntCode := c'\<rparr>"
  have ne: "?px \<noteq> []" using assms(2,3) by auto
  have crnt: "CrntCode p2 = c'" by (simp add: p2_def)
  obtain es cs where w: "writing bpp W (code_bits (widths bpp (?clear + 2) (bpp + 1) (?clear # cs))) es c' p2"
    "\<forall>qs. enc ?clear [] (uint (hd ?px)) (tl ?px @ qs) = cs @ enc ?clear es c' qs"
    "width_state bpp (?clear + 2) (bpp + 1) (?clear # cs) = (RunningCode p2, RunningBits p2)"
    using s(3) unfolding p2_def [symmetric] wrote_nonempty [OF ne] crnt by blast
  have cr: "0 \<le> c'" "c' < RunningCode p2" "c' \<noteq> ?clear" "?clear + 1 < RunningCode p2" and f: "EOFCode p2 = ?clear + 1"
    using w(1) clear_bounds [of bpp] by (auto simp: writing_def valid_def)
  obtain p3 where p3: "EGifCompressOutput c' p2 = Some (LzOk (), p3)"
    "packed p3 W (code_bits (widths bpp (?clear + 2) (bpp + 1) (?clear # cs)) @ bits_of (nat (RunningBits p2)) c')" "coder_ok p3"
    "RunningBits p3 = next_bits (RunningCode p2) (RunningBits p2)" "RunningCode p2 + 1 \<le> 2 ^ nat (RunningBits p3)" "code_sent p2 p3"
    using send_code [OF w(1) cr(1,2)] by blast
  have "?clear + 1 < 2 ^ nat (RunningBits p3)" using cr(4) p3(5) by linarith
  then obtain p4 where p4: "EGifCompressOutput (?clear + 1) p3 = Some (LzOk (), p4)"
    "packed p4 W ((code_bits (widths bpp (?clear + 2) (bpp + 1) (?clear # cs)) @ bits_of (nat (RunningBits p2)) c') @
        bits_of (nat (RunningBits p3)) (?clear + 1))" "CrntShiftState p4 < 8" "code_sent p3 p4"
    using EGifCompressOutput_packed [OF p3(2,3), of "?clear + 1"] by auto
  have bits: "(code_bits (widths bpp (?clear + 2) (bpp + 1) (?clear # cs)) @ bits_of (nat (RunningBits p2)) c') @
        bits_of (nat (RunningBits p3)) (?clear + 1) = code_bits (image_codes bpp ?px)"
  proof -
    have "enc ?clear [] (uint (hd ?px)) (tl ?px) = cs @ [c']" using w(2) [rule_format, of "[]"] by simp
    then have "image_codes bpp ?px = widths bpp (?clear + 2) (bpp + 1) ((?clear # cs) @ [c', ?clear + 1])"
      by (simp add: image_codes_def)
    also have "\<dots> = widths bpp (?clear + 2) (bpp + 1) (?clear # cs) @ widths bpp (RunningCode p2) (RunningBits p2) [c', ?clear + 1]"
      by (rule widths_append [OF w(3)])
    finally show ?thesis using cr(3) p3(4) by (simp del: width_state.simps)
  qed
  obtain p5 Y pad where p5: "EGifCompressOutput FLUSH_OUTPUT p4 = Some (LzOk (), p5)" "written p5 = W @ sub_blocks Y"
    "byte_bits Y = code_bits (image_codes bpp ?px) @ pad" using EGifCompressOutput_flush [OF p4(2,3)] unfolding bits by blast
  have "PixelCount p' = 0" "PixelCount p2 = 0" using s(4) assms(5) by (simp_all add: p2_def)
  then have "EGifCompressLine Line (int n) p = Some (LzOk (), p5)"
    unfolding EGifCompressLine_def s(1) using s(2) f p3(1) p4(1) p5(1) by (simp add: Let_def p2_def [symmetric])
  with p5 show ?thesis by blast
qed


section \<open>What the compressor leaves alone\<close>

definition same_file :: "epriv \<Rightarrow> epriv \<Rightarrow> bool" where
  "same_file p q \<longleftrightarrow> FileState q = FileState p \<and> PixelCount q = PixelCount p \<and> gif89 q = gif89 p \<and> (space q = None \<longleftrightarrow> space p = None)"

named_theorems file_kept

lemma same_file_refl [file_kept]: "same_file p p"
  by (simp add: same_file_def)

lemma same_file_trans: "same_file p q \<Longrightarrow> same_file q r \<Longrightarrow> same_file p r"
  by (auto simp: same_file_def)

lemma InternalWrite_file [file_kept]: "InternalWrite buf p = (n, p') \<Longrightarrow> same_file p p'"
  by (auto simp: InternalWrite_def same_file_def Let_def)

lemma same_file_coder [simp]:
  "same_file p (q\<lparr>Buf := x0\<rparr>) = same_file p q" "same_file (p\<lparr>Buf := x0\<rparr>) q = same_file p q"
  "same_file p (q\<lparr>CrntShiftDWord := x1\<rparr>) = same_file p q" "same_file (p\<lparr>CrntShiftDWord := x1\<rparr>) q = same_file p q"
  "same_file p (q\<lparr>CrntShiftState := x2\<rparr>) = same_file p q" "same_file (p\<lparr>CrntShiftState := x2\<rparr>) q = same_file p q"
  "same_file p (q\<lparr>RunningBits := x3\<rparr>) = same_file p q" "same_file (p\<lparr>RunningBits := x3\<rparr>) q = same_file p q"
  "same_file p (q\<lparr>RunningCode := x4\<rparr>) = same_file p q" "same_file (p\<lparr>RunningCode := x4\<rparr>) q = same_file p q"
  "same_file p (q\<lparr>MaxCode1 := x5\<rparr>) = same_file p q" "same_file (p\<lparr>MaxCode1 := x5\<rparr>) q = same_file p q"
  "same_file p (q\<lparr>CrntCode := x6\<rparr>) = same_file p q" "same_file (p\<lparr>CrntCode := x6\<rparr>) q = same_file p q"
  "same_file p (q\<lparr>HashTable := x7\<rparr>) = same_file p q" "same_file (p\<lparr>HashTable := x7\<rparr>) q = same_file p q"
  "same_file p (q\<lparr>LZBitsPerPixel := x8\<rparr>) = same_file p q" "same_file (p\<lparr>LZBitsPerPixel := x8\<rparr>) q = same_file p q"
  "same_file p (q\<lparr>ClearCode := x9\<rparr>) = same_file p q" "same_file (p\<lparr>ClearCode := x9\<rparr>) q = same_file p q"
  "same_file p (q\<lparr>EOFCode := x10\<rparr>) = same_file p q" "same_file (p\<lparr>EOFCode := x10\<rparr>) q = same_file p q"
  by (simp_all add: same_file_def)

lemma lz_unit_ok [simp]: "(\<forall>e. r \<noteq> LzFail e) \<longleftrightarrow> r = LzOk ()"
  by (cases r) auto

lemma EGifBufferedOutput_file [file_kept]:
  assumes "EGifBufferedOutput c p = Some (r, p')"
  shows "same_file p p'"
proof -
  have "\<And>buf n q q' b. InternalWrite buf (q\<lparr>Buf := b\<rparr>) = (n, q') \<Longrightarrow> same_file p q \<Longrightarrow> same_file p q'"
    using InternalWrite_file same_file_trans same_file_coder(1) by blast
  then show ?thesis using assms
    by (fastforce simp: EGifBufferedOutput_def Let_def bind_eq_Some_conv
        split: if_splits prod.splits dest: InternalWrite_file intro: same_file_refl)
qed

lemma drain_bits_file [file_kept]: "drain_bits limit err p = Some (e, p') \<Longrightarrow> same_file p p'"
proof (induction limit err p rule: drain_bits.induct)
  case (1 limit err p)
  show ?case
  proof (cases "CrntShiftState p \<ge> limit \<and> 0 < limit")
    case False
    then show ?thesis using "1.prems" by (subst (asm) drain_bits.simps) (auto simp: file_kept)
  next
    case True
    then obtain r p1 where p1: "EGifBufferedOutput (uint (CrntShiftDWord p AND 0xff)) p = Some (r, p1)"
      "drain_bits limit (case r of LzFail e \<Rightarrow> e | LzOk _ \<Rightarrow> err)
        (p1\<lparr>CrntShiftDWord := drop_bit 8 (CrntShiftDWord p1), CrntShiftState := CrntShiftState p1 - 8\<rparr>) = Some (e, p')"
      using "1.prems" by (subst (asm) drain_bits.simps) (auto split: option.splits prod.splits)
    have "same_file p1 p'" using "1.IH" [OF True p1(1) refl p1(2)] by simp
    then show ?thesis using EGifBufferedOutput_file [OF p1(1)] same_file_trans by blast
  qed
qed

lemma EGifCompressOutput_file [file_kept]:
  assumes "EGifCompressOutput Code p = Some (r, p')"
  shows "same_file p p'"
proof -
  have "same_file p p1" if "(if Code = FLUSH_OUTPUT then
               do { (e1, q) \<leftarrow> drain_bits 1 None p;
                    (r, q') \<leftarrow> EGifBufferedOutput FLUSH_OUTPUT (q\<lparr>CrntShiftState := 0\<rparr>);
                    Some (case r of LzFail e \<Rightarrow> e | LzOk _ \<Rightarrow> e1, q') }
             else if 0 \<le> CrntShiftState p \<and> CrntShiftState p < 32 then
               drain_bits 8 None
                 (p\<lparr>CrntShiftDWord := CrntShiftDWord p OR push_bit (nat (CrntShiftState p)) (of_int Code),
                    CrntShiftState := CrntShiftState p + RunningBits p\<rparr>)
             else None) = Some (err, p1)" for err p1
    using that by (auto simp: bind_eq_Some_conv split: if_splits dest!: drain_bits_file EGifBufferedOutput_file intro: same_file_trans)
  then show ?thesis using assms unfolding EGifCompressOutput_def
    by (auto simp: Let_def bind_eq_Some_conv split: if_splits)
qed

lemma compress_pixel_file [file_kept]: "compress_pixel x c p = Some r \<Longrightarrow> same_file p (case r of Inl q \<Rightarrow> q | Inr (_, q) \<Rightarrow> q)"
  by (auto simp: compress_pixel_def Let_def bind_eq_Some_conv file_kept
      split: if_splits lz_result.splits dest!: EGifCompressOutput_file intro: same_file_trans)

lemma compress_loop_file [file_kept]:
  "compress_loop Line n i c p = Some r \<Longrightarrow> same_file p (case r of Inl q \<Rightarrow> q | Inr (_, q) \<Rightarrow> q)"
proof (induction Line n i c p arbitrary: r rule: compress_loop.induct)
  case (1 Line n i c p)
  show ?case
  proof (cases "i < n")
    case False
    then show ?thesis using "1.prems" by (subst (asm) compress_loop.simps) (auto simp: file_kept)
  next
    case True
    then obtain b x where b: "lread Line i = Some b" "compress_pixel b c p = Some x"
      "(case x of Inl q \<Rightarrow> Some (Inl q) | Inr (c', q) \<Rightarrow> compress_loop Line n (i + 1) c' q) = Some r"
      using "1.prems" by (subst (asm) compress_loop.simps) (auto split: option.splits)
    note k = compress_pixel_file [OF b(2)]
    show ?thesis
    proof (cases x)
      case (Inl q)
      with b(3) k show ?thesis by auto
    next
      case (Inr y)
      obtain c' q where y: "y = (c', q)" by fastforce
      have "same_file q (case r of Inl q \<Rightarrow> q | Inr (_, q) \<Rightarrow> q)"
        using "1.IH" [OF True b(1,2) _ y [symmetric], of r] Inr b(3) y by simp
      with k Inr y show ?thesis using same_file_trans by auto
    qed
  qed
qed

lemma send_codes_file [file_kept]: "send_codes cs p = Some (r, p') \<Longrightarrow> same_file p p'"
  by (induction cs arbitrary: p) (auto simp: bind_eq_Some_conv file_kept split: lz_result.splits dest!: EGifCompressOutput_file intro: same_file_trans)

lemma EGifCompressLine_file [file_kept]:
  assumes "EGifCompressLine Line n p = Some (r, p')"
  shows "same_file p p'"
proof -
  obtain i c x where x: "compress_loop Line n i c p = Some x"
    "(case x of Inl q \<Rightarrow> Some (LzFail (Some E_GIF_ERR_DISK_IS_FULL), q)
      | Inr (c', q) \<Rightarrow> let p2 = q\<lparr>CrntCode := c'\<rparr>
          in if PixelCount q = 0 then send_codes [c', EOFCode p2, FLUSH_OUTPUT] p2 else Some (LzOk (), p2)) = Some (r, p')"
    using assms unfolding EGifCompressLine_def by (auto simp: bind_eq_Some_conv simp del: send_codes.simps)
  from compress_loop_file [OF x(1)] x(2) show ?thesis
    by (cases x) (auto simp del: send_codes.simps simp: Let_def split: if_splits dest!: send_codes_file, blast intro: same_file_trans)
qed

lemma EGifSetupCompress_file [file_kept]:
  assumes "EGifSetupCompress lm sm p = Some (r, p')"
  shows "same_file p p'"
proof (cases "case lm of Some m \<Rightarrow> Some m | None \<Rightarrow> sm")
  case None
  with assms show ?thesis by (simp add: EGifSetupCompress_def file_kept)
next
  case (Some m)
  let ?q = "put [of_int (max 2 (BitsPerPixel m))] p"
  from assms Some have "same_file ?q p'"
    by (auto simp: EGifSetupCompress_def Let_def bind_eq_Some_conv dest!: EGifCompressOutput_file)
  moreover have "same_file p (put buf p)" for buf unfolding put_def by (metis InternalWrite_file prod.collapse)
  ultimately show ?thesis using same_file_trans by blast
qed

end
