(* ===== verification/DGif.thy ===== *)
theory DGif
  imports GifAlloc
begin

text \<open>
  The GIF reader, \<open>giflib/src/dgif_lib.c\<close>.

  The source the reader pulls bytes from (the \<open>Read\<close> callback or the file) is the list \<open>input\<close> of
  the bytes still to come; \<open>READ\<close> returns what is left when less than the wanted count remains.
  Routines that use only the private state act on the record \<open>dpriv\<close> and return an \<open>lz_result\<close>; the
  routines of the file record return \<open>GIF_ERROR\<close> or \<open>GIF_OK\<close> with the file.
\<close>

section \<open>State and input\<close>

record dpriv = GifFilePrivateType +
  input :: "u8 list"

type_synonym dgif = "dpriv GifFileType"

definition D_GIF_ERR_OPEN_FAILED :: int where "D_GIF_ERR_OPEN_FAILED = 101"
definition D_GIF_ERR_READ_FAILED :: int where "D_GIF_ERR_READ_FAILED = 102"
definition D_GIF_ERR_NOT_GIF_FILE :: int where "D_GIF_ERR_NOT_GIF_FILE = 103"
definition D_GIF_ERR_NO_SCRN_DSCR :: int where "D_GIF_ERR_NO_SCRN_DSCR = 104"
definition D_GIF_ERR_NO_IMAG_DSCR :: int where "D_GIF_ERR_NO_IMAG_DSCR = 105"
definition D_GIF_ERR_WRONG_RECORD :: int where "D_GIF_ERR_WRONG_RECORD = 107"
definition D_GIF_ERR_DATA_TOO_BIG :: int where "D_GIF_ERR_DATA_TOO_BIG = 108"
definition D_GIF_ERR_NOT_ENOUGH_MEM :: int where "D_GIF_ERR_NOT_ENOUGH_MEM = 109"
definition D_GIF_ERR_CLOSE_FAILED :: int where "D_GIF_ERR_CLOSE_FAILED = 110"
definition D_GIF_ERR_NOT_READABLE :: int where "D_GIF_ERR_NOT_READABLE = 111"
definition D_GIF_ERR_IMAGE_DEFECT :: int where "D_GIF_ERR_IMAGE_DEFECT = 112"
definition D_GIF_ERR_EOF_TOO_SOON :: int where "D_GIF_ERR_EOF_TOO_SOON = 113"

definition READ :: "nat \<Rightarrow> dpriv \<Rightarrow> u8 list \<times> dpriv" where
  "READ n p = (take n (input p), p\<lparr>input := drop n (input p)\<rparr>)"

text \<open>Bytes stored from index \<open>i\<close> of an array of size \<open>n\<close>.\<close>

definition put_bytes :: "int \<Rightarrow> (int \<Rightarrow> u8) \<Rightarrow> int \<Rightarrow> u8 list \<Rightarrow> (int \<Rightarrow> u8) option" where
  "put_bytes n a i bs =
     (if 0 \<le> i \<and> i + int (length bs) \<le> n
      then Some (\<lambda>j. if i \<le> j \<and> j < i + int (length bs) then bs ! nat (j - i) else a j)
      else None)"

definition DGifGetWord :: "dpriv \<Rightarrow> int lz_result \<times> dpriv" where
  "DGifGetWord p =
     (case READ 2 p of
        ([lo, hi], p') \<Rightarrow> (LzOk (uint (of_le16 lo hi)), p')
      | (_, p') \<Rightarrow> (LzFail (Some D_GIF_ERR_READ_FAILED), p'))"

text \<open>The next data sub-block, \<open>None\<close> for \<open>NULL\<close> at the empty block that ends the image.  The block
  is left in \<open>Private->Buf\<close> with its length in front.\<close>

definition DGifGetCodeNext :: "dpriv \<Rightarrow> (u8 list option lz_result \<times> dpriv) option" where
  "DGifGetCodeNext p =
     (case READ 1 p of
        ([], p1) \<Rightarrow> Some (LzFail (Some D_GIF_ERR_READ_FAILED), p1)
      | (b # _, p1) \<Rightarrow>
          if b > 0 then
            do { buf0 \<leftarrow> awrite 256 (Buf p1) 0 b;
                 let (bs, p2) = READ (unat b) p1;
                 buf \<leftarrow> put_bytes 256 buf0 1 bs;
                 let p3 = p2\<lparr>Buf := buf\<rparr>;
                 Some (if length bs \<noteq> unat b then LzFail (Some D_GIF_ERR_READ_FAILED) else LzOk (Some bs), p3) }
          else
            do { buf \<leftarrow> awrite 256 (Buf p1) 0 0;
                 Some (LzOk None, p1\<lparr>Buf := buf, PixelCount := 0\<rparr>) })"

definition DGifGetCode :: "dpriv \<Rightarrow> ((int \<times> u8 list option) lz_result \<times> dpriv) option" where
  "DGifGetCode p =
     (if \<not> IS_READABLE p then Some (LzFail (Some D_GIF_ERR_NOT_READABLE), p)
      else do { (r, p') \<leftarrow> DGifGetCodeNext p;
                Some (case r of LzFail e \<Rightarrow> LzFail e | LzOk b \<Rightarrow> LzOk (LZBitsPerPixel p, b), p') })"

section \<open>LZW decompression\<close>

definition DGifSetupDecompress :: "dpriv \<Rightarrow> (unit lz_result \<times> dpriv) option" where
  "DGifSetupDecompress p =
     (case READ 1 p of
        ([], p1) \<Rightarrow> Some (LzFail None, p1)
      | (c # _, p1) \<Rightarrow>
          let bpp = uint c in
          if bpp > 8 then Some (LzFail (Some D_GIF_ERR_READ_FAILED), p1)
          else do { buf \<leftarrow> awrite 256 (Buf p1) 0 0;
                    Some (LzOk (),
                      p1\<lparr>Buf := buf, LZBitsPerPixel := bpp, ClearCode := 2 ^ nat bpp, EOFCode := 2 ^ nat bpp + 1,
                         RunningCode := 2 ^ nat bpp + 2, RunningBits := bpp + 1, MaxCode1 := 2 ^ nat (bpp + 1),
                         StackPtr := 0, LastCode := NO_SUCH_CODE, CrntShiftState := 0, CrntShiftDWord := 0,
                         Prefix := (\<lambda>i. if 0 \<le> i \<and> i \<le> LZ_MAX_CODE then NO_SUCH_CODE else Prefix p1 i)\<rparr>) })"

definition DGifBufferedInput :: "dpriv \<Rightarrow> (u8 lz_result \<times> dpriv) option" where
  "DGifBufferedInput p =
     do { b0 \<leftarrow> aread 256 (Buf p) 0;
          if b0 = 0 then
            (case READ 1 p of
               ([], p1) \<Rightarrow> Some (LzFail (Some D_GIF_ERR_READ_FAILED), p1)
             | (c # _, p1) \<Rightarrow>
                 do { buf0 \<leftarrow> awrite 256 (Buf p1) 0 c;
                      if c = 0 then Some (LzFail (Some D_GIF_ERR_IMAGE_DEFECT), p1\<lparr>Buf := buf0\<rparr>)
                      else do { let (bs, p2) = READ (unat c) p1;
                                buf1 \<leftarrow> put_bytes 256 buf0 1 bs;
                                if length bs \<noteq> unat c
                                then Some (LzFail (Some D_GIF_ERR_READ_FAILED), p2\<lparr>Buf := buf1\<rparr>)
                                else do { next_byte \<leftarrow> aread 256 buf1 1;
                                          buf2 \<leftarrow> awrite 256 buf1 1 2;
                                          buf3 \<leftarrow> awrite 256 buf2 0 (c - 1);
                                          Some (LzOk next_byte, p2\<lparr>Buf := buf3\<rparr>) } } })
          else do { k \<leftarrow> aread 256 (Buf p) 1;
                    next_byte \<leftarrow> aread 256 (Buf p) (uint k);
                    buf1 \<leftarrow> awrite 256 (Buf p) 1 (k + 1);
                    buf2 \<leftarrow> awrite 256 buf1 0 (b0 - 1);
                    Some (LzOk next_byte, p\<lparr>Buf := buf2\<rparr>) } }"

definition CodeMasks :: "u32 list" where
  "CodeMasks = [0x0000, 0x0001, 0x0003, 0x0007, 0x000f, 0x001f, 0x003f, 0x007f,
                0x00ff, 0x01ff, 0x03ff, 0x07ff, 0x0fff]"

lemma DGifBufferedInput_frame:
  "DGifBufferedInput p = Some (r, p') \<Longrightarrow>
     p' = p\<lparr>Buf := Buf p', input := input p'\<rparr> \<and> length (input p') \<le> length (input p)"
  by (cases "input p")
     (auto simp: DGifBufferedInput_def READ_def bind_eq_Some_conv Let_def split: if_splits)

lemma DGifBufferedInput_fields:
  assumes "DGifBufferedInput p = Some (r, p')"
  shows "RunningBits p' = RunningBits p \<and> CrntShiftState p' = CrntShiftState p"
proof -
  have eq: "p' = p\<lparr>Buf := Buf p', input := input p'\<rparr>" using DGifBufferedInput_frame [OF assms] by blast
  show ?thesis using arg_cong [OF eq, of RunningBits] arg_cong [OF eq, of CrntShiftState] by simp
qed

function fill_bits :: "dpriv \<Rightarrow> (unit lz_result \<times> dpriv) option" where
  "fill_bits p =
     (if CrntShiftState p < RunningBits p then
        (case DGifBufferedInput p of
           None \<Rightarrow> None
         | Some (LzFail e, p1) \<Rightarrow> Some (LzFail e, p1)
         | Some (LzOk b, p1) \<Rightarrow>
             if 0 \<le> CrntShiftState p1 \<and> CrntShiftState p1 < 32
             then fill_bits (p1\<lparr>CrntShiftDWord := CrntShiftDWord p1 OR push_bit (nat (CrntShiftState p1)) (ucast b),
                                CrntShiftState := CrntShiftState p1 + 8\<rparr>)
             else None)
      else Some (LzOk (), p))"
  by pat_completeness auto
termination
  by (relation "measure (\<lambda>p. nat (RunningBits p - CrntShiftState p))")
     (auto dest!: DGifBufferedInput_fields)

declare fill_bits.simps [simp del]

definition DGifDecompressInput :: "dpriv \<Rightarrow> (int lz_result \<times> dpriv) option" where
  "DGifDecompressInput p =
     (if RunningBits p > LZ_BITS then Some (LzFail (Some D_GIF_ERR_IMAGE_DEFECT), p)
      else do { (r, p1) \<leftarrow> fill_bits p;
        case r of
          LzFail e \<Rightarrow> Some (LzFail e, p1)
        | LzOk _ \<Rightarrow>
            do { m \<leftarrow> lread CodeMasks (RunningBits p1);
                 let code = uint (CrntShiftDWord p1 AND m);
                 let p2 = p1\<lparr>CrntShiftDWord := drop_bit (nat (RunningBits p1)) (CrntShiftDWord p1),
                             CrntShiftState := CrntShiftState p1 - RunningBits p1\<rparr>;
                 let p3 = (if RunningCode p2 < LZ_MAX_CODE + 2 then
                             let p' = p2\<lparr>RunningCode := RunningCode p2 + 1\<rparr> in
                             if RunningCode p' > MaxCode1 p' \<and> RunningBits p' < LZ_BITS
                             then p'\<lparr>MaxCode1 := MaxCode1 p' * 2, RunningBits := RunningBits p' + 1\<rparr> else p'
                           else p2);
                 Some (LzOk code, p3) } })"

text \<open>The trace of prefixes is limited to \<open>LZ_MAX_CODE + 1\<close> steps; \<open>i\<close> is the loop counter.\<close>

function prefix_char :: "(int \<Rightarrow> int) \<Rightarrow> int \<Rightarrow> int \<Rightarrow> int \<Rightarrow> int option" where
  "prefix_char prefix clear code i =
     (if code > clear \<and> i \<le> LZ_MAX_CODE then
        if code > LZ_MAX_CODE then Some NO_SUCH_CODE
        else (case aread 4096 prefix code of None \<Rightarrow> None | Some c \<Rightarrow> prefix_char prefix clear c (i + 1))
      else Some code)"
  by pat_completeness auto
termination
  by (relation "measure (\<lambda>(prefix, clear, code, i). nat (LZ_MAX_CODE + 1 - i))") auto

declare prefix_char.simps [simp del]

definition DGifGetPrefixChar :: "(int \<Rightarrow> int) \<Rightarrow> int \<Rightarrow> int \<Rightarrow> int option" where
  "DGifGetPrefixChar prefix code clear = prefix_char prefix clear code 0"

text \<open>\<open>while (StackPtr < LZ_MAX_CODE && CrntPrefix > ClearCode && CrntPrefix <= LZ_MAX_CODE)\<close>.\<close>

function trace_codes :: "(int \<Rightarrow> int) \<Rightarrow> (int \<Rightarrow> u8) \<Rightarrow> int \<Rightarrow> (int \<Rightarrow> u8) \<Rightarrow> int \<Rightarrow> int \<Rightarrow>
    ((int \<Rightarrow> u8) \<times> int \<times> int) option" where
  "trace_codes prefix suffix clear stack sp crnt =
     (if sp < LZ_MAX_CODE \<and> crnt > clear \<and> crnt \<le> LZ_MAX_CODE then
        (case aread 4096 suffix crnt of None \<Rightarrow> None | Some c \<Rightarrow>
         case awrite 4095 stack sp c of None \<Rightarrow> None | Some stack' \<Rightarrow>
         case aread 4096 prefix crnt of None \<Rightarrow> None | Some q \<Rightarrow>
           trace_codes prefix suffix clear stack' (sp + 1) q)
      else Some (stack, sp, crnt))"
  by pat_completeness auto
termination
  by (relation "measure (\<lambda>(prefix, suffix, clear, stack, sp, crnt). nat (LZ_MAX_CODE - sp))") auto

declare trace_codes.simps [simp del]

text \<open>\<open>while (StackPtr != 0 && i < LineLen) Line[i++] = Stack[--StackPtr];\<close> The pixels written to
  \<open>Line\<close> so far are the list \<open>line\<close>, so that \<open>i\<close> is its length.\<close>

function pop_stack :: "(int \<Rightarrow> u8) \<Rightarrow> int \<Rightarrow> int \<Rightarrow> u8 list \<Rightarrow> (int \<times> u8 list) option" where
  "pop_stack stack LineLen sp line =
     (if sp \<noteq> 0 \<and> int (length line) < LineLen then
        (case aread 4095 stack (sp - 1) of
           None \<Rightarrow> None
         | Some c \<Rightarrow> pop_stack stack LineLen (sp - 1) (line @ [c]))
      else Some (sp, line))"
  by pat_completeness auto
termination
  by (relation "measure (\<lambda>(stack, LineLen, sp, line). nat (LineLen - int (length line)))") auto

declare pop_stack.simps [simp del]

text \<open>A code that is not a pixel: its string is pushed and popped to the line.\<close>

definition expand_code :: "int \<Rightarrow> int \<Rightarrow> int \<Rightarrow> u8 list \<Rightarrow> int \<Rightarrow> dpriv \<Rightarrow>
    ((int \<times> u8 list) lz_result \<times> dpriv) option" where
  "expand_code code last_code LineLen line sp p =
     do { q \<leftarrow> aread 4096 (Prefix p) code;
          (crnt, sp1, p1) \<leftarrow>
            (if q = NO_SUCH_CODE then
               do { ch \<leftarrow> DGifGetPrefixChar (Prefix p) (if code = RunningCode p - 2 then last_code else code) (ClearCode p);
                    stack \<leftarrow> awrite 4095 (Stack p) sp (of_int ch);
                    suffix \<leftarrow> awrite 4096 (Suffix p) (RunningCode p - 2) (of_int ch);
                    Some (last_code, sp + 1, p\<lparr>Stack := stack, Suffix := suffix\<rparr>) }
             else Some (code, sp, p));
          (stack, sp2, crnt2) \<leftarrow> trace_codes (Prefix p1) (Suffix p1) (ClearCode p1) (Stack p1) sp1 crnt;
          let p2 = p1\<lparr>Stack := stack\<rparr>;
          if sp2 \<ge> LZ_MAX_CODE \<or> crnt2 > LZ_MAX_CODE then Some (LzFail (Some D_GIF_ERR_IMAGE_DEFECT), p2)
          else do { stack' \<leftarrow> awrite 4095 stack sp2 (of_int crnt2);
                    (sp3, line') \<leftarrow> pop_stack stack' LineLen (sp2 + 1) line;
                    Some (LzOk (sp3, line'), p2\<lparr>Stack := stack'\<rparr>) } }"

text \<open>The dictionary entry that the code before and this code make.\<close>

definition add_entry :: "int \<Rightarrow> int \<Rightarrow> dpriv \<Rightarrow> dpriv option" where
  "add_entry code last_code p =
     (if last_code \<noteq> NO_SUCH_CODE then
        do { q \<leftarrow> aread 4096 (Prefix p) (RunningCode p - 2);
             if q = NO_SUCH_CODE then
               do { prefix \<leftarrow> awrite 4096 (Prefix p) (RunningCode p - 2) last_code;
                    ch \<leftarrow> DGifGetPrefixChar prefix (if code = RunningCode p - 2 then last_code else code) (ClearCode p);
                    suffix \<leftarrow> awrite 4096 (Suffix p) (RunningCode p - 2) (of_int ch);
                    Some (p\<lparr>Prefix := prefix, Suffix := suffix\<rparr>) }
             else Some p }
      else Some p)"

text \<open>One turn of \<open>while (i < LineLen)\<close>: an error, or the line, \<open>LastCode\<close>, \<open>StackPtr\<close> and state.\<close>

definition decompress_turn :: "int \<Rightarrow> u8 list \<Rightarrow> int \<Rightarrow> int \<Rightarrow> dpriv \<Rightarrow>
    ((int option \<times> u8 list \<times> dpriv) + (u8 list \<times> int \<times> int \<times> dpriv)) option" where
  "decompress_turn LineLen line last_code sp p =
     do { (r, p1) \<leftarrow> DGifDecompressInput p;
          case r of
            LzFail e \<Rightarrow> Some (Inl (e, line, p1))
          | LzOk code \<Rightarrow>
              if code = EOFCode p1 then Some (Inl (Some D_GIF_ERR_EOF_TOO_SOON, line, p1))
              else if code = ClearCode p1 then
                Some (Inr (line, NO_SUCH_CODE, sp,
                  p1\<lparr>Prefix := (\<lambda>i. if 0 \<le> i \<and> i \<le> LZ_MAX_CODE then NO_SUCH_CODE else Prefix p1 i),
                     RunningCode := EOFCode p1 + 1, RunningBits := LZBitsPerPixel p1 + 1,
                     MaxCode1 := 2 ^ nat (LZBitsPerPixel p1 + 1), LastCode := NO_SUCH_CODE\<rparr>))
              else
                do { (r2, p2) \<leftarrow> (if code < ClearCode p1 then Some (LzOk (sp, line @ [of_int code]), p1)
                                  else expand_code code last_code LineLen line sp p1);
                     case r2 of
                       LzFail e \<Rightarrow> Some (Inl (e, line, p2))
                     | LzOk (sp', line') \<Rightarrow>
                         do { p3 \<leftarrow> add_entry code last_code p2;
                              Some (Inr (line', code, sp', p3)) } } }"

partial_function (option) decompress_loop :: "int \<Rightarrow> u8 list \<Rightarrow> int \<Rightarrow> int \<Rightarrow> dpriv \<Rightarrow>
    ((int option \<times> u8 list \<times> dpriv) + (u8 list \<times> int \<times> int \<times> dpriv)) option" where
  "decompress_loop LineLen line last_code sp p =
     (if int (length line) < LineLen then
        (case decompress_turn LineLen line last_code sp p of
           None \<Rightarrow> None
         | Some (Inl x) \<Rightarrow> Some (Inl x)
         | Some (Inr (line', last', sp', p')) \<Rightarrow> decompress_loop LineLen line' last' sp' p')
      else Some (Inr (line, last_code, sp, p)))"

declare decompress_loop.simps [code]

text \<open>The status, the pixels written to \<open>Line\<close> and the state.\<close>

definition DGifDecompressLine :: "int \<Rightarrow> dpriv \<Rightarrow> (unit lz_result \<times> u8 list \<times> dpriv) option" where
  "DGifDecompressLine LineLen p =
     (if StackPtr p > LZ_MAX_CODE then Some (LzFail None, [], p)
      else do { (sp, line) \<leftarrow> (if StackPtr p \<noteq> 0 then pop_stack (Stack p) LineLen (StackPtr p) [] else Some (StackPtr p, []));
                r \<leftarrow> decompress_loop LineLen line (LastCode p) sp p;
                case r of
                  Inl (e, line', p') \<Rightarrow> Some (LzFail e, line', p')
                | Inr (line', last', sp', p') \<Rightarrow>
                    Some (LzOk (), line', p'\<lparr>LastCode := last', StackPtr := sp'\<rparr>) })"

lemma DGifGetCodeNext_shorter:
  "DGifGetCodeNext p = Some (LzOk b, p') \<Longrightarrow> length (input p') < length (input p)"
  by (cases "input p") (auto simp: DGifGetCodeNext_def READ_def bind_eq_Some_conv Let_def split: if_splits)

text \<open>The rest of the image data is skipped: \<open>do DGifGetCodeNext while (Dummy != NULL)\<close>.\<close>

function skip_blocks :: "dpriv \<Rightarrow> (unit lz_result \<times> dpriv) option" where
  "skip_blocks p =
     (case DGifGetCodeNext p of
        None \<Rightarrow> None
      | Some (LzFail e, p') \<Rightarrow> Some (LzFail e, p')
      | Some (LzOk None, p') \<Rightarrow> Some (LzOk (), p')
      | Some (LzOk (Some _), p') \<Rightarrow> skip_blocks p')"
  by pat_completeness auto
termination
  by (relation "measure (\<lambda>p. length (input p))") (auto dest: DGifGetCodeNext_shorter)

declare skip_blocks.simps [simp del]

text \<open>\<open>width\<close> is \<open>GifFile->Image.Width\<close>, the length used when \<open>LineLen\<close> is zero.\<close>

definition DGifGetLine :: "int \<Rightarrow> int \<Rightarrow> dpriv \<Rightarrow> (unit lz_result \<times> u8 list \<times> dpriv) option" where
  "DGifGetLine width LineLen0 p =
     (if \<not> IS_READABLE p then Some (LzFail (Some D_GIF_ERR_NOT_READABLE), [], p)
      else
        let LineLen = (if LineLen0 = 0 then width else LineLen0);
            p1 = p\<lparr>PixelCount := PixelCount p - of_int LineLen\<rparr>
        in if PixelCount p1 > 0xffff0000 then Some (LzFail (Some D_GIF_ERR_DATA_TOO_BIG), [], p1)
           else do { (r, line, p2) \<leftarrow> DGifDecompressLine LineLen p1;
                     case r of
                       LzFail e \<Rightarrow> Some (LzFail e, line, p2)
                     | LzOk _ \<Rightarrow>
                         if PixelCount p2 = 0
                         then do { (r', p3) \<leftarrow> skip_blocks p2; Some (r', line, p3) }
                         else Some (LzOk (), line, p2) })"

text \<open>The pixel is decoded into the routine's own copy of its argument.\<close>

definition DGifGetPixel :: "dpriv \<Rightarrow> (unit lz_result \<times> dpriv) option" where
  "DGifGetPixel p =
     (if \<not> IS_READABLE p then Some (LzFail (Some D_GIF_ERR_NOT_READABLE), p)
      else
        let p1 = p\<lparr>PixelCount := PixelCount p - 1\<rparr>
        in if PixelCount p1 > 0xffff0000 then Some (LzFail (Some D_GIF_ERR_DATA_TOO_BIG), p1)
           else do { (r, _, p2) \<leftarrow> DGifDecompressLine 1 p1;
                     case r of
                       LzFail e \<Rightarrow> Some (LzFail e, p2)
                     | LzOk _ \<Rightarrow> if PixelCount p2 = 0 then skip_blocks p2 else Some (LzOk (), p2) })"

text \<open>Direct access to the codes; \<open>-1\<close> is the end of the image.\<close>

definition DGifGetLZCodes :: "dpriv \<Rightarrow> (int lz_result \<times> dpriv) option" where
  "DGifGetLZCodes p =
     (if \<not> IS_READABLE p then Some (LzFail (Some D_GIF_ERR_NOT_READABLE), p)
      else do { (r, p1) \<leftarrow> DGifDecompressInput p;
                case r of
                  LzFail e \<Rightarrow> Some (LzFail e, p1)
                | LzOk code \<Rightarrow>
                    if code = EOFCode p1 then
                      do { (r', p2) \<leftarrow> skip_blocks p1;
                           Some (case r' of LzFail e \<Rightarrow> LzFail e | LzOk _ \<Rightarrow> LzOk (- 1), p2) }
                    else if code = ClearCode p1 then
                      Some (LzOk code, p1\<lparr>RunningCode := EOFCode p1 + 1, RunningBits := LZBitsPerPixel p1 + 1,
                                          MaxCode1 := 2 ^ nat (LZBitsPerPixel p1 + 1)\<rparr>)
                    else Some (LzOk code, p1) })"

section \<open>Extensions and graphics control\<close>

definition DGifGetExtensionNext :: "dpriv \<Rightarrow> (u8 list option lz_result \<times> dpriv) option" where
  "DGifGetExtensionNext p =
     (case READ 1 p of
        ([], p1) \<Rightarrow> Some (LzFail (Some D_GIF_ERR_READ_FAILED), p1)
      | (b # _, p1) \<Rightarrow>
          if b > 0 then
            do { buf0 \<leftarrow> awrite 256 (Buf p1) 0 b;
                 let (bs, p2) = READ (unat b) p1;
                 buf \<leftarrow> put_bytes 256 buf0 1 bs;
                 Some (if length bs \<noteq> unat b then LzFail (Some D_GIF_ERR_READ_FAILED) else LzOk (Some bs),
                       p2\<lparr>Buf := buf\<rparr>) }
          else Some (LzOk None, p1))"

definition DGifGetExtension :: "dpriv \<Rightarrow> ((int \<times> u8 list option) lz_result \<times> dpriv) option" where
  "DGifGetExtension p =
     (if \<not> IS_READABLE p then Some (LzFail (Some D_GIF_ERR_NOT_READABLE), p)
      else case READ 1 p of
        ([], p1) \<Rightarrow> Some (LzFail (Some D_GIF_ERR_READ_FAILED), p1)
      | (b # _, p1) \<Rightarrow>
          do { (r, p2) \<leftarrow> DGifGetExtensionNext p1;
               Some (case r of LzFail e \<Rightarrow> LzFail e | LzOk x \<Rightarrow> LzOk (uint b, x), p2) })"

text \<open>\<open>None\<close> inside the outer result stands for \<open>GIF_ERROR\<close>.\<close>

definition DGifExtensionToGCB :: "int \<Rightarrow> u8 list \<Rightarrow> GraphicsControlBlock option option" where
  "DGifExtensionToGCB len ext =
     (if len \<noteq> 4 then Some None
      else do { e0 \<leftarrow> lread ext 0; e1 \<leftarrow> lread ext 1; e2 \<leftarrow> lread ext 2;
                tc \<leftarrow> (if e0 AND 0x01 \<noteq> 0 then do { e3 \<leftarrow> lread ext 3; Some (uint e3) } else Some NO_TRANSPARENT_COLOR);
                Some (Some \<lparr>DisposalMode = uint (drop_bit 2 e0 AND 0x07), UserInputFlag = (e0 AND 0x02 \<noteq> 0),
                            DelayTime = uint (of_le16 e1 e2), TransparentColor = tc\<rparr>) })"

fun find_gcb :: "ExtensionBlock list \<Rightarrow> GraphicsControlBlock option option" where
  "find_gcb [] = Some None"
| "find_gcb (e # es) =
     (if Function e = GRAPHICS_EXT_FUNC_CODE
      then do { bs \<leftarrow> (if ByteCount e = 4 then Bytes e else Some []); DGifExtensionToGCB (ByteCount e) bs }
      else find_gcb es)"

definition DGifSavedExtensionToGCB :: "'a images_scheme \<Rightarrow> int \<Rightarrow> GraphicsControlBlock option option" where
  "DGifSavedExtensionToGCB g i =
     (if i < 0 \<or> i > ImageCount g - 1 then Some None
      else do { imgs \<leftarrow> SavedImages g;
                img \<leftarrow> lread imgs i;
                case ExtensionBlocks img of
                  None \<Rightarrow> if ExtensionBlockCount img \<le> 0 then Some None else None
                | Some es \<Rightarrow> if nat (ExtensionBlockCount img) \<le> length es
                             then find_gcb (take (nat (ExtensionBlockCount img)) es) else None })"

section \<open>The decoder stays inside its arrays and ends\<close>

text \<open>
  What holds of the private state between calls, for every input.  \<open>budget\<close> bounds the bits that
  can still be read; each code takes at least one of them.
\<close>

definition lz_inv :: "dpriv \<Rightarrow> bool" where
  "lz_inv p \<longleftrightarrow> 0 \<le> LZBitsPerPixel p \<and> LZBitsPerPixel p \<le> 8 \<and> ClearCode p = 2 ^ nat (LZBitsPerPixel p) \<and>
     EOFCode p = ClearCode p + 1 \<and> ClearCode p + 2 \<le> RunningCode p \<and> RunningCode p \<le> LZ_MAX_CODE + 2 \<and>
     1 \<le> RunningBits p \<and> RunningBits p \<le> LZ_BITS \<and> 0 \<le> CrntShiftState p \<and>
     0 \<le> StackPtr p \<and> StackPtr p \<le> LZ_MAX_CODE \<and> 0 \<le> LastCode p \<and> LastCode p \<le> NO_SUCH_CODE \<and>
     (\<forall>i. 0 \<le> i \<and> i \<le> LZ_MAX_CODE \<longrightarrow> 0 \<le> Prefix p i \<and> Prefix p i \<le> NO_SUCH_CODE)"

definition budget :: "dpriv \<Rightarrow> nat" where
  "budget p = 8 * (length (input p) + unat (Buf p 0)) + nat (CrntShiftState p)"

lemmas lz_consts = LZ_MAX_CODE_def LZ_BITS_def NO_SUCH_CODE_def

lemma ClearCode_bounds: "lz_inv p \<Longrightarrow> 1 \<le> ClearCode p \<and> ClearCode p \<le> 256 \<and> 3 \<le> RunningCode p \<and> RunningCode p \<le> 4097"
proof -
  assume p: "lz_inv p"
  have "(2::int) ^ nat (LZBitsPerPixel p) \<le> 2 ^ 8" by (rule power_increasing) (use p in \<open>auto simp: lz_inv_def\<close>)
  moreover have "(1::int) \<le> 2 ^ nat (LZBitsPerPixel p)" by simp
  moreover have "ClearCode p = 2 ^ nat (LZBitsPerPixel p)" "ClearCode p + 2 \<le> RunningCode p" "RunningCode p \<le> 4097"
    using p unfolding lz_inv_def LZ_MAX_CODE_def by simp_all
  ultimately show ?thesis by (intro conjI; linarith?) simp
qed

lemma lz_inv_prefix: "lz_inv p \<Longrightarrow> 0 \<le> i \<Longrightarrow> i \<le> LZ_MAX_CODE \<Longrightarrow> 0 \<le> Prefix p i \<and> Prefix p i \<le> NO_SUCH_CODE"
  unfolding lz_inv_def by blast

lemma put_bytes_total: "0 \<le> i \<Longrightarrow> i + int (length bs) \<le> n \<Longrightarrow> \<exists>b. put_bytes n a i bs = Some b"
  by (simp add: put_bytes_def)

lemma unat_u8: "unat (b :: u8) < 256"
proof -
  have "uint b < 256" using uint_lt2p [of b] by simp
  then have "int (unat b) < 256" by simp
  then show ?thesis by linarith
qed

lemma unat_dec: "b \<noteq> 0 \<Longrightarrow> unat (b - 1 :: u8) = unat b - 1"
  by (simp add: unat_minus_one)

text \<open>One byte from the sub-blocks.\<close>

lemma DGifBufferedInput_total:
  "\<exists>r p'. DGifBufferedInput p = Some (r, p') \<and> p' = p\<lparr>Buf := Buf p', input := input p'\<rparr> \<and>
    (\<forall>b. r = LzOk b \<longrightarrow> length (input p') + unat (Buf p' 0) < length (input p) + unat (Buf p 0))"
proof (cases "Buf p 0 = 0")
  case False
  have "0 < unat (Buf p 0)" using False by (simp add: unat_gt_0)
  with False have "\<exists>r p'. DGifBufferedInput p = Some (r, p') \<and> (\<forall>b. r = LzOk b \<longrightarrow>
      length (input p') + unat (Buf p' 0) < length (input p) + unat (Buf p 0))"
    using uint_lt2p [of "Buf p 1"] by (simp add: DGifBufferedInput_def unat_dec)
  with DGifBufferedInput_frame show ?thesis by blast
next
  case True
  have "\<exists>r p'. DGifBufferedInput p = Some (r, p') \<and> (\<forall>b. r = LzOk b \<longrightarrow>
      length (input p') + unat (Buf p' 0) < length (input p) + unat (Buf p 0))"
  proof (cases "input p")
    case Nil
    with True show ?thesis by (simp add: DGifBufferedInput_def READ_def)
  next
    case (Cons c cs)
    have "int (length (take (unat c) cs)) \<le> 255" using unat_u8 [of c] by simp
    then obtain buf where buf: "put_bytes 256 ((Buf p)(0 := c)) 1 (take (unat c) cs) = Some buf"
      using put_bytes_total [of 1 "take (unat c) cs" 256] by fastforce
    show ?thesis
    proof (cases "c = 0")
      case False
      then have "0 < unat c" by (simp add: unat_gt_0)
      with True Cons buf False show ?thesis
        by (auto simp: DGifBufferedInput_def READ_def Let_def unat_dec)
    qed (use True Cons in \<open>simp add: DGifBufferedInput_def READ_def\<close>)
  qed
  with DGifBufferedInput_frame show ?thesis by blast
qed

definition same_lz :: "dpriv \<Rightarrow> dpriv \<Rightarrow> bool" where
  "same_lz p p' \<longleftrightarrow> p' = p\<lparr>Buf := Buf p', input := input p', CrntShiftDWord := CrntShiftDWord p', CrntShiftState := CrntShiftState p'\<rparr>"

lemma same_lz_fields:
  assumes "same_lz p p'"
  shows "LZBitsPerPixel p' = LZBitsPerPixel p" "ClearCode p' = ClearCode p" "EOFCode p' = EOFCode p"
    "RunningCode p' = RunningCode p" "RunningBits p' = RunningBits p" "MaxCode1 p' = MaxCode1 p"
    "StackPtr p' = StackPtr p" "LastCode p' = LastCode p" "Prefix p' = Prefix p" "Suffix p' = Suffix p"
    "Stack p' = Stack p" "PixelCount p' = PixelCount p" "FileState p' = FileState p"
  using assms unfolding same_lz_def by (cases p; cases p'; simp)+

lemma same_lz_trans: "same_lz p q \<Longrightarrow> same_lz q r \<Longrightarrow> same_lz p r"
  unfolding same_lz_def by (cases p; cases q; cases r; simp)

lemma fill_bits_total:
  "RunningBits p \<le> LZ_BITS \<Longrightarrow> 0 \<le> CrntShiftState p \<Longrightarrow>
   \<exists>r p'. fill_bits p = Some (r, p') \<and> same_lz p p' \<and> 0 \<le> CrntShiftState p' \<and>
     (r = LzOk () \<longrightarrow> RunningBits p \<le> CrntShiftState p' \<and> budget p' \<le> budget p)"
proof (induction p rule: fill_bits.induct)
  case (1 p)
  show ?case
  proof (cases "CrntShiftState p < RunningBits p")
    case False
    then show ?thesis using "1.prems" by (subst fill_bits.simps) (auto simp: same_lz_def)
  next
    case True
    obtain r p1 where b: "DGifBufferedInput p = Some (r, p1)" "p1 = p\<lparr>Buf := Buf p1, input := input p1\<rparr>"
      "\<And>b. r = LzOk b \<Longrightarrow> length (input p1) + unat (Buf p1 0) < length (input p) + unat (Buf p 0)"
      using DGifBufferedInput_total [of p] by blast
    have f: "RunningBits p1 = RunningBits p" "CrntShiftState p1 = CrntShiftState p"
      using DGifBufferedInput_fields [OF b(1)] by auto
    have same1: "same_lz p p1" using b(2) unfolding same_lz_def by (cases p; cases p1; simp)
    show ?thesis
    proof (cases r)
      case (LzFail e)
      then show ?thesis
        using True b(1) same1 f "1.prems" by (subst fill_bits.simps) auto
    next
      case (LzOk c)
      let ?p2 = "p1\<lparr>CrntShiftDWord := CrntShiftDWord p1 OR push_bit (nat (CrntShiftState p1)) (ucast c),
                                CrntShiftState := CrntShiftState p1 + 8\<rparr>"
      have lim: "0 \<le> CrntShiftState p1 \<and> CrntShiftState p1 < 32" using f True "1.prems" by (simp add: lz_consts)
      have ok: "DGifBufferedInput p = Some (LzOk c, p1)" using b(1) LzOk by simp
      from "1.IH" [OF True ok refl refl lim] f "1.prems"
      obtain r' p' where r': "fill_bits ?p2 = Some (r', p')" "same_lz ?p2 p'" "0 \<le> CrntShiftState p'"
        "r' = LzOk () \<longrightarrow> RunningBits p \<le> CrntShiftState p' \<and> budget p' \<le> budget ?p2" by auto
      have "same_lz p ?p2" using same1 unfolding same_lz_def by (cases p; cases p1; simp)
      then have "same_lz p p'" using r'(2) by (rule same_lz_trans)
      moreover have "budget ?p2 \<le> budget p"
        using b(3) [OF LzOk] f(2) "1.prems"(2) by (simp add: budget_def nat_add_distrib)
      moreover have "fill_bits p = Some (r', p')"
        using True ok lim r'(1) by (subst fill_bits.simps) simp
      ultimately show ?thesis using r' by auto
    qed
  qed
qed

lemma CodeMasks_nth: "0 \<le> i \<Longrightarrow> i \<le> 12 \<Longrightarrow> lread CodeMasks i = Some (mask (nat i))"
proof -
  assume i: "0 \<le> i" "i \<le> 12"
  have len: "length CodeMasks = 13" by (simp add: CodeMasks_def)
  have "nat i \<in> set [0..<13]" using i by simp
  then have "CodeMasks ! nat i = mask (nat i)"
    by (simp add: upt_rec [of _ "numeral n" for n] upt_rec CodeMasks_def mask_eq_exp_minus_1) auto
  with i len show ?thesis by simp
qed

lemma DGifDecompressInput_total:
  assumes inv: "lz_inv p"
  shows "\<exists>r p'. DGifDecompressInput p = Some (r, p') \<and> lz_inv p' \<and> StackPtr p' = StackPtr p \<and> LastCode p' = LastCode p \<and>
     Prefix p' = Prefix p \<and> ClearCode p' = ClearCode p \<and> EOFCode p' = EOFCode p \<and>
     (\<forall>code. r = LzOk code \<longrightarrow> 0 \<le> code \<and> code \<le> LZ_MAX_CODE \<and> budget p' < budget p)"
proof -
  have bits: "1 \<le> RunningBits p" "RunningBits p \<le> LZ_BITS" "0 \<le> CrntShiftState p" using inv by (auto simp: lz_inv_def)
  from fill_bits_total [OF bits(2,3)] obtain r p1 where f: "fill_bits p = Some (r, p1)" "same_lz p p1" "0 \<le> CrntShiftState p1"
    "r = LzOk () \<longrightarrow> RunningBits p \<le> CrntShiftState p1 \<and> budget p1 \<le> budget p" by blast
  note s = same_lz_fields [OF f(2)]
  have inv1: "lz_inv p1" using inv f(3) by (simp add: lz_inv_def s)
  show ?thesis
  proof (cases r)
    case (LzFail e)
    with f(1) bits inv1 s show ?thesis by (simp add: DGifDecompressInput_def)
  next
    case (LzOk u)
    let ?m = "mask (nat (RunningBits p)) :: u32"
    have m: "lread CodeMasks (RunningBits p1) = Some ?m"
      using CodeMasks_nth [of "RunningBits p"] bits s by (simp add: lz_consts)
    define code where "code = uint (CrntShiftDWord p1 AND ?m)"
    have "nat (RunningBits p) \<le> 12" using bits by (simp add: lz_consts)
    then have "(2::int) ^ nat (RunningBits p) \<le> 2 ^ 12" by (intro power_increasing) auto
    moreover have "code < 2 ^ nat (RunningBits p)"
      by (simp add: code_def take_bit_eq_mask [symmetric] unsigned_take_bit_eq)
    ultimately have code: "0 \<le> code" "code \<le> LZ_MAX_CODE" by (auto simp: code_def lz_consts)
    define p2 where "p2 = p1\<lparr>CrntShiftDWord := drop_bit (nat (RunningBits p1)) (CrntShiftDWord p1),
                             CrntShiftState := CrntShiftState p1 - RunningBits p1\<rparr>"
    define p3 where "p3 = (if RunningCode p2 < LZ_MAX_CODE + 2 then
                             let p' = p2\<lparr>RunningCode := RunningCode p2 + 1\<rparr> in
                             if RunningCode p' > MaxCode1 p' \<and> RunningBits p' < LZ_BITS
                             then p'\<lparr>MaxCode1 := MaxCode1 p' * 2, RunningBits := RunningBits p' + 1\<rparr> else p'
                           else p2)"
    have run: "DGifDecompressInput p = Some (LzOk code, p3)"
      using bits f(1) LzOk m by (simp add: DGifDecompressInput_def code_def p2_def p3_def Let_def s)
    have rb: "RunningBits p \<le> CrntShiftState p1" "budget p1 \<le> budget p" using f(4) LzOk by auto
    have inv2: "lz_inv p2" using inv1 rb(1) by (simp add: lz_inv_def p2_def s)
    have inv3: "lz_inv p3" using inv2 by (auto simp: lz_inv_def p3_def Let_def)
    have "budget p3 = budget p2" by (simp add: p3_def budget_def Let_def)
    also have "budget p2 < budget p1"
      using rb(1) bits f(3) by (simp add: p2_def budget_def s)
    finally have "budget p3 < budget p" using rb(2) by simp
    with run inv3 code s show ?thesis
      by (auto simp: p3_def p2_def Let_def)
  qed
qed

lemma prefix_char_total:
  assumes "\<And>i. 0 \<le> i \<Longrightarrow> i \<le> LZ_MAX_CODE \<Longrightarrow> 0 \<le> prefix i \<and> prefix i \<le> NO_SUCH_CODE" "0 \<le> clear" "0 \<le> code" "code \<le> NO_SUCH_CODE"
  shows "\<exists>c. prefix_char prefix clear code i = Some c \<and> 0 \<le> c \<and> c \<le> NO_SUCH_CODE"
  using assms
proof (induction prefix clear code i rule: prefix_char.induct)
  case (1 prefix clear code i)
  show ?case
  proof (cases "code > clear \<and> i \<le> LZ_MAX_CODE \<and> code \<le> LZ_MAX_CODE")
    case True
    then have a: "aread 4096 prefix code = Some (prefix code)" using "1.prems" by (simp add: lz_consts)
    with "1.IH" [OF _ _ a] True "1.prems" show ?thesis by (subst prefix_char.simps) auto
  next
    case False
    then show ?thesis using "1.prems" by (subst prefix_char.simps) (auto simp: lz_consts)
  qed
qed

lemma trace_codes_total:
  assumes "\<And>i. 0 \<le> i \<Longrightarrow> i \<le> LZ_MAX_CODE \<Longrightarrow> 0 \<le> prefix i \<and> prefix i \<le> NO_SUCH_CODE" "0 \<le> clear" "0 \<le> crnt"
    "crnt \<le> NO_SUCH_CODE" "0 \<le> sp" "sp \<le> LZ_MAX_CODE"
  shows "\<exists>stack' sp' crnt'. trace_codes prefix suffix clear stack sp crnt = Some (stack', sp', crnt') \<and>
     sp \<le> sp' \<and> sp' \<le> LZ_MAX_CODE \<and> 0 \<le> crnt' \<and> crnt' \<le> NO_SUCH_CODE"
  using assms
proof (induction prefix suffix clear stack sp crnt rule: trace_codes.induct)
  case (1 prefix suffix clear stack sp crnt)
  show ?case
  proof (cases "sp < LZ_MAX_CODE \<and> crnt > clear \<and> crnt \<le> LZ_MAX_CODE")
    case True
    then have a: "aread 4096 suffix crnt = Some (suffix crnt)" "awrite 4095 stack sp (suffix crnt) = Some (stack(sp := suffix crnt))"
      "aread 4096 prefix crnt = Some (prefix crnt)" using "1.prems" by (simp_all add: lz_consts)
    have "0 \<le> prefix crnt \<and> prefix crnt \<le> NO_SUCH_CODE" using "1.prems"(1) True "1.prems"(2) by simp
    with "1.IH" [OF True a] True "1.prems" a show ?thesis by (subst trace_codes.simps) fastforce
  next
    case False
    then show ?thesis using "1.prems" by (subst trace_codes.simps) auto
  qed
qed

lemma pop_stack_total:
  assumes "0 \<le> sp" "sp \<le> LZ_MAX_CODE" "int (length line) \<le> max n (int (length line))"
  shows "\<exists>sp' out. pop_stack stack n sp line = Some (sp', line @ out) \<and> 0 \<le> sp' \<and> sp' \<le> sp \<and>
     (sp' = 0 \<or> n \<le> int (length (line @ out))) \<and> (int (length line) \<le> n \<longrightarrow> int (length (line @ out)) \<le> n)"
  using assms
proof (induction stack n sp line rule: pop_stack.induct)
  case (1 stack n sp line)
  show ?case
  proof (cases "sp \<noteq> 0 \<and> int (length line) < n")
    case True
    then have a: "aread 4095 stack (sp - 1) = Some (stack (sp - 1))" using "1.prems" by (simp add: lz_consts)
    from "1.IH" [OF True a] True "1.prems" obtain sp' out where
      "pop_stack stack n (sp - 1) (line @ [stack (sp - 1)]) = Some (sp', (line @ [stack (sp - 1)]) @ out)"
      "0 \<le> sp'" "sp' \<le> sp - 1" "sp' = 0 \<or> n \<le> int (length ((line @ [stack (sp - 1)]) @ out))"
      "int (length ((line @ [stack (sp - 1)]) @ out)) \<le> n" by auto
    with True a show ?thesis by (subst pop_stack.simps) (auto intro!: exI [of _ "stack (sp - 1) # out"])
  next
    case False
    then show ?thesis using "1.prems" by (subst pop_stack.simps) auto
  qed
qed

text \<open>The routines below change only the dictionary and the stack.\<close>

definition same_reader :: "dpriv \<Rightarrow> dpriv \<Rightarrow> bool" where
  "same_reader p p' \<longleftrightarrow> p' = p\<lparr>Stack := Stack p', Suffix := Suffix p', Prefix := Prefix p'\<rparr>"

lemma same_reader_fields:
  assumes "same_reader p p'"
  shows "LZBitsPerPixel p' = LZBitsPerPixel p" "ClearCode p' = ClearCode p" "EOFCode p' = EOFCode p"
    "RunningCode p' = RunningCode p" "RunningBits p' = RunningBits p" "StackPtr p' = StackPtr p"
    "LastCode p' = LastCode p" "CrntShiftState p' = CrntShiftState p" "Buf p' = Buf p" "input p' = input p"
  using assms unfolding same_reader_def by (cases p; cases p'; simp)+

lemma same_reader_trans: "same_reader p q \<Longrightarrow> same_reader q r \<Longrightarrow> same_reader p r"
  unfolding same_reader_def by (cases p; cases q; cases r; simp)

lemma same_reader_inv:
  assumes "lz_inv p" "same_reader p p'" "\<And>i. 0 \<le> i \<Longrightarrow> i \<le> LZ_MAX_CODE \<Longrightarrow> 0 \<le> Prefix p' i \<and> Prefix p' i \<le> NO_SUCH_CODE"
  shows "lz_inv p'" "budget p' = budget p"
  using assms same_reader_fields [OF assms(2)] by (simp_all add: lz_inv_def budget_def)

lemma expand_code_total:
  assumes inv: "lz_inv p" and code: "0 \<le> code" "code \<le> LZ_MAX_CODE" and last: "0 \<le> last_code" "last_code \<le> NO_SUCH_CODE"
    and line: "int (length line) \<le> n"
  shows "\<exists>r p'. expand_code code last_code n line 0 p = Some (r, p') \<and> lz_inv p' \<and> same_reader p p' \<and>
     (\<forall>sp' line'. r = LzOk (sp', line') \<longrightarrow> 0 \<le> sp' \<and> sp' \<le> LZ_MAX_CODE \<and> int (length line') \<le> n \<and>
        (int (length line') < n \<longrightarrow> sp' = 0))"
proof -
  note clear = ClearCode_bounds [OF inv]
  have pre: "\<And>i. 0 \<le> i \<Longrightarrow> i \<le> LZ_MAX_CODE \<Longrightarrow> 0 \<le> Prefix p i \<and> Prefix p i \<le> NO_SUCH_CODE"
    and run: "2 \<le> RunningCode p" "RunningCode p \<le> LZ_MAX_CODE + 2"
    using lz_inv_prefix [OF inv] clear by (auto simp: LZ_MAX_CODE_def)
  have q: "aread 4096 (Prefix p) code = Some (Prefix p code)" using code by (simp add: lz_consts)
  have clear0: "0 \<le> ClearCode p" using clear by simp
  obtain crnt sp1 p1 where p1: "(if Prefix p code = NO_SUCH_CODE then
               do { ch \<leftarrow> DGifGetPrefixChar (Prefix p) (if code = RunningCode p - 2 then last_code else code) (ClearCode p);
                    stack \<leftarrow> awrite 4095 (Stack p) 0 (of_int ch);
                    suffix \<leftarrow> awrite 4096 (Suffix p) (RunningCode p - 2) (of_int ch);
                    Some (last_code, 0 + 1 :: int, p\<lparr>Stack := stack, Suffix := suffix\<rparr>) }
             else Some (code, 0, p)) = Some (crnt, sp1, p1)"
    "0 \<le> crnt" "crnt \<le> NO_SUCH_CODE" "0 \<le> sp1" "sp1 \<le> 1" "same_reader p p1" "Prefix p1 = Prefix p"
  proof (cases "Prefix p code = NO_SUCH_CODE")
    case False
    with code show ?thesis by (intro that [of code 0 p]) (auto simp: lz_consts same_reader_def)
  next
    case True
    let ?c = "if code = RunningCode p - 2 then last_code else code"
    have c: "0 \<le> ?c" "?c \<le> NO_SUCH_CODE" using code last by (auto simp: lz_consts)
    obtain ch where ch: "DGifGetPrefixChar (Prefix p) ?c (ClearCode p) = Some ch"
      using prefix_char_total [of "Prefix p" "ClearCode p" ?c 0, OF pre clear0 c] by (auto simp: DGifGetPrefixChar_def)
    show ?thesis
      by (rule that [of last_code 1 "p\<lparr>Stack := (Stack p)(0 := of_int ch), Suffix := (Suffix p)(RunningCode p - 2 := of_int ch)\<rparr>"])
         (use True ch run last in \<open>auto simp: lz_consts same_reader_def\<close>)
  qed
  note s1 = same_reader_fields [OF p1(6)]
  have inv1: "lz_inv p1" by (rule same_reader_inv [OF inv p1(6)]) (use pre p1(7) in auto)
  obtain stack sp2 crnt2 where t: "trace_codes (Prefix p1) (Suffix p1) (ClearCode p1) (Stack p1) sp1 crnt = Some (stack, sp2, crnt2)"
    "sp1 \<le> sp2" "sp2 \<le> LZ_MAX_CODE" "0 \<le> crnt2" "crnt2 \<le> NO_SUCH_CODE"
    using trace_codes_total [of "Prefix p1" "ClearCode p1" crnt sp1 "Suffix p1" "Stack p1"] pre p1 s1 clear0
    by (auto simp: lz_consts)
  let ?p2 = "p1\<lparr>Stack := stack\<rparr>"
  have p2: "same_reader p ?p2" "lz_inv ?p2"
  proof -
    show 1: "same_reader p ?p2"
      by (rule same_reader_trans [OF p1(6)]) (cases p1; simp add: same_reader_def)
    show "lz_inv ?p2" by (rule same_reader_inv [OF inv 1]) (use pre p1(7) in auto)
  qed
  show ?thesis
  proof (cases "sp2 \<ge> LZ_MAX_CODE \<or> crnt2 > LZ_MAX_CODE")
    case True
    then show ?thesis using q p1(1) t(1) p2 by (auto simp: expand_code_def Let_def)
  next
    case False
    let ?stack = "stack(sp2 := of_int crnt2)"
    have w: "awrite 4095 stack sp2 (of_int crnt2) = Some ?stack" using False p1(4) t(2) by (simp add: lz_consts)
    obtain sp3 out where pop: "pop_stack ?stack n (sp2 + 1) line = Some (sp3, line @ out)" "0 \<le> sp3" "sp3 \<le> sp2 + 1"
      "sp3 = 0 \<or> n \<le> int (length (line @ out))" "int (length (line @ out)) \<le> n"
      using pop_stack_total [of "sp2 + 1" line n ?stack] False p1(4) t(2) line by (auto simp: lz_consts)
    let ?p3 = "p1\<lparr>Stack := ?stack\<rparr>"
    have 3: "same_reader p ?p3"
      by (rule same_reader_trans [OF p1(6)]) (cases p1; simp add: same_reader_def)
    have "lz_inv ?p3" by (rule same_reader_inv [OF inv 3]) (use pre p1(7) in auto)
    with 3 q p1(1) t(1) False w pop show ?thesis by (auto simp: expand_code_def Let_def)
  qed
qed

lemma add_entry_total:
  assumes inv: "lz_inv p" and code: "0 \<le> code" "code \<le> LZ_MAX_CODE" and last: "0 \<le> last_code" "last_code \<le> NO_SUCH_CODE"
  shows "\<exists>p'. add_entry code last_code p = Some p' \<and> lz_inv p' \<and> same_reader p p'"
proof -
  note clear = ClearCode_bounds [OF inv]
  let ?k = "RunningCode p - 2"
  have pre: "\<And>i. 0 \<le> i \<Longrightarrow> i \<le> LZ_MAX_CODE \<Longrightarrow> 0 \<le> Prefix p i \<and> Prefix p i \<le> NO_SUCH_CODE"
    and run: "0 \<le> ?k" "?k < 4096" using lz_inv_prefix [OF inv] clear by auto
  show ?thesis
  proof (cases "last_code \<noteq> NO_SUCH_CODE \<and> Prefix p ?k = NO_SUCH_CODE")
    case False
    then show ?thesis using inv run by (auto simp: add_entry_def same_reader_def)
  next
    case True
    let ?prefix = "(Prefix p)(?k := last_code)"
    have pre': "\<And>i. 0 \<le> i \<Longrightarrow> i \<le> LZ_MAX_CODE \<Longrightarrow> 0 \<le> ?prefix i \<and> ?prefix i \<le> NO_SUCH_CODE" using pre last by simp
    let ?c = "if code = ?k then last_code else code"
    have c: "0 \<le> ?c" "?c \<le> NO_SUCH_CODE" using code last by (auto simp: lz_consts)
    have "0 \<le> ClearCode p" using clear by simp
    from prefix_char_total [of ?prefix "ClearCode p" ?c 0, OF pre' this c]
    obtain ch where ch: "DGifGetPrefixChar ?prefix ?c (ClearCode p) = Some ch" by (auto simp: DGifGetPrefixChar_def)
    let ?p' = "p\<lparr>Prefix := ?prefix, Suffix := (Suffix p)(?k := of_int ch)\<rparr>"
    have s: "same_reader p ?p'" by (cases p) (simp add: same_reader_def)
    have "lz_inv ?p'" by (rule same_reader_inv [OF inv s]) (use pre' in auto)
    with s True run ch show ?thesis by (auto simp: add_entry_def)
  qed
qed

definition turn_ok :: "int \<Rightarrow> u8 list \<Rightarrow> int \<Rightarrow> int \<Rightarrow> dpriv \<Rightarrow> bool" where
  "turn_ok n line last_code sp p \<longleftrightarrow> lz_inv p \<and> 0 \<le> last_code \<and> last_code \<le> NO_SUCH_CODE \<and>
     0 \<le> sp \<and> sp \<le> LZ_MAX_CODE \<and> (int (length line) < n \<longrightarrow> sp = 0)"

lemma clear_code_inv:
  assumes "lz_inv p"
  shows "lz_inv (p\<lparr>Prefix := (\<lambda>i. if 0 \<le> i \<and> i \<le> LZ_MAX_CODE then NO_SUCH_CODE else Prefix p i),
                     RunningCode := EOFCode p + 1, RunningBits := LZBitsPerPixel p + 1,
                     MaxCode1 := 2 ^ nat (LZBitsPerPixel p + 1), LastCode := NO_SUCH_CODE\<rparr>)"
  using assms ClearCode_bounds [OF assms] by (auto simp: lz_inv_def lz_consts)

lemma decompress_turn_total:
  assumes t: "turn_ok n line last_code sp p" and lt: "int (length line) < n"
  shows "\<exists>r. decompress_turn n line last_code sp p = Some r \<and>
    (case r of
       Inl (e, line', p') \<Rightarrow> lz_inv p' \<and> line' = line
     | Inr (line', last', sp', p') \<Rightarrow> turn_ok n line' last' sp' p' \<and> int (length line') \<le> n \<and> budget p' < budget p)"
proof -
  have inv: "lz_inv p" and last: "0 \<le> last_code" "last_code \<le> NO_SUCH_CODE" and sp: "sp = 0"
    using t lt by (auto simp: turn_ok_def)
  obtain r p1 where i: "DGifDecompressInput p = Some (r, p1)" "lz_inv p1"
    "\<forall>code. r = LzOk code \<longrightarrow> 0 \<le> code \<and> code \<le> LZ_MAX_CODE \<and> budget p1 < budget p"
    using DGifDecompressInput_total [OF inv] by blast
  show ?thesis
  proof (cases r)
    case (LzFail e)
    with i show ?thesis by (simp add: decompress_turn_def)
  next
    case (LzOk code)
    then have code: "0 \<le> code" "code \<le> LZ_MAX_CODE" "budget p1 < budget p" using i(3) by auto
    consider (eof) "code = EOFCode p1" | (clear) "code \<noteq> EOFCode p1" "code = ClearCode p1"
      | (pixel) "code \<noteq> EOFCode p1" "code \<noteq> ClearCode p1" "code < ClearCode p1"
      | (string) "code \<noteq> EOFCode p1" "code \<noteq> ClearCode p1" "\<not> code < ClearCode p1" by blast
    then show ?thesis
    proof cases
      case eof
      with i LzOk show ?thesis by (simp add: decompress_turn_def)
    next
      case clear
      with i LzOk code clear_code_inv [OF i(2)] lt sp show ?thesis
        by (simp add: decompress_turn_def turn_ok_def budget_def lz_consts)
    next
      case pixel
      obtain p3 where "add_entry code last_code p1 = Some p3" "lz_inv p3" "same_reader p1 p3"
        using add_entry_total [OF i(2) code(1,2) last] by blast
      with pixel i LzOk code lt sp same_reader_inv(2) [OF i(2), of p3] lz_inv_prefix [of p3] show ?thesis
        by (auto simp: decompress_turn_def turn_ok_def lz_consts)
    next
      case string
      obtain r2 p2 where e: "expand_code code last_code n line 0 p1 = Some (r2, p2)" "lz_inv p2" "same_reader p1 p2"
        "\<forall>sp' line'. r2 = LzOk (sp', line') \<longrightarrow> 0 \<le> sp' \<and> sp' \<le> LZ_MAX_CODE \<and> int (length line') \<le> n \<and>
          (int (length line') < n \<longrightarrow> sp' = 0)"
        using expand_code_total [OF i(2) code(1,2) last, of line n] lt by auto
      have b2: "budget p2 = budget p1" using same_reader_inv(2) [OF i(2) e(3) lz_inv_prefix [OF e(2)]] .
      show ?thesis
      proof (cases r2)
        case (LzFail e2)
        with string i LzOk e sp show ?thesis by (simp add: decompress_turn_def)
      next
        case ok: (LzOk x)
        obtain sp' line' where x: "x = (sp', line')" by fastforce
        obtain p3 where a: "add_entry code last_code p2 = Some p3" "lz_inv p3" "same_reader p2 p3"
          using add_entry_total [OF e(2) code(1,2) last] by blast
        have "budget p3 = budget p2" using same_reader_inv(2) [OF e(2) a(3) lz_inv_prefix [OF a(2)]] .
        with string i LzOk e sp ok x a b2 code show ?thesis
          by (auto simp: decompress_turn_def turn_ok_def lz_consts)
      qed
    qed
  qed
qed

lemma decompress_loop_total:
  "turn_ok n line last_code sp p \<Longrightarrow>
   \<exists>r. decompress_loop n line last_code sp p = Some r \<and>
    (case r of
       Inl (e, line', p') \<Rightarrow> lz_inv p' \<and> int (length line') \<le> max n (int (length line))
     | Inr (line', last', sp', p') \<Rightarrow> turn_ok n line' last' sp' p' \<and>
         (int (length line) \<le> n \<longrightarrow> int (length line') = n) \<and> (n < int (length line) \<longrightarrow> line' = line))"
proof (induction "budget p" arbitrary: line last_code sp p rule: less_induct)
  case less
  show ?case
  proof (cases "int (length line) < n")
    case False
    then show ?thesis using less.prems by (subst decompress_loop.simps) auto
  next
    case True
    from decompress_turn_total [OF less.prems True] obtain r where r: "decompress_turn n line last_code sp p = Some r"
      "case r of
         Inl (e, line', p') \<Rightarrow> lz_inv p' \<and> line' = line
       | Inr (line', last', sp', p') \<Rightarrow> turn_ok n line' last' sp' p' \<and> int (length line') \<le> n \<and> budget p' < budget p" by blast
    show ?thesis
    proof (cases r)
      case (Inl x)
      with r True show ?thesis by (subst decompress_loop.simps) (auto split: prod.splits)
    next
      case (Inr x)
      obtain line' last' sp' p' where x: "x = (line', last', sp', p')" by (cases x) auto
      have "turn_ok n line' last' sp' p'" "int (length line') \<le> n" "budget p' < budget p" using r(2) Inr x by auto
      from less.hyps [OF this(3,1)] this(2) show ?thesis
        using r(1) Inr x True by (subst decompress_loop.simps) (force split: sum.splits prod.splits)
    qed
  qed
qed

lemma DGifDecompressLine_safe:
  assumes "lz_inv p"
  shows "\<exists>r line p'. DGifDecompressLine n p = Some (r, line, p') \<and> lz_inv p' \<and> int (length line) \<le> max n 0 \<and>
     (r = LzOk () \<longrightarrow> int (length line) = max n 0)"
proof -
  have sp: "0 \<le> StackPtr p" "StackPtr p \<le> LZ_MAX_CODE" "0 \<le> LastCode p" "LastCode p \<le> NO_SUCH_CODE"
    using assms by (auto simp: lz_inv_def)
  obtain sp1 out where pop: "(if StackPtr p \<noteq> 0 then pop_stack (Stack p) n (StackPtr p) [] else Some (StackPtr p, [])) = Some (sp1, out)"
    "0 \<le> sp1" "sp1 \<le> StackPtr p" "sp1 = 0 \<or> n \<le> int (length out)" "int (length out) \<le> max n 0"
  proof (cases "StackPtr p = 0")
    case True
    with sp show ?thesis by (intro that [of 0 "[]"]) auto
  next
    case False
    from pop_stack_total [OF sp(1,2), of "[]" n "Stack p"] obtain sp' out where
      "pop_stack (Stack p) n (StackPtr p) [] = Some (sp', out)" "0 \<le> sp'" "sp' \<le> StackPtr p" "sp' = 0 \<or> n \<le> int (length out)"
      "0 \<le> n \<longrightarrow> int (length out) \<le> n" by auto
    moreover have "n \<le> 0 \<Longrightarrow> out = []"
      using calculation(1) by (subst (asm) pop_stack.simps) (auto split: if_splits)
    ultimately show ?thesis using False by (intro that [of sp' out]) (auto simp: max_def)
  qed
  have "turn_ok n out (LastCode p) sp1 p" using assms sp pop by (auto simp: turn_ok_def)
  from decompress_loop_total [OF this] obtain r where r: "decompress_loop n out (LastCode p) sp1 p = Some r"
    "case r of
       Inl (e, line', p') \<Rightarrow> lz_inv p' \<and> int (length line') \<le> max n (int (length out))
     | Inr (line', last', sp', p') \<Rightarrow> turn_ok n line' last' sp' p' \<and>
         (int (length out) \<le> n \<longrightarrow> int (length line') = n) \<and> (n < int (length out) \<longrightarrow> line' = out)" by blast
  show ?thesis
  proof (cases r)
    case (Inl x)
    with r pop sp show ?thesis
      by (auto simp: DGifDecompressLine_def lz_consts split: prod.splits)
  next
    case (Inr x)
    obtain line' last' sp' p' where x: "x = (line', last', sp', p')" by (cases x) auto
    have t: "turn_ok n line' last' sp' p'" "int (length line') = max n 0"
      using r(2) Inr x pop(5) by (auto simp: max_def split: if_splits)
    have "lz_inv (p'\<lparr>LastCode := last', StackPtr := sp'\<rparr>)"
      using t(1) by (auto simp: turn_ok_def lz_inv_def)
    with t r pop sp Inr x show ?thesis by (auto simp: DGifDecompressLine_def lz_consts)
  qed
qed

end
