(* ===== verification/LzwRead.thy ===== *)
theory LzwRead
  imports LzwSpec DGif
begin

text \<open>
  The reader against the reference definition: from the sub-blocks of packed codes the decoder recovers
  the codes, and from the codes the pixels of the reference decoder.
\<close>

section \<open>Sub-blocks to bytes\<close>

text \<open>The bytes \<open>Y\<close> are still to come: the rest of a block in the buffer, then blocks in the input, then
  what follows the image.\<close>

definition pending :: "dpriv \<Rightarrow> u8 list \<Rightarrow> u8 list \<Rightarrow> bool" where
  "pending p Y R \<longleftrightarrow> (\<exists>t Y'. Y = t @ Y' \<and> input p = sub_blocks Y' @ R \<and> length t < 256 \<and> Buf p 0 = of_nat (length t) \<and>
     (t \<noteq> [] \<longrightarrow> (\<exists>k. 2 \<le> k \<and> k + length t \<le> 256 \<and> Buf p 1 = of_nat k \<and> (\<forall>i < length t. Buf p (int k + int i) = t ! i))))"

lemma uint_of_nat_u8: "n < 256 \<Longrightarrow> uint (of_nat n :: u8) = int n"
  unfolding unsigned_of_nat by (simp add: take_bit_nat_eq_self)

lemma unat_of_nat_u8: "n < 256 \<Longrightarrow> unat (of_nat n :: u8) = n"
  by (simp add: unat_of_nat take_bit_nat_eq_self)

lemma of_nat_u8_eq_0: "n < 256 \<Longrightarrow> (of_nat n :: u8) = 0 \<longleftrightarrow> n = 0"
  using unat_of_nat_u8 [of n] by (metis unat_eq_zero)

lemma DGifBufferedInput_pending:
  assumes "pending p (y # Y) R"
  shows "\<exists>p'. DGifBufferedInput p = Some (LzOk y, p') \<and> pending p' Y R"
proof -
  obtain t Y' where t: "y # Y = t @ Y'" "input p = sub_blocks Y' @ R" "length t < 256" "Buf p 0 = of_nat (length t)"
    "t \<noteq> [] \<longrightarrow> (\<exists>k. 2 \<le> k \<and> k + length t \<le> 256 \<and> Buf p 1 = of_nat k \<and> (\<forall>i < length t. Buf p (int k + int i) = t ! i))"
    using assms by (auto simp: pending_def)
  show ?thesis
  proof (cases t)
    case Nil
    define n where "n = min 255 (length Y')"
    have Y': "Y' = y # Y" "Y' \<noteq> []" using t(1) Nil by auto
    have n: "0 < n" "n < 256" "n \<le> length Y'" "drop 255 Y' = drop n Y'" using Y' by (auto simp: n_def min_def)
    have inp: "input p = of_nat n # take n Y' @ (sub_blocks (drop n Y') @ R)"
      unfolding t(2) sub_blocks_block [OF Y'(2)] n_def [symmetric] n(4) by (simp only: append_Cons append_assoc)
    have ln: "length (take n Y') = n" using n by simp
    have c0: "(of_nat n :: u8) \<noteq> 0" using of_nat_u8_eq_0 n by blast
    let ?buf = "\<lambda>j. if 1 \<le> j \<and> j < 1 + int n then take n Y' ! nat (j - 1) else ((Buf p)(0 := of_nat n)) j"
    have pb: "put_bytes 256 ((Buf p)(0 := of_nat n)) 1 (take n Y') = Some ?buf" using n by (simp add: put_bytes_def ln del: length_take)
    have y1: "?buf 1 = y" using n Y'(1) by simp
    let ?p' = "p\<lparr>input := sub_blocks (drop n Y') @ R, Buf := ?buf(1 := 2, 0 := of_nat n - 1)\<rparr>"
    have rd: "take n (take n Y' @ (sub_blocks (drop n Y') @ R)) = take n Y'"
      "drop n (take n Y' @ (sub_blocks (drop n Y') @ R)) = sub_blocks (drop n Y') @ R" using n by simp_all
    have "DGifBufferedInput p = Some (LzOk y, ?p')"
      using t(4) Nil inp c0 pb y1 rd ln unat_of_nat_u8 [OF n(2)]
      by (simp add: DGifBufferedInput_def READ_def Let_def del: length_take take_append drop_append)
    moreover have "pending ?p' Y R"
      unfolding pending_def
    proof (rule exI [of _ "take (n - 1) Y"], rule exI [of _ "drop n Y'"], intro conjI impI)
      have tk: "take n Y' = y # take (n - 1) Y" "drop n Y' = drop (n - 1) Y" using Y'(1) n(1) by (cases n; simp)+
      show "Y = take (n - 1) Y @ drop n Y'" using tk by simp
      have l1: "length (take (n - 1) Y) = n - 1" using Y'(1) n(3) by simp
      then show "Buf ?p' 0 = of_nat (length (take (n - 1) Y))" using n(1) by (simp add: of_nat_diff del: length_take)
      show "length (take (n - 1) Y) < 256" using l1 n(2) by simp
      have "Buf ?p' (int 2 + int i) = take (n - 1) Y ! i" if "i < n - 1" for i
      proof -
        have "1 + int i < int n" using that by linarith
        then show ?thesis using tk(1) by (simp add: nat_add_distrib)
      qed
      then show "\<exists>k. 2 \<le> k \<and> k + length (take (n - 1) Y) \<le> 256 \<and> Buf ?p' 1 = of_nat k \<and>
          (\<forall>i < length (take (n - 1) Y). Buf ?p' (int k + int i) = take (n - 1) Y ! i)"
        using l1 n by (intro exI [of _ 2]) (simp del: length_take)
    qed simp
    ultimately show ?thesis by blast
  next
    case (Cons a t')
    then obtain k where k: "2 \<le> k" "k + length t \<le> 256" "Buf p 1 = of_nat k" "\<forall>i < length t. Buf p (int k + int i) = t ! i"
      using t(5) by blast
    have ay: "a = y" "Y = t' @ Y'" using t(1) Cons by auto
    have k256: "k < 256" using k(2) Cons by simp
    have b0: "Buf p 0 \<noteq> 0" using of_nat_u8_eq_0 [OF t(3)] t(4) Cons by auto
    let ?p' = "p\<lparr>Buf := (Buf p)(1 := of_nat k + 1, 0 := of_nat (length t) - 1)\<rparr>"
    have "Buf p (int k) = y" using k(4) [rule_format, of 0] Cons ay by simp
    then have "DGifBufferedInput p = Some (LzOk y, ?p')"
      using b0 t(4) k(3) uint_of_nat_u8 [OF k256] k256 by (simp add: DGifBufferedInput_def)
    moreover have "pending ?p' Y R"
      unfolding pending_def
    proof (rule exI [of _ t'], rule exI [of _ Y'], intro conjI impI)
      show "\<exists>k. 2 \<le> k \<and> k + length t' \<le> 256 \<and> Buf ?p' 1 = of_nat k \<and> (\<forall>i < length t'. Buf ?p' (int k + int i) = t' ! i)"
      proof (intro exI [of _ "Suc k"] conjI allI impI)
        fix i assume "i < length t'"
        then show "Buf ?p' (int (Suc k) + int i) = t' ! i"
          using k(1) k(4) [rule_format, of "Suc i"] Cons by (simp add: ac_simps)
      qed (use k Cons in simp_all)
    qed (use t ay Cons in simp_all)
    ultimately show ?thesis by blast
  qed
qed


section \<open>Bytes to codes\<close>

definition unread :: "dpriv \<Rightarrow> bool list \<Rightarrow> u8 list \<Rightarrow> bool" where
  "unread p B R \<longleftrightarrow> (\<exists>Y. pending p Y R \<and> 0 \<le> CrntShiftState p \<and> (\<forall>n. bit (CrntShiftDWord p) n \<longrightarrow> int n < CrntShiftState p) \<and>
     B = bits_of (nat (CrntShiftState p)) (CrntShiftDWord p) @ byte_bits Y)"

lemma pending_frame [simp]:
  "pending (p\<lparr>CrntShiftDWord := d, CrntShiftState := s\<rparr>) Y R = pending p Y R"
  by (simp add: pending_def)

lemma bits_of_or_byte:
  fixes w :: u32 and c :: u8
  assumes "\<And>n. bit w n \<Longrightarrow> n < s" "s + 8 \<le> 32"
  shows "bits_of (s + 8) (w OR push_bit s (ucast c)) = bits_of s w @ bits_of 8 c"
proof (rule nth_equalityI)
  fix i assume i: "i < length (bits_of (s + 8) (w OR push_bit s (ucast c)))"
  show "bits_of (s + 8) (w OR push_bit s (ucast c)) ! i = (bits_of s w @ bits_of 8 c) ! i"
    using i assms(1) [of i] assms(2) by (auto simp: bits_of_def nth_append bit_simps)
qed simp

lemma fill_bits_unread:
  "unread p B R \<Longrightarrow> nat (RunningBits p) \<le> length B \<Longrightarrow> RunningBits p \<le> 12 \<Longrightarrow>
   \<exists>p'. fill_bits p = Some (LzOk (), p') \<and> unread p' B R \<and> RunningBits p \<le> CrntShiftState p' \<and> same_lz p p'"
proof (induction "nat (RunningBits p - CrntShiftState p)" arbitrary: p rule: less_induct)
  case less
  obtain Y where Y: "pending p Y R" "0 \<le> CrntShiftState p" "\<And>n. bit (CrntShiftDWord p) n \<Longrightarrow> int n < CrntShiftState p"
    "B = bits_of (nat (CrntShiftState p)) (CrntShiftDWord p) @ byte_bits Y" using less.prems(1) by (auto simp: unread_def)
  show ?case
  proof (cases "CrntShiftState p < RunningBits p")
    case False
    then have "fill_bits p = Some (LzOk (), p)" by (subst fill_bits.simps) simp
    with False less.prems show ?thesis by (auto simp: same_lz_def)
  next
    case True
    have "byte_bits Y \<noteq> []" using Y(2,4) less.prems(2) True by auto
    then obtain y Y' where y: "Y = y # Y'" by (cases Y) auto
    obtain p1 where p1: "DGifBufferedInput p = Some (LzOk y, p1)" "pending p1 Y' R"
      using DGifBufferedInput_pending Y(1) y by blast
    have eq: "p1 = p\<lparr>Buf := Buf p1, input := input p1\<rparr>" using DGifBufferedInput_frame [OF p1(1)] by blast
    then have s1: "same_lz p p1" unfolding same_lz_def by (cases p; cases p1; simp)
    have f: "CrntShiftState p1 = CrntShiftState p" "CrntShiftDWord p1 = CrntShiftDWord p" "RunningBits p1 = RunningBits p"
      by (subst eq, simp)+
    let ?q = "p1\<lparr>CrntShiftDWord := CrntShiftDWord p1 OR push_bit (nat (CrntShiftState p1)) (ucast y), CrntShiftState := CrntShiftState p1 + 8\<rparr>"
    have run: "fill_bits p = fill_bits ?q" using True p1(1) f Y(2) less.prems(3) by (subst fill_bits.simps) simp
    have lt: "bit (CrntShiftDWord p) n \<Longrightarrow> n < nat (CrntShiftState p)" for n using Y(3) [of n] by linarith
    have "unread ?q B R"
      unfolding unread_def
    proof (intro exI conjI allI impI)
      show "pending ?q Y' R" using p1(2) by simp
      show "0 \<le> CrntShiftState ?q" using Y(2) f by simp
      fix n assume "bit (CrntShiftDWord ?q) n"
      then show "int n < CrntShiftState ?q" using f Y(2) Y(3) [of n] bit_imp_le_length [of y "n - nat (CrntShiftState p)"] by (auto simp: bit_simps)
    next
      have "nat (CrntShiftState ?q) = nat (CrntShiftState p) + 8" using f Y(2) by simp
      then show "B = bits_of (nat (CrntShiftState ?q)) (CrntShiftDWord ?q) @ byte_bits Y'"
        using bits_of_or_byte [of "CrntShiftDWord p" "nat (CrntShiftState p)" y] lt f Y(2,4) True less.prems(3) y by simp
    qed
    moreover have "nat (RunningBits ?q - CrntShiftState ?q) < nat (RunningBits p - CrntShiftState p)" using f True by simp
    ultimately obtain p' where p': "fill_bits ?q = Some (LzOk (), p')" "unread p' B R" "RunningBits p \<le> CrntShiftState p'" "same_lz ?q p'"
      using less.hyps [of ?q] less.prems(2,3) f by auto
    have "same_lz p ?q" using s1 unfolding same_lz_def by (cases p; cases p1; simp)
    from same_lz_trans [OF this p'(4)] run p'(1-3) show ?thesis by simp
  qed
qed

text \<open>Everything but the bit source and the code width is kept.\<close>

definition same_dict :: "dpriv \<Rightarrow> dpriv \<Rightarrow> bool" where
  "same_dict p q \<longleftrightarrow> LZBitsPerPixel q = LZBitsPerPixel p \<and> ClearCode q = ClearCode p \<and> EOFCode q = EOFCode p \<and>
     StackPtr q = StackPtr p \<and> LastCode q = LastCode p \<and> Prefix q = Prefix p \<and> Suffix q = Suffix p \<and> Stack q = Stack p \<and>
     PixelCount q = PixelCount p \<and> FileState q = FileState p"

lemma int_eq_of_bits:
  assumes "0 \<le> c" "c < 2 ^ w" "bits_of w (x :: u32) = bits_of w c" "w \<le> 32"
  shows "uint (x AND mask w) = c"
proof -
  have eq: "bit x n = bit c n" if "n < w" for n using assms(3) that by (auto simp: bits_of_def)
  have "uint (x AND mask w) = take_bit w (uint x)" by (simp add: unsigned_take_bit_eq flip: take_bit_eq_mask)
  also have "\<dots> = take_bit w c" by (rule bit_eqI) (use eq assms(4) in \<open>auto simp: bit_simps\<close>)
  also have "\<dots> = c" using assms by (simp add: take_bit_int_eq_self)
  finally show ?thesis .
qed

lemma DGifDecompressInput_unread:
  assumes un: "unread p (bits_of (nat (RunningBits p)) c @ B) R" and w: "0 \<le> RunningBits p" "RunningBits p \<le> 12"
    and c: "0 \<le> c" "c < 2 ^ nat (RunningBits p)" and max: "MaxCode1 p = 2 ^ nat (RunningBits p)" and rc: "RunningCode p < 4097"
  shows "\<exists>p'. DGifDecompressInput p = Some (LzOk c, p') \<and> unread p' B R \<and> RunningCode p' = RunningCode p + 1 \<and>
    RunningBits p' = (if RunningBits p < 12 then next_bits (RunningCode p) (RunningBits p) else 12) \<and>
    MaxCode1 p' = 2 ^ nat (RunningBits p') \<and> same_dict p p'"
proof -
  let ?w = "nat (RunningBits p)"
  obtain p1 where p1: "fill_bits p = Some (LzOk (), p1)" "unread p1 (bits_of ?w c @ B) R" "RunningBits p \<le> CrntShiftState p1" "same_lz p p1"
    using fill_bits_unread [OF un _ w(2)] by auto
  note f = same_lz_fields [OF p1(4)]
  obtain Y where Y: "pending p1 Y R" "\<And>n. bit (CrntShiftDWord p1) n \<Longrightarrow> int n < CrntShiftState p1"
    "bits_of ?w c @ B = bits_of (nat (CrntShiftState p1)) (CrntShiftDWord p1) @ byte_bits Y" using p1(2) by (auto simp: unread_def)
  let ?s = "nat (CrntShiftState p1)"
  have s: "?w \<le> ?s" using p1(3) by simp
  have split: "bits_of ?s (CrntShiftDWord p1) = bits_of ?w (CrntShiftDWord p1) @ map (bit (CrntShiftDWord p1)) [?w..<?s]"
    by (rule bits_of_split [OF s])
  then have code: "bits_of ?w (CrntShiftDWord p1) = bits_of ?w c" and rest: "B = map (bit (CrntShiftDWord p1)) [?w..<?s] @ byte_bits Y"
    using Y(3) by simp_all
  have m: "lread CodeMasks (RunningBits p) = Some (mask ?w)" using CodeMasks_nth w by blast
  have cd: "uint (CrntShiftDWord p1 AND mask ?w) = c" using int_eq_of_bits [OF c code] w by simp
  define p2 where "p2 = p1\<lparr>CrntShiftDWord := drop_bit ?w (CrntShiftDWord p1), CrntShiftState := CrntShiftState p1 - RunningBits p\<rparr>"
  have un2: "unread p2 B R"
    unfolding unread_def
  proof (intro exI conjI allI impI)
    show "pending p2 Y R" using Y(1) by (simp add: p2_def)
    show "0 \<le> CrntShiftState p2" using p1(3) by (simp add: p2_def)
    fix n assume "bit (CrntShiftDWord p2) n"
    then show "int n < CrntShiftState p2" using Y(2) [of "?w + n"] w by (simp add: p2_def bit_simps)
  next
    have "?s = ?w + nat (CrntShiftState p2)" using p1(3) w by (simp add: p2_def)
    then show "B = bits_of (nat (CrntShiftState p2)) (CrntShiftDWord p2) @ byte_bits Y"
      using rest bits_of_drop_bit [of "nat (CrntShiftState p2)" ?w "CrntShiftDWord p1"] by (simp add: p2_def)
  qed
  define p3 where "p3 = p2\<lparr>RunningCode := RunningCode p + 1\<rparr>"
  define p4 where "p4 = (if RunningCode p + 1 > MaxCode1 p \<and> RunningBits p < 12
      then p3\<lparr>MaxCode1 := MaxCode1 p * 2, RunningBits := RunningBits p + 1\<rparr> else p3)"
  have "DGifDecompressInput p = Some (LzOk c, p4)"
    using p1(1) m cd f w rc by (simp add: DGifDecompressInput_def Let_def lz_consts p2_def p3_def p4_def)
  moreover have "unread p4 B R" using un2 by (simp add: p4_def p3_def unread_def pending_def)
  moreover have "RunningBits p4 = (if RunningBits p < 12 then next_bits (RunningCode p) (RunningBits p) else 12)"
    "MaxCode1 p4 = 2 ^ nat (RunningBits p4)" "RunningCode p4 = RunningCode p + 1" "same_dict p p4"
    using f max w by (auto simp: p4_def p3_def p2_def next_bits_def same_dict_def nat_add_distrib)
  ultimately show ?thesis by blast
qed


section \<open>Codes to pixels\<close>

text \<open>The arrays \<open>Prefix\<close> and \<open>Suffix\<close> hold the entries of the dictionary.\<close>

definition dict_ok :: "int \<Rightarrow> entries \<Rightarrow> (int \<Rightarrow> int) \<Rightarrow> (int \<Rightarrow> u8) \<Rightarrow> bool" where
  "dict_ok clear es prefix suffix \<longleftrightarrow>
     (\<forall>j < length es. prefix (clear + 2 + int j) = fst (es ! j) \<and> suffix (clear + 2 + int j) = snd (es ! j)) \<and>
     (\<forall>i. clear + 2 + int (length es) \<le> i \<and> i \<le> LZ_MAX_CODE \<longrightarrow> prefix i = NO_SUCH_CODE)"

lemma wf_entry: "wf_entries clear es \<Longrightarrow> j < length es \<Longrightarrow> valid clear (take j es) (fst (es ! j))"
  by (simp add: wf_entries_def)

lemma str_entry':
  assumes "wf_entries clear es" "j < length es"
  shows "str clear es (clear + 2 + int j) = str clear es (fst (es ! j)) @ [snd (es ! j)]"
  using str_extend [OF assms, of "fst (es ! j)" "snd (es ! j)"] by simp

lemma valid_prefix_less: "valid clear (take j es) q \<Longrightarrow> j < length es \<Longrightarrow> q < clear + 2 + int j"
  by (auto simp: valid_def)

lemma prefix_char_dict:
  assumes wf: "wf_entries clear es" and d: "dict_ok clear es prefix suffix" and cl: "1 \<le> clear" "clear \<le> 256"
  shows "valid clear es c \<Longrightarrow> c \<le> LZ_MAX_CODE \<Longrightarrow> i + max 0 (c - clear) \<le> 4096 \<Longrightarrow>
    prefix_char prefix clear c i = Some (uint (hd (str clear es c)))"
proof (induction "nat c" arbitrary: c i rule: less_induct)
  case less
  from less.prems(1) show ?case
  proof (cases rule: valid_cases)
    case pixel
    then have "prefix_char prefix clear c i = Some c" by (subst prefix_char.simps) simp
    with pixel cl show ?thesis by (simp add: str_pixel uint_word_of_int_eq take_bit_int_eq_self)
  next
    case (entry j)
    let ?q = "fst (es ! j)"
    have v: "valid clear (take j es) ?q" by (rule wf_entry [OF wf entry(1)])
    have q: "?q < c" "0 \<le> ?q" "valid clear es ?q" using valid_prefix_less [OF v entry(1)] v valid_mono(1) entry cl by (auto simp: valid_def)
    have step: "prefix_char prefix clear c i = prefix_char prefix clear ?q (i + 1)"
      using entry d less.prems cl by (subst prefix_char.simps) (simp add: dict_ok_def lz_consts)
    have "i + 1 + max 0 (?q - clear) \<le> 4096" using less.prems(3) q entry by simp
    then have "prefix_char prefix clear ?q (i + 1) = Some (uint (hd (str clear es ?q)))"
      using less.hyps [of ?q "i + 1"] q less.prems(2) by simp
    moreover have "hd (str clear es c) = hd (str clear es ?q)"
      using str_entry' [OF wf entry(1)] str_not_Nil [OF wf q(3)] entry(2) by simp
    ultimately show ?thesis using step by simp
  qed
qed

lemma DGifGetPrefixChar_dict:
  assumes "wf_entries clear es" "dict_ok clear es prefix suffix" "1 \<le> clear" "clear \<le> 256" "valid clear es c" "c \<le> LZ_MAX_CODE"
  shows "DGifGetPrefixChar prefix c clear = Some (uint (hd (str clear es c)))"
  unfolding DGifGetPrefixChar_def
  by (rule prefix_char_dict [OF assms(1-6)]) (use assms in \<open>simp add: lz_consts\<close>)

text \<open>The characters on the stack, from the bottom.\<close>

definition on_stack :: "(int \<Rightarrow> u8) \<Rightarrow> nat \<Rightarrow> u8 list" where
  "on_stack s n = map (\<lambda>i. s (int i)) [0..<n]"

lemma on_stack_push: "on_stack (s(int n := b)) (Suc n) = on_stack s n @ [b]"
  by (simp add: on_stack_def)

lemma on_stack_top [simp]: "on_stack (s(int n := b)) n = on_stack s n"
  by (simp add: on_stack_def)

lemma length_on_stack [simp]: "length (on_stack s n) = n"
  by (simp add: on_stack_def)

lemma trace_codes_dict:
  assumes wf: "wf_entries clear es" and d: "dict_ok clear es prefix suffix" and cl: "1 \<le> clear" "clear \<le> 256"
  shows "valid clear es c \<Longrightarrow> c \<le> LZ_MAX_CODE \<Longrightarrow> int n + int (length (str clear es c)) \<le> LZ_MAX_CODE \<Longrightarrow>
    \<exists>stack' m. trace_codes prefix suffix clear stack (int n) c = Some (stack', int m, uint (hd (str clear es c))) \<and>
      on_stack stack' m = on_stack stack n @ rev (tl (str clear es c)) \<and> m + 1 = n + length (str clear es c)"
proof (induction "nat c" arbitrary: c n stack rule: less_induct)
  case less
  from less.prems(1) show ?case
  proof (cases rule: valid_cases)
    case pixel
    then have "trace_codes prefix suffix clear stack (int n) c = Some (stack, int n, c)" by (subst trace_codes.simps) simp
    with pixel cl show ?thesis
      by (intro exI [of _ stack] exI [of _ n]) (simp add: str_pixel uint_word_of_int_eq take_bit_int_eq_self)
  next
    case (entry j)
    let ?q = "fst (es ! j)" and ?b = "snd (es ! j)"
    have v: "valid clear (take j es) ?q" by (rule wf_entry [OF wf entry(1)])
    have q: "?q < c" "0 \<le> ?q" "valid clear es ?q" using valid_prefix_less [OF v entry(1)] v valid_mono(1) entry cl by (auto simp: valid_def)
    have s: "str clear es c = str clear es ?q @ [?b]" using str_entry' [OF wf entry(1)] entry(2) by simp
    have ne: "str clear es ?q \<noteq> []" by (rule str_not_Nil [OF wf q(3)])
    have lim: "int n < LZ_MAX_CODE" using less.prems(3) s by simp
    have step: "trace_codes prefix suffix clear stack (int n) c = trace_codes prefix suffix clear (stack(int n := ?b)) (int (Suc n)) ?q"
      using entry d less.prems(2) lim cl by (subst trace_codes.simps) (simp add: dict_ok_def lz_consts add.commute)
    have "int (Suc n) + int (length (str clear es ?q)) \<le> LZ_MAX_CODE" using less.prems(3) s by simp
    from less.hyps [OF _ q(3) _ this, of "stack(int n := ?b)"] q less.prems(2) obtain stack' m where
      r: "trace_codes prefix suffix clear (stack(int n := ?b)) (int (Suc n)) ?q = Some (stack', int m, uint (hd (str clear es ?q)))"
      "on_stack stack' m = on_stack (stack(int n := ?b)) (Suc n) @ rev (tl (str clear es ?q))"
      "m + 1 = Suc n + length (str clear es ?q)" by auto
    then show ?thesis using step s ne by (intro exI [of _ stack'] exI [of _ m]) (simp add: on_stack_push)
  qed
qed

text \<open>Popping: what fits into the line leaves the stack.\<close>

lemma pop_stack_list:
  assumes "int n \<le> LZ_MAX_CODE" "int (length line) \<le> LineLen"
  shows "pop_stack stack LineLen (int n) line =
    (let k = min n (nat (LineLen - int (length line))) in Some (int (n - k), line @ take k (rev (on_stack stack n))))"
  using assms
proof (induction n arbitrary: line)
  case 0
  then show ?case by (subst pop_stack.simps) (simp add: on_stack_def)
next
  case (Suc n)
  show ?case
  proof (cases "int (length line) < LineLen")
    case False
    then have "nat (LineLen - int (length line)) = 0" using Suc.prems by simp
    with False show ?thesis by (subst pop_stack.simps) simp
  next
    case True
    have k: "nat (LineLen - int (length line)) = Suc (nat (LineLen - int (length (line @ [stack (int n)]))))" using True by simp
    have "pop_stack stack LineLen (int (Suc n)) line = pop_stack stack LineLen (int n) (line @ [stack (int n)])"
      using True Suc.prems by (subst pop_stack.simps) (simp add: lz_consts)
    also have "\<dots> = (let k = min n (nat (LineLen - int (length (line @ [stack (int n)])))) in
        Some (int (n - k), (line @ [stack (int n)]) @ take k (rev (on_stack stack n))))"
      using Suc.IH [of "line @ [stack (int n)]"] Suc.prems True by simp
    finally show ?thesis unfolding k by (simp add: on_stack_def Let_def)
  qed
qed


lemma dict_ok_snoc:
  assumes "dict_ok clear es prefix suffix" "clear + 2 + int (length es) \<le> LZ_MAX_CODE"
  shows "dict_ok clear (es @ [(l, b)]) (prefix(clear + 2 + int (length es) := l)) (suffix(clear + 2 + int (length es) := b))"
  using assms by (auto simp: dict_ok_def nth_append less_Suc_eq)

lemma dict_ok_suffix:
  "dict_ok clear es prefix suffix \<Longrightarrow> dict_ok clear es prefix (suffix(clear + 2 + int (length es) := b))"
  by (auto simp: dict_ok_def)

lemma add_entry_dict:
  assumes wf: "wf_entries clear es" and d: "dict_ok clear es (Prefix p) (Suffix p)" and cl: "1 \<le> clear" "clear \<le> 256" "ClearCode p = clear"
    and l: "valid clear es l" and rc: "RunningCode p - 2 = clear + 2 + int (length es)" "RunningCode p - 2 \<le> LZ_MAX_CODE"
    and c: "valid clear (es @ [new_entry clear es l c]) c"
  shows "\<exists>p'. add_entry c l p = Some p' \<and> dict_ok clear (es @ [new_entry clear es l c]) (Prefix p') (Suffix p') \<and>
    p' = p\<lparr>Prefix := Prefix p', Suffix := Suffix p'\<rparr>"
proof -
  let ?k = "clear + 2 + int (length es)" and ?x = "if c = RunningCode p - 2 then l else c"
  have x: "?x = (if valid clear es c then c else l)" "valid clear es ?x" using c l rc by (auto simp: valid_def)
  have lr: "l < ?k" "0 \<le> l" using l cl by (auto simp: valid_def)
  have ne: "l \<noteq> NO_SUCH_CODE" using lr rc by (simp add: lz_consts)
  have free: "Prefix p ?k = NO_SUCH_CODE" using d rc by (simp add: dict_ok_def)
  let ?prefix = "(Prefix p)(?k := l)"
  have d1: "dict_ok clear (es @ [(l, Suffix p ?k)]) ?prefix (Suffix p)"
    using dict_ok_snoc [OF d, of l "Suffix p ?k"] rc by simp
  have wf1: "wf_entries clear (es @ [(l, Suffix p ?k)])" using wf l by (simp add: wf_entries_snoc)
  have x4: "?x \<le> LZ_MAX_CODE" using x(2) rc cl by (auto simp: valid_def)
  have "DGifGetPrefixChar ?prefix ?x clear = Some (uint (hd (str clear (es @ [(l, Suffix p ?k)]) ?x)))"
    by (rule DGifGetPrefixChar_dict [OF wf1 d1 cl(1,2) valid_mono(2) [OF x(2)] x4])
  then have ch: "DGifGetPrefixChar ?prefix ?x clear = Some (uint (hd (str clear es ?x)))" by (simp only: str_append [OF x(2)])
  let ?b = "hd (str clear es ?x)"
  let ?p' = "p\<lparr>Prefix := ?prefix, Suffix := (Suffix p)(?k := ?b)\<rparr>"
  have k: "0 \<le> ?k" "?k < 4096" using rc cl by (auto simp: lz_consts)
  have "add_entry c l p = Some ?p'"
    using ne free ch k cl(3) unfolding add_entry_def rc(1) by simp
  moreover have "new_entry clear es l c = (l, ?b)" by (simp add: new_entry_def x(1))
  moreover have "dict_ok clear (es @ [(l, ?b)]) ?prefix ((Suffix p)(?k := ?b))" using dict_ok_snoc [OF d] rc by simp
  ultimately show ?thesis by (intro exI [of _ ?p']) simp
qed

lemma on_stack_take: "m \<le> n \<Longrightarrow> on_stack s m = take m (on_stack s n)"
  by (simp add: on_stack_def take_map)

text \<open>The pixels of a code go to the line as far as it has room; the rest stays on the stack.\<close>

lemma push_and_pop:
  assumes t: "trace_codes prefix suffix clear stack (int k) crnt = Some (stack', int m, uint h)"
    and st: "on_stack stack' m @ [h] = rev out" and len: "int (length out) \<le> LZ_MAX_CODE" and ln: "int (length line) \<le> LineLen"
  shows "int m < LZ_MAX_CODE \<and> int m + 1 = int (length out) \<and>
    pop_stack (stack'(int m := h)) LineLen (int m + 1) line =
      Some (int (length out - min (length out) (nat (LineLen - int (length line)))),
            line @ take (min (length out) (nat (LineLen - int (length line)))) out) \<and>
    (\<forall>j \<le> length out. rev (on_stack (stack'(int m := h)) (length out - j)) = drop j out)"
proof -
  have m: "length out = Suc m" using arg_cong [OF st, of length] by simp
  have all: "on_stack (stack'(int m := h)) (Suc m) = rev out" using st by (simp add: on_stack_push)
  have "pop_stack (stack'(int m := h)) LineLen (int (Suc m)) line =
      (let k = min (Suc m) (nat (LineLen - int (length line))) in
        Some (int (Suc m - k), line @ take k (rev (on_stack (stack'(int m := h)) (Suc m)))))"
    by (rule pop_stack_list) (use len m ln in auto)
  moreover have "rev (on_stack (stack'(int m := h)) (length out - j)) = drop j out" if "j \<le> length out" for j
    using on_stack_take [of "length out - j" "Suc m" "stack'(int m := h)"] all m that by (simp add: rev_take)
  ultimately show ?thesis using len m all by (simp add: Let_def add.commute)
qed

lemma expand_code_dict:
  assumes wf: "wf_entries clear es" and d: "dict_ok clear es (Prefix p) (Suffix p)" and cl: "1 \<le> clear" "clear \<le> 256" "ClearCode p = clear"
    and l: "valid clear es l" and rc: "RunningCode p - 2 = clear + 2 + int (length es)" "RunningCode p - 2 \<le> 4094"
    and c: "valid clear (es @ [new_entry clear es l c]) c" "clear \<le> c" and ln: "int (length line) \<le> n"
  shows "\<exists>p'. let out = str clear (es @ [new_entry clear es l c]) c; k = min (length out) (nat (n - int (length line))) in
    expand_code c l n line 0 p = Some (LzOk (int (length out - k), line @ take k out), p') \<and>
    rev (on_stack (Stack p') (length out - k)) = drop k out \<and> int (length out) \<le> LZ_MAX_CODE \<and>
    dict_ok clear es (Prefix p') (Suffix p') \<and> p' = p\<lparr>Stack := Stack p', Suffix := Suffix p'\<rparr>"
proof -
  let ?k = "clear + 2 + int (length es)" and ?es = "es @ [new_entry clear es l c]"
  have c2: "clear + 2 \<le> c" "c \<le> ?k" using c by (auto simp: valid_def)
  have k: "?k \<le> 4094" "0 \<le> ?k" using rc cl by auto
  define out where "out = str clear ?es c"
  have wf': "wf_entries clear ?es" using wf l by (simp add: wf_entries_snoc new_entry_def)
  have len: "int (length out) \<le> LZ_MAX_CODE" using str_length [OF wf' c(1)] k cl by (simp add: out_def lz_consts)
  define kk where "kk = min (length out) (nat (n - int (length line)))"
  have c0: "0 \<le> c" "c < 4096" using c2 k cl by auto
  show ?thesis
  proof (cases "valid clear es c")
    case True
    have so: "out = str clear es c" by (simp add: out_def str_append [OF True])
    have ne: "out \<noteq> []" using so str_not_Nil [OF wf True] by simp
    obtain j where j: "j < length es" "c = clear + 2 + int j" using True c2 by (auto elim: valid_cases)
    have "Prefix p c \<noteq> NO_SUCH_CODE"
      using d j valid_prefix_less [OF wf_entry [OF wf j(1)] j(1)] k by (auto simp: dict_ok_def lz_consts)
    obtain stack' m where t: "trace_codes (Prefix p) (Suffix p) clear (Stack p) (int 0) c = Some (stack', int m, uint (hd out))"
      "on_stack stack' m = on_stack (Stack p) 0 @ rev (tl out)"
      using trace_codes_dict [OF wf d cl(1,2) True, of 0 "Stack p"] c2 k len so by (auto simp: lz_consts)
    have st: "on_stack stack' m @ [hd out] = rev out" using t(2) ne by (cases out) (simp_all add: on_stack_def)
    note pp = push_and_pop [OF t(1) st len ln, unfolded kk_def [symmetric]]
    have pp1: "int m < LZ_MAX_CODE" and pp2: "pop_stack (stack'(int m := hd out)) n (int m + 1) line = Some (int (length out - kk), line @ take kk out)"
      using pp by blast+
    let ?p' = "p\<lparr>Stack := stack'(int m := hd out)\<rparr>"
    have "expand_code c l n line 0 p = Some (LzOk (int (length out - kk), line @ take kk out), ?p')"
    proof -
      have "uint (hd out) \<le> LZ_MAX_CODE" using uint_lt2p [of "hd out"] by (simp add: lz_consts)
      then show ?thesis
        using \<open>Prefix p c \<noteq> NO_SUCH_CODE\<close> c0 t(1) pp1 pp2 cl(3) by (simp add: expand_code_def Let_def lz_consts)
    qed
    moreover have "rev (on_stack (Stack ?p') (length out - kk)) = drop kk out" using pp by (simp add: kk_def)
    ultimately show ?thesis using d len unfolding out_def [symmetric] Let_def kk_def [symmetric] by (intro exI [of _ ?p']) simp
  next
    case False
    then have ck: "c = ?k" using c c2 by (auto simp: valid_def)
    define h where "h = hd (str clear es l)"
    have ne: "new_entry clear es l c = (l, h)" using False by (simp add: new_entry_def h_def)
    have nl: "str clear es l \<noteq> []" by (rule str_not_Nil [OF wf l])
    have so: "out = str clear es l @ [h]"
      using str_entry [of "length es" ?es clear] ck ne by (simp add: out_def)
    have l4: "l \<le> LZ_MAX_CODE" "0 \<le> l" using l k cl by (auto simp: valid_def lz_consts)
    have free: "Prefix p ?k = NO_SUCH_CODE" using d k by (simp add: dict_ok_def lz_consts)
    have ch: "DGifGetPrefixChar (Prefix p) l clear = Some (uint h)"
      unfolding h_def by (rule DGifGetPrefixChar_dict [OF wf d cl(1,2) l l4(1)])
    let ?suffix = "(Suffix p)(?k := h)" and ?stack = "(Stack p)(0 := h)"
    note d' = dict_ok_suffix [OF d, of h]
    have "int 1 + int (length (str clear es l)) \<le> LZ_MAX_CODE" using len so by simp
    from trace_codes_dict [OF wf d' cl(1,2) l l4(1) this, of ?stack] obtain stack' m where
      t: "trace_codes (Prefix p) ?suffix clear ?stack (int 1) l = Some (stack', int m, uint (hd (str clear es l)))"
      "on_stack stack' m = on_stack ?stack 1 @ rev (tl (str clear es l))" by auto
    have st: "on_stack stack' m @ [h] = rev out" using t(2) nl so by (cases "str clear es l") (simp_all add: on_stack_def h_def)
    note pp = push_and_pop [OF t(1) [folded h_def] st len ln, unfolded kk_def [symmetric]]
    have pp1: "int m < LZ_MAX_CODE" and pp2: "pop_stack (stack'(int m := h)) n (int m + 1) line = Some (int (length out - kk), line @ take kk out)"
      using pp by blast+
    let ?p' = "p\<lparr>Stack := stack'(int m := h), Suffix := ?suffix\<rparr>"
    have "expand_code c l n line 0 p = Some (LzOk (int (length out - kk), line @ take kk out), ?p')"
    proof -
      have "uint h \<le> LZ_MAX_CODE" using uint_lt2p [of h] by (simp add: lz_consts)
      moreover define K where "K = ?k"
      moreover have "RunningCode p = K + 2" using rc by (simp add: K_def)
      ultimately show ?thesis
        using free ck ch t(1) pp1 pp2 cl(3) k unfolding K_def [symmetric]
        by (simp add: expand_code_def Let_def lz_consts h_def [symmetric])
    qed
    moreover have "rev (on_stack (Stack ?p') (length out - kk)) = drop kk out" using pp by (simp add: kk_def)
    ultimately show ?thesis using d' len unfolding out_def [symmetric] Let_def kk_def [symmetric] by (intro exI [of _ ?p']) simp
  qed
qed


text \<open>The decoder between two codes: \<open>last_code\<close> and the arrays hold the reference decoder's state, and the
  codes \<open>cs\<close> are still to be read.\<close>

definition reads :: "int \<Rightarrow> entries \<Rightarrow> int option \<Rightarrow> int list \<Rightarrow> int \<Rightarrow> dpriv \<Rightarrow> u8 list \<Rightarrow> bool" where
  "reads bpp es l cs last_code p R \<longleftrightarrow>
     2 \<le> bpp \<and> bpp \<le> 8 \<and> LZBitsPerPixel p = bpp \<and> ClearCode p = 2 ^ nat bpp \<and> EOFCode p = 2 ^ nat bpp + 1 \<and>
     wf_entries (2 ^ nat bpp) es \<and> dict_ok (2 ^ nat bpp) es (Prefix p) (Suffix p) \<and> good (2 ^ nat bpp) es l cs \<and>
     bpp + 1 \<le> RunningBits p \<and> RunningBits p \<le> 12 \<and> MaxCode1 p = 2 ^ nat (RunningBits p) \<and> RunningCode p \<le> MaxCode1 p \<and>
     (case l of
        None \<Rightarrow> es = [] \<and> last_code = NO_SUCH_CODE \<and> RunningCode p = 2 ^ nat bpp + 2
      | Some x \<Rightarrow> last_code = x \<and> valid (2 ^ nat bpp) es x \<and> RunningCode p = 2 ^ nat bpp + 3 + int (length es) \<and>
          2 ^ nat bpp + 2 + int (length es) \<le> 4095) \<and>
     (\<exists>E. unread p (code_bits (widths bpp (RunningCode p) (RunningBits p) cs) @ E) R)"

lemma clear_range:
  assumes "2 \<le> bpp" "bpp \<le> 8"
  shows "4 \<le> (2 :: int) ^ nat bpp" "(2 :: int) ^ nat bpp \<le> 256" "(2 :: int) ^ nat (bpp + 1) = 2 * 2 ^ nat bpp"
proof -
  have "(2 :: int) ^ 2 \<le> 2 ^ nat bpp" "(2 :: int) ^ nat bpp \<le> 2 ^ 8" using assms by (intro power_increasing; simp)+
  then show "4 \<le> (2 :: int) ^ nat bpp" "(2 :: int) ^ nat bpp \<le> 256" by simp_all
  show "(2 :: int) ^ nat (bpp + 1) = 2 * 2 ^ nat bpp" using assms by (simp add: nat_add_distrib)
qed

lemma unread_cong:
  "Buf p' = Buf p \<Longrightarrow> input p' = input p \<Longrightarrow> CrntShiftDWord p' = CrntShiftDWord p \<Longrightarrow> CrntShiftState p' = CrntShiftState p \<Longrightarrow>
   unread p' B R = unread p B R"
  by (simp add: unread_def pending_def)

text \<open>What a code leaves behind, before it is interpreted.\<close>

lemma reads_input:
  assumes r: "reads bpp es l (c # cs) last_code p R"
  shows "\<exists>p1 E. DGifDecompressInput p = Some (LzOk c, p1) \<and> RunningCode p1 = RunningCode p + 1 \<and> same_dict p p1 \<and>
    (c = 2 ^ nat bpp \<longrightarrow> unread p1 (code_bits (widths bpp (2 ^ nat bpp + 2) (bpp + 1) cs) @ E) R) \<and>
    (c \<noteq> 2 ^ nat bpp \<longrightarrow> unread p1 (code_bits (widths bpp (RunningCode p1) (RunningBits p1) cs) @ E) R \<and>
       bpp + 1 \<le> RunningBits p1 \<and> RunningBits p1 \<le> 12 \<and> MaxCode1 p1 = 2 ^ nat (RunningBits p1) \<and> RunningCode p1 \<le> MaxCode1 p1)"
proof -
  let ?clear = "(2 :: int) ^ nat bpp" and ?w = "nat (RunningBits p)"
  have b: "2 \<le> bpp" "bpp \<le> 8" "bpp + 1 \<le> RunningBits p" "RunningBits p \<le> 12" "MaxCode1 p = 2 ^ ?w" "RunningCode p \<le> 2 ^ ?w"
    using r by (auto simp: reads_def)
  note cl = clear_range [OF b(1,2)]
  have w2: "(2 :: int) ^ nat (bpp + 1) \<le> 2 ^ ?w" using b by (intro power_increasing) auto
  define C W where "C = ?clear" and "W = (2 :: int) ^ ?w"
  have num: "4 \<le> C" "C \<le> 256" "2 * C \<le> W" "RunningCode p \<le> W" using cl b(6) w2 by (simp_all add: C_def W_def)
  have g: "good C es l (c # cs)" and st: "case l of None \<Rightarrow> RunningCode p = C + 2 | Some x \<Rightarrow> RunningCode p = C + 3 + int (length es) \<and> C + 2 + int (length es) \<le> 4095"
    using r by (auto simp: reads_def C_def split: option.splits)
  have "RunningCode p < 4097 \<and> (c \<noteq> C \<longrightarrow> RunningCode p < 4096) \<and> 0 \<le> c \<and> c < W"
  proof (cases "c = C")
    case True
    with num st show ?thesis by (cases l) auto
  next
    case False
    with g st num show ?thesis by (cases l) (simp_all add: valid_def Let_def, linarith)
  qed
  then have rc: "RunningCode p < 4097" "c \<noteq> ?clear \<Longrightarrow> RunningCode p < 4096" and c: "0 \<le> c" "c < 2 ^ ?w"
    unfolding C_def W_def by simp_all
  obtain E where E: "unread p (code_bits (widths bpp (RunningCode p) (RunningBits p) (c # cs)) @ E) R" using r by (auto simp: reads_def)
  let ?rest = "if c = ?clear then widths bpp (?clear + 2) (bpp + 1) cs else widths bpp (RunningCode p + 1) (next_bits (RunningCode p) (RunningBits p)) cs"
  have "unread p (bits_of ?w c @ (code_bits ?rest @ E)) R" using E by simp
  from DGifDecompressInput_unread [OF this _ b(4) c b(5) rc(1)] b obtain p1 where
    p1: "DGifDecompressInput p = Some (LzOk c, p1)" "unread p1 (code_bits ?rest @ E) R" "RunningCode p1 = RunningCode p + 1"
    "RunningBits p1 = (if RunningBits p < 12 then next_bits (RunningCode p) (RunningBits p) else 12)"
    "MaxCode1 p1 = 2 ^ nat (RunningBits p1)" "same_dict p p1" by auto
  have "RunningBits p1 = next_bits (RunningCode p) (RunningBits p)" "RunningCode p1 \<le> MaxCode1 p1" "RunningBits p1 \<le> 12" "bpp + 1 \<le> RunningBits p1"
    if "c \<noteq> ?clear"
  proof -
    have 12: "RunningBits p = 12" if "\<not> RunningBits p < 12" using that b(4) by simp
    show bits: "RunningBits p1 = next_bits (RunningCode p) (RunningBits p)"
      using p1(4) rc(2) [OF that] 12 by (auto simp: next_bits_def)
    show "RunningBits p1 \<le> 12" "bpp + 1 \<le> RunningBits p1" using p1(4) b by (auto simp: next_bits_def)
    show "RunningCode p1 \<le> MaxCode1 p1"
    proof (cases "RunningCode p \<ge> 2 ^ ?w")
      case True
      then have "RunningBits p1 = RunningBits p + 1" using bits by (simp add: next_bits_def)
      then have "MaxCode1 p1 = 2 * 2 ^ ?w" using p1(5) b(1,3) by (simp add: nat_add_distrib)
      moreover have "(1 :: int) \<le> 2 ^ ?w" by simp
      ultimately show ?thesis using p1(3) b(6) by linarith
    next
      case False
      then have "RunningBits p1 = RunningBits p" using bits by (simp add: next_bits_def)
      then show ?thesis using p1(3,5) False by simp
    qed
  qed
  then show ?thesis using p1 by (intro exI [of _ p1] exI [of _ E]) auto
qed

lemma turn_clear:
  assumes r: "reads bpp es l (2 ^ nat bpp # cs) last_code p R"
  shows "\<exists>p'. decompress_turn n line last_code sp p = Some (Inr (line, NO_SUCH_CODE, sp, p')) \<and>
    reads bpp [] None cs NO_SUCH_CODE p' R \<and> Stack p' = Stack p \<and> PixelCount p' = PixelCount p \<and> FileState p' = FileState p"
proof -
  let ?clear = "(2 :: int) ^ nat bpp"
  have b: "2 \<le> bpp" "bpp \<le> 8" and f: "LZBitsPerPixel p = bpp" "ClearCode p = ?clear" "EOFCode p = ?clear + 1" and g: "good ?clear [] None cs"
    using r by (auto simp: reads_def)
  note cl = clear_range [OF b]
  obtain p1 E where p1: "DGifDecompressInput p = Some (LzOk ?clear, p1)" "same_dict p p1"
    "unread p1 (code_bits (widths bpp (?clear + 2) (bpp + 1) cs) @ E) R" using reads_input [OF r] by auto
  define p' where "p' = p1\<lparr>Prefix := (\<lambda>i. if 0 \<le> i \<and> i \<le> LZ_MAX_CODE then NO_SUCH_CODE else Prefix p1 i),
      RunningCode := EOFCode p1 + 1, RunningBits := LZBitsPerPixel p1 + 1, MaxCode1 := 2 ^ nat (LZBitsPerPixel p1 + 1), LastCode := NO_SUCH_CODE\<rparr>"
  have s: "LZBitsPerPixel p1 = bpp" "ClearCode p1 = ?clear" "EOFCode p1 = ?clear + 1" "Stack p1 = Stack p" "PixelCount p1 = PixelCount p"
    "FileState p1 = FileState p" using p1(2) f by (simp_all add: same_dict_def)
  have "decompress_turn n line last_code sp p = Some (Inr (line, NO_SUCH_CODE, sp, p'))"
    using p1(1) s by (simp add: decompress_turn_def p'_def)
  moreover have "unread p' (code_bits (widths bpp (RunningCode p') (RunningBits p') cs) @ E) R"
    using p1(3) s by (simp add: p'_def unread_def pending_def add.commute)
  then have "reads bpp [] None cs NO_SUCH_CODE p' R"
    unfolding reads_def using s b cl g by (auto simp: p'_def dict_ok_def wf_entries_def)
  ultimately show ?thesis using s by (auto simp: p'_def)
qed


definition grown :: "int \<Rightarrow> entries \<Rightarrow> int option \<Rightarrow> int \<Rightarrow> entries" where
  "grown clear es l c = (case l of None \<Rightarrow> es | Some x \<Rightarrow> es @ [new_entry clear es x c])"

lemma dec_grown: "c \<noteq> clear \<Longrightarrow> dec clear es l (c # cs) = str clear (grown clear es l c) c @ dec clear (grown clear es l c) (Some c) cs"
  by (simp add: grown_def Let_def split: option.splits)

lemma reads_add:
  assumes r: "reads bpp es l (c # cs) last_code p R" and c: "c \<noteq> 2 ^ nat bpp"
    and f: "LZBitsPerPixel p2 = bpp" "ClearCode p2 = 2 ^ nat bpp" "EOFCode p2 = 2 ^ nat bpp + 1" "RunningCode p2 = RunningCode p + 1"
      "dict_ok (2 ^ nat bpp) es (Prefix p2) (Suffix p2)" "bpp + 1 \<le> RunningBits p2" "RunningBits p2 \<le> 12"
      "MaxCode1 p2 = 2 ^ nat (RunningBits p2)" "RunningCode p2 \<le> MaxCode1 p2"
      "unread p2 (code_bits (widths bpp (RunningCode p2) (RunningBits p2) cs) @ E) R"
  shows "\<exists>p3. add_entry c last_code p2 = Some p3 \<and> reads bpp (grown (2 ^ nat bpp) es l c) (Some c) cs c p3 R \<and>
    Stack p3 = Stack p2 \<and> PixelCount p3 = PixelCount p2 \<and> FileState p3 = FileState p2"
proof -
  define clear where "clear = (2 :: int) ^ nat bpp"
  note f = f [folded clear_def] and c = c [folded clear_def]
  have b: "2 \<le> bpp" "bpp \<le> 8" and wf: "wf_entries clear es" and g: "good clear es l (c # cs)"
    using r by (auto simp: reads_def clear_def)
  have cl: "4 \<le> clear" "clear \<le> 256" using clear_range [OF b] by (simp_all add: clear_def)
  show ?thesis
  proof (cases l)
    case None
    have n: "es = []" "last_code = NO_SUCH_CODE" "RunningCode p = clear + 2" using r None by (auto simp: reads_def clear_def)
    have cc: "0 \<le> c" "c < clear" "good clear es (Some c) cs" using g None c by auto
    have "add_entry c last_code p2 = Some p2" using n by (simp add: add_entry_def)
    moreover have "reads bpp es (Some c) cs c p2 R"
      unfolding reads_def clear_def [symmetric] using f cc n wf b cl by (auto simp: valid_def)
    ultimately show ?thesis using None by (simp add: grown_def)
  next
    case (Some x)
    let ?es = "es @ [new_entry clear es x c]"
    have n: "last_code = x" "valid clear es x" "RunningCode p = clear + 3 + int (length es)" using r Some by (auto simp: reads_def clear_def)
    have cc: "valid clear ?es c" "clear + 2 + int (length ?es) \<le> 4095" "good clear ?es (Some c) cs" using g Some c by (auto simp: Let_def)
    have rc: "RunningCode p2 - 2 = clear + 2 + int (length es)" "RunningCode p2 - 2 \<le> LZ_MAX_CODE" using f(4) n(3) cc(2) by (auto simp: lz_consts)
    obtain p3 where p3: "add_entry c x p2 = Some p3" "dict_ok clear ?es (Prefix p3) (Suffix p3)" and eq: "p3 = p2\<lparr>Prefix := Prefix p3, Suffix := Suffix p3\<rparr>"
      using add_entry_dict [OF wf f(5) _ cl(2) f(2) n(2) rc cc(1)] cl by auto
    have s: "LZBitsPerPixel p3 = LZBitsPerPixel p2" "ClearCode p3 = ClearCode p2" "EOFCode p3 = EOFCode p2" "RunningCode p3 = RunningCode p2"
      "RunningBits p3 = RunningBits p2" "MaxCode1 p3 = MaxCode1 p2" "Stack p3 = Stack p2" "PixelCount p3 = PixelCount p2" "FileState p3 = FileState p2"
      "Buf p3 = Buf p2" "input p3 = input p2" "CrntShiftDWord p3 = CrntShiftDWord p2" "CrntShiftState p3 = CrntShiftState p2"
      by (subst eq, simp)+
    have u: "unread p3 (code_bits (widths bpp (RunningCode p3) (RunningBits p3) cs) @ E) R"
      using f(10) unread_cong [OF s(10-13)] unfolding s(4,5) by simp
    have "wf_entries clear ?es" using wf n(2) by (simp add: wf_entries_snoc new_entry_def)
    then have "reads bpp ?es (Some c) cs c p3 R"
      unfolding reads_def clear_def [symmetric] using u b p3(2) cc f n s(1-6) by auto
    then show ?thesis using Some p3(1) n(1) s by (simp add: grown_def clear_def)
  qed
qed

lemma same_dict_fields:
  "same_dict p q \<Longrightarrow> LZBitsPerPixel q = LZBitsPerPixel p" "same_dict p q \<Longrightarrow> ClearCode q = ClearCode p" "same_dict p q \<Longrightarrow> EOFCode q = EOFCode p"
  "same_dict p q \<Longrightarrow> Prefix q = Prefix p" "same_dict p q \<Longrightarrow> Suffix q = Suffix p" "same_dict p q \<Longrightarrow> Stack q = Stack p"
  "same_dict p q \<Longrightarrow> PixelCount q = PixelCount p" "same_dict p q \<Longrightarrow> FileState q = FileState p"
  by (simp_all add: same_dict_def)

text \<open>A code that is not the clear code: its string goes to the line, and what does not fit stays on the stack.\<close>

lemma turn_code:
  assumes r: "reads bpp es l (c # cs) last_code p R" and c: "c \<noteq> 2 ^ nat bpp" and ln: "int (length line) < n"
  shows "\<exists>p' k. let es' = grown (2 ^ nat bpp) es l c; out = str (2 ^ nat bpp) es' c in
    decompress_turn n line last_code 0 p = Some (Inr (line @ take k out, c, int (length out - k), p')) \<and>
    k = min (length out) (nat (n - int (length line))) \<and> int (length out) \<le> LZ_MAX_CODE \<and>
    reads bpp es' (Some c) cs c p' R \<and> rev (on_stack (Stack p') (length out - k)) = drop k out \<and>
    PixelCount p' = PixelCount p \<and> FileState p' = FileState p"
proof -
  define clear where "clear = (2 :: int) ^ nat bpp"
  note c = c [folded clear_def]
  have b: "2 \<le> bpp" "bpp \<le> 8" and wf: "wf_entries clear es" and g: "good clear es l (c # cs)" and d: "dict_ok clear es (Prefix p) (Suffix p)"
    and f: "LZBitsPerPixel p = bpp" "ClearCode p = clear" "EOFCode p = clear + 1"
    using r by (auto simp: reads_def clear_def)
  have cl: "4 \<le> clear" "clear \<le> 256" using clear_range [OF b] by (simp_all add: clear_def)
  define es' out k where "es' = grown clear es l c" and "out = str clear es' c" and "k = min (length out) (nat (n - int (length line)))"
  obtain p1 E where p1: "DGifDecompressInput p = Some (LzOk c, p1)" "RunningCode p1 = RunningCode p + 1" "same_dict p p1"
    "unread p1 (code_bits (widths bpp (RunningCode p1) (RunningBits p1) cs) @ E) R"
    "bpp + 1 \<le> RunningBits p1" "RunningBits p1 \<le> 12" "MaxCode1 p1 = 2 ^ nat (RunningBits p1)" "RunningCode p1 \<le> MaxCode1 p1"
    using reads_input [OF r] c by (auto simp: clear_def)
  note s = same_dict_fields [OF p1(3)]
  have f1: "LZBitsPerPixel p1 = bpp" "ClearCode p1 = clear" "EOFCode p1 = clear + 1" "dict_ok clear es (Prefix p1) (Suffix p1)" using s f d by simp_all
  have ne: "c \<noteq> clear + 1" using g c by (cases l) (auto simp: valid_def Let_def)
  have turn: "decompress_turn n line last_code 0 p = Some (Inr (line', c, sp', p3))"
    if "(if c < clear then Some (LzOk (0, line @ [of_int c]), p1) else expand_code c last_code n line 0 p1) = Some (LzOk (sp', line'), p2)"
      "add_entry c last_code p2 = Some p3" for line' sp' p2 p3
    using p1(1) ne c that f1(2,3) by (cases "c < clear") (simp_all add: decompress_turn_def)
  show ?thesis
  proof (cases "c < clear")
    case True
    have out: "out = [of_int c]" by (simp add: out_def str_pixel [OF True])
    have k: "k = 1" using ln by (simp add: k_def out)
    obtain p3 where p3: "add_entry c last_code p1 = Some p3" "reads bpp es' (Some c) cs c p3 R" "PixelCount p3 = PixelCount p1" "FileState p3 = FileState p1"
      using reads_add [OF r _ f1(1) _ _ p1(2) _ p1(5-8,4)] c f1 unfolding clear_def es'_def by auto
    have "decompress_turn n line last_code 0 p = Some (Inr (line @ take k out, c, int (length out - k), p3))"
      using turn [OF _ p3(1)] True by (simp add: out k)
    then show ?thesis
      unfolding Let_def clear_def [symmetric] es'_def [symmetric] out_def [symmetric]
      using p3(2-4) s out k by (intro exI [of _ p3] exI [of _ k]) (simp add: k_def lz_consts on_stack_def)
  next
    case False
    with c g obtain x where l: "l = Some x" by (cases l) auto
    have n: "last_code = x" "valid clear es x" "RunningCode p = clear + 3 + int (length es)" using r l by (auto simp: reads_def clear_def)
    have es': "es' = es @ [new_entry clear es x c]" by (simp add: es'_def grown_def l)
    have cc: "valid clear es' c" "clear + 2 + int (length es') \<le> 4095" using g c l by (auto simp: Let_def es')
    have rc: "RunningCode p1 - 2 = clear + 2 + int (length es)" "RunningCode p1 - 2 \<le> 4094" using n(3) p1(2) cc(2) by (auto simp: es')
    obtain p2 where p2: "expand_code c x n line 0 p1 = Some (LzOk (int (length out - k), line @ take k out), p2)"
      "rev (on_stack (Stack p2) (length out - k)) = drop k out" "int (length out) \<le> LZ_MAX_CODE" "dict_ok clear es (Prefix p2) (Suffix p2)"
      and eq: "p2 = p1\<lparr>Stack := Stack p2, Suffix := Suffix p2\<rparr>"
      using expand_code_dict [OF wf f1(4) _ cl(2) f1(2) n(2) rc cc(1) [unfolded es'], of line n] False ln cl
      unfolding es' [symmetric] Let_def out_def [symmetric] k_def [symmetric] by auto
    have s2: "LZBitsPerPixel p2 = LZBitsPerPixel p1" "ClearCode p2 = ClearCode p1" "EOFCode p2 = EOFCode p1" "RunningCode p2 = RunningCode p1"
      "RunningBits p2 = RunningBits p1" "MaxCode1 p2 = MaxCode1 p1" "PixelCount p2 = PixelCount p1" "FileState p2 = FileState p1"
      "Buf p2 = Buf p1" "input p2 = input p1" "CrntShiftDWord p2 = CrntShiftDWord p1" "CrntShiftState p2 = CrntShiftState p1"
      by (subst eq, simp)+
    have u: "unread p2 (code_bits (widths bpp (RunningCode p2) (RunningBits p2) cs) @ E) R"
      using p1(4) unread_cong [OF s2(9-12)] unfolding s2(4,5) by simp
    obtain p3 where p3: "add_entry c last_code p2 = Some p3" "reads bpp es' (Some c) cs c p3 R" "Stack p3 = Stack p2" "PixelCount p3 = PixelCount p2" "FileState p3 = FileState p2"
      using reads_add [OF r _ _ _ _ _ _ _ _ _ _ u] c f1 p1(2,5-8) p2(4) s2(1-6) unfolding clear_def es'_def by auto
    have "decompress_turn n line last_code 0 p = Some (Inr (line @ take k out, c, int (length out - k), p3))"
      using turn [OF _ p3(1)] p2(1) False n(1) by simp
    then show ?thesis
      unfolding Let_def clear_def [symmetric] es'_def [symmetric] out_def [symmetric]
      using p3(2-5) s s2(7,8) p2(2,3) by (intro exI [of _ p3] exI [of _ k]) (simp add: k_def)
  qed
qed


text \<open>The loop fills the line; the pixels after it are on the stack or in the codes not read yet.\<close>

lemma decompress_loop_reads:
  assumes "reads bpp es l cs last_code p R" "sp = 0 \<or> length line = n" "int sp \<le> LZ_MAX_CODE" "length line \<le> n"
    "n \<le> length (line @ rev (on_stack (Stack p) sp) @ dec (2 ^ nat bpp) es l cs)"
  shows "\<exists>line' last' sp' p' es' l' cs'. decompress_loop (int n) line last_code (int sp) p = Some (Inr (line', last', int sp', p')) \<and>
    length line' = n \<and> reads bpp es' l' cs' last' p' R \<and> int sp' \<le> LZ_MAX_CODE \<and>
    line' @ rev (on_stack (Stack p') sp') @ dec (2 ^ nat bpp) es' l' cs' = line @ rev (on_stack (Stack p) sp) @ dec (2 ^ nat bpp) es l cs \<and>
    PixelCount p' = PixelCount p \<and> FileState p' = FileState p"
  using assms
proof (induction cs arbitrary: es l last_code p sp line)
  case Nil
  then have "length line = n" by (auto simp: on_stack_def)
  then have "decompress_loop (int n) line last_code (int sp) p = Some (Inr (line, last_code, int sp, p))"
    by (subst decompress_loop.simps) simp
  with Nil \<open>length line = n\<close> show ?case by blast
next
  case (Cons c cs)
  let ?clear = "(2 :: int) ^ nat bpp"
  show ?case
  proof (cases "length line < n")
    case False
    then have "length line = n" using Cons.prems by simp
    then have "decompress_loop (int n) line last_code (int sp) p = Some (Inr (line, last_code, int sp, p))"
      by (subst decompress_loop.simps) simp
    with Cons.prems \<open>length line = n\<close> show ?thesis by blast
  next
    case True
    then have sp: "sp = 0" using Cons.prems(2) by simp
    have step: "decompress_loop (int n) line last_code (int sp) p = decompress_loop (int n) line' last' sp' p'"
      if "decompress_turn (int n) line last_code 0 p = Some (Inr (line', last', sp', p'))" for line' last' sp' p'
      using True that sp by (subst decompress_loop.simps) simp
    show ?thesis
    proof (cases "c = ?clear")
      case True
      obtain p' where p': "decompress_turn (int n) line last_code 0 p = Some (Inr (line, NO_SUCH_CODE, 0, p'))"
        "reads bpp [] None cs NO_SUCH_CODE p' R" "PixelCount p' = PixelCount p" "FileState p' = FileState p"
        using turn_clear Cons.prems(1) True by blast
      have d: "dec ?clear es l (c # cs) = dec ?clear [] None cs" using True by simp
      from Cons.IH [OF p'(2), of 0 line] Cons.prems(4,5) show ?thesis
        using step [OF p'(1)] p'(3,4) sp unfolding d by (simp add: on_stack_def lz_consts)
    next
      case False
      define es' out where "es' = grown ?clear es l c" and "out = str ?clear es' c"
      obtain p' k where p': "decompress_turn (int n) line last_code 0 p = Some (Inr (line @ take k out, c, int (length out - k), p'))"
        "k = min (length out) (n - length line)" "int (length out) \<le> LZ_MAX_CODE" "reads bpp es' (Some c) cs c p' R"
        "rev (on_stack (Stack p') (length out - k)) = drop k out" "PixelCount p' = PixelCount p" "FileState p' = FileState p"
        using turn_code [OF Cons.prems(1) False, of line "int n"] True
        unfolding Let_def es'_def [symmetric] out_def [symmetric] by (auto simp: nat_diff_distrib')
      have d: "dec ?clear es l (c # cs) = out @ dec ?clear es' (Some c) cs" unfolding es'_def out_def by (rule dec_grown [OF False])
      have all: "(line @ take k out) @ rev (on_stack (Stack p') (length out - k)) @ dec ?clear es' (Some c) cs =
          line @ rev (on_stack (Stack p) sp) @ dec ?clear es l (c # cs)"
        unfolding p'(5) d sp by (simp add: on_stack_def)
      have "length out - k = 0 \<or> length (line @ take k out) = n" "int (length out - k) \<le> LZ_MAX_CODE" "length (line @ take k out) \<le> n"
        using p'(2,3) True by auto
      from Cons.IH [OF p'(4) this] Cons.prems(5) show ?thesis
        using step [OF p'(1)] p'(6,7) unfolding all by simp
    qed
  qed
qed

text \<open>The decoder between two lines: the pixels \<open>px\<close> of the image are still to come, and \<open>R\<close> follows the image.\<close>

definition holding :: "int \<Rightarrow> u8 list \<Rightarrow> dpriv \<Rightarrow> u8 list \<Rightarrow> bool" where
  "holding bpp px p R \<longleftrightarrow> (\<exists>es l cs sp. reads bpp es l cs (LastCode p) p R \<and> StackPtr p = int sp \<and> int sp \<le> LZ_MAX_CODE \<and>
     rev (on_stack (Stack p) sp) @ dec (2 ^ nat bpp) es l cs = px)"

lemma reads_frame [simp]:
  "reads bpp es l cs x (p\<lparr>LastCode := a, StackPtr := b\<rparr>) R = reads bpp es l cs x p R"
  "reads bpp es l cs x (p\<lparr>PixelCount := m\<rparr>) R = reads bpp es l cs x p R"
  by (cases l; simp add: reads_def unread_def pending_def)+

lemma holding_PixelCount [simp]: "holding bpp px (p\<lparr>PixelCount := m\<rparr>) R = holding bpp px p R"
  by (simp add: holding_def)

lemma DGifDecompressLine_holding:
  assumes "holding bpp px p R" "n \<le> length px"
  shows "\<exists>p'. DGifDecompressLine (int n) p = Some (LzOk (), take n px, p') \<and> holding bpp (drop n px) p' R \<and>
    PixelCount p' = PixelCount p \<and> FileState p' = FileState p"
proof -
  let ?clear = "(2 :: int) ^ nat bpp"
  obtain es l cs sp where h: "reads bpp es l cs (LastCode p) p R" "StackPtr p = int sp" "int sp \<le> LZ_MAX_CODE"
    "rev (on_stack (Stack p) sp) @ dec ?clear es l cs = px" using assms(1) by (auto simp: holding_def)
  define k where "k = min sp n"
  define line where "line = take k (rev (on_stack (Stack p) sp))"
  have pop: "(if StackPtr p \<noteq> 0 then pop_stack (Stack p) (int n) (StackPtr p) [] else Some (StackPtr p, [])) = Some (int (sp - k), line)"
    using pop_stack_list [of sp "[]" "int n" "Stack p"] h(2,3) by (simp add: k_def line_def Let_def on_stack_def)
  have ln: "length line = k" by (simp add: line_def k_def)
  have "take (sp - k) (on_stack (Stack p) sp) = on_stack (Stack p) (sp - k)" by (rule on_stack_take [symmetric]) simp
  then have "rev (on_stack (Stack p) (sp - k)) = drop k (rev (on_stack (Stack p) sp))" by (simp add: drop_rev)
  then have all: "line @ rev (on_stack (Stack p) (sp - k)) @ dec ?clear es l cs = px" using h(4) unfolding line_def by (metis append_assoc append_take_drop_id)
  have "sp - k = 0 \<or> length line = n" "int (sp - k) \<le> LZ_MAX_CODE" "length line \<le> n" using ln h(3) by (auto simp: k_def)
  from decompress_loop_reads [OF h(1) this, unfolded all, OF assms(2)] obtain line' last' sp' p' es' l' cs' where
    w: "decompress_loop (int n) line (LastCode p) (int (sp - k)) p = Some (Inr (line', last', int sp', p'))"
    "length line' = n" "reads bpp es' l' cs' last' p' R" "int sp' \<le> LZ_MAX_CODE"
    "line' @ rev (on_stack (Stack p') sp') @ dec ?clear es' l' cs' = px" "PixelCount p' = PixelCount p" "FileState p' = FileState p" by blast
  have "DGifDecompressLine (int n) p = Some (LzOk (), line', p'\<lparr>LastCode := last', StackPtr := int sp'\<rparr>)"
    unfolding DGifDecompressLine_def pop using w(1) h(2,3) by simp
  moreover have "line' = take n px" "rev (on_stack (Stack p') sp') @ dec ?clear es' l' cs' = drop n px"
    using w(2,5) by auto
  ultimately show ?thesis
    using w(3,4,6,7) unfolding holding_def by (intro exI [of _ "p'\<lparr>LastCode := last', StackPtr := int sp'\<rparr>"]) auto
qed

lemma skip_blocks_pending:
  assumes "input p = sub_blocks Y @ R"
  shows "\<exists>p'. skip_blocks p = Some (LzOk (), p') \<and> input p' = R \<and> PixelCount p' = 0 \<and> FileState p' = FileState p"
  using assms
proof (induction "length Y" arbitrary: Y p rule: less_induct)
  case less
  show ?case
  proof (cases "Y = []")
    case True
    then show ?thesis using less.prems
      by (subst skip_blocks.simps) (simp add: DGifGetCodeNext_def READ_def)
  next
    case False
    define n where "n = min 255 (length Y)"
    have n: "0 < n" "n < 256" "n \<le> length Y" "drop 255 Y = drop n Y" using False by (auto simp: n_def min_def)
    have inp: "input p = of_nat n # take n Y @ (sub_blocks (drop n Y) @ R)"
      unfolding less.prems sub_blocks_block [OF False] n_def [symmetric] n(4) by (simp only: append_Cons append_assoc)
    have ln: "length (take n Y) = n" using n by simp
    have c0: "(0 :: u8) < of_nat n" using of_nat_u8_eq_0 [of n] n by (simp add: word_greater_zero_iff)
    have rd: "take n (take n Y @ (sub_blocks (drop n Y) @ R)) = take n Y"
      "drop n (take n Y @ (sub_blocks (drop n Y) @ R)) = sub_blocks (drop n Y) @ R" using n by simp_all
    obtain buf where pb: "put_bytes 256 ((Buf p)(0 := of_nat n)) 1 (take n Y) = Some buf" using n by (auto simp: put_bytes_def)
    let ?p1 = "p\<lparr>input := sub_blocks (drop n Y) @ R, Buf := buf\<rparr>"
    have "DGifGetCodeNext p = Some (LzOk (Some (take n Y)), ?p1)"
      using inp c0 pb rd ln unat_of_nat_u8 [OF n(2)]
      by (simp add: DGifGetCodeNext_def READ_def Let_def del: length_take take_append drop_append)
    then have "skip_blocks p = skip_blocks ?p1" by (subst skip_blocks.simps) simp
    then show ?thesis using less.hyps [of "drop n Y" ?p1] n(1,3) by simp
  qed
qed

lemma holding_input: "holding bpp px p R \<Longrightarrow> \<exists>Y. input p = sub_blocks Y @ R"
  by (auto simp: holding_def reads_def unread_def pending_def)


lemma DGifSetupDecompress_holding:
  assumes inp: "input p = of_int bpp # sub_blocks Y @ R" and Y: "byte_bits Y = code_bits (image_codes bpp px) @ pad"
    and bpp: "2 \<le> bpp" "bpp \<le> 8" and px: "px \<noteq> []" "\<forall>b \<in> set px. uint b < 2 ^ nat bpp"
  shows "\<exists>p'. DGifSetupDecompress p = Some (LzOk (), p') \<and> holding bpp px p' R \<and> PixelCount p' = PixelCount p \<and> FileState p' = FileState p"
proof -
  define clear where "clear = (2 :: int) ^ nat bpp"
  have cl: "4 \<le> clear" "clear \<le> 256" "(2 :: int) ^ nat (bpp + 1) = 2 * clear" using clear_range [OF bpp] by (simp_all add: clear_def)
  have u: "uint (of_int bpp :: u8) = bpp" using bpp by (simp add: uint_word_of_int_eq take_bit_int_eq_self)
  define cs where "cs = clear # enc clear [] (uint (hd px)) (tl px)"
  obtain b ps where bps: "px = b # ps" using px(1) by (cases px) auto
  have pix: "\<forall>x \<in> set (b # ps). uint x < clear" using px(2) bps by (simp add: clear_def)
  have g: "good clear [] None cs" "dec clear [] None cs = px"
    using good_enc [OF _ cl(2) pix] dec_enc [OF _ cl(2) pix] cl(1) bps by (simp_all add: cs_def)
  define p' where "p' = p\<lparr>input := sub_blocks Y @ R, Buf := (Buf p)(0 := 0), LZBitsPerPixel := bpp, ClearCode := clear, EOFCode := clear + 1,
      RunningCode := clear + 2, RunningBits := bpp + 1, MaxCode1 := 2 ^ nat (bpp + 1), StackPtr := 0, LastCode := NO_SUCH_CODE,
      CrntShiftState := 0, CrntShiftDWord := 0, Prefix := (\<lambda>i. if 0 \<le> i \<and> i \<le> LZ_MAX_CODE then NO_SUCH_CODE else Prefix p i)\<rparr>"
  have run: "DGifSetupDecompress p = Some (LzOk (), p')"
    using inp bpp u by (simp add: DGifSetupDecompress_def READ_def p'_def clear_def Let_def cong: if_cong)
  have pend: "pending p' Y R" unfolding pending_def by (rule exI [of _ "[]"], rule exI [of _ Y]) (simp add: p'_def)
  obtain rc w where ws: "width_state bpp (clear + 2) (bpp + 1) cs = (rc, w)" by fastforce
  have "image_codes bpp px = widths bpp (clear + 2) (bpp + 1) cs @ widths bpp rc w [clear + 1]"
    using widths_append [OF ws, of "[clear + 1]"] by (simp add: image_codes_def cs_def clear_def del: widths.simps)
  then have "unread p' (code_bits (widths bpp (RunningCode p') (RunningBits p') cs) @ (code_bits (widths bpp rc w [clear + 1]) @ pad)) R"
    unfolding unread_def using Y pend
    by (intro exI [of _ Y]) (auto simp: p'_def bits_of_def simp del: widths.simps)
  moreover have "4 * 1 \<le> clear" using cl by simp
  ultimately have "reads bpp [] None cs (LastCode p') p' R"
    unfolding reads_def clear_def [symmetric] using bpp g(1) cl
    by (auto simp: p'_def wf_entries_def dict_ok_def)
  then have "holding bpp px p' R"
    unfolding holding_def clear_def [symmetric] using g(2)
    by (intro exI [of _ "[]"] exI [of _ None] exI [of _ cs] exI [of _ 0]) (simp add: p'_def on_stack_def lz_consts)
  with run show ?thesis by (auto simp: p'_def)
qed

lemma DGifGetLine_holding:
  assumes h: "holding bpp px p R" and rd: "IS_READABLE p" and n: "0 < n" "n \<le> length px" and pc: "PixelCount p = of_nat (length px)"
    and big: "length px \<le> 0xffff0000"
  shows "\<exists>p'. DGifGetLine width (int n) p = Some (LzOk (), take n px, p') \<and> FileState p' = FileState p \<and> PixelCount p' = of_nat (length px - n) \<and>
    (if n = length px then input p' = R else holding bpp (drop n px) p' R)"
proof -
  define m where "m = length px - n"
  define p1 where "p1 = p\<lparr>PixelCount := PixelCount p - of_int (int n)\<rparr>"
  have pc1: "PixelCount p1 = of_nat m" using pc n by (simp add: p1_def m_def of_nat_diff)
  have um: "unat (of_nat m :: u32) = m" using big n(1) by (simp add: m_def unat_of_nat take_bit_nat_eq_self)
  have small: "\<not> PixelCount p1 > 0xffff0000" unfolding pc1 word_less_nat_alt um using big by (simp add: m_def)
  have z: "(of_nat m :: u32) = 0 \<longleftrightarrow> n = length px" using um n by (metis m_def diff_is_0_eq diff_self_eq_0 le_antisym unat_eq_zero)
  have "holding bpp px p1 R" using h by (simp add: p1_def)
  from DGifDecompressLine_holding [OF this n(2)] obtain p2 where
    p2: "DGifDecompressLine (int n) p1 = Some (LzOk (), take n px, p2)" "holding bpp (drop n px) p2 R" "PixelCount p2 = of_nat m"
    "FileState p2 = FileState p1" using pc1 by auto
  have run: "DGifGetLine width (int n) p = (if of_nat m = (0 :: u32)
      then do { (r', p3) \<leftarrow> skip_blocks p2; Some (r', take n px, p3) } else Some (LzOk (), take n px, p2))"
    using rd n(1) small p2(1,3) unfolding DGifGetLine_def Let_def p1_def [symmetric] by (auto simp: p1_def)
  show ?thesis
  proof (cases "n = length px")
    case True
    obtain Y where "input p2 = sub_blocks Y @ R" using holding_input [OF p2(2)] by blast
    then obtain p3 where "skip_blocks p2 = Some (LzOk (), p3)" "input p3 = R" "PixelCount p3 = 0" "FileState p3 = FileState p2"
      using skip_blocks_pending by blast
    with True run z p2(4) show ?thesis by (simp add: p1_def)
  next
    case False
    with run z p2 show ?thesis by (simp add: p1_def m_def)
  qed
qed

end
