(* ===== verification/DGifFile.thy ===== *)
theory DGifFile
  imports DGif
begin

text \<open>
  The routines of \<open>dgif_lib.c\<close> that act on the whole file: opening, the screen and image
  descriptors, reading everything (\<open>DGifSlurp\<close>) and closing.  The proofs show that no input makes
  them leave their arrays or run forever, and that closing gives back every block.
\<close>

section \<open>Descriptors\<close>

text \<open>A private routine called on the file: its error code, if any, goes to \<open>GifFile->Error\<close>.\<close>

definition fail_with :: "int option \<Rightarrow> dgif \<Rightarrow> dgif" where
  "fail_with e g = (case e of None \<Rightarrow> g | Some c \<Rightarrow> g\<lparr>Error := c\<rparr>)"

text \<open>The loop that reads \<open>k\<close> colours; \<open>None\<close> when the input ends.\<close>

fun read_colors :: "nat \<Rightarrow> GifColorType list \<Rightarrow> dpriv \<Rightarrow> GifColorType list option \<times> dpriv" where
  "read_colors 0 acc p = (Some acc, p)"
| "read_colors (Suc k) acc p =
     (case READ 3 p of
        ([r, g, b], p') \<Rightarrow> read_colors k (acc @ [\<lparr>Red = r, Green = g, Blue = b\<rparr>]) p'
      | (_, p') \<Rightarrow> (None, p'))"

definition DGifGetScreenDesc :: "dgif \<Rightarrow> (gif_status \<times> dgif) option" where
  "DGifGetScreenDesc g =
     (if \<not> IS_READABLE (Private g) then Some (GIF_ERROR, g\<lparr>Error := D_GIF_ERR_NOT_READABLE\<rparr>)
      else case DGifGetWord (Private g) of
        (LzFail e, p1) \<Rightarrow> Some (GIF_ERROR, fail_with e (g\<lparr>Private := p1\<rparr>))
      | (LzOk w, p1) \<Rightarrow> (case DGifGetWord p1 of
          (LzFail e, p2) \<Rightarrow> Some (GIF_ERROR, fail_with e (g\<lparr>SWidth := w, Private := p2\<rparr>))
        | (LzOk h, p2) \<Rightarrow>
            let g2 = g\<lparr>SWidth := w, SHeight := h\<rparr> in
            (case READ 3 p2 of
               ([b0, b1, b2], p3) \<Rightarrow>
                 let g3 = g2\<lparr>Private := p3, SColorResolution := uint (drop_bit 4 ((b0 AND 0x70) + 1)) + 1,
                             SBackGroundColor := uint b1, AspectByte := b2\<rparr>
                 in if b0 AND 0x80 \<noteq> 0 then
                      do { (m, hp) \<leftarrow> GifMakeMapObject (2 ^ (unat (b0 AND 0x07) + 1)) None (gheap g3);
                           case m of
                             None \<Rightarrow> Some (GIF_ERROR, g3\<lparr>gheap := hp, SColorMap := None, Error := D_GIF_ERR_NOT_ENOUGH_MEM\<rparr>)
                           | Some cm \<Rightarrow>
                               (case read_colors (nat (ColorCount cm)) [] p3 of
                                  (None, p4) \<Rightarrow>
                                    Some (GIF_ERROR, g3\<lparr>Private := p4, gheap := GifFreeMapObject m hp, SColorMap := None,
                                                         Error := D_GIF_ERR_READ_FAILED\<rparr>)
                                | (Some cs, p4) \<Rightarrow>
                                    Some (GIF_OK, g3\<lparr>Private := p4, gheap := hp,
                                       SColorMap := Some (cm\<lparr>SortFlag := (b0 AND 0x08 \<noteq> 0), Colors := cs\<rparr>)\<rparr>)) }
                    else Some (GIF_OK, g3\<lparr>SColorMap := None\<rparr>)
             | (_, p3) \<Rightarrow>
                 Some (GIF_ERROR, g2\<lparr>Private := p3, gheap := GifFreeMapObject (SColorMap g2) (gheap g2),
                                     SColorMap := None, Error := D_GIF_ERR_READ_FAILED\<rparr>))))"

datatype GifRecordType =
    UNDEFINED_RECORD_TYPE | SCREEN_DESC_RECORD_TYPE | IMAGE_DESC_RECORD_TYPE
  | EXTENSION_RECORD_TYPE | TERMINATE_RECORD_TYPE

definition DGifGetRecordType :: "dgif \<Rightarrow> gif_status \<times> GifRecordType \<times> dgif" where
  "DGifGetRecordType g =
     (if \<not> IS_READABLE (Private g)
      then (GIF_ERROR, UNDEFINED_RECORD_TYPE, g\<lparr>Error := D_GIF_ERR_NOT_READABLE\<rparr>)
      else case READ 1 (Private g) of
        ([], p) \<Rightarrow> (GIF_ERROR, UNDEFINED_RECORD_TYPE, g\<lparr>Private := p, Error := D_GIF_ERR_READ_FAILED\<rparr>)
      | (b # _, p) \<Rightarrow>
          if b = 0x2c then (GIF_OK, IMAGE_DESC_RECORD_TYPE, g\<lparr>Private := p\<rparr>)
          else if b = 0x21 then (GIF_OK, EXTENSION_RECORD_TYPE, g\<lparr>Private := p\<rparr>)
          else if b = 0x3b then (GIF_OK, TERMINATE_RECORD_TYPE, g\<lparr>Private := p\<rparr>)
          else (GIF_ERROR, UNDEFINED_RECORD_TYPE, g\<lparr>Private := p, Error := D_GIF_ERR_WRONG_RECORD\<rparr>))"

text \<open>The four words of the image descriptor, stored as they are read.\<close>

definition read_image_words :: "GifImageDesc \<Rightarrow> dpriv \<Rightarrow> int option lz_result \<times> GifImageDesc \<times> dpriv" where
  "read_image_words d p =
     (case DGifGetWord p of
        (LzFail e, p1) \<Rightarrow> (LzFail e, d, p1)
      | (LzOk l, p1) \<Rightarrow> let d1 = d\<lparr>Left := l\<rparr> in (case DGifGetWord p1 of
        (LzFail e, p2) \<Rightarrow> (LzFail e, d1, p2)
      | (LzOk t, p2) \<Rightarrow> let d2 = d1\<lparr>Top := t\<rparr> in (case DGifGetWord p2 of
        (LzFail e, p3) \<Rightarrow> (LzFail e, d2, p3)
      | (LzOk w, p3) \<Rightarrow> let d3 = d2\<lparr>Width := w\<rparr> in (case DGifGetWord p3 of
        (LzFail e, p4) \<Rightarrow> (LzFail e, d3, p4)
      | (LzOk h, p4) \<Rightarrow> (LzOk None, d3\<lparr>Height := h\<rparr>, p4)))))"

text \<open>The image's entry in \<open>SavedImages\<close> and the set-up of the decoder, when the descriptor is in
  \<open>GifFile->Image\<close>.\<close>

definition append_image :: "dgif \<Rightarrow> (gif_status \<times> dgif) option" where
  "append_image g =
     (let c = ImageCount g;
          (ok, h1) = (case SavedImages g of
              None \<Rightarrow> malloc 36 (gheap g)
            | Some _ \<Rightarrow> reallocarray True (of_int (c + 1)) 36 (gheap g));
          arr = (case SavedImages g of None \<Rightarrow> [zero_image] | Some xs \<Rightarrow> resize (nat (c + 1)) zero_image xs)
      in if \<not> ok then Some (GIF_ERROR, g\<lparr>gheap := h1, Error := D_GIF_ERR_NOT_ENOUGH_MEM\<rparr>)
         else do {
           (m, h2) \<leftarrow> (case ColorMap (Image g) of
               None \<Rightarrow> Some (None, h1)
             | Some cm \<Rightarrow> GifMakeMapObject (ColorCount cm) (Some (Colors cm)) h1);
           let sp = zero_image\<lparr>ImageDesc := (Image g)\<lparr>ColorMap := m\<rparr>\<rparr>;
           arr' \<leftarrow> lwrite arr c sp;
           let g1 = g\<lparr>SavedImages := Some arr', gheap := h2\<rparr>;
           if ColorMap (Image g) \<noteq> None \<and> m = None
           then Some (GIF_ERROR, g1\<lparr>Error := D_GIF_ERR_NOT_ENOUGH_MEM\<rparr>)
           else do {
             let p = (Private g)\<lparr>PixelCount := of_int (Width (Image g)) * of_int (Height (Image g))\<rparr>;
             (r, p') \<leftarrow> DGifSetupDecompress p;
             let g2 = g1\<lparr>ImageCount := c + 1, Private := p'\<rparr>;
             Some (case r of LzFail e \<Rightarrow> (GIF_ERROR, fail_with e g2) | LzOk _ \<Rightarrow> (GIF_OK, g2)) } })"

definition DGifGetImageDesc :: "dgif \<Rightarrow> (gif_status \<times> dgif) option" where
  "DGifGetImageDesc g =
     (if \<not> IS_READABLE (Private g) then Some (GIF_ERROR, g\<lparr>Error := D_GIF_ERR_NOT_READABLE\<rparr>)
      else case read_image_words (Image g) (Private g) of
        (LzFail e, d, p) \<Rightarrow> Some (GIF_ERROR, fail_with e (g\<lparr>Image := d, Private := p\<rparr>))
      | (LzOk _, d, p) \<Rightarrow>
          (case READ 1 p of
             ([], p1) \<Rightarrow>
               Some (GIF_ERROR, g\<lparr>Private := p1, Image := d\<lparr>ColorMap := None\<rparr>,
                                  gheap := GifFreeMapObject (ColorMap d) (gheap g), Error := D_GIF_ERR_READ_FAILED\<rparr>)
           | (b # _, p1) \<Rightarrow>
               let h1 = GifFreeMapObject (ColorMap d) (gheap g);
                   d1 = d\<lparr>Interlace := (b AND 0x40 \<noteq> 0), ColorMap := None\<rparr>;
                   g1 = g\<lparr>Private := p1, Image := d1, gheap := h1\<rparr>
               in if b AND 0x80 \<noteq> 0 then
                    do { (m, h2) \<leftarrow> GifMakeMapObject (2 ^ (unat (b AND 0x07) + 1)) None h1;
                         case m of
                           None \<Rightarrow> Some (GIF_ERROR, g1\<lparr>gheap := h2, Error := D_GIF_ERR_NOT_ENOUGH_MEM\<rparr>)
                         | Some cm \<Rightarrow>
                             (case read_colors (nat (ColorCount cm)) [] p1 of
                                (None, p2) \<Rightarrow>
                                  Some (GIF_ERROR, g1\<lparr>Private := p2, gheap := GifFreeMapObject m h2,
                                                      Error := D_GIF_ERR_READ_FAILED\<rparr>)
                              | (Some cs, p2) \<Rightarrow>
                                  append_image (g1\<lparr>Private := p2, gheap := h2,
                                                   Image := d1\<lparr>ColorMap := Some (cm\<lparr>Colors := cs\<rparr>)\<rparr>\<rparr>)) }
                  else append_image g1))"

section \<open>Opening\<close>

definition new_gif :: "u8 list \<Rightarrow> heap \<Rightarrow> dgif" where
  "new_gif bytes h =
     \<lparr>ImageCount = 0, SavedImages = None, gheap = h, SWidth = 0, SHeight = 0, SColorResolution = 0,
      SBackGroundColor = 0, AspectByte = 0, SColorMap = None, Image = zero_desc, FileExtensionBlockCount = 0,
      FileExtensionBlocks = None, Error = 0,
      Private = GifFilePrivateType.extend (zero_private\<lparr>FileState := FILE_STATE_READ\<rparr>) (dpriv.fields bytes)\<rparr>"

text \<open>\<open>DGifOpen\<close> on a source with the given bytes: the file, \<open>None\<close> for \<open>NULL\<close>, and the value stored
  in \<open>*Error\<close>, if one is.  \<open>DGifOpenFileHandle\<close> differs in that it stores no code when the screen
  descriptor cannot be read.  The sizes are those of \<open>GifFileType\<close> and \<open>GifFilePrivateType\<close>.\<close>

definition open_source :: "int option \<Rightarrow> u8 list \<Rightarrow> heap \<Rightarrow> (dgif option \<times> int option \<times> heap) option" where
  "open_source screen_error bytes h =
     (case malloc 76 h of
        (False, h1) \<Rightarrow> Some (None, Some D_GIF_ERR_NOT_ENOUGH_MEM, h1)
      | (True, h1) \<Rightarrow>
          (case malloc 24908 h1 of
             (False, h2) \<Rightarrow> Some (None, Some D_GIF_ERR_NOT_ENOUGH_MEM, free True h2)
           | (True, h2) \<Rightarrow>
               let g = new_gif bytes h2; (stamp, p) = READ 6 (Private g); g1 = g\<lparr>Private := p\<rparr>;
                   close = (\<lambda>h. free True (free True h))
               in if length stamp \<noteq> 6 then Some (None, Some D_GIF_ERR_READ_FAILED, close h2)
                  else if take 3 stamp \<noteq> [0x47, 0x49, 0x46] then Some (None, Some D_GIF_ERR_NOT_GIF_FILE, close h2)
                  else do { (r, g2) \<leftarrow> DGifGetScreenDesc g1;
                            if r = GIF_ERROR then Some (None, screen_error, close (gheap g2))
                            else Some (Some (g2\<lparr>Error := 0, Private := (Private g2)\<lparr>gif89 := (stamp ! 3 = 0x39)\<rparr>\<rparr>),
                                       None, gheap g2) }))"

definition DGifOpen :: "u8 list \<Rightarrow> heap \<Rightarrow> (dgif option \<times> int option \<times> heap) option" where
  "DGifOpen = open_source (Some D_GIF_ERR_NO_SCRN_DSCR)"

definition DGifOpenFileHandle :: "u8 list \<Rightarrow> heap \<Rightarrow> (dgif option \<times> int option \<times> heap) option" where
  "DGifOpenFileHandle = open_source None"

text \<open>\<open>file\<close> is what \<open>open\<close> finds under the name.\<close>

definition DGifOpenFileName :: "u8 list option \<Rightarrow> heap \<Rightarrow> (dgif option \<times> int option \<times> heap) option" where
  "DGifOpenFileName file h =
     (case file of None \<Rightarrow> Some (None, Some D_GIF_ERR_OPEN_FAILED, h) | Some bytes \<Rightarrow> DGifOpenFileHandle bytes h)"

section \<open>Reading everything\<close>

text \<open>Pixels stored at an offset of the raster.\<close>

definition put_pixels :: "u8 list \<Rightarrow> int \<Rightarrow> u8 list \<Rightarrow> u8 list option" where
  "put_pixels raster off px =
     (if px = [] then Some raster
      else if 0 \<le> off \<and> off + int (length px) \<le> int (length raster)
      then Some (take (nat off) raster @ px @ drop (nat off + length px) raster) else None)"

fun read_rows :: "int \<Rightarrow> int list \<Rightarrow> u8 list \<Rightarrow> dpriv \<Rightarrow> (unit lz_result \<times> u8 list \<times> dpriv) option" where
  "read_rows width [] raster p = Some (LzOk (), raster, p)"
| "read_rows width (j # js) raster p =
     do { (r, px, p') \<leftarrow> DGifGetLine width width p;
          raster' \<leftarrow> put_pixels raster (j * width) px;
          case r of LzFail e \<Rightarrow> Some (LzFail e, raster', p') | LzOk _ \<Rightarrow> read_rows width js raster' p' }"

text \<open>The pixels of the image just described.  The product of the dimensions is taken as the 32-bit
  value the compiled code has; a value from \<open>2\<^sup>3\<^sup>1\<close> on is a request that no allocator grants.\<close>

definition image_size :: "GifImageDesc \<Rightarrow> u32" where
  "image_size d = of_int (Width d) * of_int (Height d)"

definition read_pixels :: "GifImageDesc \<Rightarrow> int \<Rightarrow> dpriv \<Rightarrow> (unit lz_result \<times> u8 list \<times> dpriv) option" where
  "read_pixels d width p =
     (let raster = replicate (unat (image_size d)) 0 in
      if Interlace d then read_rows (Width d) (interlaced_rows (Height d)) raster p
      else do { (r, px, p') \<leftarrow> DGifGetLine width (sint (image_size d)) p;
                raster' \<leftarrow> put_pixels raster 0 px;
                Some (r, raster', p') })"

definition slurp_image :: "dgif \<Rightarrow> (gif_status \<times> dgif) option" where
  "slurp_image g =
     do { (r, g1) \<leftarrow> DGifGetImageDesc g;
          if r = GIF_ERROR then Some (GIF_ERROR, g1)
          else do {
            imgs \<leftarrow> SavedImages g1;
            sp \<leftarrow> lread imgs (ImageCount g1 - 1);
            let d = ImageDesc sp;
            if Width d < 0 \<and> Height d < 0 \<and> Width d > - (2147483647 div (- Height d)) then Some (GIF_ERROR, g1)
            else if image_size d > (- 1) div 1 then Some (GIF_ERROR, g1)
            else (case reallocarray False (image_size d) 1 (gheap g1) of
                (False, h) \<Rightarrow> Some (GIF_ERROR, g1\<lparr>gheap := h\<rparr>)
              | (True, h) \<Rightarrow>
                  do { (r, raster, p) \<leftarrow> read_pixels d (Width (Image g1)) (Private g1);
                       let sp1 = sp\<lparr>RasterBits := Some raster\<rparr>;
                       let g2 = g1\<lparr>gheap := h, Private := p\<rparr>;
                       case r of
                         LzFail e \<Rightarrow> do { imgs' \<leftarrow> lwrite imgs (ImageCount g1 - 1) sp1;
                                         Some (GIF_ERROR, fail_with e (g2\<lparr>SavedImages := Some imgs'\<rparr>)) }
                       | LzOk _ \<Rightarrow>
                           (case FileExtensionBlocks g2 of
                              None \<Rightarrow> do { imgs' \<leftarrow> lwrite imgs (ImageCount g1 - 1) sp1;
                                            Some (GIF_OK, g2\<lparr>SavedImages := Some imgs'\<rparr>) }
                            | Some es \<Rightarrow>
                                do { imgs' \<leftarrow> lwrite imgs (ImageCount g1 - 1)
                                       (sp1\<lparr>ExtensionBlocks := Some es, ExtensionBlockCount := FileExtensionBlockCount g2\<rparr>);
                                     Some (GIF_OK, g2\<lparr>SavedImages := Some imgs', FileExtensionBlocks := None,
                                                      FileExtensionBlockCount := 0\<rparr>) }) }) } }"

definition add_file_extension :: "int \<Rightarrow> u8 list \<Rightarrow> dgif \<Rightarrow> (gif_status \<times> dgif) option" where
  "add_file_extension func bs g =
     do { (r, c, es, h) \<leftarrow> GifAddExtensionBlock (FileExtensionBlockCount g) (FileExtensionBlocks g) func
                              (length bs) (Some bs) (gheap g);
          Some (r, g\<lparr>FileExtensionBlockCount := c, FileExtensionBlocks := es, gheap := h\<rparr>) }"

lemma DGifGetExtensionNext_shorter:
  "DGifGetExtensionNext p = Some (LzOk b, p') \<Longrightarrow> length (input p') < length (input p)"
  by (cases "input p") (auto simp: DGifGetExtensionNext_def READ_def bind_eq_Some_conv Let_def split: if_splits)

lemma add_file_extension_private: "add_file_extension func bs g = Some (r, g') \<Longrightarrow> Private g' = Private g"
  by (auto simp: add_file_extension_def bind_eq_Some_conv)

text \<open>\<open>while (ExtData != NULL)\<close>: the continuation blocks of an extension.\<close>

function slurp_ext_loop :: "dgif \<Rightarrow> (gif_status \<times> dgif) option" where
  "slurp_ext_loop g =
     (case DGifGetExtensionNext (Private g) of
        None \<Rightarrow> None
      | Some (LzFail e, p) \<Rightarrow> Some (GIF_ERROR, fail_with e (g\<lparr>Private := p\<rparr>))
      | Some (LzOk None, p) \<Rightarrow> Some (GIF_OK, g\<lparr>Private := p\<rparr>)
      | Some (LzOk (Some bs), p) \<Rightarrow>
          (case add_file_extension CONTINUE_EXT_FUNC_CODE bs (g\<lparr>Private := p\<rparr>) of
             None \<Rightarrow> None
           | Some (GIF_ERROR, g') \<Rightarrow> Some (GIF_ERROR, g')
           | Some (GIF_OK, g') \<Rightarrow> slurp_ext_loop g'))"
  by pat_completeness auto
termination
  by (relation "measure (\<lambda>g. length (input (Private g)))")
     (auto dest!: DGifGetExtensionNext_shorter add_file_extension_private)

declare slurp_ext_loop.simps [simp del]

definition slurp_extension :: "dgif \<Rightarrow> (gif_status \<times> dgif) option" where
  "slurp_extension g =
     do { (r, p) \<leftarrow> DGifGetExtension (Private g);
          let g1 = g\<lparr>Private := p\<rparr>;
          case r of
            LzFail e \<Rightarrow> Some (GIF_ERROR, fail_with e g1)
          | LzOk (func, None) \<Rightarrow> Some (GIF_OK, g1)
          | LzOk (func, Some bs) \<Rightarrow>
              do { (s, g2) \<leftarrow> add_file_extension func bs g1;
                   case s of GIF_ERROR \<Rightarrow> Some (GIF_ERROR, g2) | GIF_OK \<Rightarrow> slurp_ext_loop g2 } }"

partial_function (option) slurp_loop :: "dgif \<Rightarrow> (gif_status \<times> dgif) option" where
  "slurp_loop g =
     (case DGifGetRecordType g of
        (GIF_ERROR, _, g1) \<Rightarrow> Some (GIF_ERROR, g1)
      | (GIF_OK, t, g1) \<Rightarrow>
          if t = TERMINATE_RECORD_TYPE then
            (if ImageCount g1 = 0 then Some (GIF_ERROR, g1\<lparr>Error := D_GIF_ERR_NO_IMAG_DSCR\<rparr>) else Some (GIF_OK, g1))
          else
            (case (if t = IMAGE_DESC_RECORD_TYPE then slurp_image g1 else slurp_extension g1) of
               None \<Rightarrow> None
             | Some (GIF_ERROR, g2) \<Rightarrow> Some (GIF_ERROR, g2)
             | Some (GIF_OK, g2) \<Rightarrow> slurp_loop g2))"

declare slurp_loop.simps [code]

definition DGifSlurp :: "dgif \<Rightarrow> (gif_status \<times> dgif) option" where
  "DGifSlurp g = slurp_loop (g\<lparr>FileExtensionBlocks := None, FileExtensionBlockCount := 0\<rparr>)"

section \<open>Closing\<close>

text \<open>\<open>file_close\<close> is \<open>None\<close> when the source is a callback, otherwise whether \<open>fclose\<close> succeeds.  The
  status, the code stored in \<open>*ErrorCode\<close> and the allocator.\<close>

definition DGifCloseFile :: "bool option \<Rightarrow> dgif \<Rightarrow> (gif_status \<times> int \<times> heap) option" where
  "DGifCloseFile file_close g =
     do { let h1 = GifFreeMapObject (ColorMap (Image g)) (gheap g);
          let h2 = GifFreeMapObject (SColorMap g) h1;
          g3 \<leftarrow> GifFreeSavedImages (g\<lparr>gheap := h2\<rparr>);
          (_, _, h4) \<leftarrow> GifFreeExtensions (FileExtensionBlockCount g3) (FileExtensionBlocks g3) (gheap g3);
          let h5 = free True (free True h4);
          Some (if \<not> IS_READABLE (Private g) then (GIF_ERROR, D_GIF_ERR_NOT_READABLE, h5)
                else if file_close = Some False then (GIF_ERROR, D_GIF_ERR_CLOSE_FAILED, h5)
                else (GIF_OK, 0, h5)) }"


section \<open>The input only gets shorter\<close>

abbreviation left :: "dpriv \<Rightarrow> nat" where
  "left p \<equiv> length (input p)"

lemma fill_bits_left: "fill_bits p = Some (r, p') \<Longrightarrow> left p' \<le> left p"
proof (induction p rule: fill_bits.induct)
  case (1 p)
  show ?case
  proof (cases "CrntShiftState p < RunningBits p")
    case False
    then show ?thesis using "1.prems" by (subst (asm) fill_bits.simps) auto
  next
    case True
    obtain r1 p1 where b: "DGifBufferedInput p = Some (r1, p1)" using DGifBufferedInput_total [of p] by blast
    have le: "left p1 \<le> left p" using DGifBufferedInput_frame [OF b] by simp
    show ?thesis
    proof (cases r1)
      case (LzFail e)
      then show ?thesis using "1.prems" True b le by (subst (asm) fill_bits.simps) auto
    next
      case (LzOk c)
      with "1.prems" True b have lim: "0 \<le> CrntShiftState p1 \<and> CrntShiftState p1 < 32"
        by (subst (asm) fill_bits.simps) (auto split: if_splits)
      have "fill_bits (p1\<lparr>CrntShiftDWord := CrntShiftDWord p1 OR push_bit (nat (CrntShiftState p1)) (ucast c),
                                CrntShiftState := CrntShiftState p1 + 8\<rparr>) = Some (r, p')"
        using "1.prems" True b LzOk lim by (subst (asm) fill_bits.simps) auto
      from "1.IH" [OF True b [unfolded LzOk] refl refl lim this] le show ?thesis by simp
    qed
  qed
qed

lemma DGifDecompressInput_left:
  assumes "DGifDecompressInput p = Some (r, p')"
  shows "left p' \<le> left p"
proof (cases "RunningBits p > LZ_BITS")
  case True
  with assms show ?thesis by (simp add: DGifDecompressInput_def)
next
  case False
  then obtain r1 p1 where f: "fill_bits p = Some (r1, p1)" using assms by (auto simp: DGifDecompressInput_def bind_eq_Some_conv)
  show ?thesis
    using assms False f fill_bits_left [OF f]
    by (cases r1) (auto simp: DGifDecompressInput_def bind_eq_Some_conv Let_def)
qed

lemma expand_code_left: "expand_code c l n line sp p = Some (r, p') \<Longrightarrow> left p' = left p"
  by (auto simp: expand_code_def bind_eq_Some_conv Let_def split: if_splits prod.splits)

lemma add_entry_left: "add_entry c l p = Some p' \<Longrightarrow> left p' = left p"
  by (auto simp: add_entry_def bind_eq_Some_conv split: if_splits)

definition turn_state :: "((int option \<times> u8 list \<times> dpriv) + (u8 list \<times> int \<times> int \<times> dpriv)) \<Rightarrow> dpriv" where
  "turn_state r = (case r of Inl (e, line, p) \<Rightarrow> p | Inr (line, last_code, sp, p) \<Rightarrow> p)"

lemma decompress_turn_left:
  assumes "decompress_turn n line l sp p = Some r"
  shows "left (turn_state r) \<le> left p"
proof -
  obtain r1 p1 where i: "DGifDecompressInput p = Some (r1, p1)"
    using assms by (auto simp: decompress_turn_def bind_eq_Some_conv)
  note le = DGifDecompressInput_left [OF i]
  show ?thesis
  proof (cases r1)
    case (LzFail e)
    with assms i le show ?thesis by (auto simp: decompress_turn_def turn_state_def)
  next
    case (LzOk code)
    show ?thesis
    proof (cases "code = EOFCode p1 \<or> code = ClearCode p1 \<or> code < ClearCode p1")
      case True
      with assms i LzOk le show ?thesis
        by (auto simp: decompress_turn_def turn_state_def bind_eq_Some_conv dest: add_entry_left split: if_splits)
    next
      case False
      with assms i LzOk obtain r2 p2 where e: "expand_code code l n line sp p1 = Some (r2, p2)"
        by (auto simp: decompress_turn_def bind_eq_Some_conv)
      with assms i LzOk le False show ?thesis
        by (cases r2) (auto simp: decompress_turn_def turn_state_def bind_eq_Some_conv dest!: add_entry_left expand_code_left)
    qed
  qed
qed

lemma decompress_loop_left: "decompress_loop n line l sp p = Some r \<Longrightarrow> left (turn_state r) \<le> left p"
proof (rule decompress_loop.raw_induct [of "\<lambda>n line l sp p r. left (turn_state r) \<le> left p", rotated])
  fix f n line l sp p r
  assume IH: "\<And>n line l sp p r. f n line l sp p = Some r \<Longrightarrow> left (turn_state r) \<le> left p"
    and r: "(if int (length line) < n then case decompress_turn n line l sp p of None \<Rightarrow> None
        | Some (Inl x) \<Rightarrow> Some (Inl x) | Some (Inr (line', last', sp', p')) \<Rightarrow> f n line' last' sp' p'
      else Some (Inr (line, l, sp, p))) = Some r"
  show "left (turn_state r) \<le> left p"
  proof (cases "decompress_turn n line l sp p")
    case None
    with r show ?thesis by (auto simp: turn_state_def split: if_splits)
  next
    case (Some t)
    note le = decompress_turn_left [OF Some]
    show ?thesis
    proof (cases t)
      case (Inl x)
      with Some r le show ?thesis by (auto simp: turn_state_def split: if_splits)
    next
      case (Inr x)
      obtain line' l' sp' p' where x: "x = (line', l', sp', p')" by (cases x) auto
      show ?thesis
        using Some Inr r le IH [of n line' l' sp' p' r] x by (auto simp: turn_state_def split: if_splits)
    qed
  qed
qed

lemma DGifDecompressLine_left: "DGifDecompressLine n p = Some (r, line, p') \<Longrightarrow> left p' \<le> left p"
proof -
  assume run: "DGifDecompressLine n p = Some (r, line, p')"
  show "left p' \<le> left p"
  proof (cases "StackPtr p > LZ_MAX_CODE")
    case True
    with run show ?thesis by (simp add: DGifDecompressLine_def)
  next
    case False
    with run obtain line0 sp t where t: "decompress_loop n line0 (LastCode p) sp p = Some t"
      and r: "(case t of Inl (e, line', p') \<Rightarrow> Some (LzFail e, line', p')
        | Inr (line', last', sp', p') \<Rightarrow> Some (LzOk (), line', p'\<lparr>LastCode := last', StackPtr := sp'\<rparr>)) = Some (r, line, p')"
      unfolding DGifDecompressLine_def by (simp add: bind_eq_Some_conv) blast
    from decompress_loop_left [OF t] r show ?thesis
      by (auto simp: turn_state_def split: sum.split_asm prod.split_asm)
  qed
qed

lemma put_block: "\<exists>buf. put_bytes 256 a 1 (take (unat (c :: u8)) cs) = Some buf"
proof -
  have "length (take (unat c) cs) \<le> 255" using unat_u8 [of c] by simp
  then have "1 + int (length (take (unat c) cs)) \<le> 256" by linarith
  then show ?thesis by (intro put_bytes_total) auto
qed

lemma lz_inv_frame:
  "lz_inv (p\<lparr>Buf := b, input := i, PixelCount := c\<rparr>) = lz_inv p" "lz_inv (p\<lparr>PixelCount := c\<rparr>) = lz_inv p"
  by (simp_all add: lz_inv_def)

lemma DGifGetCodeNext_total:
  "\<exists>r p'. DGifGetCodeNext p = Some (r, p') \<and> left p' \<le> left p \<and> lz_inv p' = lz_inv p"
proof (cases "input p")
  case Nil
  then show ?thesis by (simp add: DGifGetCodeNext_def READ_def lz_inv_def)
next
  case (Cons c cs)
  obtain buf where "put_bytes 256 ((Buf p)(0 := c)) 1 (take (unat c) cs) = Some buf" using put_block by blast
  with Cons show ?thesis by (auto simp: DGifGetCodeNext_def READ_def Let_def lz_inv_def)
qed

lemma skip_blocks_total: "\<exists>r p'. skip_blocks p = Some (r, p') \<and> left p' \<le> left p \<and> lz_inv p' = lz_inv p"
proof (induction p rule: skip_blocks.induct)
  case (1 p)
  obtain r p' where n: "DGifGetCodeNext p = Some (r, p')" "left p' \<le> left p" "lz_inv p' = lz_inv p"
    using DGifGetCodeNext_total [of p] by blast
  show ?case
  proof (cases r)
    case (LzFail e)
    with n show ?thesis by (subst skip_blocks.simps) simp
  next
    case (LzOk b)
    show ?thesis
    proof (cases b)
      case None
      with n LzOk show ?thesis by (subst skip_blocks.simps) simp
    next
      case (Some bs)
      with 1 [of "(r, p')" r p' b bs] n LzOk show ?thesis by (subst skip_blocks.simps) auto
    qed
  qed
qed

lemma DGifGetLine_total:
  assumes inv: "lz_inv p"
  shows "\<exists>r line p'. DGifGetLine width n p = Some (r, line, p') \<and> left p' \<le> left p \<and> lz_inv p' \<and>
     int (length line) \<le> max (if n = 0 then width else n) 0 \<and>
     (n = 0 \<and> PixelCount p = 0 \<and> 0 \<le> width \<and> width \<le> 65535 \<longrightarrow> line = [])"
proof (cases "IS_READABLE p")
  case False
  with inv show ?thesis by (simp add: DGifGetLine_def)
next
  case True
  let ?n = "if n = 0 then width else n"
  let ?p = "p\<lparr>PixelCount := PixelCount p - of_int ?n\<rparr>"
  show ?thesis
  proof (cases "PixelCount ?p > 0xffff0000")
    case big: True
    with True inv show ?thesis by (simp add: DGifGetLine_def Let_def lz_inv_frame)
  next
    case False
    have "lz_inv ?p" using inv by (simp add: lz_inv_frame)
    from DGifDecompressLine_safe [OF this, of ?n] obtain r line p' where
      d: "DGifDecompressLine ?n ?p = Some (r, line, p')" "lz_inv p'" "int (length line) \<le> max ?n 0" by blast
    have l: "left p' \<le> left p" using DGifDecompressLine_left [OF d(1)] by simp
    obtain r2 p2 where k: "skip_blocks p' = Some (r2, p2)" "left p2 \<le> left p'" "lz_inv p2 = lz_inv p'"
      using skip_blocks_total [of p'] by blast
    have zero: "line = []" if "n = 0" "PixelCount p = 0" "0 \<le> width" "width \<le> 65535"
    proof (cases "width = 0")
      case False
      have "uint (of_int width :: u32) = width" using that by (simp add: uint_word_of_int_eq take_bit_int_eq_self)
      then have "uint (- of_int width :: u32) = 2 ^ 32 - width"
        using that False by (simp add: uint_word_ariths zmod_zminus1_eq_if)
      then have "PixelCount ?p > 0xffff0000" using that by (simp add: word_less_def)
      with \<open>\<not> PixelCount ?p > 0xffff0000\<close> show ?thesis by simp
    qed (use d(3) that in simp)
    show ?thesis
      using True False d l k zero by (cases r; cases "PixelCount p' = 0") (auto simp: DGifGetLine_def Let_def)
  qed
qed


section \<open>The blocks a file owns\<close>

definition map_blocks :: "ColorMapObject option \<Rightarrow> int" where
  "map_blocks m = (if m = None then 0 else 2)"

definition ext_blocks :: "ExtensionBlock list option \<Rightarrow> int" where
  "ext_blocks es = (case es of None \<Rightarrow> 0 | Some l \<Rightarrow> 1 + (\<Sum>e\<leftarrow>l. if Bytes e = None then 0 else 1))"

definition image_blocks :: "SavedImage \<Rightarrow> int" where
  "image_blocks sp = map_blocks (ColorMap (ImageDesc sp)) + (if RasterBits sp = None then 0 else 1) + ext_blocks (ExtensionBlocks sp)"

definition gif_blocks :: "dgif \<Rightarrow> int" where
  "gif_blocks g = 2 + map_blocks (ColorMap (Image g)) + map_blocks (SColorMap g) +
     (case SavedImages g of None \<Rightarrow> 0 | Some l \<Rightarrow> 1 + (\<Sum>sp\<leftarrow>take (nat (ImageCount g)) l. image_blocks sp)) +
     ext_blocks (FileExtensionBlocks g)"

definition ext_ok :: "int \<Rightarrow> ExtensionBlock list option \<Rightarrow> bool" where
  "ext_ok c es \<longleftrightarrow> c = (case es of None \<Rightarrow> 0 | Some l \<Rightarrow> int (length l))"

definition image_ok :: "SavedImage \<Rightarrow> bool" where
  "image_ok sp \<longleftrightarrow> ext_ok (ExtensionBlockCount sp) (ExtensionBlocks sp)"

definition images_ok :: "int \<Rightarrow> SavedImage list option \<Rightarrow> bool" where
  "images_ok c imgs \<longleftrightarrow> 0 \<le> c \<and>
     (case imgs of None \<Rightarrow> c = 0 | Some l \<Rightarrow> c \<le> int (length l) \<and> list_all image_ok (take (nat c) l))"

definition gif_inv :: "dgif \<Rightarrow> bool" where
  "gif_inv g \<longleftrightarrow> images_ok (ImageCount g) (SavedImages g) \<and> ext_ok (FileExtensionBlockCount g) (FileExtensionBlocks g) \<and>
     (\<forall>m. ColorMap (Image g) = Some m \<longrightarrow> map_ok m)"

definition slack :: "dgif \<Rightarrow> int" where
  "slack g = blocks (gheap g) - gif_blocks g"

lemma malloc_blocks: "malloc n h = (ok, h') \<Longrightarrow> blocks h' = blocks h + (if ok then 1 else 0)"
  by (auto simp: malloc_def split: if_splits)

lemma reallocarray_blocks:
  "reallocarray nonnull k sz h = (ok, h') \<Longrightarrow> blocks h' = blocks h + (if ok \<and> \<not> nonnull then 1 else 0)"
  by (auto simp: reallocarray_def realloc_def split: option.splits if_splits)

lemma free_blocks [simp]: "blocks (free b h) = blocks h - (if b then 1 else 0)"
  by (simp add: free_def)

lemma GifFreeMapObject_blocks [simp]: "blocks (GifFreeMapObject m h) = blocks h - map_blocks m"
  by (cases m) (auto simp: GifFreeMapObject_def map_blocks_def)

lemma GifMakeMapObject_total:
  assumes "case colors of None \<Rightarrow> True | Some cs \<Rightarrow> cc = int (length cs)"
  shows "\<exists>m h'. GifMakeMapObject cc colors h = Some (m, h') \<and> blocks h' = blocks h + map_blocks m \<and>
     (\<forall>cm. m = Some cm \<longrightarrow> map_ok cm \<and> ColorCount cm = cc)"
proof -
  have cc: "0 \<le> cc" if "cc = 2 ^ GifBitSize cc" by (subst that) simp
  obtain ok1 h1 where m1: "malloc 16 h = (ok1, h1)" by fastforce
  obtain ok2 h2 where m2: "malloc (nat (cc * 3)) h1 = (ok2, h2)" by fastforce
  note b = malloc_blocks [OF m1] malloc_blocks [OF m2]
  show ?thesis
  proof (cases "cc = 2 ^ GifBitSize cc \<and> ok1 \<and> ok2")
    case True
    define cs where "cs = (case colors of None \<Rightarrow> replicate (nat cc) black | Some cs \<Rightarrow> cs)"
    have "length cs = nat cc" using assms by (auto simp: cs_def split: option.splits)
    moreover have "GifMakeMapObject cc colors h = Some (Some \<lparr>ColorCount = cc, BitsPerPixel = int (GifBitSize cc),
        SortFlag = False, Colors = cs\<rparr>, h2)"
      using True m1 m2 assms by (auto simp: GifMakeMapObject_def cs_def split: option.splits)
    ultimately show ?thesis using True b cc by (auto simp: map_ok_def map_blocks_def)
  next
    case False
    then show ?thesis using m1 m2 b
      by (auto simp: GifMakeMapObject_def map_blocks_def split: if_splits)
  qed
qed

lemma free_bytes_blocks: "blocks (free_bytes es h) = blocks h - (\<Sum>e\<leftarrow>es. if Bytes e = None then 0 else 1)"
  by (induction es arbitrary: h) (auto simp: free_bytes_def)

lemma GifFreeExtensions_total:
  assumes "ext_ok c es"
  shows "\<exists>h'. GifFreeExtensions c es h = Some (0, None, h') \<and> blocks h' = blocks h - ext_blocks es"
  using assms by (cases es) (auto simp: GifFreeExtensions_def ext_ok_def ext_blocks_def free_bytes_blocks)

lemma free_image_parts_total:
  assumes "image_ok sp"
  shows "\<exists>sp' h'. free_image_parts sp h = Some (sp', h') \<and> blocks h' = blocks h - image_blocks sp"
proof -
  obtain h' where "GifFreeExtensions (ExtensionBlockCount sp) (ExtensionBlocks sp)
      (free (RasterBits sp \<noteq> None) (GifFreeMapObject (ColorMap (ImageDesc sp)) h)) = Some (0, None, h')"
    "blocks h' = blocks h - image_blocks sp"
    using GifFreeExtensions_total [of "ExtensionBlockCount sp" "ExtensionBlocks sp"
        "free (RasterBits sp \<noteq> None) (GifFreeMapObject (ColorMap (ImageDesc sp)) h)"] assms
    by (auto simp: image_ok_def image_blocks_def)
  then show ?thesis by (auto simp: free_image_parts_def Let_def)
qed

lemma free_images_total:
  "list_all image_ok sps \<Longrightarrow> \<exists>h'. free_images sps h = Some h' \<and> blocks h' = blocks h - (\<Sum>sp\<leftarrow>sps. image_blocks sp)"
proof (induction sps arbitrary: h)
  case Nil
  then show ?case by simp
next
  case (Cons sp sps)
  obtain sp' h1 where 1: "free_image_parts sp h = Some (sp', h1)" "blocks h1 = blocks h - image_blocks sp"
    using free_image_parts_total [of sp h] Cons.prems by auto
  obtain h2 where "free_images sps h1 = Some h2" "blocks h2 = blocks h1 - (\<Sum>sp\<leftarrow>sps. image_blocks sp)"
    using Cons.IH [of h1] Cons.prems by auto
  with 1 show ?case by simp
qed

lemma DGifCloseFile_total:
  assumes "gif_inv g"
  shows "\<exists>r c h'. DGifCloseFile fc g = Some (r, c, h') \<and> blocks h' = slack g"
proof -
  let ?h2 = "GifFreeMapObject (SColorMap g) (GifFreeMapObject (ColorMap (Image g)) (gheap g))"
  have io: "images_ok (ImageCount g) (SavedImages g)" and eo: "ext_ok (FileExtensionBlockCount g) (FileExtensionBlocks g)"
    using assms by (auto simp: gif_inv_def)
  obtain g3 where g3: "GifFreeSavedImages (g\<lparr>gheap := ?h2\<rparr>) = Some g3"
    "blocks (gheap g3) = blocks ?h2 - (case SavedImages g of None \<Rightarrow> 0 | Some l \<Rightarrow> 1 + (\<Sum>sp\<leftarrow>take (nat (ImageCount g)) l. image_blocks sp))"
    "FileExtensionBlockCount g3 = FileExtensionBlockCount g" "FileExtensionBlocks g3 = FileExtensionBlocks g"
  proof (cases "SavedImages g")
    case None
    then show ?thesis by (intro that [of "g\<lparr>gheap := ?h2\<rparr>"]) (auto simp: GifFreeSavedImages_def)
  next
    case (Some l)
    then have l: "nat (ImageCount g) \<le> length l" "list_all image_ok (take (nat (ImageCount g)) l)"
      using io by (auto simp: images_ok_def)
    obtain h where "free_images (take (nat (ImageCount g)) l) ?h2 = Some h"
      "blocks h = blocks ?h2 - (\<Sum>sp\<leftarrow>take (nat (ImageCount g)) l. image_blocks sp)"
      using free_images_total [OF l(2), of ?h2] by blast
    with Some l show ?thesis
      by (intro that [of "g\<lparr>gheap := ?h2, SavedImages := None, gheap := free True h\<rparr>"]) (auto simp: GifFreeSavedImages_def)
  qed
  obtain h4 where h4: "GifFreeExtensions (FileExtensionBlockCount g3) (FileExtensionBlocks g3) (gheap g3) = Some (0, None, h4)"
    "blocks h4 = blocks (gheap g3) - ext_blocks (FileExtensionBlocks g)"
    using GifFreeExtensions_total [OF eo, of "gheap g3"] g3 by auto
  then show ?thesis
    using g3 by (auto simp: DGifCloseFile_def Let_def slack_def gif_blocks_def)
qed


section \<open>Every routine keeps the file well formed\<close>

text \<open>What a routine of the reader keeps: the shape of the file, the account of its blocks, and the
  input never grows.\<close>

definition keeps :: "dgif \<Rightarrow> dgif \<Rightarrow> bool" where
  "keeps g g' \<longleftrightarrow> gif_inv g' \<and> slack g' = slack g \<and> left (Private g') \<le> left (Private g)"

lemma keeps_refl: "gif_inv g \<Longrightarrow> keeps g g"
  by (simp add: keeps_def)

lemma keeps_trans: "keeps g1 g2 \<Longrightarrow> keeps g2 g3 \<Longrightarrow> keeps g1 g3"
  by (auto simp: keeps_def)

lemma gif_inv_frame [simp]:
  "gif_inv (g\<lparr>Error := e\<rparr>) = gif_inv g" "gif_inv (g\<lparr>Private := p\<rparr>) = gif_inv g" "gif_inv (g\<lparr>gheap := h\<rparr>) = gif_inv g"
  "gif_inv (g\<lparr>SWidth := w\<rparr>) = gif_inv g" "gif_inv (g\<lparr>SHeight := w\<rparr>) = gif_inv g"
  "gif_inv (g\<lparr>SColorResolution := w\<rparr>) = gif_inv g" "gif_inv (g\<lparr>SBackGroundColor := w\<rparr>) = gif_inv g"
  "gif_inv (g\<lparr>AspectByte := b\<rparr>) = gif_inv g" "gif_inv (g\<lparr>SColorMap := m\<rparr>) = gif_inv g"
  by (simp_all add: gif_inv_def)

lemma slack_frame [simp]:
  "slack (g\<lparr>Error := e\<rparr>) = slack g" "slack (g\<lparr>Private := p\<rparr>) = slack g"
  "slack (g\<lparr>SWidth := w\<rparr>) = slack g" "slack (g\<lparr>SHeight := w\<rparr>) = slack g"
  "slack (g\<lparr>SColorResolution := w\<rparr>) = slack g" "slack (g\<lparr>SBackGroundColor := w\<rparr>) = slack g"
  "slack (g\<lparr>AspectByte := b\<rparr>) = slack g"
  "slack (g\<lparr>gheap := h\<rparr>) = slack g + blocks h - blocks (gheap g)"
  "slack (g\<lparr>SColorMap := m\<rparr>) = slack g + map_blocks (SColorMap g) - map_blocks m"
  by (simp_all add: slack_def gif_blocks_def split: option.splits)

lemma fail_with_simps [simp]:
  "Private (fail_with e g) = Private g" "gif_inv (fail_with e g) = gif_inv g" "slack (fail_with e g) = slack g"
  "SavedImages (fail_with e g) = SavedImages g" "gheap (fail_with e g) = gheap g"
  by (simp_all add: fail_with_def split: option.splits)

lemma DGifGetWord_left: "DGifGetWord p = (r, p') \<Longrightarrow> left p' \<le> left p"
  by (auto simp: DGifGetWord_def READ_def split: list.splits)

lemma DGifGetWord_range: "DGifGetWord p = (LzOk w, p') \<Longrightarrow> 0 \<le> w \<and> w \<le> 65535"
proof -
  assume "DGifGetWord p = (LzOk w, p')"
  then obtain a b where w: "w = uint (of_le16 a b)" by (auto simp: DGifGetWord_def READ_def split: list.splits)
  show ?thesis using uint_lt2p [of "of_le16 a b"] by (simp add: w)
qed

lemma read_colors_left: "read_colors k acc p = (r, p') \<Longrightarrow> left p' \<le> left p"
proof (induction k arbitrary: acc p)
  case (Suc k)
  then show ?case by (fastforce simp: READ_def split: list.splits)
qed simp

lemma read_colors_length: "read_colors k acc p = (Some cs, p') \<Longrightarrow> length cs = length acc + k"
proof (induction k arbitrary: acc p)
  case (Suc k)
  then show ?case by (fastforce simp: READ_def split: list.splits)
qed simp

lemma map_blocks_simps [simp]: "map_blocks None = 0" "map_blocks (Some m) = 2"
  by (simp_all add: map_blocks_def)

lemma DGifGetScreenDesc_keeps:
  assumes inv: "gif_inv g" and none: "SColorMap g = None"
  shows "\<exists>r g'. DGifGetScreenDesc g = Some (r, g') \<and> keeps g g' \<and> (r = GIF_ERROR \<longrightarrow> SColorMap g' = None) \<and>
     Image g' = Image g \<and> SavedImages g' = SavedImages g \<and> ImageCount g' = ImageCount g \<and>
     FileExtensionBlocks g' = FileExtensionBlocks g"
proof (cases "IS_READABLE (Private g)")
  case False
  with inv none show ?thesis by (simp add: DGifGetScreenDesc_def keeps_def)
next
  case True
  obtain r1 p1 where w1: "DGifGetWord (Private g) = (r1, p1)" by fastforce
  obtain r2 p2 where w2: "DGifGetWord p1 = (r2, p2)" by fastforce
  obtain bs p3 where rd: "READ 3 p2 = (bs, p3)" by fastforce
  have l: "left p1 \<le> left (Private g)" "left p2 \<le> left (Private g)" "left p3 \<le> left (Private g)"
    using DGifGetWord_left [OF w1] DGifGetWord_left [OF w2] rd by (auto simp: READ_def)
  consider (fail1) e where "r1 = LzFail e" | (fail2) w e where "r1 = LzOk w" "r2 = LzFail e"
    | (short) w h where "r1 = LzOk w" "r2 = LzOk h" "length bs \<noteq> 3"
    | (ok) w h b0 b1 b2 where "r1 = LzOk w" "r2 = LzOk h" "bs = [b0, b1, b2]"
  proof (cases r1; cases r2)
    fix w h assume r: "r1 = LzOk w" "r2 = LzOk h"
    show thesis
    proof (cases "length bs = 3")
      case True
      then obtain b0 b1 b2 where "bs = [b0, b1, b2]" by (auto simp: length_Suc_conv eval_nat_numeral)
      with r ok show thesis by blast
    qed (use r short in blast)
  qed (use fail1 fail2 in blast)+
  then show ?thesis
  proof cases
    case fail1
    with True w1 inv l none show ?thesis by (simp add: DGifGetScreenDesc_def keeps_def fail_with_def split: option.splits)
  next
    case fail2
    with True w1 w2 inv l none show ?thesis by (simp add: DGifGetScreenDesc_def keeps_def fail_with_def split: option.splits)
  next
    case short
    have "DGifGetScreenDesc g = Some (GIF_ERROR, g\<lparr>SWidth := w, SHeight := h, Private := p3,
        gheap := GifFreeMapObject (SColorMap g) (gheap g), SColorMap := None, Error := D_GIF_ERR_READ_FAILED\<rparr>)"
      using True w1 w2 rd short by (auto simp: DGifGetScreenDesc_def Let_def split: list.splits)
    with inv l none show ?thesis by (simp add: keeps_def)
  next
    case ok
    let ?g3 = "g\<lparr>SWidth := w, SHeight := h, Private := p3, SColorResolution := uint (drop_bit 4 ((b0 AND 0x70) + 1)) + 1,
                             SBackGroundColor := uint b1, AspectByte := b2\<rparr>"
    obtain m hp where mk: "GifMakeMapObject (2 ^ (unat (b0 AND 0x07) + 1)) None (gheap g) = Some (m, hp)"
      "blocks hp = blocks (gheap g) + map_blocks m"
      using GifMakeMapObject_total [where colors = None and cc = "2 ^ (unat (b0 AND 0x07) + 1)" and h = "gheap g"] by auto
    show ?thesis
    proof (cases "b0 AND 0x80 \<noteq> 0")
      case False
      with True w1 w2 rd ok inv l none show ?thesis by (auto simp: DGifGetScreenDesc_def Let_def keeps_def)
    next
      case table: True
      show ?thesis
      proof (cases m)
        case None
        with True w1 w2 rd ok inv l none table mk show ?thesis by (auto simp: DGifGetScreenDesc_def Let_def keeps_def)
      next
        case (Some cm)
        obtain cs p4 where "read_colors (nat (ColorCount cm)) [] p3 = (cs, p4)" by fastforce
        with read_colors_left [OF this] True w1 w2 rd ok inv l none table mk Some show ?thesis
          by (cases cs) (auto simp: DGifGetScreenDesc_def Let_def keeps_def)
      qed
    qed
  qed
qed

lemma DGifSetupDecompress_total:
  "\<exists>r p'. DGifSetupDecompress p = Some (r, p') \<and> left p' \<le> left p \<and>
     (r = LzOk () \<longrightarrow> lz_inv p' \<and> PixelCount p' = PixelCount p)"
proof (cases "input p")
  case Nil
  then show ?thesis by (simp add: DGifSetupDecompress_def READ_def)
next
  case (Cons c cs)
  show ?thesis
  proof (cases "uint c > 8")
    case True
    with Cons show ?thesis by (simp add: DGifSetupDecompress_def READ_def)
  next
    case False
    then have "(2::int) ^ nat (uint c) \<le> 2 ^ 8" by (intro power_increasing) (auto simp: nat_le_iff simp del: nat_uint_eq)
    with False Cons show ?thesis
      by (auto simp: DGifSetupDecompress_def READ_def Let_def lz_inv_def lz_consts)
  qed
qed


lemma read_image_words_facts:
  assumes "read_image_words d p = (r, d', p')"
  shows "left p' \<le> left p \<and> ColorMap d' = ColorMap d \<and>
    (\<forall>x. r = LzOk x \<longrightarrow> 0 \<le> Width d' \<and> Width d' \<le> 65535 \<and> 0 \<le> Height d' \<and> Height d' \<le> 65535)"
proof -
  obtain r1 p1 where w1: "DGifGetWord p = (r1, p1)" by fastforce
  obtain r2 p2 where w2: "DGifGetWord p1 = (r2, p2)" by fastforce
  obtain r3 p3 where w3: "DGifGetWord p2 = (r3, p3)" by fastforce
  obtain r4 p4 where w4: "DGifGetWord p3 = (r4, p4)" by fastforce
  note l = DGifGetWord_left [OF w1] DGifGetWord_left [OF w2] DGifGetWord_left [OF w3] DGifGetWord_left [OF w4]
  have "0 \<le> w \<and> w \<le> 65535" if "r3 = LzOk w" for w using DGifGetWord_range w3 that by blast
  moreover have "0 \<le> w \<and> w \<le> 65535" if "r4 = LzOk w" for w using DGifGetWord_range w4 that by blast
  ultimately show ?thesis
    using assms w1 w2 w3 w4 l by (cases r1; cases r2; cases r3; cases r4) (auto simp: read_image_words_def)
qed

text \<open>The array after an image has been written behind those in use.\<close>

lemma put_image:
  assumes io: "images_ok c imgs"
    and arr: "arr = (case imgs of None \<Rightarrow> [zero_image] | Some xs \<Rightarrow> resize (nat (c + 1)) zero_image xs)"
  shows "lwrite arr c sp = Some (arr[nat c := sp])" "length arr = nat (c + 1)"
    "take (nat c) (arr[nat c := sp]) = take (nat c) (case imgs of None \<Rightarrow> [] | Some xs \<Rightarrow> xs)"
    "take (nat (c + 1)) (arr[nat c := sp]) = take (nat c) (case imgs of None \<Rightarrow> [] | Some xs \<Rightarrow> xs) @ [sp]"
proof -
  let ?l = "case imgs of None \<Rightarrow> [] | Some xs \<Rightarrow> xs"
  have c: "0 \<le> c" "nat c \<le> length ?l" "imgs = None \<Longrightarrow> c = 0" using io by (auto simp: images_ok_def split: option.splits)
  show len: "length arr = nat (c + 1)" using c arr by (auto simp: resize_def split: option.splits)
  then show "lwrite arr c sp = Some (arr[nat c := sp])" using c by simp
  have "take (nat c) arr = take (nat c) ?l"
    using c arr by (auto simp: resize_def split: option.splits)
  then show t: "take (nat c) (arr[nat c := sp]) = take (nat c) ?l" by simp
  have "nat (c + 1) = Suc (nat c)" "nat c < length (arr[nat c := sp])" using len c by auto
  then show "take (nat (c + 1)) (arr[nat c := sp]) = take (nat c) ?l @ [sp]"
    using t by (simp only: take_Suc_conv_app_nth) (simp add: len)
qed

definition image_blocks_used :: "int \<Rightarrow> SavedImage list option \<Rightarrow> int" where
  "image_blocks_used c imgs = (case imgs of None \<Rightarrow> 0 | Some l \<Rightarrow> 1 + (\<Sum>sp\<leftarrow>take (nat c) l. image_blocks sp))"

lemma slack_images:
  "slack (g\<lparr>SavedImages := imgs\<rparr>) = slack g + image_blocks_used (ImageCount g) (SavedImages g) - image_blocks_used (ImageCount g) imgs"
  "slack (g\<lparr>ImageCount := c\<rparr>) = slack g + image_blocks_used (ImageCount g) (SavedImages g) - image_blocks_used c (SavedImages g)"
  "slack (g\<lparr>Image := d\<rparr>) = slack g + map_blocks (ColorMap (Image g)) - map_blocks (ColorMap d)"
  by (auto simp: slack_def gif_blocks_def image_blocks_used_def split: option.splits)

text \<open>What \<open>DGifGetImageDesc\<close> leaves for the reading of the pixels.\<close>

definition image_ready :: "dgif \<Rightarrow> bool" where
  "image_ready g \<longleftrightarrow> lz_inv (Private g) \<and> 0 \<le> Width (Image g) \<and> Width (Image g) \<le> 65535 \<and>
     0 \<le> Height (Image g) \<and> Height (Image g) \<le> 65535 \<and> PixelCount (Private g) = image_size (Image g) \<and> 1 \<le> ImageCount g \<and>
     (\<exists>l m. SavedImages g = Some l \<and>
        lread l (ImageCount g - 1) = Some (zero_image\<lparr>ImageDesc := (Image g)\<lparr>ColorMap := m\<rparr>\<rparr>))"

lemma append_image_keeps:
  assumes inv: "gif_inv g"
    and dim: "0 \<le> Width (Image g) \<and> Width (Image g) \<le> 65535 \<and> 0 \<le> Height (Image g) \<and> Height (Image g) \<le> 65535"
  shows "\<exists>r g'. append_image g = Some (r, g') \<and> keeps g g' \<and> (r = GIF_OK \<longrightarrow> image_ready g')"
proof -
  let ?c = "ImageCount g"
  have io: "images_ok ?c (SavedImages g)" using inv by (simp add: gif_inv_def)
  then have c0: "0 \<le> ?c" by (simp add: images_ok_def)
  obtain ok h1 where al: "(case SavedImages g of None \<Rightarrow> malloc 36 (gheap g)
            | Some _ \<Rightarrow> reallocarray True (of_int (?c + 1)) 36 (gheap g)) = (ok, h1)" by fastforce
  have b1: "blocks h1 = blocks (gheap g) + (if ok \<and> SavedImages g = None then 1 else 0)"
    using al by (auto split: option.splits dest: malloc_blocks reallocarray_blocks)
  define arr where "arr = (case SavedImages g of None \<Rightarrow> [zero_image] | Some xs \<Rightarrow> resize (nat (?c + 1)) zero_image xs)"
  note pi = put_image [OF io arr_def]
  show ?thesis
  proof (cases ok)
    case False
    with al inv b1 show ?thesis
      by (simp add: append_image_def keeps_def Let_def)
  next
    case True
    obtain m h2 where mk: "(case ColorMap (Image g) of None \<Rightarrow> Some (None, h1)
             | Some cm \<Rightarrow> GifMakeMapObject (ColorCount cm) (Some (Colors cm)) h1) = Some (m, h2)"
      "blocks h2 = blocks h1 + map_blocks m"
    proof (cases "ColorMap (Image g)")
      case (Some cm)
      then have "map_ok cm" using inv by (simp add: gif_inv_def)
      then have "ColorCount cm = int (length (Colors cm))" by (simp add: map_ok_def)
      with GifMakeMapObject_total [where colors = "Some (Colors cm)" and cc = "ColorCount cm" and h = h1] Some that
      show thesis by auto
    qed (use that in simp)
    define sp where "sp = zero_image\<lparr>ImageDesc := (Image g)\<lparr>ColorMap := m\<rparr>\<rparr>"
    define g1 where "g1 = g\<lparr>SavedImages := Some (arr[nat ?c := sp]), gheap := h2\<rparr>"
    have used: "image_blocks_used ?c (Some (arr[nat ?c := sp])) =
        image_blocks_used ?c (SavedImages g) + (if SavedImages g = None then 1 else 0)"
      using pi(3) c0 io by (auto simp: image_blocks_used_def images_ok_def split: option.splits)
    have used1: "image_blocks_used (?c + 1) (Some (arr[nat ?c := sp])) =
        image_blocks_used ?c (Some (arr[nat ?c := sp])) + image_blocks sp"
      using pi(3,4) by (simp add: image_blocks_used_def)
    have sp: "image_blocks sp = map_blocks m" "image_ok sp"
      by (simp_all add: sp_def zero_image_def image_blocks_def image_ok_def ext_blocks_def ext_ok_def)
    have fields1: "ImageCount g1 = ?c" "SavedImages g1 = Some (arr[nat ?c := sp])" "Image g1 = Image g" "Private g1 = Private g"
      by (simp_all add: g1_def)
    have s1: "slack g1 = slack g + map_blocks m"
      using used b1 mk(2) True by (simp add: g1_def slack_images)
    have old: "list_all image_ok (take (nat ?c) (arr[nat ?c := sp]))"
      using io unfolding pi(3) by (auto simp: images_ok_def split: option.splits)
    then have inv1: "gif_inv g1" 
      using inv c0 pi(2) by (simp add: g1_def gif_inv_def images_ok_def)
    have inv2: "gif_inv (g1\<lparr>ImageCount := ?c + 1\<rparr>)"
    proof -
      have "list_all image_ok (take (nat (?c + 1)) (arr[nat ?c := sp]))" using old sp(2) unfolding pi(3,4) by simp
      then show ?thesis using inv1 c0 pi(2) by (simp add: g1_def gif_inv_def images_ok_def)
    qed
    have s2: "slack (g1\<lparr>ImageCount := ?c + 1\<rparr>) = slack g"
      using s1 used1 sp(1) by (simp add: slack_images fields1)
    show ?thesis
    proof (cases "ColorMap (Image g) \<noteq> None \<and> m = None")
      case True
      then have "append_image g = Some (GIF_ERROR, g1\<lparr>Error := D_GIF_ERR_NOT_ENOUGH_MEM\<rparr>)"
        using al \<open>ok\<close> mk(1) pi(1) [of sp] by (simp add: append_image_def g1_def sp_def arr_def Let_def)
      with inv1 s1 True show ?thesis by (simp add: keeps_def fields1)
    next
      case False
      let ?p = "(Private g)\<lparr>PixelCount := of_int (Width (Image g)) * of_int (Height (Image g))\<rparr>"
      obtain r p' where su: "DGifSetupDecompress ?p = Some (r, p')" "left p' \<le> left ?p"
        "r = LzOk () \<longrightarrow> lz_inv p' \<and> PixelCount p' = PixelCount ?p"
        using DGifSetupDecompress_total [of ?p] by blast
      let ?g2 = "g1\<lparr>ImageCount := ?c + 1, Private := p'\<rparr>"
      have run: "append_image g = Some (case r of LzFail e \<Rightarrow> (GIF_ERROR, fail_with e ?g2) | LzOk _ \<Rightarrow> (GIF_OK, ?g2))"
        using al \<open>ok\<close> mk(1) pi(1) [of sp] False su(1) by (cases r) (auto simp: append_image_def g1_def sp_def arr_def Let_def)
      have k: "keeps g ?g2" using inv2 s2 su(2) by (simp add: keeps_def)
      show ?thesis
      proof (cases r)
        case (LzFail e)
        with run k show ?thesis by (simp add: keeps_def)
      next
        case (LzOk u)
        have "lread (arr[nat ?c := sp]) ?c = Some sp" using pi(2) c0 by simp
        then have "image_ready ?g2"
          using su(3) LzOk dim c0 by (auto simp: image_ready_def fields1 sp_def image_size_def)
        with run k LzOk show ?thesis by simp
      qed
    qed
  qed
qed

lemma DGifGetImageDesc_keeps:
  assumes inv: "gif_inv g"
  shows "\<exists>r g'. DGifGetImageDesc g = Some (r, g') \<and> keeps g g' \<and> (r = GIF_OK \<longrightarrow> image_ready g')"
proof (cases "IS_READABLE (Private g)")
  case False
  with inv show ?thesis by (simp add: DGifGetImageDesc_def keeps_def)
next
  case True
  obtain r d p where w: "read_image_words (Image g) (Private g) = (r, d, p)" by (metis prod_cases3)
  note wf = read_image_words_facts [OF w]
  have cm: "\<forall>m. ColorMap d = Some m \<longrightarrow> map_ok m" "ColorMap d = ColorMap (Image g)" using inv wf by (auto simp: gif_inv_def)
  have inv_d: "gif_inv (g\<lparr>Image := d\<rparr>)" "\<And>d. ColorMap d = None \<Longrightarrow> gif_inv (g\<lparr>Image := d\<rparr>)" using inv cm by (auto simp: gif_inv_def)
  show ?thesis
  proof (cases r)
    case (LzFail e)
    then have run: "DGifGetImageDesc g = Some (GIF_ERROR, fail_with e (g\<lparr>Image := d, Private := p\<rparr>))"
      using True w by (simp add: DGifGetImageDesc_def)
    have "keeps g (fail_with e (g\<lparr>Image := d, Private := p\<rparr>))"
      using wf inv_d cm by (simp add: keeps_def slack_images)
    with run show ?thesis by simp
  next
    case (LzOk u)
    obtain bs p1 where rd: "READ 1 p = (bs, p1)" by fastforce
    have l1: "left p1 \<le> left (Private g)" using rd wf by (auto simp: READ_def)
    show ?thesis
    proof (cases bs)
      case Nil
      then have "DGifGetImageDesc g = Some (GIF_ERROR, g\<lparr>Private := p1, Image := d\<lparr>ColorMap := None\<rparr>,
          gheap := GifFreeMapObject (ColorMap d) (gheap g), Error := D_GIF_ERR_READ_FAILED\<rparr>)"
        using True w LzOk rd by (simp add: DGifGetImageDesc_def)
      with l1 inv_d cm show ?thesis by (simp add: keeps_def slack_images gif_inv_def)
    next
      case (Cons b bs')
      let ?h1 = "GifFreeMapObject (ColorMap d) (gheap g)"
      let ?d1 = "d\<lparr>Interlace := (b AND 0x40 \<noteq> 0), ColorMap := None\<rparr>"
      define g1 where "g1 = g\<lparr>Private := p1, Image := ?d1, gheap := ?h1\<rparr>"
      have k1: "keeps g g1" using l1 inv_d cm by (simp add: keeps_def g1_def slack_images gif_inv_def)
      have dim: "0 \<le> Width d \<and> Width d \<le> 65535 \<and> 0 \<le> Height d \<and> Height d \<le> 65535" using wf LzOk by blast
      show ?thesis
      proof (cases "b AND 0x80 \<noteq> 0")
        case False
        then have run: "DGifGetImageDesc g = append_image g1"
          using True w LzOk rd Cons by (simp add: DGifGetImageDesc_def g1_def)
        have "gif_inv g1" using k1 by (simp add: keeps_def)
        from append_image_keeps [OF this] dim keeps_trans [OF k1] run show ?thesis by (simp add: g1_def) blast
      next
        case table: True
        obtain m h2 where mk: "GifMakeMapObject (2 ^ (unat (b AND 0x07) + 1)) None ?h1 = Some (m, h2)"
          "blocks h2 = blocks ?h1 + map_blocks m" "\<forall>cm. m = Some cm \<longrightarrow> map_ok cm \<and> ColorCount cm = 2 ^ (unat (b AND 0x07) + 1)"
          using GifMakeMapObject_total [where colors = None and cc = "2 ^ (unat (b AND 0x07) + 1)" and h = ?h1] by auto
        show ?thesis
        proof (cases m)
          case None
          with True w LzOk rd Cons table mk k1 show ?thesis
            by (auto simp: DGifGetImageDesc_def keeps_def g1_def slack_images)
        next
          case (Some cm)
          obtain cs p2 where rc: "read_colors (nat (ColorCount cm)) [] p1 = (cs, p2)" by fastforce
          note l2 = read_colors_left [OF rc]
          show ?thesis
          proof (cases cs)
            case None
            with True w LzOk rd Cons table mk k1 Some rc l2 inv_d(2) [of ?d1] show ?thesis
              by (auto simp: DGifGetImageDesc_def keeps_def g1_def slack_images)
          next
            case cs: (Some cols)
            let ?cm = "cm\<lparr>Colors := cols\<rparr>"
            let ?g = "g1\<lparr>Private := p2, gheap := h2, Image := ?d1\<lparr>ColorMap := Some ?cm\<rparr>\<rparr>"
            have run: "DGifGetImageDesc g = append_image ?g"
              using True w LzOk rd Cons table mk Some rc cs by (simp add: DGifGetImageDesc_def g1_def)
            have "length cols = nat (ColorCount cm)" using read_colors_length rc cs by fastforce
            moreover have "map_ok cm" using mk(3) Some by blast
            ultimately have "map_ok ?cm" using map_ok_bounds by (auto simp: map_ok_def)
            then have "gif_inv ?g" using k1 by (simp add: keeps_def gif_inv_def g1_def)
            moreover have "keeps g1 ?g"
              using k1 l2 mk(2) Some \<open>gif_inv ?g\<close> by (simp add: keeps_def g1_def slack_images)
            moreover note append_image_keeps [OF \<open>gif_inv ?g\<close>]
            ultimately show ?thesis using run dim keeps_trans [OF k1] keeps_trans by (simp, meson)
          qed
        qed
      qed
    qed
  qed
qed

end
