(* ===== verification/DGifSafe.thy ===== *)
theory DGifSafe
  imports DGifFile
begin

text \<open>
  Reading a whole file: the rows of an interlaced image, the loop of \<open>DGifSlurp\<close>, and the theorem
  that a session of opening, reading and closing is safe for every input and every outcome of the
  allocator.
\<close>

section \<open>Reading the pixels\<close>

lemma rows_from_spec:
  "0 < k \<Longrightarrow> set (rows_from j k h) = {x. j \<le> x \<and> x < h \<and> int k dvd x - j} \<and> distinct (rows_from j k h)"
proof (induction j k h rule: rows_from.induct)
  case (1 j k h)
  show ?case
  proof (cases "j < h")
    case False
    then have "rows_from j k h = []" by (subst rows_from.simps) simp
    with False show ?thesis by auto
  next
    case True
    have run: "rows_from j k h = j # rows_from (j + int k) k h" using True "1.prems" by (subst rows_from.simps) simp
    have IH: "set (rows_from (j + int k) k h) = {x. j + int k \<le> x \<and> x < h \<and> int k dvd x - (j + int k)}"
      "distinct (rows_from (j + int k) k h)" using "1.IH" True "1.prems" by auto
    have "int k dvd x - (j + int k) \<longleftrightarrow> int k dvd x - j" for x
      by (metis diff_diff_eq dvd_diff_left_iff dvd_refl)
    moreover have "j + int k \<le> x" if "int k dvd x - j" "j < x" for x
      using zdvd_imp_le [OF that(1)] that(2) by simp
    ultimately show ?thesis unfolding run using IH True "1.prems" by (auto simp: order.order_iff_strict)
  qed
qed

lemma interlaced_rows_perm:
  "distinct (interlaced_rows h) \<and> set (interlaced_rows h) = {0..<h}"
proof -
  note s = rows_from_spec [of 8 0 h] rows_from_spec [of 8 4 h] rows_from_spec [of 4 2 h] rows_from_spec [of 2 1 h]
  have apart: "\<not> (8 dvd x \<and> 8 dvd x - 4)" "\<not> (8 dvd x \<and> 4 dvd x - 2)" "\<not> (8 dvd x \<and> 2 dvd x - 1)"
    "\<not> (8 dvd x - 4 \<and> 4 dvd x - 2)" "\<not> (8 dvd x - 4 \<and> 2 dvd x - 1)" "\<not> (4 dvd x - 2 \<and> 2 dvd x - 1)" for x :: int
    by presburger+
  have d: "distinct (interlaced_rows h)"
    unfolding interlaced_rows_def using s apart by (simp add: disjoint_iff)
  have "x \<in> set (interlaced_rows h) \<longleftrightarrow> x \<in> {0..<h}" for x
    unfolding interlaced_rows_def using s by simp presburger
  with d show ?thesis by blast
qed

text \<open>The four passes over an interlaced image visit every row exactly once.\<close>

theorem interlaced_rows_complete:
  "distinct (interlaced_rows h) \<and> set (interlaced_rows h) = {0..<h}"
  by (rule interlaced_rows_perm)

lemma interlaced_rows_range: "\<forall>j \<in> set (interlaced_rows h). 0 \<le> j \<and> j < h"
  using rows_from_spec [of 8 0 h] rows_from_spec [of 8 4 h] rows_from_spec [of 4 2 h] rows_from_spec [of 2 1 h]
  by (auto simp: interlaced_rows_def)

lemma put_pixels_total:
  assumes "0 \<le> off" "off + int (length px) \<le> int (length raster)"
  shows "\<exists>raster'. put_pixels raster off px = Some raster' \<and> length raster' = length raster"
proof -
  have "nat off + length px \<le> length raster" using assms by linarith
  then show ?thesis using assms by (auto simp: put_pixels_def)
qed

lemma put_pixels_Nil [simp]: "put_pixels raster off [] = Some raster"
  by (simp add: put_pixels_def)

lemma read_rows_total:
  assumes "lz_inv p" "0 \<le> width" "0 \<le> height" "int (length raster) = height * width" "\<forall>j \<in> set js. 0 \<le> j \<and> j < height"
  shows "\<exists>r raster' p'. read_rows width js raster p = Some (r, raster', p') \<and> length raster' = length raster \<and>
     left p' \<le> left p \<and> lz_inv p'"
  using assms
proof (induction js arbitrary: raster p)
  case Nil
  then show ?case by simp
next
  case (Cons j js)
  obtain r px p1 where l: "DGifGetLine width width p = Some (r, px, p1)" "left p1 \<le> left p" "lz_inv p1"
    "int (length px) \<le> width"
    using DGifGetLine_total [OF Cons.prems(1), of width width] Cons.prems(2) by auto
  have "j * width + width \<le> height * width"
    using Cons.prems(2,5) mult_right_mono [of "j + 1" height width] by (simp add: distrib_right)
  then obtain raster1 where pp: "put_pixels raster (j * width) px = Some raster1" "length raster1 = length raster"
    using put_pixels_total [of "j * width" px raster] Cons.prems(2,4,5) l(4) by auto
  show ?case
  proof (cases r)
    case (LzFail e)
    with l pp show ?thesis by simp
  next
    case (LzOk u)
    obtain r2 raster2 p2 where "read_rows width js raster1 p1 = Some (r2, raster2, p2)" "length raster2 = length raster1"
      "left p2 \<le> left p1" "lz_inv p2"
      using Cons.IH [OF l(3) Cons.prems(2,3), of raster1] Cons.prems(4,5) pp(2) by auto
    with l pp LzOk show ?thesis by auto
  qed
qed

lemma image_size_exact:
  assumes "0 \<le> Width d" "Width d \<le> 65535" "0 \<le> Height d" "Height d \<le> 65535"
  shows "int (unat (image_size d)) = Height d * Width d"
proof -
  have "Width d * Height d \<le> 65535 * 65535" using assms by (intro mult_mono) auto
  moreover have "0 \<le> Width d * Height d" using assms by simp
  ultimately have "uint (of_int (Width d * Height d) :: u32) = Width d * Height d"
    by (simp add: uint_word_of_int_eq take_bit_int_eq_self del: of_int_mult)
  then show ?thesis by (simp add: image_size_def mult.commute)
qed

lemma read_pixels_total:
  assumes inv: "lz_inv p" and dim: "0 \<le> Width d" "Width d \<le> 65535" "0 \<le> Height d" "Height d \<le> 65535"
    and px: "PixelCount p = image_size d" and small: "unat (image_size d) < 2 ^ 31"
  shows "\<exists>r raster p'. read_pixels d (Width d) p = Some (r, raster, p') \<and> left p' \<le> left p \<and> lz_inv p' \<and>
    int (length raster) = Width d * Height d"
proof -
  note sz = image_size_exact [OF dim]
  let ?raster = "replicate (unat (image_size d)) (0::u8)"
  show ?thesis
  proof (cases "Interlace d")
    case True
    have "\<exists>r raster' p'. read_rows (Width d) (interlaced_rows (Height d)) ?raster p = Some (r, raster', p') \<and>
       length raster' = length ?raster \<and> left p' \<le> left p \<and> lz_inv p'"
      by (rule read_rows_total [OF inv dim(1,3)]) (use sz interlaced_rows_range in auto)
    with True sz show ?thesis by (auto simp: read_pixels_def mult.commute)
  next
    case False
    let ?n = "sint (image_size d)"
    have "uint (image_size d) < 2 ^ 31" using small by (metis of_nat_less_iff of_nat_numeral of_nat_power uint_nat)
    moreover have "0 \<le> uint (image_size d)" by simp
    ultimately have "signed_take_bit 31 (uint (image_size d)) = uint (image_size d)"
      by (intro signed_take_bit_int_eq_self) linarith+
    then have n: "?n = int (unat (image_size d))" by (simp add: sint_uint)
    obtain r line p' where l: "DGifGetLine (Width d) ?n p = Some (r, line, p')" "left p' \<le> left p" "lz_inv p'"
     "int (length line) \<le> max (if ?n = 0 then Width d else ?n) 0"
     "?n = 0 \<and> PixelCount p = 0 \<and> 0 \<le> Width d \<and> Width d \<le> 65535 \<longrightarrow> line = []"
      using DGifGetLine_total [OF inv, of "Width d" ?n] by blast
    have z: "line = []" if "?n = 0"
    proof -
      have "image_size d = 0" using that n by (simp add: word_uint_eq_iff)
      then show ?thesis using l(5) that px dim by simp
    qed
    then have "0 + int (length line) \<le> int (length ?raster)" using l(4) n by (cases "?n = 0") auto
    then obtain raster' where "put_pixels ?raster 0 line = Some raster'" "length raster' = length ?raster"
      using put_pixels_total [of 0 line ?raster] by auto
    with False l sz show ?thesis by (auto simp: read_pixels_def mult.commute)
  qed
qed

lemma slack_ext:
  "slack (g\<lparr>FileExtensionBlocks := es\<rparr>) = slack g + ext_blocks (FileExtensionBlocks g) - ext_blocks es"
  "slack (g\<lparr>FileExtensionBlockCount := c\<rparr>) = slack g"
  by (auto simp: slack_def gif_blocks_def split: option.splits)

text \<open>The last image of a file replaced by another.\<close>

lemma last_image_update:
  assumes inv: "gif_inv g" and l: "SavedImages g = Some l" "lread l (ImageCount g - 1) = Some sp" and ok: "image_ok sp'"
  shows "lwrite l (ImageCount g - 1) sp' = Some (l[nat (ImageCount g - 1) := sp'])"
    "gif_inv (g\<lparr>SavedImages := Some (l[nat (ImageCount g - 1) := sp'])\<rparr>)"
    "slack (g\<lparr>SavedImages := Some (l[nat (ImageCount g - 1) := sp'])\<rparr>) = slack g + image_blocks sp - image_blocks sp'"
proof -
  let ?k = "nat (ImageCount g - 1)"
  have k: "0 \<le> ImageCount g - 1" "?k < length l" "sp = l ! ?k" using l(2) by (auto simp: lread_eq_Some)
  have c: "nat (ImageCount g) = Suc ?k" using k(1) by linarith
  show "lwrite l (ImageCount g - 1) sp' = Some (l[?k := sp'])" using k by simp
  have all: "list_all image_ok (take ?k l)" "image_ok sp" "ImageCount g \<le> int (length l)"
    using inv l(1) k by (auto simp: gif_inv_def images_ok_def c take_Suc_conv_app_nth)
  have t: "take (Suc ?k) (l[?k := sp']) = take ?k l @ [sp']" "take (Suc ?k) l = take ?k l @ [sp]"
    using k by (simp_all add: take_Suc_conv_app_nth)
  show "gif_inv (g\<lparr>SavedImages := Some (l[?k := sp'])\<rparr>)"
    using inv all ok k(1) unfolding gif_inv_def images_ok_def by (simp add: c t)
  show "slack (g\<lparr>SavedImages := Some (l[?k := sp'])\<rparr>) = slack g + image_blocks sp - image_blocks sp'"
    by (simp add: slack_images image_blocks_used_def l(1) c t)
qed

lemma gif_inv_clear_ext: "gif_inv g \<Longrightarrow> gif_inv (g\<lparr>FileExtensionBlocks := None, FileExtensionBlockCount := 0\<rparr>)"
  by (auto simp: gif_inv_def ext_ok_def)

lemma slurp_image_keeps:
  assumes inv: "gif_inv g"
  shows "\<exists>r g'. slurp_image g = Some (r, g') \<and> keeps g g'"
proof -
  obtain r1 g1 where d: "DGifGetImageDesc g = Some (r1, g1)" "keeps g g1" "r1 = GIF_OK \<longrightarrow> image_ready g1"
    using DGifGetImageDesc_keeps [OF inv] by blast
  show ?thesis
  proof (cases r1)
    case GIF_ERROR
    with d show ?thesis by (simp add: slurp_image_def)
  next
    case GIF_OK
    have inv1: "gif_inv g1" using d(2) by (simp add: keeps_def)
    have rdy: "image_ready g1" using d(3) GIF_OK by blast
    then obtain l m where l: "SavedImages g1 = Some l"
      "lread l (ImageCount g1 - 1) = Some (zero_image\<lparr>ImageDesc := (Image g1)\<lparr>ColorMap := m\<rparr>\<rparr>)"
      by (auto simp: image_ready_def)
    define sp where "sp = zero_image\<lparr>ImageDesc := (Image g1)\<lparr>ColorMap := m\<rparr>\<rparr>"
    let ?d = "ImageDesc sp"
    have dd: "Width ?d = Width (Image g1)" "Height ?d = Height (Image g1)" "image_size ?d = image_size (Image g1)"
      "RasterBits sp = None" "ExtensionBlocks sp = None" "ExtensionBlockCount sp = 0"
      by (simp_all add: sp_def image_size_def zero_image_def)
    have dim: "0 \<le> Width ?d" "Width ?d \<le> 65535" "0 \<le> Height ?d" "Height ?d \<le> 65535"
      and lz: "lz_inv (Private g1)" "PixelCount (Private g1) = image_size ?d"
      using rdy by (auto simp: image_ready_def dd)
    have small: "\<not> image_size ?d > (- 1) div 1" by (simp add: word_not_simps not_less)
    obtain ok h where al: "reallocarray False (image_size ?d) 1 (gheap g1) = (ok, h)" by fastforce
    note bh = reallocarray_blocks [OF al]
    show ?thesis
    proof (cases ok)
      case False
      have "slurp_image g = Some (GIF_ERROR, g1\<lparr>gheap := h\<rparr>)"
        using d(1) GIF_OK l dim al False small by (simp add: slurp_image_def sp_def [symmetric] Let_def)
      with d(2) bh False show ?thesis by (simp add: keeps_def)
    next
      case True
      have "unat (image_size ?d) < 2 ^ 31"
        using al True by (auto simp: reallocarray_def reallocarray_size_def realloc_def granted_def split: if_splits)
      then obtain r raster p where px: "read_pixels ?d (Width (Image g1)) (Private g1) = Some (r, raster, p)"
        "left p \<le> left (Private g1)"
        using read_pixels_total [OF lz(1) dim lz(2)] dd(1) by auto
      let ?sp1 = "sp\<lparr>RasterBits := Some raster\<rparr>"
      define g2 where "g2 = g1\<lparr>gheap := h, Private := p\<rparr>"
      have inv2: "gif_inv g2" and l2: "SavedImages g2 = Some l" "lread l (ImageCount g2 - 1) = Some sp"
        and f2: "ImageCount g2 = ImageCount g1" "FileExtensionBlocks g2 = FileExtensionBlocks g1"
          "FileExtensionBlockCount g2 = FileExtensionBlockCount g1" "Private g2 = p"
        using inv1 l by (simp_all add: g2_def sp_def)
      have k2: "slack g2 = slack g + 1" "left p \<le> left (Private g)"
        using d(2) bh True px(2) by (simp_all add: g2_def keeps_def)
      have ok1: "image_ok ?sp1" using dd by (simp add: image_ok_def ext_ok_def)
      note u = last_image_update [OF inv2 l2 ok1]
      have b1: "image_blocks ?sp1 = image_blocks sp + 1" by (simp add: image_blocks_def dd)
      show ?thesis
      proof (cases "r = LzOk () \<and> FileExtensionBlocks g1 \<noteq> None")
        case False
        have "\<exists>s e. slurp_image g = Some (s, fail_with e (g2\<lparr>SavedImages := Some (l[nat (ImageCount g1 - 1) := ?sp1])\<rparr>))"
        proof (cases r)
          case (LzFail e)
          then show ?thesis
            using d(1) GIF_OK l dim al True small px u(1) f2
            by (intro exI [of _ GIF_ERROR] exI [of _ e]) (simp add: slurp_image_def sp_def [symmetric] Let_def g2_def [symmetric])
        next
          case (LzOk w)
          then show ?thesis
            using d(1) GIF_OK l dim al True small px u(1) f2 False
            by (intro exI [of _ GIF_OK] exI [of _ None])
               (simp add: slurp_image_def sp_def [symmetric] Let_def g2_def [symmetric] fail_with_def)
        qed
        with u b1 k2 f2 show ?thesis by (auto simp: keeps_def)
      next
        case fin: True
        then obtain es where es: "FileExtensionBlocks g1 = Some es" by blast
        let ?sp2 = "?sp1\<lparr>ExtensionBlocks := Some es, ExtensionBlockCount := FileExtensionBlockCount g1\<rparr>"
        have ok2: "image_ok ?sp2" using inv1 es by (simp add: image_ok_def gif_inv_def)
        note v = last_image_update [OF inv2 l2 ok2]
        have b2: "image_blocks ?sp2 = image_blocks sp + 1 + ext_blocks (Some es)"
          by (simp add: image_blocks_def dd ext_blocks_def)
        let ?g3 = "g2\<lparr>SavedImages := Some (l[nat (ImageCount g1 - 1) := ?sp2])\<rparr>"
        have run: "slurp_image g = Some (GIF_OK, ?g3\<lparr>FileExtensionBlocks := None, FileExtensionBlockCount := 0\<rparr>)"
          using d(1) GIF_OK l dim al True small px v(1) f2 fin es
          by (simp add: slurp_image_def sp_def [symmetric] Let_def g2_def [symmetric])
        have "gif_inv (?g3\<lparr>FileExtensionBlocks := None, FileExtensionBlockCount := 0\<rparr>)"
          using v(2) f2 by (intro gif_inv_clear_ext) simp
        with run v(3) b2 k2 f2 es show ?thesis
          by (simp add: keeps_def slack_ext) (simp add: ext_blocks_def)
      qed
    qed
  qed
qed

lemma GifAddExtensionBlock_total:
  assumes ok: "ext_ok c es"
  shows "\<exists>r c' es' h'. GifAddExtensionBlock c es func (length bs) (Some bs) h = Some (r, c', es', h') \<and>
    ext_ok c' es' \<and> blocks h' - ext_blocks es' = blocks h - ext_blocks es"
proof -
  define arr where "arr = (case es of None \<Rightarrow> [zero_ext] | Some l \<Rightarrow> resize (nat (c + 1)) zero_ext l)"
  define old where "old = (case es of None \<Rightarrow> [] | Some l \<Rightarrow> l)"
  have c: "c = int (length old)" using ok by (auto simp: ext_ok_def old_def split: option.splits)
  have arr: "arr = old @ [zero_ext]"
    using c by (auto simp: arr_def old_def resize_def nat_add_distrib split: option.splits)
  have w: "lwrite arr c e = Some (old @ [e])" for e using c arr by simp
  obtain ok1 h1 where al: "(case es of None \<Rightarrow> malloc 12 h | Some _ \<Rightarrow> reallocarray True (of_int (c + 1)) 12 h) = (ok1, h1)"
    by fastforce
  have b1: "blocks h1 = blocks h + (if ok1 \<and> es = None then 1 else 0)"
    using al by (auto split: option.splits dest: malloc_blocks reallocarray_blocks)
  obtain ok2 h2 where m2: "malloc (length bs) h1 = (ok2, h2)" by fastforce
  note b2 = malloc_blocks [OF m2]
  have sum: "ext_blocks (Some (old @ [e])) = ext_blocks es + (if es = None then 1 else 0) + (if Bytes e = None then 0 else 1)" for e
    by (auto simp: ext_blocks_def old_def split: option.splits)
  show ?thesis
  proof (cases ok1)
    case False
    with al ok b1 show ?thesis by (simp add: GifAddExtensionBlock_def)
  next
    case True
    let ?e = "\<lparr>ByteCount = int (length bs), Bytes = (if ok2 then Some bs else None), Function = func\<rparr>"
    have "GifAddExtensionBlock c es func (length bs) (Some bs) h =
        Some (if ok2 then GIF_OK else GIF_ERROR, c + 1, Some (old @ [?e]), h2)"
      using al True m2 w by (cases ok2) (simp_all add: GifAddExtensionBlock_def arr_def [symmetric])
    moreover have "ext_ok (c + 1) (Some (old @ [?e]))" using c by (simp add: ext_ok_def)
    ultimately show ?thesis using b1 b2 True sum [of ?e] by auto
  qed
qed

lemma add_file_extension_keeps:
  assumes "gif_inv g"
  shows "\<exists>r g'. add_file_extension func bs g = Some (r, g') \<and> keeps g g'"
proof -
  have "ext_ok (FileExtensionBlockCount g) (FileExtensionBlocks g)" using assms by (simp add: gif_inv_def)
  from GifAddExtensionBlock_total [OF this, of func bs "gheap g"] obtain r c es h where
    a: "GifAddExtensionBlock (FileExtensionBlockCount g) (FileExtensionBlocks g) func (length bs) (Some bs) (gheap g) = Some (r, c, es, h)"
    "ext_ok c es" "blocks h - ext_blocks es = blocks (gheap g) - ext_blocks (FileExtensionBlocks g)" by blast
  have "gif_inv (g\<lparr>FileExtensionBlockCount := c, FileExtensionBlocks := es, gheap := h\<rparr>)"
    using assms a(2) by (simp add: gif_inv_def)
  with a show ?thesis by (simp add: add_file_extension_def keeps_def slack_ext)
qed

lemma DGifGetExtensionNext_total: "\<exists>r p'. DGifGetExtensionNext p = Some (r, p') \<and> left p' \<le> left p"
proof (cases "input p")
  case Nil
  then show ?thesis by (simp add: DGifGetExtensionNext_def READ_def)
next
  case (Cons c cs)
  obtain buf where "put_bytes 256 ((Buf p)(0 := c)) 1 (take (unat c) cs) = Some buf" using put_block by blast
  with Cons show ?thesis by (auto simp: DGifGetExtensionNext_def READ_def Let_def)
qed

lemma DGifGetExtension_total: "\<exists>r p'. DGifGetExtension p = Some (r, p') \<and> left p' \<le> left p"
proof (cases "IS_READABLE p")
  case True
  show ?thesis
  proof (cases "input p")
    case Nil
    with True show ?thesis by (simp add: DGifGetExtension_def READ_def)
  next
    case (Cons c cs)
    obtain r p' where "DGifGetExtensionNext (p\<lparr>input := cs\<rparr>) = Some (r, p')" "left p' \<le> length cs"
      using DGifGetExtensionNext_total [of "p\<lparr>input := cs\<rparr>"] by auto
    with True Cons show ?thesis by (simp add: DGifGetExtension_def READ_def)
  qed
qed (simp add: DGifGetExtension_def)

lemma keeps_private: "gif_inv g \<Longrightarrow> left p \<le> left (Private g) \<Longrightarrow> keeps g (g\<lparr>Private := p\<rparr>)"
  by (simp add: keeps_def)

lemma keeps_fail_with [simp]: "keeps g (fail_with e g') = keeps g g'"
  by (simp add: keeps_def)

lemma slurp_ext_loop_keeps: "gif_inv g \<Longrightarrow> \<exists>r g'. slurp_ext_loop g = Some (r, g') \<and> keeps g g'"
proof (induction "left (Private g)" arbitrary: g rule: less_induct)
  case less
  obtain r p where n: "DGifGetExtensionNext (Private g) = Some (r, p)" "left p \<le> left (Private g)"
    using DGifGetExtensionNext_total by blast
  have k: "keeps g (g\<lparr>Private := p\<rparr>)" using less.prems n(2) by (rule keeps_private)
  show ?case
  proof (cases r)
    case (LzFail e)
    with n k show ?thesis by (subst slurp_ext_loop.simps) simp
  next
    case ok: (LzOk b)
    show ?thesis
    proof (cases b)
      case None
      with ok n k show ?thesis by (subst slurp_ext_loop.simps) simp
    next
      case (Some bs)
      obtain s g1 where a: "add_file_extension CONTINUE_EXT_FUNC_CODE bs (g\<lparr>Private := p\<rparr>) = Some (s, g1)"
        "keeps (g\<lparr>Private := p\<rparr>) g1"
        using add_file_extension_keeps [of "g\<lparr>Private := p\<rparr>" CONTINUE_EXT_FUNC_CODE bs] less.prems by auto
      have k1: "keeps g g1" using keeps_trans k a(2) by blast
      have "left (Private g1) < left (Private g)"
        using add_file_extension_private [OF a(1)] DGifGetExtensionNext_shorter n(1) ok by simp
      moreover have "gif_inv g1" using k1 by (simp add: keeps_def)
      ultimately obtain r2 g2 where "slurp_ext_loop g1 = Some (r2, g2)" "keeps g1 g2" using less.hyps by blast
      with n ok Some a k1 keeps_trans show ?thesis
        by (subst slurp_ext_loop.simps) (cases s; fastforce)
    qed
  qed
qed

lemma slurp_extension_keeps:
  assumes inv: "gif_inv g"
  shows "\<exists>r g'. slurp_extension g = Some (r, g') \<and> keeps g g'"
proof -
  obtain r p where n: "DGifGetExtension (Private g) = Some (r, p)" "left p \<le> left (Private g)"
    using DGifGetExtension_total by blast
  have k: "keeps g (g\<lparr>Private := p\<rparr>)" using inv n(2) by (rule keeps_private)
  show ?thesis
  proof (cases r)
    case (LzFail e)
    with n k show ?thesis by (simp add: slurp_extension_def)
  next
    case ok: (LzOk b)
    obtain func x where b: "b = (func, x)" by fastforce
    show ?thesis
    proof (cases x)
      case None
      with ok b n k show ?thesis by (simp add: slurp_extension_def)
    next
      case (Some bs)
      obtain s g1 where a: "add_file_extension func bs (g\<lparr>Private := p\<rparr>) = Some (s, g1)" "keeps (g\<lparr>Private := p\<rparr>) g1"
        using add_file_extension_keeps [of "g\<lparr>Private := p\<rparr>" func bs] inv by auto
      have k1: "keeps g g1" using keeps_trans k a(2) by blast
      then have "gif_inv g1" by (simp add: keeps_def)
      from slurp_ext_loop_keeps [OF this] keeps_trans [OF k1] n ok b Some a k1 show ?thesis
        by (cases s) (auto simp: slurp_extension_def)
    qed
  qed
qed

lemma DGifGetRecordType_keeps:
  assumes "gif_inv g" "DGifGetRecordType g = (r, t, g')"
  shows "keeps g g'" "r = GIF_OK \<Longrightarrow> left (Private g') < left (Private g)"
  using assms by (cases "input (Private g)"; auto simp: DGifGetRecordType_def READ_def keeps_def split: if_splits)+

lemma slurp_loop_keeps: "gif_inv g \<Longrightarrow> \<exists>r g'. slurp_loop g = Some (r, g') \<and> keeps g g'"
proof (induction "left (Private g)" arbitrary: g rule: less_induct)
  case less
  obtain r t g1 where rt: "DGifGetRecordType g = (r, t, g1)" by (metis prod_cases3)
  note k = DGifGetRecordType_keeps [OF less.prems rt]
  have inv1: "gif_inv g1" using k(1) by (simp add: keeps_def)
  show ?case
  proof (cases "r = GIF_OK \<and> t \<noteq> TERMINATE_RECORD_TYPE")
    case False
    with rt k(1) show ?thesis by (subst slurp_loop.simps) (cases r; auto simp: keeps_def)
  next
    case True
    obtain s g2 where st: "(if t = IMAGE_DESC_RECORD_TYPE then slurp_image g1 else slurp_extension g1) = Some (s, g2)" "keeps g1 g2"
      using slurp_image_keeps [OF inv1] slurp_extension_keeps [OF inv1] by (cases "t = IMAGE_DESC_RECORD_TYPE") auto
    have k2: "keeps g g2" using keeps_trans k(1) st(2) by blast
    show ?thesis
    proof (cases s)
      case GIF_ERROR
      with True rt st k2 show ?thesis by (subst slurp_loop.simps) simp
    next
      case GIF_OK
      have "left (Private g2) < left (Private g)" using k(2) True st(2) by (simp add: keeps_def)
      moreover have "gif_inv g2" using k2 by (simp add: keeps_def)
      ultimately obtain r3 g3 where "slurp_loop g2 = Some (r3, g3)" "keeps g2 g3" using less.hyps by blast
      moreover have "keeps g g3" using keeps_trans k2 calculation(2) by blast
      ultimately show ?thesis using True rt st GIF_OK by (subst slurp_loop.simps) simp
    qed
  qed
qed

lemma new_gif_facts:
  "gif_inv (new_gif bytes h)" "slack (new_gif bytes h) = blocks h - 2" "SColorMap (new_gif bytes h) = None"
  "ColorMap (Image (new_gif bytes h)) = None" "SavedImages (new_gif bytes h) = None" "FileExtensionBlocks (new_gif bytes h) = None"
  "gheap (new_gif bytes h) = h"
  by (simp_all add: new_gif_def gif_inv_def images_ok_def ext_ok_def zero_desc_def slack_def gif_blocks_def ext_blocks_def)

text \<open>Opening returns a well formed file that owns every block allocated since, or gives them back.\<close>

lemma open_source_total:
  "\<exists>r e h'. open_source se bytes h = Some (r, e, h') \<and>
     (case r of None \<Rightarrow> blocks h' = blocks h
      | Some g \<Rightarrow> gif_inv g \<and> slack g = blocks h \<and> gheap g = h' \<and> FileExtensionBlocks g = None)"
proof -
  obtain ok1 h1 where m1: "malloc 76 h = (ok1, h1)" by fastforce
  obtain ok2 h2 where m2: "malloc 24908 h1 = (ok2, h2)" by fastforce
  note b = malloc_blocks [OF m1] malloc_blocks [OF m2]
  note nf = new_gif_facts [of bytes h2]
  obtain stamp p where rd: "READ 6 (Private (new_gif bytes h2)) = (stamp, p)" by fastforce
  let ?g = "new_gif bytes h2\<lparr>Private := p\<rparr>"
  obtain r g2 where sd: "DGifGetScreenDesc ?g = Some (r, g2)" "keeps ?g g2" "r = GIF_ERROR \<longrightarrow> SColorMap g2 = None"
    "Image g2 = Image ?g" "SavedImages g2 = SavedImages ?g" "ImageCount g2 = ImageCount ?g"
     "FileExtensionBlocks g2 = FileExtensionBlocks ?g"
    using DGifGetScreenDesc_keeps [of ?g] nf by auto
  have s: "slack g2 = blocks h2 - 2" "gif_inv g2" using sd(2) nf by (simp_all add: keeps_def)
  have e: "blocks (gheap g2) = blocks h2" if "r = GIF_ERROR"
    using s(1) sd nf that by (simp add: slack_def gif_blocks_def ext_blocks_def)
  show ?thesis
  proof (cases "ok1 \<and> ok2 \<and> length stamp = 6 \<and> take 3 stamp = [0x47, 0x49, 0x46]")
    case False
    then show ?thesis using m1 m2 b rd by (cases ok1; cases ok2) (auto simp: open_source_def Let_def)
  next
    case True
    then show ?thesis using m1 m2 b rd sd(1,7) s e nf by (cases r) (auto simp: open_source_def Let_def)
  qed
qed

text \<open>(C2) Whatever bytes the source delivers and whichever allocations fail, opening, reading and
  closing a GIF file never leave an array and always come to an end; a failed open and a close give
  back every block that was allocated, also after an error in the middle of the file.\<close>

theorem gif_session_safe:
  "\<exists>r e h'. DGifOpen bytes h = Some (r, e, h') \<and>
     (case r of
        None \<Rightarrow> e \<noteq> None \<and> blocks h' = blocks h
      | Some g \<Rightarrow> \<exists>st g' st' code h''. DGifSlurp g = Some (st, g') \<and>
          DGifCloseFile fc g' = Some (st', code, h'') \<and> blocks h'' = blocks h)"
proof -
  obtain r e h' where o: "DGifOpen bytes h = Some (r, e, h')"
    "case r of None \<Rightarrow> blocks h' = blocks h
      | Some g \<Rightarrow> gif_inv g \<and> slack g = blocks h \<and> gheap g = h' \<and> FileExtensionBlocks g = None"
    using open_source_total [of "Some D_GIF_ERR_NO_SCRN_DSCR" bytes h] unfolding DGifOpen_def by blast
  have "e \<noteq> None" if "r = None"
    using o(1) that by (auto simp: DGifOpen_def open_source_def Let_def bind_eq_Some_conv split: prod.splits if_splits bool.splits)
  moreover have "\<exists>st g' st' code h''. DGifSlurp g = Some (st, g') \<and>
          DGifCloseFile fc g' = Some (st', code, h'') \<and> blocks h'' = blocks h" if "r = Some g" for g
  proof -
    let ?g = "g\<lparr>FileExtensionBlocks := None, FileExtensionBlockCount := 0\<rparr>"
    have g: "gif_inv ?g" "slack ?g = blocks h"
      using o(2) that gif_inv_clear_ext [of g] by (simp_all add: slack_ext ext_blocks_def)
    obtain st g' where "slurp_loop ?g = Some (st, g')" "keeps ?g g'" using slurp_loop_keeps [OF g(1)] by blast
    then show ?thesis
      using g(2) DGifCloseFile_total [of g' fc] by (auto simp: DGifSlurp_def keeps_def)
  qed
  ultimately show ?thesis using o by (auto split: option.splits)
qed

end
