(* ===== verification/GifRound.thy ===== *)
theory GifRound
  imports LzwWrite LzwRead DGifSafe
begin

text \<open>
  The writer and the reader together: what \<open>egif_lib.c\<close> writes, \<open>dgif_lib.c\<close> reads back.
\<close>

section \<open>Image data\<close>

text \<open>The lines of an image written one after the other with \<open>EGifPutLine\<close>, and read with \<open>DGifGetLine\<close>
  (the pixels of all lines read).  The lines need not be cut the same way on both sides.\<close>

fun put_lines :: "u8 list list \<Rightarrow> egif \<Rightarrow> (gif_status \<times> egif) option" where
  "put_lines [] g = Some (GIF_OK, g)"
| "put_lines (line # lines) g =
     do { (r, _, g') \<leftarrow> EGifPutLine line (int (length line)) g;
          if r = GIF_ERROR then Some (GIF_ERROR, g') else put_lines lines g' }"

fun get_lines :: "int \<Rightarrow> nat list \<Rightarrow> dpriv \<Rightarrow> (unit lz_result \<times> u8 list \<times> dpriv) option" where
  "get_lines width [] p = Some (LzOk (), [], p)"
| "get_lines width (n # ns) p =
     do { (r, line, p') \<leftarrow> DGifGetLine width (int n) p;
          case r of
            LzFail e \<Rightarrow> Some (LzFail e, line, p')
          | LzOk _ \<Rightarrow> do { (r', px, p'') \<leftarrow> get_lines width ns p'; Some (r', line @ px, p'') } }"

lemma CodeMask_nth:
  assumes "0 \<le> bpp" "bpp \<le> 8"
  shows "lread CodeMask bpp = Some (mask (nat bpp))"
proof -
  have "bpp \<in> {0, 1, 2, 3, 4, 5, 6, 7, 8}" using assms by auto
  then show ?thesis by (auto simp: CodeMask_def lread_def mask_eq_exp_minus_1)
qed

text \<open>The bits of a pixel that the code size keeps.\<close>

definition pixel_bits :: "int \<Rightarrow> u8 list \<Rightarrow> u8 list" where
  "pixel_bits bpp px = map (take_bit (nat bpp)) px"

lemma pixel_bits_simps [simp]:
  "pixel_bits bpp [] = []" "pixel_bits bpp (as @ bs) = pixel_bits bpp as @ pixel_bits bpp bs" "length (pixel_bits bpp px) = length px"
  "pixel_bits bpp px = [] \<longleftrightarrow> px = []"
  by (simp_all add: pixel_bits_def)

lemma pixel_bits_less: "\<forall>b \<in> set (pixel_bits bpp px). uint b < 2 ^ nat bpp"
  by (auto simp: pixel_bits_def unsigned_take_bit_eq take_bit_int_less_exp)

lemma wrote_PixelCount [simp]: "wrote bpp W px (p\<lparr>PixelCount := n\<rparr>) = wrote bpp W px p"
proof -
  have "writing bpp W B es c (p\<lparr>PixelCount := n\<rparr>) = writing bpp W B es c p" for B es c
    by (simp add: writing_def packed_def sent_def coder_ok_def)
  then show ?thesis by (simp add: wrote_def Let_def)
qed

lemma wrote_bpp: "wrote bpp W px p \<Longrightarrow> LZBitsPerPixel p = bpp \<and> 2 \<le> bpp \<and> bpp \<le> 8"
  by (auto simp: wrote_def writing_def Let_def split: if_splits)

lemma EGifPutLine_wrote:
  assumes w: "wrote bpp W px (Private g)" and st: "IS_WRITEABLE (Private g)" and ln: "0 < n" "n \<le> length Line" "n \<le> N" "N < 2 ^ 32"
    and pc: "PixelCount (Private g) = of_nat N"
  shows "\<exists>p'. EGifPutLine Line (int n) g = Some (GIF_OK, pixel_bits bpp (take n Line) @ drop n Line, g\<lparr>Private := p'\<rparr>) \<and>
    PixelCount p' = of_nat (N - n) \<and> same_file ((Private g)\<lparr>PixelCount := PixelCount p'\<rparr>) p' \<and>
    (if N = n
     then \<exists>Y pad. written p' = W @ sub_blocks Y \<and> byte_bits Y = code_bits (image_codes bpp (px @ pixel_bits bpp (take n Line))) @ pad
     else wrote bpp W (px @ pixel_bits bpp (take n Line)) p')"
proof -
  let ?line = "pixel_bits bpp (take n Line) @ drop n Line"
  have b: "LZBitsPerPixel (Private g) = bpp" "2 \<le> bpp" "bpp \<le> 8" using wrote_bpp [OF w] by auto
  have "unat (of_nat N :: u32) = N" "unat (of_nat n :: u32) = n" using ln(3,4) by (simp_all add: unat_of_nat take_bit_nat_eq_self)
  then have ge: "\<not> PixelCount (Private g) < of_int (int n)" using ln(3) pc by (simp add: word_less_nat_alt)
  define p1 where "p1 = (Private g)\<lparr>PixelCount := of_nat (N - n)\<rparr>"
  have p1: "(Private g)\<lparr>PixelCount := PixelCount (Private g) - of_int (int n)\<rparr> = p1" using ln(3) pc by (simp add: p1_def of_nat_diff)
  have w1: "wrote bpp W px p1" using w by (simp add: p1_def)
  have m: "mask_line (mask (nat bpp)) (int n) Line = Some ?line" using ln(2) by (simp add: mask_line_def pixel_bits_def take_bit_eq_mask)
  have n0: "0 < n" "n \<le> length ?line" "take n ?line = pixel_bits bpp (take n Line)" using ln(1,2) by simp_all
  have run: "EGifPutLine Line (int n) g = Some (GIF_OK, ?line, g\<lparr>Private := p2\<rparr>)" if "EGifCompressLine ?line (int n) p1 = Some (LzOk (), p2)" for p2
    using st ln(1) ge p1 that b CodeMask_nth [of bpp] m by (simp add: EGifPutLine_def Let_def set_error_def p1_def)
  have sf: "same_file ((Private g)\<lparr>PixelCount := PixelCount p2\<rparr>) p2" if "EGifCompressLine ?line (int n) p1 = Some (LzOk (), p2)" for p2
    using EGifCompressLine_file [OF that] by (simp add: same_file_def p1_def)
  have pc2: "PixelCount p2 = of_nat (N - n)" if "EGifCompressLine ?line (int n) p1 = Some (LzOk (), p2)" for p2
    using EGifCompressLine_file [OF that] by (simp add: same_file_def p1_def)
  have z: "(of_nat (N - n) :: u32) = 0 \<longleftrightarrow> N = n"
  proof -
    have "unat (of_nat (N - n) :: u32) = N - n" using ln(4) by (simp add: unat_of_nat take_bit_nat_eq_self)
    then show ?thesis using ln(3) by (metis diff_is_0_eq diff_self_eq_0 le_antisym unat_eq_zero)
  qed
  show ?thesis
  proof (cases "N = n")
    case True
    then have "PixelCount p1 = 0" by (simp add: p1_def)
    from EGifCompressLine_last [OF w1 n0(1,2) _ this] obtain p2 Y pad where
      p2: "EGifCompressLine ?line (int n) p1 = Some (LzOk (), p2)" "written p2 = W @ sub_blocks Y"
      "byte_bits Y = code_bits (image_codes bpp (px @ pixel_bits bpp (take n Line))) @ pad" using pixel_bits_less n0(3) by auto
    then show ?thesis using run sf pc2 True by (intro exI [of _ p2]) auto
  next
    case False
    then have "PixelCount p1 \<noteq> 0" using z by (simp add: p1_def)
    from EGifCompressLine_part [OF w1 n0(1,2) _ this] obtain p2 where
      p2: "EGifCompressLine ?line (int n) p1 = Some (LzOk (), p2)" "wrote bpp W (px @ pixel_bits bpp (take n Line)) p2" using pixel_bits_less n0(3) by auto
    then show ?thesis using run sf pc2 False by (intro exI [of _ p2]) auto
  qed
qed

lemma put_lines_wrote:
  assumes "wrote bpp W px (Private g)" "IS_WRITEABLE (Private g)" "[] \<notin> set lines" "length (concat lines) < 2 ^ 32" "lines \<noteq> []"
    "PixelCount (Private g) = of_nat (length (concat lines))"
  shows "\<exists>p' Y pad. put_lines lines g = Some (GIF_OK, g\<lparr>Private := p'\<rparr>) \<and> written p' = W @ sub_blocks Y \<and>
     byte_bits Y = code_bits (image_codes bpp (px @ pixel_bits bpp (concat lines))) @ pad \<and>
     PixelCount p' = 0 \<and> same_file ((Private g)\<lparr>PixelCount := 0\<rparr>) p'"
  using assms
proof (induction lines arbitrary: px g)
  case (Cons line lines)
  let ?N = "length (concat (line # lines))"
  from Cons.prems obtain p1 where p1: "EGifPutLine line (int (length line)) g = Some (GIF_OK, pixel_bits bpp line, g\<lparr>Private := p1\<rparr>)"
    "PixelCount p1 = of_nat (?N - length line)" "same_file ((Private g)\<lparr>PixelCount := PixelCount p1\<rparr>) p1"
    "if ?N = length line
     then \<exists>Y pad. written p1 = W @ sub_blocks Y \<and> byte_bits Y = code_bits (image_codes bpp (px @ pixel_bits bpp line)) @ pad
     else wrote bpp W (px @ pixel_bits bpp line) p1"
    using EGifPutLine_wrote [OF Cons.prems(1,2), of "length line" line ?N, unfolded take_all [OF order_refl] drop_all [OF order_refl]] by auto
  show ?case
  proof (cases "lines = []")
    case True
    then have "PixelCount p1 = 0" "put_lines (line # lines) g = Some (GIF_OK, g\<lparr>Private := p1\<rparr>)" using p1(1,2) by simp_all
    then show ?thesis using True p1(3,4) by (intro exI [of _ p1]) auto
  next
    case False
    then obtain l ls where "lines = l # ls" "l \<noteq> []" using Cons.prems(3) by (cases lines) auto
    then have ne: "?N \<noteq> length line" by simp
    have "IS_WRITEABLE (Private (g\<lparr>Private := p1\<rparr>))" using p1(3) Cons.prems(2) by (simp add: same_file_def IS_WRITEABLE_def)
    moreover have "?N - length line = length (concat lines)" by simp
    ultimately obtain p' Y pad where p': "put_lines lines (g\<lparr>Private := p1\<rparr>) = Some (GIF_OK, g\<lparr>Private := p'\<rparr>)" "written p' = W @ sub_blocks Y"
      "byte_bits Y = code_bits (image_codes bpp (px @ pixel_bits bpp (concat (line # lines)))) @ pad" "PixelCount p' = 0" "same_file (p1\<lparr>PixelCount := 0\<rparr>) p'"
      using Cons.IH [OF _ _ _ _ False, of "px @ pixel_bits bpp line" "g\<lparr>Private := p1\<rparr>"] p1(2,4) ne Cons.prems(3,4) by auto
    have "same_file ((Private g)\<lparr>PixelCount := 0\<rparr>) p'" using p'(5) p1(3) by (simp add: same_file_def)
    moreover have "put_lines (line # lines) g = Some (GIF_OK, g\<lparr>Private := p'\<rparr>)" using p1(1) p'(1) by simp
    ultimately show ?thesis using p'(2-4) by blast
  qed
qed blast

lemma get_lines_holding:
  assumes "holding bpp px p R" "IS_READABLE p" "0 \<notin> set ns" "sum_list ns = length px" "px \<noteq> []" "length px \<le> 0xffff0000"
    "PixelCount p = of_nat (length px)"
  shows "\<exists>p'. get_lines width ns p = Some (LzOk (), px, p') \<and> input p' = R \<and> FileState p' = FileState p \<and> PixelCount p' = 0"
  using assms
proof (induction ns arbitrary: px p)
  case (Cons n ns)
  have n: "0 < n" "n \<le> length px" using Cons.prems by auto
  from DGifGetLine_holding [OF Cons.prems(1,2) n Cons.prems(7,6)] obtain p1 where
    p1: "DGifGetLine width (int n) p = Some (LzOk (), take n px, p1)" "FileState p1 = FileState p" "PixelCount p1 = of_nat (length px - n)"
    "if n = length px then input p1 = R else holding bpp (drop n px) p1 R" by blast
  show ?case
  proof (cases "n = length px")
    case True
    then have "ns = []" using Cons.prems(3,4) by (cases ns) auto
    with True p1 show ?thesis by simp
  next
    case False
    have "IS_READABLE p1" using p1(2) Cons.prems(2) by (simp add: IS_READABLE_def)
    moreover have "sum_list ns = length (drop n px)" "drop n px \<noteq> []" "PixelCount p1 = of_nat (length (drop n px))"
      using Cons.prems(4) n False p1(3) by auto
    moreover have "length (drop n px) \<le> 0xffff0000" using le_trans [OF diff_le_self Cons.prems(6)] by simp
    ultimately obtain p' where
      "get_lines width ns p1 = Some (LzOk (), drop n px, p')" "input p' = R" "FileState p' = FileState p" "PixelCount p' = 0"
      using Cons.IH [of "drop n px" p1] p1(2,4) False Cons.prems(3) by (auto simp del: length_drop)
    with p1(1) show ?thesis by simp
  qed
qed simp

text \<open>(C11) Compression and decompression are inverse.  When an image with a colour map of at most eight bits is
  written line by line to a sink that accepts everything, the compressor succeeds, and what it appends to
  the file is read back by the decompressor, with whatever line lengths, as the pixels written (reduced to the
  bits of the code size); the reader stops exactly behind the image data.\<close>

theorem image_data_round_trip:
  assumes m: "(case lm of Some m \<Rightarrow> Some m | None \<Rightarrow> sm) = Some m" and bpp: "bpp = max 2 (BitsPerPixel m)" "bpp \<le> 8"
    and g: "IS_WRITEABLE (Private g)" "space (Private g) = None" "PixelCount (Private g) = of_nat (length (concat lines))"
    and lines: "lines \<noteq> []" "[] \<notin> set lines" "length (concat lines) \<le> 0xffff0000"
  shows "\<exists>p1 p2 data. EGifSetupCompress lm sm (Private g) = Some (LzOk (), p1) \<and>
     put_lines lines (g\<lparr>Private := p1\<rparr>) = Some (GIF_OK, g\<lparr>Private := p2\<rparr>) \<and> written p2 = written (Private g) @ data \<and>
     (\<forall>p R ns. IS_READABLE p \<and> input p = data @ R \<and> PixelCount p = of_nat (length (concat lines)) \<and>
        0 \<notin> set ns \<and> sum_list ns = length (concat lines) \<longrightarrow>
        (\<exists>p' p''. DGifSetupDecompress p = Some (LzOk (), p') \<and>
           get_lines width ns p' = Some (LzOk (), pixel_bits bpp (concat lines), p'') \<and> input p'' = R))"
proof -
  let ?px = "concat lines" and ?W = "written (Private g) @ [of_int bpp]"
  obtain p1 where p1: "EGifSetupCompress lm sm (Private g) = Some (LzOk (), p1)" "wrote bpp ?W [] p1" "PixelCount p1 = PixelCount (Private g)"
    using EGifSetupCompress_wrote [OF m bpp g(2)] by blast
  have sf: "same_file (Private g) p1" by (rule EGifSetupCompress_file [OF p1(1)])
  have w: "IS_WRITEABLE (Private (g\<lparr>Private := p1\<rparr>))" using sf g(1) by (simp add: same_file_def IS_WRITEABLE_def)
  have len: "length ?px < 2 ^ 32" by (rule le_less_trans [OF lines(3)]) simp
  obtain p2 Y pad where p2: "put_lines lines (g\<lparr>Private := p1\<rparr>) = Some (GIF_OK, g\<lparr>Private := p2\<rparr>)" "written p2 = ?W @ sub_blocks Y"
    "byte_bits Y = code_bits (image_codes bpp (pixel_bits bpp ?px)) @ pad"
    using put_lines_wrote [OF _ w lines(2) len lines(1), of bpp ?W "[]"] p1(2,3) g(3) by auto
  have px: "pixel_bits bpp ?px \<noteq> []" using lines(1,2) by (cases lines) auto
  have bpp2: "2 \<le> bpp" using bpp by simp
  show ?thesis
  proof (rule exI [of _ p1], rule exI [of _ p2], rule exI [of _ "of_int bpp # sub_blocks Y"], intro conjI allI impI)
    show "EGifSetupCompress lm sm (Private g) = Some (LzOk (), p1)" by (rule p1(1))
    show "put_lines lines (g\<lparr>Private := p1\<rparr>) = Some (GIF_OK, g\<lparr>Private := p2\<rparr>)" by (rule p2(1))
    show "written p2 = written (Private g) @ of_int bpp # sub_blocks Y" using p2(2) by simp
    fix p :: dpriv and R ns
    assume r: "IS_READABLE p \<and> input p = (of_int bpp # sub_blocks Y) @ R \<and> PixelCount p = of_nat (length ?px) \<and>
        0 \<notin> set ns \<and> sum_list ns = length ?px"
    then have "input p = of_int bpp # sub_blocks Y @ R" by simp
    from DGifSetupDecompress_holding [OF this p2(3) bpp2 bpp(2) px pixel_bits_less [of bpp]] obtain p' where
      p': "DGifSetupDecompress p = Some (LzOk (), p')" "holding bpp (pixel_bits bpp ?px) p' R" "PixelCount p' = PixelCount p" "FileState p' = FileState p"
      by blast
    have rd: "IS_READABLE p'" using r p'(4) by (simp add: IS_READABLE_def)
    obtain p'' where "get_lines width ns p' = Some (LzOk (), pixel_bits bpp ?px, p'')" "input p'' = R"
      using get_lines_holding [OF p'(2) rd, of ns width] r p'(3) px lines(3) by auto
    with p'(1) show "\<exists>p' p''. DGifSetupDecompress p = Some (LzOk (), p') \<and>
        get_lines width ns p' = Some (LzOk (), pixel_bits bpp (concat lines), p'') \<and> input p'' = R" by blast
  qed
qed

definition sample_map :: ColorMapObject where
  "sample_map = \<lparr>ColorCount = 8, BitsPerPixel = 3, SortFlag = False, Colors = replicate 8 \<lparr>Red = 1, Green = 2, Blue = 3\<rparr>\<rparr>"

definition sample_egif :: "u32 \<Rightarrow> egif" where
  "sample_egif n =
     (let g = new_egif None (\<lambda>_. 0) \<lparr>outcomes = [], blocks = 3\<rparr> in g\<lparr>Private := (Private g)\<lparr>PixelCount := n\<rparr>\<rparr>)"

lemma sample_egif_fields [simp]:
  "IS_WRITEABLE (Private (sample_egif n))" "space (Private (sample_egif n)) = None" "PixelCount (Private (sample_egif n)) = n"
  by (simp_all add: sample_egif_def new_egif_def zero_private_def GifFilePrivateType.defs epriv.defs IS_WRITEABLE_def FILE_STATE_WRITE_def)

theorem image_data_round_trip_witness:
  "\<exists>p1 p2 data. EGifSetupCompress None (Some sample_map) (Private (sample_egif 5)) = Some (LzOk (), p1) \<and>
     put_lines [[7, 7, 1], [7, 7]] (sample_egif 5\<lparr>Private := p1\<rparr>) = Some (GIF_OK, sample_egif 5\<lparr>Private := p2\<rparr>) \<and>
     written p2 = written (Private (sample_egif 5)) @ data \<and>
     (\<forall>p R ns. IS_READABLE p \<and> input p = data @ R \<and> PixelCount p = of_nat (length (concat [[7, 7, 1], [7, 7 :: u8]])) \<and>
        0 \<notin> set ns \<and> sum_list ns = length (concat [[7, 7, 1], [7, 7 :: u8]]) \<longrightarrow>
        (\<exists>p' p''. DGifSetupDecompress p = Some (LzOk (), p') \<and>
           get_lines 3 ns p' = Some (LzOk (), pixel_bits 3 (concat [[7, 7, 1], [7, 7]]), p'') \<and> input p'' = R))"
  by (rule image_data_round_trip [where m = sample_map]) (simp_all add: sample_map_def)


section \<open>Words and colours\<close>

lemma of_le16_bytes:
  assumes "0 \<le> w" "w < 65536"
  shows "uint (of_le16 (LOBYTE w) (HIBYTE w)) = w"
proof -
  have m: "(255 :: int) = mask 8" by (simp add: mask_eq_exp_minus_1)
  have "uint (of_le16 (LOBYTE w) (HIBYTE w)) = take_bit 16 w"
    by (rule bit_eqI) (auto simp: of_le16_def LOBYTE_def HIBYTE_def bit_simps m)
  then show ?thesis using assms by (simp add: take_bit_int_eq_self)
qed

lemma DGifGetWord_bytes:
  "input p = LOBYTE w # HIBYTE w # R \<Longrightarrow> 0 \<le> w \<Longrightarrow> w < 65536 \<Longrightarrow> DGifGetWord p = (LzOk w, p\<lparr>input := R\<rparr>)"
  by (simp add: DGifGetWord_def READ_def of_le16_bytes)

lemma put_all: "space p = None \<Longrightarrow> put bs p = p\<lparr>written := written p @ bs\<rparr>"
  by (simp add: put_def InternalWrite_def)

lemma put_word_all: "space p = None \<Longrightarrow> put_word w p = p\<lparr>written := written p @ [LOBYTE w, HIBYTE w]\<rparr>"
  by (simp add: put_word_def EGifPutWord_def InternalWrite_def)

definition color_bytes :: "GifColorType list \<Rightarrow> u8 list" where
  "color_bytes cs = concat (map (\<lambda>c. [Red c, Green c, Blue c]) cs)"

lemma color_bytes_simps [simp]: "color_bytes [] = []" "color_bytes (c # cs) = [Red c, Green c, Blue c] @ color_bytes cs"
  by (simp_all add: color_bytes_def)

lemma write_colors_all: "space p = None \<Longrightarrow> write_colors cs p = (True, p\<lparr>written := written p @ color_bytes cs\<rparr>)"
  by (induction cs arbitrary: p) (simp_all add: InternalWrite_def)

lemma read_colors_bytes: "input p = color_bytes cs @ R \<Longrightarrow> read_colors (length cs) acc p = (Some (acc @ cs), p\<lparr>input := R\<rparr>)"
proof (induction cs arbitrary: acc p)
  case (Cons c cs)
  then show ?case by (cases c) (simp add: READ_def)
qed simp

text \<open>A colour map the format can hold.\<close>

definition storable_map :: "ColorMapObject \<Rightarrow> bool" where
  "storable_map m \<longleftrightarrow> 1 \<le> BitsPerPixel m \<and> BitsPerPixel m \<le> 8 \<and> ColorCount m = 2 ^ nat (BitsPerPixel m) \<and>
     int (length (Colors m)) = ColorCount m"

lemma GifBitSize_power: "1 \<le> k \<Longrightarrow> k \<le> 8 \<Longrightarrow> GifBitSize (2 ^ k) = k"
  using GifBitSize_least [of "2 ^ k" k] GifBitSize_bounds(3) [of "2 ^ k"] power_increasing [of k 8 "2 :: int"]
  by (simp add: le_antisym)

lemma GifMakeMapObject_ready:
  assumes "1 \<le> k" "k \<le> 8" "outcomes h = []" "case colors of None \<Rightarrow> True | Some cs \<Rightarrow> length cs = 2 ^ k"
  shows "\<exists>h'. outcomes h' = [] \<and> GifMakeMapObject (2 ^ k) colors h =
    Some (Some \<lparr>ColorCount = 2 ^ k, BitsPerPixel = int k, SortFlag = False,
      Colors = (case colors of None \<Rightarrow> replicate (2 ^ k) black | Some cs \<Rightarrow> cs)\<rparr>, h')"
proof -
  have "(2 :: int) ^ k \<le> 2 ^ 8" using assms(2) by (intro power_increasing) simp_all
  then have "nat (2 ^ k * 3) < 2147483648" by simp
  then show ?thesis using assms
    by (auto simp: GifMakeMapObject_def GifBitSize_power malloc_def granted_def nat_power_eq split: option.splits)
qed

text \<open>The packed fields of a descriptor, decoded.\<close>

lemma screen_byte:
  fixes cr :: int and k :: nat and s :: bool
  assumes "1 \<le> cr" "cr \<le> 8" "1 \<le> k" "k \<le> 8"
  defines "b \<equiv> of_int (0x80 OR push_bit 4 (cr - 1) OR (int k - 1) OR (if s then 0x08 else 0)) :: u8"
  shows "uint (drop_bit 4 ((b AND 0x70) + 1)) + 1 = cr" "b AND 0x80 \<noteq> 0" "unat (b AND 0x07) + 1 = k" "(b AND 0x08 \<noteq> 0) = s"
proof -
  have "cr \<in> {1, 2, 3, 4, 5, 6, 7, 8}" "k \<in> {1, 2, 3, 4, 5, 6, 7, 8}" using assms by auto
  then show "uint (drop_bit 4 ((b AND 0x70) + 1)) + 1 = cr" "b AND 0x80 \<noteq> 0" "unat (b AND 0x07) + 1 = k" "(b AND 0x08 \<noteq> 0) = s"
    unfolding b_def by (auto split: if_splits)
qed

lemma screen_byte_none:
  fixes cr :: int
  assumes "1 \<le> cr" "cr \<le> 8"
  defines "b \<equiv> of_int (push_bit 4 (cr - 1) OR 0x07) :: u8"
  shows "uint (drop_bit 4 ((b AND 0x70) + 1)) + 1 = cr" "b AND 0x80 = 0"
proof -
  have "cr \<in> {1, 2, 3, 4, 5, 6, 7, 8}" using assms by auto
  then show "uint (drop_bit 4 ((b AND 0x70) + 1)) + 1 = cr" "b AND 0x80 = 0" unfolding b_def by auto
qed


section \<open>The screen descriptor\<close>

lemma EGifGetGifVersion_stamp:
  assumes "EGifGetGifVersion g = Some (stamp, g1)"
  shows "length stamp = 6" "take 3 stamp = [0x47, 0x49, 0x46]" "\<exists>v. g1 = g\<lparr>Private := (Private g)\<lparr>gif89 := v\<rparr>\<rparr>"
  using assms by (auto simp: EGifGetGifVersion_def GIF89_STAMP_def GIF87_STAMP_def Let_def bind_eq_Some_conv split: if_splits)

definition screen_byte_of :: "int \<Rightarrow> ColorMapObject option \<Rightarrow> u8" where
  "screen_byte_of cr cmap = of_int (case cmap of
       None \<Rightarrow> push_bit 4 (cr - 1) OR 0x07
     | Some cm \<Rightarrow> 0x80 OR push_bit 4 (cr - 1) OR (BitsPerPixel cm - 1) OR (if SortFlag cm then 0x08 else 0))"

definition map_bytes :: "ColorMapObject option \<Rightarrow> u8 list" where
  "map_bytes cmap = (case cmap of None \<Rightarrow> [] | Some cm \<Rightarrow> color_bytes (Colors cm))"

definition screen_bytes :: "int \<Rightarrow> int \<Rightarrow> int \<Rightarrow> int \<Rightarrow> u8 \<Rightarrow> ColorMapObject option \<Rightarrow> u8 list" where
  "screen_bytes W H cr bg asp cmap =
     [LOBYTE W, HIBYTE W, LOBYTE H, HIBYTE H, screen_byte_of cr cmap, of_int bg, asp] @ map_bytes cmap"

definition storable :: "ColorMapObject option \<Rightarrow> bool" where
  "storable cmap \<longleftrightarrow> (case cmap of None \<Rightarrow> True | Some cm \<Rightarrow> storable_map cm)"

lemma storable_SomeE:
  assumes "storable (Some cm)"
  obtains k where "1 \<le> k" "k \<le> 8" "BitsPerPixel cm = int k" "ColorCount cm = 2 ^ k" "length (Colors cm) = 2 ^ k"
proof -
  have m: "1 \<le> BitsPerPixel cm" "BitsPerPixel cm \<le> 8" "ColorCount cm = 2 ^ nat (BitsPerPixel cm)" "int (length (Colors cm)) = ColorCount cm"
    using assms by (auto simp: storable_def storable_map_def)
  have "int (length (Colors cm)) = int (2 ^ nat (BitsPerPixel cm))" using m by simp
  then show thesis using m by (intro that [of "nat (BitsPerPixel cm)"]) auto
qed

lemma write_color_map_all:
  "space p = None \<Longrightarrow> storable cmap \<Longrightarrow> write_color_map cmap p = Some (True, p\<lparr>written := written p @ map_bytes cmap\<rparr>)"
  by (cases cmap) (auto simp: write_color_map_def map_bytes_def write_colors_all elim!: storable_SomeE)

lemma make_map_copy:
  assumes "storable cmap" "outcomes h = []"
  shows "\<exists>m h'. (case cmap of None \<Rightarrow> Some (None, h) | Some cm \<Rightarrow> GifMakeMapObject (ColorCount cm) (Some (Colors cm)) h) = Some (m, h') \<and>
    m = map_option (\<lambda>cm. cm\<lparr>SortFlag := False\<rparr>) cmap \<and> outcomes h' = []"
proof (cases cmap)
  case (Some cm)
  from storable_SomeE [OF assms(1) [unfolded Some]] obtain k where
    k: "1 \<le> k" "k \<le> 8" "BitsPerPixel cm = int k" "ColorCount cm = 2 ^ k" "length (Colors cm) = 2 ^ k" .
  from GifMakeMapObject_ready [OF k(1,2) assms(2), of "Some (Colors cm)"] k(5) obtain h' where
    h': "outcomes h' = []" "GifMakeMapObject (2 ^ k) (Some (Colors cm)) h =
      Some (Some \<lparr>ColorCount = 2 ^ k, BitsPerPixel = int k, SortFlag = False, Colors = Colors cm\<rparr>, h')" by auto
  have "cm\<lparr>SortFlag := False\<rparr> = \<lparr>ColorCount = 2 ^ k, BitsPerPixel = int k, SortFlag = False, Colors = Colors cm\<rparr>" using k(3,4) by (cases cm) simp
  with h' k(4) Some show ?thesis by auto
qed (use assms in auto)

lemma EGifPutScreenDesc_bytes:
  assumes st: "FileState (Private g) AND FILE_STATE_SCREEN = 0" "IS_WRITEABLE (Private g)" "space (Private g) = None"
    and v: "EGifGetGifVersion g = Some (stamp, g1)" and m: "storable cmap" "outcomes (gheap g) = []"
  shows "\<exists>g'. EGifPutScreenDesc W H cr bg cmap g = Some (GIF_OK, g') \<and>
    written (Private g') = written (Private g) @ stamp @ screen_bytes W H cr bg (AspectByte g) cmap \<and>
    space (Private g') = None \<and> IS_WRITEABLE (Private g') \<and> outcomes (gheap g') = [] \<and>
    SColorMap g' = map_option (\<lambda>cm. cm\<lparr>SortFlag := False\<rparr>) cmap \<and> PixelCount (Private g') = PixelCount (Private g) \<and>
    ImageCount g' = ImageCount g \<and> SavedImages g' = SavedImages g \<and>
    FileExtensionBlockCount g' = FileExtensionBlockCount g \<and> FileExtensionBlocks g' = FileExtensionBlocks g"
proof -
  obtain vv where g1: "g1 = g\<lparr>Private := (Private g)\<lparr>gif89 := vv\<rparr>\<rparr>" using EGifGetGifVersion_stamp(3) [OF v] by blast
  obtain mm h' where mk: "(case cmap of None \<Rightarrow> Some (None, gheap g) | Some cm \<Rightarrow> GifMakeMapObject (ColorCount cm) (Some (Colors cm)) (gheap g)) = Some (mm, h')"
    "mm = map_option (\<lambda>cm. cm\<lparr>SortFlag := False\<rparr>) cmap" "outcomes h' = []" using make_map_copy [OF m] by blast
  have nn: "\<not> (cmap \<noteq> None \<and> mm = None)" using mk(2) by auto
  let ?p = "(Private g1)\<lparr>written := written (Private g) @ stamp @ screen_bytes W H cr bg (AspectByte g) cmap\<rparr>"
  have "IS_WRITEABLE (p\<lparr>FileState := FileState p OR FILE_STATE_SCREEN\<rparr>) = IS_WRITEABLE p" for p :: epriv
    by (simp add: IS_WRITEABLE_def FILE_STATE_WRITE_def FILE_STATE_SCREEN_def bit.conj_disj_distrib2)
  moreover have "EGifPutScreenDesc W H cr bg cmap g = Some (GIF_OK, g1\<lparr>SWidth := W, SHeight := H, SColorResolution := cr,
      SBackGroundColor := bg, SColorMap := mm, gheap := h', Private := ?p\<lparr>FileState := FileState ?p OR FILE_STATE_SCREEN\<rparr>\<rparr>)"
    using st v mk(1) nn m(1) g1 unfolding EGifPutScreenDesc_def
    by (simp add: Let_def InternalWrite_None put_all put_word_all write_color_map_all screen_bytes_def screen_byte_of_def cong: option.case_cong)
  ultimately show ?thesis using st mk g1 by (auto simp: IS_WRITEABLE_def)
qed

lemma DGifGetScreenDesc_bytes:
  assumes r: "IS_READABLE (Private g)" "outcomes (gheap g) = []" "input (Private g) = screen_bytes W H cr bg asp cmap @ R"
    and rng: "0 \<le> W" "W < 65536" "0 \<le> H" "H < 65536" "1 \<le> cr" "cr \<le> 8" "0 \<le> bg" "bg < 256" and m: "storable cmap"
  shows "\<exists>h'. DGifGetScreenDesc g = Some (GIF_OK, g\<lparr>SWidth := W, SHeight := H, SColorResolution := cr, SBackGroundColor := bg,
      AspectByte := asp, SColorMap := cmap, gheap := h', Private := (Private g)\<lparr>input := R\<rparr>\<rparr>) \<and> outcomes h' = []"
proof -
  let ?b = "screen_byte_of cr cmap"
  let ?in1 = "LOBYTE H # HIBYTE H # ?b # of_int bg # asp # map_bytes cmap @ R" and ?in2 = "?b # of_int bg # asp # map_bytes cmap @ R"
  have w1: "DGifGetWord (Private g) = (LzOk W, (Private g)\<lparr>input := ?in1\<rparr>)"
    by (rule DGifGetWord_bytes) (use r(3) rng in \<open>simp_all add: screen_bytes_def\<close>)
  have w2: "DGifGetWord ((Private g)\<lparr>input := ?in1\<rparr>) = (LzOk H, (Private g)\<lparr>input := ?in2\<rparr>)"
    using DGifGetWord_bytes [of "(Private g)\<lparr>input := ?in1\<rparr>" H ?in2] rng by simp
  have rd: "READ 3 ((Private g)\<lparr>input := ?in2\<rparr>) = ([?b, of_int bg, asp], (Private g)\<lparr>input := map_bytes cmap @ R\<rparr>)" by (simp add: READ_def)
  have bg: "uint (of_int bg :: u8) = bg" using rng by (simp add: uint_word_of_int_eq take_bit_int_eq_self)
  show ?thesis
  proof (cases cmap)
    case None
    have "uint (drop_bit 4 ((?b AND 0x70) + 1)) + 1 = cr" "?b AND 0x80 = 0"
      using screen_byte_none [OF rng(5,6)] None by (simp_all add: screen_byte_of_def)
    then show ?thesis using r(1,2) w1 w2 rd bg None
      by (intro exI [of _ "gheap g"]) (simp add: DGifGetScreenDesc_def map_bytes_def)
  next
    case (Some cm)
    from storable_SomeE [OF m [unfolded Some]] obtain k where
      k: "1 \<le> k" "k \<le> 8" "BitsPerPixel cm = int k" "ColorCount cm = 2 ^ k" "length (Colors cm) = 2 ^ k" .
    have b: "uint (drop_bit 4 ((?b AND 0x70) + 1)) + 1 = cr" "?b AND 0x80 \<noteq> 0" "unat (?b AND 0x07) + 1 = k" "(?b AND 0x08 \<noteq> 0) = SortFlag cm"
      using screen_byte [OF rng(5,6) k(1,2), of "SortFlag cm"] Some k(3) by (simp_all add: screen_byte_of_def)
    obtain h' where h': "outcomes h' = []" "GifMakeMapObject (2 ^ k) None (gheap g) =
        Some (Some \<lparr>ColorCount = 2 ^ k, BitsPerPixel = int k, SortFlag = False, Colors = replicate (2 ^ k) black\<rparr>, h')"
      using GifMakeMapObject_ready [OF k(1,2) r(2), of None] by auto
    have rc: "read_colors (2 ^ k) [] ((Private g)\<lparr>input := map_bytes cmap @ R\<rparr>) = (Some (Colors cm), (Private g)\<lparr>input := R\<rparr>)"
      using read_colors_bytes [of "(Private g)\<lparr>input := map_bytes cmap @ R\<rparr>" "Colors cm" R "[]"] k(5) Some by (simp add: map_bytes_def)
    have cm: "\<lparr>ColorCount = 2 ^ k, BitsPerPixel = int k, SortFlag = SortFlag cm, Colors = Colors cm\<rparr> = cm" using k(3,4) by (cases cm) simp
    show ?thesis using r(1) w1 w2 rd bg b h' rc cm Some
      by (intro exI [of _ h']) (simp add: DGifGetScreenDesc_def nat_power_eq)
  qed
qed


section \<open>Extensions\<close>

definition ext_ok :: "ExtensionBlock \<Rightarrow> bool" where
  "ext_ok e \<longleftrightarrow> (case Bytes e of None \<Rightarrow> False | Some bs \<Rightarrow> bs \<noteq> [] \<and> length bs \<le> 255 \<and> ByteCount e = int (length bs)) \<and>
     0 \<le> Function e \<and> Function e < 256"

text \<open>The blocks do not start in the middle of an extension.\<close>

definition at_start :: "ExtensionBlock list \<Rightarrow> bool" where
  "at_start es \<longleftrightarrow> (case es of [] \<Rightarrow> True | e # _ \<Rightarrow> Function e \<noteq> CONTINUE_EXT_FUNC_CODE)"

definition block_bytes :: "ExtensionBlock \<Rightarrow> u8 list" where
  "block_bytes e = of_int (ByteCount e) # the (Bytes e)"

fun ext_stream :: "ExtensionBlock list \<Rightarrow> u8 list" where
  "ext_stream [] = []"
| "ext_stream (e # es) =
     (if Function e \<noteq> CONTINUE_EXT_FUNC_CODE then [0x21, of_int (Function e)] else []) @ block_bytes e @
     (if at_start es then [0] else []) @ ext_stream es"

lemma ext_okE:
  assumes "ext_ok e"
  obtains bs where "e = \<lparr>ByteCount = int (length bs), Bytes = Some bs, Function = Function e\<rparr>" "bs \<noteq> []" "length bs \<le> 255"
    "0 \<le> Function e" "Function e < 256"
  using assms by (cases e) (auto simp: ext_ok_def split: option.splits)

lemma EGifPutExtensionBlock_all:
  assumes "IS_WRITEABLE (Private g)" "space (Private g) = None" "ext_ok e"
  shows "EGifPutExtensionBlock (ByteCount e) (Bytes e) g =
    Some (GIF_OK, g\<lparr>Private := (Private g)\<lparr>written := written (Private g) @ block_bytes e\<rparr>\<rparr>)"
proof -
  from assms(3) obtain bs where e: "ByteCount e = int (length bs)" "Bytes e = Some bs" "bs \<noteq> []"
    by (elim ext_okE) (metis ExtensionBlock.select_convs(1,2))
  then show ?thesis using assms(1,2)
    by (simp add: EGifPutExtensionBlock_def ext_bytes_def write_if_def put_all block_bytes_def)
qed

lemma IS_WRITEABLE_written [simp]: "IS_WRITEABLE (p\<lparr>written := w\<rparr>) = IS_WRITEABLE p"
  by (simp add: IS_WRITEABLE_def)

lemma write_extensions_all:
  assumes "IS_WRITEABLE (Private g)" "space (Private g) = None" "list_all ext_ok es"
  shows "write_extensions es g = Some (GIF_OK, g\<lparr>Private := (Private g)\<lparr>written := written (Private g) @ ext_stream es\<rparr>\<rparr>)"
  using assms
proof (induction es arbitrary: g)
  case (Cons e es)
  let ?lead = "if Function e \<noteq> CONTINUE_EXT_FUNC_CODE then [0x21, of_int (Function e)] else []"
    and ?trail = "if at_start es then [0] else []"
  let ?g = "\<lambda>bs. g\<lparr>Private := (Private g)\<lparr>written := written (Private g) @ bs\<rparr>\<rparr>"
  have g: "IS_WRITEABLE (Private (?g bs))" "space (Private (?g bs)) = None" "Private (?g bs) = (Private g)\<lparr>written := written (Private g) @ bs\<rparr>" for bs
    using Cons.prems by simp_all
  have a: "(if Function e \<noteq> CONTINUE_EXT_FUNC_CODE then EGifPutExtensionLeader (Function e) g else (GIF_OK, g)) = (GIF_OK, ?g ?lead)"
    using Cons.prems by (simp add: EGifPutExtensionLeader_def write_if_def put_all EXTENSION_INTRODUCER_def)
  have b: "EGifPutExtensionBlock (ByteCount e) (Bytes e) (?g ?lead) = Some (GIF_OK, ?g (?lead @ block_bytes e))"
    using EGifPutExtensionBlock_all [of "?g ?lead" e] Cons.prems by simp
  have c: "(if (case es of [] \<Rightarrow> True | e' # _ \<Rightarrow> Function e' \<noteq> CONTINUE_EXT_FUNC_CODE)
      then EGifPutExtensionTrailer (?g (?lead @ block_bytes e)) else (GIF_OK, ?g (?lead @ block_bytes e))) =
      (GIF_OK, ?g (?lead @ block_bytes e @ ?trail))"
    using Cons.prems by (simp add: at_start_def [symmetric] EGifPutExtensionTrailer_def write_if_def put_all)
  have "write_extensions (e # es) g = write_extensions es (?g (?lead @ block_bytes e @ ?trail))"
    unfolding write_extensions.simps(2) [of e es g] a using b c by (simp only: prod.case gif_status.case bind.bind_lunit) simp
  also have "\<dots> = Some (GIF_OK, ?g (ext_stream (e # es)))"
    using Cons.IH [of "?g (?lead @ block_bytes e @ ?trail)"] Cons.prems g by simp
  finally show ?case .
qed simp

text \<open>The reader's side: the blocks collected so far are \<open>xs\<close>, and the allocator has no more refusals.\<close>

definition collected :: "ExtensionBlock list \<Rightarrow> dgif \<Rightarrow> bool" where
  "collected xs g \<longleftrightarrow> FileExtensionBlockCount g = int (length xs) \<and> FileExtensionBlocks g = (if xs = [] then None else Some xs) \<and>
     outcomes (gheap g) = []"

text \<open>Only the extensions, the allocator and the place in the input differ.\<close>

definition same_images :: "dgif \<Rightarrow> dgif \<Rightarrow> bool" where
  "same_images g g' \<longleftrightarrow> (\<exists>n es h p. g' = g\<lparr>FileExtensionBlockCount := n, FileExtensionBlocks := es, gheap := h, Private := p\<rparr> \<and>
     FileState p = FileState (Private g))"

lemma same_images_trans: "same_images g g' \<Longrightarrow> same_images g' g'' \<Longrightarrow> same_images g g''"
  unfolding same_images_def by (cases g) auto

lemma same_images_refl: "same_images g g"
  unfolding same_images_def by (cases g) auto

lemma reallocarray_ready:
  assumes "k * unat sz < 2 ^ 31" "0 < sz" "outcomes h = []"
  shows "\<exists>h'. reallocarray nonnull (of_nat k) sz h = (True, h') \<and> outcomes h' = []"
proof -
  have "0 < unat sz" using assms(2) by (simp add: word_less_nat_alt)
  then have "k \<le> k * unat sz" by simp
  then have "k < 2 ^ 32" by (rule le_less_trans) (rule less_trans [OF assms(1)], simp)
  then have k: "unat (of_nat k :: u32) = k" by (simp add: unat_of_nat take_bit_nat_eq_self)
  have u: "unat (of_nat (k * unat sz) :: u32) = k * unat sz" using assms(1) by (simp add: unat_of_nat take_bit_nat_eq_self del: of_nat_mult)
  have "reallocarray_size (of_nat k) sz = Some (of_nat (k * unat sz))"
    unfolding reallocarray_size_product k using assms(1) by simp
  then show ?thesis unfolding reallocarray_def
    using assms(1,3) u by (simp add: realloc_def granted_def del: of_nat_mult)
qed

lemma GifAddExtensionBlock_ready:
  assumes "length bs < 256" "int (length xs) < 10000000" "outcomes h = []"
  shows "\<exists>h'. GifAddExtensionBlock (int (length xs)) (if xs = [] then None else Some xs) func (length bs) (Some bs) h =
    Some (GIF_OK, int (length xs) + 1, Some (xs @ [\<lparr>ByteCount = int (length bs), Bytes = Some bs, Function = func\<rparr>]), h') \<and> outcomes h' = []"
proof -
  let ?n = "Suc (length xs)"
  have m: "malloc k h = (True, h\<lparr>outcomes := [], blocks := blocks h + 1\<rparr>)" if "k < 256" "outcomes h = []" for k h
    using that by (simp add: malloc_def granted_def)
  obtain h1 where h1: "reallocarray True (of_nat ?n) 12 h = (True, h1)" "outcomes h1 = []"
    using reallocarray_ready [of ?n 12 h True] assms(2,3) by auto
  have n: "of_int (int (length xs) + 1) = (of_nat ?n :: u32)" by simp
  have rs: "resize (nat (int (length xs) + 1)) zero_ext xs = xs @ [zero_ext]" by (simp add: resize_def nat_add_distrib)
  show ?thesis
    using assms h1 m unfolding GifAddExtensionBlock_def n
    by (cases "xs = []") (simp_all add: lwrite_def Let_def rs del: of_nat_Suc)
qed

lemma add_file_extension_ready:
  assumes "collected xs g" "bs \<noteq> []" "length bs < 256" "int (length xs) < 10000000"
  shows "\<exists>g'. add_file_extension func bs g = Some (GIF_OK, g') \<and> collected (xs @ [\<lparr>ByteCount = int (length bs), Bytes = Some bs, Function = func\<rparr>]) g' \<and>
    same_images g g' \<and> Private g' = Private g"
proof -
  obtain h' where "GifAddExtensionBlock (FileExtensionBlockCount g) (FileExtensionBlocks g) func (length bs) (Some bs) (gheap g) =
    Some (GIF_OK, int (length xs) + 1, Some (xs @ [\<lparr>ByteCount = int (length bs), Bytes = Some bs, Function = func\<rparr>]), h')" "outcomes h' = []"
    using GifAddExtensionBlock_ready [OF assms(3,4), of "gheap g" func] assms(1) by (auto simp: collected_def)
  then show ?thesis unfolding add_file_extension_def same_images_def collected_def
    by (cases g) (auto intro!: exI)
qed

lemma DGifGetExtensionNext_block:
  assumes "input p = of_int (int (length bs)) # bs @ R" "bs \<noteq> []" "length bs \<le> 255"
  shows "\<exists>p'. DGifGetExtensionNext p = Some (LzOk (Some bs), p') \<and> input p' = R \<and> FileState p' = FileState p"
proof -
  have u: "unat (of_nat (length bs) :: u8) = length bs" using unat_of_nat_u8 [of "length bs"] assms(3) by simp
  then have "(0 :: u8) < of_nat (length bs)" using assms(2) by (simp add: word_less_nat_alt)
  then show ?thesis using assms u by (simp add: DGifGetExtensionNext_def READ_def put_bytes_def)
qed

lemma DGifGetExtensionNext_end:
  "input p = 0 # R \<Longrightarrow> DGifGetExtensionNext p = Some (LzOk None, p\<lparr>input := R\<rparr>)"
  by (simp add: DGifGetExtensionNext_def READ_def)

lemma collected_Private [simp]: "collected xs (g\<lparr>Private := p\<rparr>) = collected xs g"
  by (simp add: collected_def)

lemma same_images_Private: "FileState p = FileState (Private g) \<Longrightarrow> same_images g (g\<lparr>Private := p\<rparr>)"
  unfolding same_images_def by (cases g) auto

lemma same_images_state: "same_images g g' \<Longrightarrow> FileState (Private g') = FileState (Private g)"
  by (auto simp: same_images_def)

lemma slurp_ext_loop_stream:
  assumes "collected xs g" "list_all ext_ok es" "length xs + length es < 10000000"
    "input (Private g) = (if at_start es then [0] else []) @ ext_stream es @ R"
  shows "\<exists>g' cs es'. es = cs @ es' \<and> at_start es' \<and> slurp_ext_loop g = Some (GIF_OK, g') \<and> collected (xs @ cs) g' \<and>
    same_images g g' \<and> input (Private g') = ext_stream es' @ R"
  using assms
proof (induction es arbitrary: xs g)
  case Nil
  then have "DGifGetExtensionNext (Private g) = Some (LzOk None, (Private g)\<lparr>input := R\<rparr>)"
    by (intro DGifGetExtensionNext_end) (simp add: at_start_def)
  then have "slurp_ext_loop g = Some (GIF_OK, g\<lparr>Private := (Private g)\<lparr>input := R\<rparr>\<rparr>)" by (subst slurp_ext_loop.simps) simp
  then show ?case using Nil.prems(1) same_images_Private [of "(Private g)\<lparr>input := R\<rparr>" g] by (auto simp: at_start_def)
next
  case (Cons e es)
  show ?case
  proof (cases "at_start (e # es)")
    case True
    let ?R = "ext_stream (e # es) @ R"
    have "DGifGetExtensionNext (Private g) = Some (LzOk None, (Private g)\<lparr>input := ?R\<rparr>)"
      using Cons.prems(4) True by (intro DGifGetExtensionNext_end) simp
    then have "slurp_ext_loop g = Some (GIF_OK, g\<lparr>Private := (Private g)\<lparr>input := ?R\<rparr>\<rparr>)" by (subst slurp_ext_loop.simps) simp
    then show ?thesis using Cons.prems(1) True same_images_Private [of "(Private g)\<lparr>input := ?R\<rparr>" g]
      by (intro exI [of _ "g\<lparr>Private := (Private g)\<lparr>input := ?R\<rparr>\<rparr>"] exI [of _ "[]"] exI [of _ "e # es"]) simp
  next
    case False
    have ok: "ext_ok e" using Cons.prems(2) by simp
    obtain bs where e: "e = \<lparr>ByteCount = int (length bs), Bytes = Some bs, Function = CONTINUE_EXT_FUNC_CODE\<rparr>" "bs \<noteq> []" "length bs \<le> 255"
      using ok False by (cases e) (auto simp: ext_ok_def at_start_def split: option.splits)
    let ?R = "(if at_start es then [0] else []) @ ext_stream es @ R"
    have "input (Private g) = of_int (int (length bs)) # bs @ ?R" using Cons.prems(4) False e(1) by (simp add: block_bytes_def)
    from DGifGetExtensionNext_block [OF this e(2,3)] obtain p1 where
      p1: "DGifGetExtensionNext (Private g) = Some (LzOk (Some bs), p1)" "input p1 = ?R" "FileState p1 = FileState (Private g)" by blast
    have lens: "length bs < 256" "int (length xs) < 10000000" using e(3) Cons.prems(3) by simp_all
    obtain g2 where g2: "add_file_extension CONTINUE_EXT_FUNC_CODE bs (g\<lparr>Private := p1\<rparr>) = Some (GIF_OK, g2)" "collected (xs @ [e]) g2"
      "same_images (g\<lparr>Private := p1\<rparr>) g2" "Private g2 = p1"
      using add_file_extension_ready [of xs "g\<lparr>Private := p1\<rparr>", OF _ e(2) lens] Cons.prems(1) e(1) by fastforce
    have "slurp_ext_loop g = slurp_ext_loop g2" using p1(1) g2(1) by (subst slurp_ext_loop.simps) simp
    moreover have si: "same_images g g2" using same_images_trans [OF same_images_Private g2(3)] p1(3) by blast
    moreover obtain g' cs es' where "es = cs @ es'" "at_start es'" "slurp_ext_loop g2 = Some (GIF_OK, g')" "collected ((xs @ [e]) @ cs) g'"
      "same_images g2 g'" "input (Private g') = ext_stream es' @ R"
      using Cons.IH [OF g2(2)] g2(4) p1(2) Cons.prems(2,3) by auto
    ultimately show ?thesis using same_images_trans [OF si]
      by (intro exI [of _ g'] exI [of _ "e # cs"] exI [of _ es']) simp
  qed
qed

lemma slurp_loop_stream:
  assumes "collected xs g" "list_all ext_ok es" "at_start es" "length xs + length es < 10000000" "IS_READABLE (Private g)"
    "input (Private g) = ext_stream es @ R"
  shows "\<exists>g'. slurp_loop g = slurp_loop g' \<and> collected (xs @ es) g' \<and> same_images g g' \<and> input (Private g') = R"
  using assms
proof (induction "length es" arbitrary: es xs g rule: less_induct)
  case less
  show ?case
  proof (cases es)
    case Nil
    then show ?thesis using less.prems same_images_refl by auto
  next
    case (Cons e es1)
    have nz: "Function e \<noteq> CONTINUE_EXT_FUNC_CODE" using less.prems(3) Cons by (simp add: at_start_def)
    have ok: "ext_ok e" using less.prems(2) Cons by simp
    obtain bs where e: "e = \<lparr>ByteCount = int (length bs), Bytes = Some bs, Function = Function e\<rparr>" "bs \<noteq> []" "length bs \<le> 255"
      "0 \<le> Function e" "Function e < 256" using ok by (cases e) (auto simp: ext_ok_def split: option.splits)
    let ?R = "(if at_start es1 then [0] else []) @ ext_stream es1 @ R"
    have bb: "block_bytes e = of_int (int (length bs)) # bs" by (subst e(1)) (simp add: block_bytes_def)
    have inp: "input (Private g) = 0x21 # of_int (Function e) # of_int (int (length bs)) # bs @ ?R"
      using less.prems(6) Cons nz by (simp add: bb)
    define p1 where "p1 = (Private g)\<lparr>input := of_int (Function e) # of_int (int (length bs)) # bs @ ?R\<rparr>"
    have rt: "DGifGetRecordType g = (GIF_OK, EXTENSION_RECORD_TYPE, g\<lparr>Private := p1\<rparr>)"
      using less.prems(5) inp by (simp add: DGifGetRecordType_def READ_def p1_def)
    obtain p2 where p2: "DGifGetExtensionNext (p1\<lparr>input := of_int (int (length bs)) # bs @ ?R\<rparr>) = Some (LzOk (Some bs), p2)" "input p2 = ?R"
      "FileState p2 = FileState p1" using DGifGetExtensionNext_block [of "p1\<lparr>input := of_int (int (length bs)) # bs @ ?R\<rparr>" bs ?R] e(2,3) by auto
    have "uint (of_int (Function e) :: u8) = Function e" using e(4,5) by (simp add: uint_word_of_int_eq take_bit_int_eq_self)
    then have ge: "DGifGetExtension p1 = Some (LzOk (Function e, Some bs), p2)"
      using p2(1) less.prems(5) by (simp add: DGifGetExtension_def READ_def p1_def IS_READABLE_def)
    have lens: "length bs < 256" "int (length xs) < 10000000" using e(3) less.prems(4) by simp_all
    obtain g2 where g2: "add_file_extension (Function e) bs (g\<lparr>Private := p2\<rparr>) = Some (GIF_OK, g2)" "collected (xs @ [e]) g2"
      "same_images (g\<lparr>Private := p2\<rparr>) g2" "Private g2 = p2"
      using add_file_extension_ready [of xs "g\<lparr>Private := p2\<rparr>", OF _ e(2) lens, of "Function e", unfolded e(1) [symmetric]] less.prems(1) by auto
    have si: "same_images g g2" using same_images_trans [OF same_images_Private g2(3)] p2(3) by (simp add: p1_def)
    obtain g3 cs es' where g3: "es1 = cs @ es'" "at_start es'" "slurp_ext_loop g2 = Some (GIF_OK, g3)" "collected ((xs @ [e]) @ cs) g3"
      "same_images g2 g3" "input (Private g3) = ext_stream es' @ R"
      using slurp_ext_loop_stream [OF g2(2), of es1 R] less.prems(2,4) Cons g2(4) p2(2) by auto
    have "slurp_extension (g\<lparr>Private := p1\<rparr>) = Some (GIF_OK, g3)" using ge g2(1) g3(3) by (simp add: slurp_extension_def)
    then have "slurp_loop g = slurp_loop g3" using rt by (subst slurp_loop.simps) simp
    moreover have s3: "same_images g g3" using same_images_trans [OF si g3(5)] .
    moreover have "IS_READABLE (Private g3)" using same_images_state [OF s3] less.prems(5) by (simp add: IS_READABLE_def)
    ultimately show ?thesis
      using less.hyps [of es' "(xs @ [e]) @ cs" g3] g3 Cons less.prems(2,4) same_images_trans [OF s3] by auto
  qed
qed

end
