(* ===== verification/GifSpewSlurp.thy ===== *)
theory GifSpewSlurp
  imports GifRound
begin

text \<open>
  Whole files: \<open>DGifSlurp\<close> on what \<open>EGifSpew\<close> has written gives back the images, the extensions and the
  descriptors.
\<close>

section \<open>Rows of an image\<close>

definition row :: "nat \<Rightarrow> u8 list \<Rightarrow> int \<Rightarrow> u8 list" where
  "row w raster j = take w (drop (nat (j * int w)) raster)"

definition inside :: "nat \<Rightarrow> u8 list \<Rightarrow> int \<Rightarrow> bool" where
  "inside w raster j \<longleftrightarrow> 0 \<le> j \<and> nat (j * int w) + w \<le> length raster"

lemma length_row [simp]: "inside w raster j \<Longrightarrow> length (row w raster j) = w"
  by (auto simp: inside_def row_def min_def)

lemma nat_off: "nat (int m * int w) = m * w"
  by (simp add: nat_mult_distrib)

lemma pixel_bits_row: "pixel_bits bpp (row w raster j) = row w (pixel_bits bpp raster) j"
  by (simp add: pixel_bits_def row_def take_map drop_map)

lemma pixel_bits_idem [simp]: "pixel_bits bpp (pixel_bits bpp px) = pixel_bits bpp px"
  by (simp add: pixel_bits_def)

lemma pixel_bits_join: "pixel_bits bpp (take k r) @ pixel_bits bpp (drop k r) = pixel_bits bpp r"
  by (simp flip: pixel_bits_simps(2))

lemma write_rows_wrote:
  assumes "wrote bpp W px (Private g)" "IS_WRITEABLE (Private g)" "\<forall>j \<in> set js. inside w raster j" "0 < w" "length js * w < 2 ^ 32" "js \<noteq> []"
    "PixelCount (Private g) = of_nat (length js * w)"
  shows "\<exists>raster' p' Y pad. write_rows (int w) js raster g = Some (GIF_OK, raster', g\<lparr>Private := p'\<rparr>) \<and> written p' = W @ sub_blocks Y \<and>
     byte_bits Y = code_bits (image_codes bpp (px @ concat (map (row w (pixel_bits bpp raster)) js))) @ pad \<and>
     PixelCount p' = 0 \<and> same_file ((Private g)\<lparr>PixelCount := 0\<rparr>) p'"
  using assms
proof (induction js arbitrary: px g raster)
  case (Cons j js)
  let ?N = "length (j # js) * w" and ?off = "nat (j * int w)"
  have j: "0 \<le> j" "?off + w \<le> length raster" using Cons.prems(3) by (auto simp: inside_def)
  have j0: "0 \<le> j * int w" using j(1) by simp
  have w: "w \<le> length (drop ?off raster)" "w \<le> ?N" using j(2) by simp_all
  from EGifPutLine_wrote [OF Cons.prems(1,2,4) w Cons.prems(5,7)] obtain p1 where
    p1: "EGifPutLine (drop ?off raster) (int w) g = Some (GIF_OK, pixel_bits bpp (row w raster j) @ drop w (drop ?off raster), g\<lparr>Private := p1\<rparr>)"
    "PixelCount p1 = of_nat (?N - w)" "same_file ((Private g)\<lparr>PixelCount := PixelCount p1\<rparr>) p1"
    "if ?N = w then \<exists>Y pad. written p1 = W @ sub_blocks Y \<and> byte_bits Y = code_bits (image_codes bpp (px @ pixel_bits bpp (row w raster j))) @ pad
     else wrote bpp W (px @ pixel_bits bpp (row w raster j)) p1"
    unfolding row_def by blast
  define raster1 where "raster1 = take ?off raster @ pixel_bits bpp (row w raster j) @ drop w (drop ?off raster)"
  have len: "length raster1 = length raster" using j by (simp add: raster1_def row_def)
  have bits: "pixel_bits bpp raster1 = pixel_bits bpp raster"
    using pixel_bits_join [of bpp ?off raster] pixel_bits_join [of bpp w "drop ?off raster"] by (simp add: raster1_def row_def)
  have c: "0 \<le> j * int w \<and> j * int w \<le> int (length raster)" using j(2) j0 by linarith
  have run: "write_rows (int w) (j # js) raster g = write_rows (int w) js raster1 (g\<lparr>Private := p1\<rparr>)"
    using p1(1) c by (simp add: raster1_def Let_def)
  show ?case
  proof (cases "js = []")
    case True
    then have "PixelCount p1 = 0" "write_rows (int w) (j # js) raster g = Some (GIF_OK, raster1, g\<lparr>Private := p1\<rparr>)" using p1(2) run by simp_all
    then show ?thesis using True p1(3,4)
      by (rule_tac exI [of _ raster1], rule_tac exI [of _ p1]) (auto simp: pixel_bits_row simp del: write_rows.simps)
  next
    case False
    then have ne: "?N \<noteq> w" using Cons.prems(4) by simp
    have wr: "IS_WRITEABLE (Private (g\<lparr>Private := p1\<rparr>))" using p1(3) Cons.prems(2) by (simp add: same_file_def IS_WRITEABLE_def)
    have ins: "\<forall>j \<in> set js. inside w raster1 j" using Cons.prems(3) len by (simp add: inside_def)
    have lt: "length js * w < 2 ^ 32" by (rule le_less_trans [OF _ Cons.prems(5)]) simp
    have pc: "PixelCount (Private (g\<lparr>Private := p1\<rparr>)) = of_nat (length js * w)" using p1(2) by (simp add: algebra_simps)
    have "wrote bpp W (px @ pixel_bits bpp (row w raster j)) (Private (g\<lparr>Private := p1\<rparr>))" using p1(4) ne by simp
    from Cons.IH [OF this wr ins Cons.prems(4) lt False pc] obtain raster' p' Y pad where
      p': "write_rows (int w) js raster1 (g\<lparr>Private := p1\<rparr>) = Some (GIF_OK, raster', g\<lparr>Private := p'\<rparr>)" "written p' = W @ sub_blocks Y"
      "byte_bits Y = code_bits (image_codes bpp (px @ concat (map (row w (pixel_bits bpp raster)) (j # js)))) @ pad" "PixelCount p' = 0"
      "same_file (p1\<lparr>PixelCount := 0\<rparr>) p'" by (auto simp: bits pixel_bits_row)
    have "same_file ((Private g)\<lparr>PixelCount := 0\<rparr>) p'" using p'(5) p1(3) by (simp add: same_file_def)
    with run p'(1-4) show ?thesis by metis
  qed
qed blast

text \<open>Rows put at their places.\<close>

lemma row_cong:
  assumes "length xs = length ys" "\<And>k. nat (i * int w) \<le> k \<Longrightarrow> k < nat (i * int w) + w \<Longrightarrow> k < length ys \<Longrightarrow> xs ! k = ys ! k"
  shows "row w xs i = row w ys i"
  unfolding row_def by (rule nth_equalityI) (use assms in auto)

lemma put_pixels_row:
  assumes "inside w raster j" "length px = w" "0 < w"
  shows "\<exists>raster'. put_pixels raster (j * int w) px = Some raster' \<and> length raster' = length raster \<and> row w raster' j = px \<and>
    (\<forall>i. 0 \<le> i \<and> i \<noteq> j \<longrightarrow> row w raster' i = row w raster i)"
proof -
  let ?off = "nat (j * int w)"
  have j: "0 \<le> j" "?off + w \<le> length raster" using assms(1) by (auto simp: inside_def)
  have j0: "0 \<le> j * int w" using j(1) by simp
  let ?r = "take ?off raster @ px @ drop (?off + w) raster"
  have r: "put_pixels raster (j * int w) px = Some ?r" using assms j j0 by (auto simp: put_pixels_def)
  have nth: "?r ! k = (if ?off \<le> k \<and> k < ?off + w then px ! (k - ?off) else raster ! k)" if "k < length raster" for k
    using j(2) assms(2) that by (auto simp: nth_append)
  have len: "length ?r = length raster" using j(2) assms(2) by simp
  have "row w ?r i = row w raster i" if "0 \<le> i" "i \<noteq> j" for i
  proof -
    have "?r ! k = raster ! k" if "nat (i * int w) \<le> k" "k < nat (i * int w) + w" "k < length raster" for k
    proof -
      obtain a b where ab: "i = int a" "j = int b" using \<open>0 \<le> i\<close> j(1) nonneg_int_cases by metis
      have "Suc a \<le> b \<or> Suc b \<le> a" using \<open>i \<noteq> j\<close> ab by linarith
      then have "Suc a * w \<le> b * w \<or> Suc b * w \<le> a * w" by (meson mult_le_mono1)
      then have "\<not> (?off \<le> k \<and> k < ?off + w)" using that(1,2) unfolding ab nat_off by auto
      then show ?thesis using nth [OF that(3)] by argo
    qed
    then show ?thesis by (intro row_cong len)
  qed
  moreover have "row w ?r j = px" using j assms(2) by (simp add: row_def)
  ultimately show ?thesis using r len by blast
qed

lemma rows_equal:
  assumes "length xs = h * w" "length ys = h * w" "0 < w" "\<forall>j \<in> {0..<int h}. row w xs j = row w ys j"
  shows "xs = ys"
proof (rule nth_equalityI)
  fix i assume i: "i < length xs"
  let ?j = "i div w"
  have "?j < h" using i assms(1,3) by (simp add: div_less_iff_less_mult)
  then have eq: "row w xs (int ?j) = row w ys (int ?j)" using assms(4) by simp
  have m: "i mod w < w" "?j * w + i mod w = i" "?j \<le> h" using assms(3) \<open>?j < h\<close> by simp_all
  have n: "nat (int ?j * int w) = ?j * w" by (simp add: nat_mult_distrib)
  have "row w xs (int ?j) ! (i mod w) = xs ! i" "row w ys (int ?j) ! (i mod w) = ys ! i"
    using m i assms(1,2) nth_drop [of "?j * w" xs "i mod w"] nth_drop [of "?j * w" ys "i mod w"] unfolding row_def n m(2)
    by (simp_all del: nth_drop)
  with eq show "xs ! i = ys ! i" by simp
qed (use assms in simp)

lemma rows_concat:
  assumes "length xs = h * w"
  shows "concat (map (row w xs) [0..int h - 1]) = xs"
  using assms
proof (induction h arbitrary: xs)
  case (Suc h)
  have up: "[0..int (Suc h) - 1] = [0..int h - 1] @ [int h]" by (simp add: upto_rec2)
  let ?ys = "take (h * w) xs"
  have "row w xs j = row w ?ys j" if "0 \<le> j" "j < int h" for j
  proof -
    obtain a where a: "j = int a" using zero_le_imp_eq_int \<open>0 \<le> j\<close> by blast
    have "Suc a * w \<le> h * w" using that a by (intro mult_le_mono1) simp
    then have "nat (j * int w) + w \<le> h * w" unfolding a nat_off by simp
    then show ?thesis unfolding row_def by (simp add: drop_take min_absorb1)
  qed
  then have m1: "map (row w xs) [0..int h - 1] = map (row w ?ys) [0..int h - 1]" by simp
  have m2: "concat (map (row w ?ys) [0..int h - 1]) = ?ys" using Suc by simp
  have m3: "row w xs (int h) = drop (h * w) xs" using Suc.prems by (simp add: row_def nat_mult_distrib)
  show ?case unfolding up map_append concat_append m1 m2 by (simp add: m3)
qed simp

lemma read_rows_holding:
  assumes "holding bpp (concat (map (row w px) js)) p R" "IS_READABLE p" "\<forall>j \<in> set js. inside w px j" "length raster = length px" "0 < w"
    "length js * w \<le> 0xffff0000" "PixelCount p = of_nat (length js * w)" "js \<noteq> []"
  shows "\<exists>raster' p'. read_rows (int w) js raster p = Some (LzOk (), raster', p') \<and> input p' = R \<and> FileState p' = FileState p \<and>
    length raster' = length px \<and> (\<forall>j \<in> set js. row w raster' j = row w px j) \<and>
    (\<forall>j. 0 \<le> j \<and> j \<notin> set js \<longrightarrow> row w raster' j = row w raster j) \<and> PixelCount p' = 0"
  using assms
proof (induction js arbitrary: p raster)
  case (Cons j js)
  let ?all = "concat (map (row w px) (j # js))"
  have j: "inside w px j" "0 \<le> j" using Cons.prems(3) by (auto simp: inside_def)
  have "\<forall>j \<in> set js. length (row w px j) = w" using Cons.prems(3) by simp
  then have ljs: "length (concat (map (row w px) js)) = length js * w" by (induction js) auto
  have len: "length ?all = length (j # js) * w" using ljs j by simp
  have n: "w \<le> length ?all" unfolding len by simp
  have tk: "take w ?all = row w px j" "drop w ?all = concat (map (row w px) js)" using j by simp_all
  from DGifGetLine_holding [OF Cons.prems(1,2,5) n, unfolded len tk, OF Cons.prems(7,6), of "int w"] obtain p1 where
    p1: "DGifGetLine (int w) (int w) p = Some (LzOk (), row w px j, p1)" "FileState p1 = FileState p" "PixelCount p1 = of_nat (length (j # js) * w - w)"
    "if w = length (j # js) * w then input p1 = R else holding bpp (concat (map (row w px) js)) p1 R"
    by blast
  have "inside w raster j" using j Cons.prems(4) by (simp add: inside_def)
  from put_pixels_row [OF this length_row [OF j(1)] Cons.prems(5)] obtain raster1 where
    r1: "put_pixels raster (j * int w) (row w px j) = Some raster1" "length raster1 = length raster" "row w raster1 j = row w px j"
    "\<forall>i. 0 \<le> i \<and> i \<noteq> j \<longrightarrow> row w raster1 i = row w raster i" by blast
  have run: "read_rows (int w) (j # js) raster p = read_rows (int w) js raster1 p1" using p1(1) r1(1) by simp
  show ?case
  proof (cases "js = []")
    case True
    then show ?thesis using run p1 r1 Cons.prems(4) by auto
  next
    case False
    then have ne: "w \<noteq> length (j # js) * w" using Cons.prems(5) by simp
    have rd: "IS_READABLE p1" using p1(2) Cons.prems(2) by (simp add: IS_READABLE_def)
    have h: "holding bpp (concat (map (row w px) js)) p1 R" using p1(4) ne by simp
    have le: "length js * w \<le> 0xffff0000" by (rule order_trans [OF _ Cons.prems(6)]) simp
    have pc: "PixelCount p1 = of_nat (length js * w)" using p1(3) by (simp add: algebra_simps)
    have l1: "length raster1 = length px" "\<forall>j \<in> set js. inside w px j" using r1(2) Cons.prems(3,4) by simp_all
    obtain raster' p' where IH: "read_rows (int w) js raster1 p1 = Some (LzOk (), raster', p')" "input p' = R" "FileState p' = FileState p1"
      "length raster' = length px" "\<forall>j \<in> set js. row w raster' j = row w px j" "\<forall>j. 0 \<le> j \<and> j \<notin> set js \<longrightarrow> row w raster' j = row w raster1 j" "PixelCount p' = 0"
      using Cons.IH [OF h rd l1(2,1) Cons.prems(5) le pc False] by blast
    have "\<forall>i \<in> set (j # js). row w raster' i = row w px i" using IH(5,6) r1(3) j(2) by auto
    moreover have "\<forall>i. 0 \<le> i \<and> i \<notin> set (j # js) \<longrightarrow> row w raster' i = row w raster i" using IH(6) r1(4) by simp
    ultimately show ?thesis using run IH p1(2) by simp
  qed
qed blast


section \<open>The image descriptor\<close>

definition image_byte :: "bool \<Rightarrow> ColorMapObject option \<Rightarrow> u8" where
  "image_byte il cmap = of_int ((case cmap of None \<Rightarrow> 0 | Some cm \<Rightarrow> 0x80 OR (BitsPerPixel cm - 1)) OR (if il then 0x40 else 0))"

definition image_head :: "GifImageDesc \<Rightarrow> u8 list" where
  "image_head d = [LOBYTE (Left d), HIBYTE (Left d), LOBYTE (Top d), HIBYTE (Top d), LOBYTE (Width d), HIBYTE (Width d),
     LOBYTE (Height d), HIBYTE (Height d), image_byte (Interlace d) (ColorMap d)] @ map_bytes (ColorMap d)"

text \<open>The order flag of a local colour map is not written.\<close>

definition unsorted :: "ColorMapObject option \<Rightarrow> ColorMapObject option" where
  "unsorted = map_option (\<lambda>cm. cm\<lparr>SortFlag := False\<rparr>)"

lemma unsorted_simps [simp]: "unsorted None = None" "unsorted (Some cm) = Some (cm\<lparr>SortFlag := False\<rparr>)" "unsorted m = None \<longleftrightarrow> m = None"
  by (auto simp: unsorted_def)

text \<open>The writer between two records.\<close>

definition ready :: "egif \<Rightarrow> bool" where
  "ready g \<longleftrightarrow> IS_WRITEABLE (Private g) \<and> space (Private g) = None \<and> outcomes (gheap g) = [] \<and> PixelCount (Private g) = 0"

definition same_plan :: "egif \<Rightarrow> egif \<Rightarrow> bool" where
  "same_plan g g' \<longleftrightarrow> ImageCount g' = ImageCount g \<and> SavedImages g' = SavedImages g \<and> SColorMap g' = SColorMap g \<and>
     FileExtensionBlockCount g' = FileExtensionBlockCount g \<and> FileExtensionBlocks g' = FileExtensionBlocks g"

lemma EGifPutImageDesc_bytes:
  assumes r: "ready g" and m: "storable (ColorMap d)"
    and sel: "(case unsorted (ColorMap d) of Some m \<Rightarrow> Some m | None \<Rightarrow> SColorMap g) = Some m" "bpp = max 2 (BitsPerPixel m)" "bpp \<le> 8"
  shows "\<exists>g'. EGifPutImageDesc (Left d) (Top d) (Width d) (Height d) (Interlace d) (ColorMap d) g = Some (GIF_OK, g') \<and>
    wrote bpp (written (Private g) @ 0x2c # image_head d @ [of_int bpp]) [] (Private g') \<and>
    PixelCount (Private g') = of_int (Width d) * of_int (Height d) \<and> IS_WRITEABLE (Private g') \<and> space (Private g') = None \<and>
    outcomes (gheap g') = [] \<and> same_plan g g'"
proof -
  let ?cmap = "ColorMap d" and ?h = "case ColorMap d of None \<Rightarrow> gheap g | Some _ \<Rightarrow> GifFreeMapObject (ColorMap (Image g)) (gheap g)"
  have h: "outcomes ?h = []" using r by (auto simp: ready_def GifFreeMapObject_def free_def split: option.splits)
  obtain mm h' where mk: "(case ?cmap of None \<Rightarrow> Some (None, ?h) | Some cm \<Rightarrow> GifMakeMapObject (ColorCount cm) (Some (Colors cm)) ?h) = Some (mm, h')"
    "mm = unsorted ?cmap" "outcomes h' = []" using make_map_copy [OF m h] unfolding unsorted_def by blast
  have mk1: "(case ?cmap of None \<Rightarrow> Some (None, gheap g)
      | Some cm \<Rightarrow> GifMakeMapObject (ColorCount cm) (Some (Colors cm)) (GifFreeMapObject (ColorMap (Image g)) (gheap g))) = Some (mm, h')"
    using mk(1) by (cases ?cmap) auto
  have nn: "\<not> (?cmap \<noteq> None \<and> mm = None)" "\<not> (SColorMap g = None \<and> mm = None)" using mk(2) sel(1) by (auto split: option.splits)
  let ?W = "written (Private g) @ 0x2c # image_head d"
  define p2 where "p2 = (Private g)\<lparr>written := ?W, FileState := FileState (Private g) OR FILE_STATE_IMAGE,
      PixelCount := of_int (Width d) * of_int (Height d)\<rparr>"
  have w2: "written p2 = ?W" "space p2 = None" "PixelCount p2 = of_int (Width d) * of_int (Height d)" "IS_WRITEABLE p2"
    using r by (simp_all add: p2_def ready_def IS_WRITEABLE_def FILE_STATE_WRITE_def FILE_STATE_IMAGE_def bit.conj_disj_distrib2)
  obtain p3 where p3: "EGifSetupCompress mm (SColorMap g) p2 = Some (LzOk (), p3)" "wrote bpp (?W @ [of_int bpp]) [] p3" "PixelCount p3 = PixelCount p2"
    using EGifSetupCompress_wrote [OF sel(1) [folded mk(2)] sel(2,3) w2(2)] w2(1) by auto
  have sf: "same_file p2 p3" by (rule EGifSetupCompress_file [OF p3(1)])
  define g' where "g' = g\<lparr>Image := (Image g)\<lparr>Left := Left d, Top := Top d, Width := Width d, Height := Height d, Interlace := Interlace d, ColorMap := mm\<rparr>,
      gheap := h', Private := p3\<rparr>"
  have eq: "(Private g)\<lparr>written := ?W\<rparr>\<lparr>FileState := FileState (Private g) OR FILE_STATE_IMAGE, PixelCount := of_int (Width d) * of_int (Height d)\<rparr> = p2"
    by (simp add: p2_def)
  have "EGifPutImageDesc (Left d) (Top d) (Width d) (Height d) (Interlace d) ?cmap g = Some (GIF_OK, g')"
    using r m mk1 nn p3(1) unfolding EGifPutImageDesc_def ready_def g'_def eq [symmetric]
    by (simp add: Let_def put_all put_word_all write_color_map_all image_head_def image_byte_def DESCRIPTOR_INTRODUCER_def set_error_def cong: option.case_cong)
  moreover have "IS_WRITEABLE p3" "space p3 = None" using sf w2 by (simp_all add: same_file_def IS_WRITEABLE_def)
  ultimately show ?thesis using p3(2,3) w2(3) mk(3) by (auto simp: g'_def same_plan_def)
qed

lemma image_byte_some:
  fixes k :: nat and il :: bool
  assumes "1 \<le> k" "k \<le> 8"
  defines "b \<equiv> of_int ((0x80 OR (int k - 1)) OR (if il then 0x40 else 0)) :: u8"
  shows "(b AND 0x40 \<noteq> 0) = il" "b AND 0x80 \<noteq> 0" "unat (b AND 0x07) + 1 = k"
proof -
  have "k \<in> {1, 2, 3, 4, 5, 6, 7, 8}" using assms by auto
  then show "(b AND 0x40 \<noteq> 0) = il" "b AND 0x80 \<noteq> 0" "unat (b AND 0x07) + 1 = k"
    unfolding b_def by (auto split: if_splits)
qed

definition shown :: "SavedImage list \<Rightarrow> dgif \<Rightarrow> bool" where
  "shown imgs g \<longleftrightarrow> ImageCount g = int (length imgs) \<and> SavedImages g = (if imgs = [] then None else Some imgs)"

definition same_screen :: "dgif \<Rightarrow> dgif \<Rightarrow> bool" where
  "same_screen g g' \<longleftrightarrow> SWidth g' = SWidth g \<and> SHeight g' = SHeight g \<and> SColorResolution g' = SColorResolution g \<and>
     SBackGroundColor g' = SBackGroundColor g \<and> AspectByte g' = AspectByte g \<and> SColorMap g' = SColorMap g \<and>
     FileState (Private g') = FileState (Private g)"

lemma same_screen_trans: "same_screen g g' \<Longrightarrow> same_screen g' g'' \<Longrightarrow> same_screen g g''"
  by (simp add: same_screen_def)

definition desc_ok :: "GifImageDesc \<Rightarrow> bool" where
  "desc_ok d \<longleftrightarrow> 0 \<le> Left d \<and> Left d < 65536 \<and> 0 \<le> Top d \<and> Top d < 65536 \<and> 0 < Width d \<and> Width d < 65536 \<and>
     0 < Height d \<and> Height d < 65536 \<and> storable (ColorMap d)"

definition stored_desc :: "GifImageDesc \<Rightarrow> GifImageDesc" where
  "stored_desc d = d\<lparr>ColorMap := unsorted (ColorMap d)\<rparr>"

lemma read_image_words_bytes:
  assumes "desc_ok d" "input p = image_head d @ R"
  shows "read_image_words d0 p = (LzOk None, d0\<lparr>Left := Left d, Top := Top d, Width := Width d, Height := Height d\<rparr>,
    p\<lparr>input := image_byte (Interlace d) (ColorMap d) # map_bytes (ColorMap d) @ R\<rparr>)"
proof -
  let ?R4 = "image_byte (Interlace d) (ColorMap d) # map_bytes (ColorMap d) @ R"
  let ?R3 = "LOBYTE (Height d) # HIBYTE (Height d) # ?R4"
  let ?R2 = "LOBYTE (Width d) # HIBYTE (Width d) # ?R3"
  let ?R1 = "LOBYTE (Top d) # HIBYTE (Top d) # ?R2"
  have rng: "0 \<le> Left d" "Left d < 65536" "0 \<le> Top d" "Top d < 65536" "0 \<le> Width d" "Width d < 65536" "0 \<le> Height d" "Height d < 65536"
    using assms(1) by (auto simp: desc_ok_def)
  have "DGifGetWord p = (LzOk (Left d), p\<lparr>input := ?R1\<rparr>)"
    using DGifGetWord_bytes [of p "Left d" ?R1] assms(2) rng by (simp add: image_head_def)
  moreover have "DGifGetWord (p\<lparr>input := ?R1\<rparr>) = (LzOk (Top d), p\<lparr>input := ?R2\<rparr>)"
    "DGifGetWord (p\<lparr>input := ?R2\<rparr>) = (LzOk (Width d), p\<lparr>input := ?R3\<rparr>)"
    "DGifGetWord (p\<lparr>input := ?R3\<rparr>) = (LzOk (Height d), p\<lparr>input := ?R4\<rparr>)"
    using DGifGetWord_bytes [of "p\<lparr>input := ?R1\<rparr>" "Top d" ?R2] DGifGetWord_bytes [of "p\<lparr>input := ?R2\<rparr>" "Width d" ?R3]
      DGifGetWord_bytes [of "p\<lparr>input := ?R3\<rparr>" "Height d" ?R4] rng by simp_all
  ultimately show ?thesis by (simp add: read_image_words_def Let_def)
qed

lemma append_image_ready:
  assumes d: "desc_ok d" "Image g = stored_desc d" and g: "shown imgs g" "outcomes (gheap g) = []" "length imgs < 10000000"
    and data: "input (Private g) = of_int bpp # sub_blocks Y @ R" "byte_bits Y = code_bits (image_codes bpp px) @ pad"
      "2 \<le> bpp" "bpp \<le> 8" "px \<noteq> []" "\<forall>b \<in> set px. uint b < 2 ^ nat bpp"
  shows "\<exists>g'. append_image g = Some (GIF_OK, g') \<and> shown (imgs @ [zero_image\<lparr>ImageDesc := stored_desc d\<rparr>]) g' \<and>
    holding bpp px (Private g') R \<and> PixelCount (Private g') = of_int (Width d) * of_int (Height d) \<and> outcomes (gheap g') = [] \<and>
    Image g' = stored_desc d \<and> same_screen g g' \<and>
    FileExtensionBlockCount g' = FileExtensionBlockCount g \<and> FileExtensionBlocks g' = FileExtensionBlocks g"
proof -
  let ?n = "Suc (length imgs)" and ?p = "(Private g)\<lparr>PixelCount := of_int (Width d) * of_int (Height d)\<rparr>"
  have "malloc 36 h = (True, h\<lparr>outcomes := [], blocks := blocks h + 1\<rparr>)" if "outcomes h = []" for h
    using that by (simp add: malloc_def granted_def)
  moreover obtain h1 where "reallocarray True (of_nat ?n) 36 (gheap g) = (True, h1)" "outcomes h1 = []"
    using reallocarray_ready [of ?n 36 "gheap g" True] g(2,3) by auto
  ultimately obtain h2 where h2: "(case SavedImages g of None \<Rightarrow> malloc 36 (gheap g)
      | Some _ \<Rightarrow> reallocarray True (of_int (ImageCount g + 1)) 36 (gheap g)) = (True, h2)" "outcomes h2 = []"
    using g(1,2) by (cases "imgs = []") (auto simp: shown_def add.commute)
  have arr: "(case SavedImages g of None \<Rightarrow> [zero_image] | Some xs \<Rightarrow> resize (nat (ImageCount g + 1)) zero_image xs) = imgs @ [zero_image]"
    using g(1) by (auto simp: shown_def resize_def nat_add_distrib)
  let ?cm = "unsorted (ColorMap d)"
  have st: "storable ?cm" using d(1) by (cases "ColorMap d") (auto simp: desc_ok_def storable_def storable_map_def)
  obtain m h3 where mk: "(case ?cm of None \<Rightarrow> Some (None, h2) | Some cm \<Rightarrow> GifMakeMapObject (ColorCount cm) (Some (Colors cm)) h2) = Some (m, h3)"
    "m = map_option (\<lambda>cm. cm\<lparr>SortFlag := False\<rparr>) ?cm" "outcomes h3 = []" using make_map_copy [OF st h2(2)] by blast
  have m: "m = ?cm" using mk(2) by (cases "ColorMap d") auto
  have cmg: "ColorMap (Image g) = ?cm" using d(2) by (simp add: stored_desc_def)
  obtain p' where p': "DGifSetupDecompress ?p = Some (LzOk (), p')" "holding bpp px p' R" "PixelCount p' = PixelCount ?p" "FileState p' = FileState ?p"
    using DGifSetupDecompress_holding [of ?p bpp Y R px pad] data by auto
  have wh: "Width (Image g) = Width d" "Height (Image g) = Height d" using d(2) by (simp_all add: stored_desc_def)
  let ?sp = "zero_image\<lparr>ImageDesc := (Image g)\<lparr>ColorMap := m\<rparr>\<rparr>"
  have sp: "?sp = zero_image\<lparr>ImageDesc := stored_desc d\<rparr>" using m cmg d(2) by (simp add: stored_desc_def)
  have lw: "lwrite (imgs @ [zero_image]) (ImageCount g) ?sp = Some (imgs @ [?sp])" using g(1) by (simp add: shown_def lwrite_def)
  have "append_image g = Some (GIF_OK, g\<lparr>SavedImages := Some (imgs @ [?sp]), gheap := h3, ImageCount := ImageCount g + 1, Private := p'\<rparr>)"
    unfolding append_image_def arr h2(1) Let_def prod.case cmg wh mk(1) using lw p'(1) m by (cases "ColorMap d") simp_all
  then show ?thesis using p'(2-4) mk(3) d(2) g(1) unfolding sp by (simp add: shown_def same_screen_def)
qed

lemma DGifGetImageDesc_bytes:
  assumes d: "desc_ok d" and g: "IS_READABLE (Private g)" "shown imgs g" "outcomes (gheap g) = []" "length imgs < 10000000"
    and data: "input (Private g) = image_head d @ of_int bpp # sub_blocks Y @ R" "byte_bits Y = code_bits (image_codes bpp px) @ pad"
      "2 \<le> bpp" "bpp \<le> 8" "px \<noteq> []" "\<forall>b \<in> set px. uint b < 2 ^ nat bpp"
  shows "\<exists>g'. DGifGetImageDesc g = Some (GIF_OK, g') \<and> shown (imgs @ [zero_image\<lparr>ImageDesc := stored_desc d\<rparr>]) g' \<and>
    holding bpp px (Private g') R \<and> PixelCount (Private g') = of_int (Width d) * of_int (Height d) \<and> outcomes (gheap g') = [] \<and>
    Image g' = stored_desc d \<and> same_screen g g' \<and>
    FileExtensionBlockCount g' = FileExtensionBlockCount g \<and> FileExtensionBlocks g' = FileExtensionBlocks g"
proof -
  let ?b = "image_byte (Interlace d) (ColorMap d)" and ?R = "of_int bpp # sub_blocks Y @ R"
  let ?d0 = "(Image g)\<lparr>Left := Left d, Top := Top d, Width := Width d, Height := Height d\<rparr>"
  let ?h1 = "GifFreeMapObject (ColorMap (Image g)) (gheap g)"
  note rw = read_image_words_bytes [OF d data(1), of "Image g"]
  have h1: "outcomes ?h1 = []" using g(3) by (simp add: GifFreeMapObject_def free_def split: option.splits)
  have rd: "READ 1 ((Private g)\<lparr>input := ?b # map_bytes (ColorMap d) @ ?R\<rparr>) = ([?b], (Private g)\<lparr>input := map_bytes (ColorMap d) @ ?R\<rparr>)"
    by (simp add: READ_def)
  have dd: "(Image g)\<lparr>Left := Left d, Top := Top d, Width := Width d, Height := Height d, Interlace := Interlace d, ColorMap := c\<rparr> = d\<lparr>ColorMap := c\<rparr>" for c
    by (cases d) simp
  obtain h g1 where run: "DGifGetImageDesc g = append_image g1" "g1 = g\<lparr>Private := (Private g)\<lparr>input := ?R\<rparr>, gheap := h, Image := stored_desc d\<rparr>" "outcomes h = []"
  proof (cases "ColorMap d")
    case None
    have "?b AND 0x80 = 0" "(?b AND 0x40 \<noteq> 0) = Interlace d" using None by (simp_all add: image_byte_def)
    then have "DGifGetImageDesc g = append_image (g\<lparr>Private := (Private g)\<lparr>input := ?R\<rparr>, gheap := ?h1, Image := stored_desc d\<rparr>)"
      using g(1) rw rd None by (simp add: DGifGetImageDesc_def Let_def map_bytes_def stored_desc_def dd) (cases g; simp)
    then show thesis using that h1 by blast
  next
    case (Some cm)
    have "storable (Some cm)" using d Some by (simp add: desc_ok_def)
    then obtain k where k: "1 \<le> k" "k \<le> 8" "BitsPerPixel cm = int k" "ColorCount cm = 2 ^ k" "length (Colors cm) = 2 ^ k"
      by (rule storable_SomeE)
    have b: "(?b AND 0x40 \<noteq> 0) = Interlace d" "?b AND 0x80 \<noteq> 0" "unat (?b AND 0x07) + 1 = k"
      using image_byte_some [OF k(1,2), of "Interlace d"] Some k(3) by (simp_all add: image_byte_def)
    obtain h2 where h2: "outcomes h2 = []" "GifMakeMapObject (2 ^ k) None ?h1 =
        Some (Some \<lparr>ColorCount = 2 ^ k, BitsPerPixel = int k, SortFlag = False, Colors = replicate (2 ^ k) black\<rparr>, h2)"
      using GifMakeMapObject_ready [OF k(1,2) h1, of None] by auto
    have rc: "read_colors (2 ^ k) [] ((Private g)\<lparr>input := map_bytes (ColorMap d) @ ?R\<rparr>) = (Some (Colors cm), (Private g)\<lparr>input := ?R\<rparr>)"
      using read_colors_bytes [of "(Private g)\<lparr>input := map_bytes (ColorMap d) @ ?R\<rparr>" "Colors cm" ?R "[]"] k(5) Some by (simp add: map_bytes_def)
    have cm: "\<lparr>ColorCount = 2 ^ k, BitsPerPixel = int k, SortFlag = False, Colors = Colors cm\<rparr> = cm\<lparr>SortFlag := False\<rparr>" using k(3,4) by (cases cm) simp
    have "DGifGetImageDesc g = append_image (g\<lparr>Private := (Private g)\<lparr>input := ?R\<rparr>, gheap := h2, Image := stored_desc d\<rparr>)"
      using g(1) rw rd b h2(2) rc cm Some
      by (simp add: DGifGetImageDesc_def Let_def stored_desc_def nat_power_eq dd)
    then show thesis using that h2(1) by blast
  qed
  have "\<exists>g'. append_image g1 = Some (GIF_OK, g') \<and> shown (imgs @ [zero_image\<lparr>ImageDesc := stored_desc d\<rparr>]) g' \<and>
    holding bpp px (Private g') R \<and> PixelCount (Private g') = of_int (Width d) * of_int (Height d) \<and> outcomes (gheap g') = [] \<and>
    Image g' = stored_desc d \<and> same_screen g1 g' \<and>
    FileExtensionBlockCount g' = FileExtensionBlockCount g1 \<and> FileExtensionBlocks g' = FileExtensionBlocks g1"
    by (rule append_image_ready [OF d]) (use run(2,3) g data in \<open>simp_all add: shown_def\<close>)
  then show ?thesis unfolding run(1) using run(2) by (auto simp: same_screen_def)
qed


section \<open>One image\<close>

definition row_order :: "GifImageDesc \<Rightarrow> int list" where
  "row_order d = (if Interlace d then interlaced_rows (Height d) else [0..Height d - 1])"

lemma row_order_facts:
  assumes "0 < Height d"
  shows "set (row_order d) = {0..<Height d}" "length (row_order d) = nat (Height d)" "row_order d \<noteq> []"
proof -
  have up: "set [0..Height d - 1] = {0..<Height d}" unfolding set_upto by auto
  show s: "set (row_order d) = {0..<Height d}" unfolding row_order_def using interlaced_rows_perm up by presburger
  have "distinct (row_order d)" unfolding row_order_def using interlaced_rows_perm distinct_upto by presburger
  then show "length (row_order d) = nat (Height d)" using s distinct_card [of "row_order d"] by simp
  show "row_order d \<noteq> []" using s assms by auto
qed

definition raster_ok :: "GifImageDesc \<Rightarrow> u8 list \<Rightarrow> bool" where
  "raster_ok d raster \<longleftrightarrow> int (length raster) = Width d * Height d \<and> length raster < 2 ^ 31"

lemma raster_size:
  assumes "desc_ok d" "raster_ok d raster"
  obtains w h where "Width d = int w" "Height d = int h" "0 < w" "0 < h" "length raster = h * w" "h * w < 2 ^ 31"
proof -
  have p: "0 < Width d" "0 < Height d" using assms(1) by (auto simp: desc_ok_def)
  have "int (length raster) = int (nat (Height d) * nat (Width d))" using assms(2) p by (simp add: raster_ok_def mult.commute)
  then have "length raster = nat (Height d) * nat (Width d)" by (simp only: of_nat_eq_iff)
  then show thesis using p assms(2) by (intro that [of "nat (Width d)" "nat (Height d)"]) (auto simp: raster_ok_def)
qed

lemma rows_inside:
  assumes "length raster = h * w" "j \<in> {0..<int h}"
  shows "inside w raster j"
proof -
  obtain a where a: "j = int a" using assms(2) zero_le_imp_eq_int by fastforce
  have "Suc a * w \<le> h * w" using assms(2) a by (intro mult_le_mono1) simp
  then show ?thesis using assms(1) unfolding inside_def a nat_off by simp
qed

definition image_rows :: "GifImageDesc \<Rightarrow> u8 list \<Rightarrow> u8 list" where
  "image_rows d raster = concat (map (row (nat (Width d)) raster) (row_order d))"

lemma length_image_rows:
  assumes "desc_ok d" "raster_ok d raster"
  shows "length (image_rows d raster) = length raster"
proof -
  obtain w h where wh: "Width d = int w" "Height d = int h" "0 < w" "0 < h" "length raster = h * w" using raster_size [OF assms] by metis
  note f = row_order_facts [of d]
  have "length (concat (map (row w raster) js)) = length js * w" if "set js \<subseteq> {0..<int h}" for js
    using that by (induction js) (use rows_inside [OF wh(5)] in auto)
  then show ?thesis using f wh by (simp add: image_rows_def)
qed

lemma image_rows_set: "set (image_rows d raster) \<subseteq> set raster"
  by (auto simp: image_rows_def row_def dest: in_set_takeD in_set_dropD)

lemma read_pixels_holding:
  assumes ok: "desc_ok d" "raster_ok d raster" and h: "holding bpp (image_rows d raster) p R" "IS_READABLE p" "PixelCount p = of_nat (length raster)"
  shows "\<exists>p'. read_pixels d width p = Some (LzOk (), raster, p') \<and> input p' = R \<and> FileState p' = FileState p"
proof -
  obtain w h where wh: "Width d = int w" "Height d = int h" "0 < w" "0 < h" "length raster = h * w" "h * w < 2 ^ 31" using raster_size [OF ok] by metis
  have big: "h * w \<le> 0xffff0000" by (rule order_trans [OF less_imp_le [OF wh(6)]]) simp
  have sz: "image_size d = of_nat (h * w)" by (simp add: image_size_def wh mult.commute)
  have un: "unat (image_size d) = h * w" unfolding sz using wh(6) by (simp add: unat_of_nat take_bit_nat_eq_self del: of_nat_mult)
  have "uint (image_size d) = int (h * w)" using un by (metis uint_nat)
  moreover have "int (h * w) < 2 ^ 31" using wh(6) by (simp del: of_nat_mult)
  ultimately have sn: "sint (image_size d) = int (h * w)" by (simp add: sint_uint signed_take_bit_int_eq_self del: of_nat_mult)
  note f = row_order_facts [of d]
  show ?thesis
  proof (cases "Interlace d")
    case True
    let ?js = "interlaced_rows (int h)"
    have js: "row_order d = ?js" "set ?js = {0..<int h}" "length ?js = h" "?js \<noteq> []" using f True wh by (auto simp: row_order_def)
    have "\<forall>j \<in> set ?js. inside w raster j" using rows_inside [OF wh(5)] js(2) by blast
    then obtain raster' p' where r: "read_rows (int w) ?js (replicate (h * w) 0) p = Some (LzOk (), raster', p')" "input p' = R"
      "FileState p' = FileState p" "length raster' = length raster" "\<forall>j \<in> set ?js. row w raster' j = row w raster j"
      using read_rows_holding [of bpp w raster ?js p R "replicate (h * w) 0"] h js wh big by (auto simp: image_rows_def)
    have "raster' = raster" using rows_equal [of raster' h w raster] r(4,5) wh js(2) by auto
    then show ?thesis using r(1-3) True wh un by (simp add: read_pixels_def)
  next
    case False
    have px: "image_rows d raster = raster" using rows_concat [OF wh(5)] False wh by (simp add: image_rows_def row_order_def)
    have n: "0 < h * w" "h * w \<le> length raster" using wh by simp_all
    from DGifGetLine_holding [OF h(1) [unfolded px] h(2) n h(3), unfolded wh(5), OF big, of width] obtain p' where
      "DGifGetLine width (int (h * w)) p = Some (LzOk (), raster, p')" "FileState p' = FileState p" "input p' = R"
      using wh(5) by auto
    moreover have "put_pixels (replicate (h * w) 0) 0 raster = Some raster" using n wh(5) by (auto simp: put_pixels_def)
    ultimately show ?thesis using False by (simp add: read_pixels_def Let_def un sn del: of_nat_mult)
  qed
qed

definition saved :: "GifImageDesc \<Rightarrow> u8 list \<Rightarrow> ExtensionBlock list \<Rightarrow> SavedImage" where
  "saved d raster es = \<lparr>ImageDesc = d, RasterBits = Some raster, ExtensionBlockCount = int (length es),
     ExtensionBlocks = (if es = [] then None else Some es)\<rparr>"

lemma slurp_image_bytes:
  assumes ok: "desc_ok d" "raster_ok d raster" and g: "IS_READABLE (Private g)" "shown imgs g" "collected es g" "length imgs < 10000000"
    and data: "input (Private g) = image_head d @ of_int bpp # sub_blocks Y @ R" "byte_bits Y = code_bits (image_codes bpp (image_rows d raster)) @ pad"
      "2 \<le> bpp" "bpp \<le> 8" "\<forall>b \<in> set raster. uint b < 2 ^ nat bpp"
  shows "\<exists>g'. slurp_image g = Some (GIF_OK, g') \<and> shown (imgs @ [saved (stored_desc d) raster es]) g' \<and> collected [] g' \<and>
    same_screen g g' \<and> input (Private g') = R"
proof -
  obtain w h where wh: "Width d = int w" "Height d = int h" "0 < w" "0 < h" "length raster = h * w" "h * w < 2 ^ 31" using raster_size [OF ok] by metis
  have px: "image_rows d raster \<noteq> []" using length_image_rows [OF ok] wh by auto
  have small: "\<forall>b \<in> set (image_rows d raster). uint b < 2 ^ nat bpp" using data(5) image_rows_set by blast
  have oc: "outcomes (gheap g) = []" using g(3) by (simp add: collected_def)
  let ?sp = "zero_image\<lparr>ImageDesc := stored_desc d\<rparr>"
  obtain g1 where g1: "DGifGetImageDesc g = Some (GIF_OK, g1)" "shown (imgs @ [?sp]) g1" "holding bpp (image_rows d raster) (Private g1) R"
    "PixelCount (Private g1) = of_int (Width d) * of_int (Height d)" "outcomes (gheap g1) = []" "same_screen g g1"
    "FileExtensionBlockCount g1 = FileExtensionBlockCount g" "FileExtensionBlocks g1 = FileExtensionBlocks g"
    using DGifGetImageDesc_bytes [OF ok(1) g(1,2) oc g(4) data(1-4) px small] by blast
  have d: "ImageDesc ?sp = stored_desc d" "Width (stored_desc d) = int w" "Height (stored_desc d) = int h" by (simp_all add: stored_desc_def wh)
  have sz: "image_size (stored_desc d) = of_nat (h * w)" by (simp add: image_size_def d mult.commute)
  obtain h1 where h1: "reallocarray False (of_nat (h * w)) 1 (gheap g1) = (True, h1)" "outcomes h1 = []"
    using reallocarray_ready [of "h * w" 1 "gheap g1" False] wh(6) g1(5) by auto
  have st: "desc_ok (stored_desc d)" "raster_ok (stored_desc d) raster" "image_rows (stored_desc d) raster = image_rows d raster"
    using ok by (cases "ColorMap d"; simp add: desc_ok_def stored_desc_def storable_def storable_map_def raster_ok_def image_rows_def row_order_def)+
  have "IS_READABLE (Private g1)" using g(1) g1(6) by (simp add: same_screen_def IS_READABLE_def)
  moreover have "PixelCount (Private g1) = of_nat (length raster)" using g1(4) wh by (simp add: mult.commute)
  ultimately obtain p' where p': "read_pixels (stored_desc d) (Width (Image g1)) (Private g1) = Some (LzOk (), raster, p')" "input p' = R"
    "FileState p' = FileState (Private g1)"
    using read_pixels_holding [OF st(1,2), of bpp "Private g1" R "Width (Image g1)"] g1(3) st(3) by auto
  have im: "SavedImages g1 = Some (imgs @ [?sp])" "ImageCount g1 = int (length imgs) + 1" using g1(2) by (simp_all add: shown_def)
  have lr: "lread (imgs @ [?sp]) (ImageCount g1 - 1) = Some ?sp" "lwrite (imgs @ [?sp]) (ImageCount g1 - 1) x = Some (imgs @ [x])" for x
    using im(2) by (simp_all add: lread_def lwrite_def)
  have fits: "\<not> image_size (stored_desc d) > (- 1) div 1" by (simp add: not_less)
  have z: "zero_image\<lparr>ImageDesc := d', RasterBits := Some raster\<rparr> = saved d' raster []"
    "zero_image\<lparr>ImageDesc := d', RasterBits := Some raster, ExtensionBlocks := Some es, ExtensionBlockCount := int (length es)\<rparr> =
       \<lparr>ImageDesc = d', RasterBits = Some raster, ExtensionBlockCount = int (length es), ExtensionBlocks = Some es\<rparr>" for d'
    by (simp_all add: zero_image_def saved_def)
  define g2 where "g2 = (if es = [] then g1\<lparr>gheap := h1, Private := p', SavedImages := Some (imgs @ [saved (stored_desc d) raster []])\<rparr>
     else g1\<lparr>gheap := h1, Private := p', SavedImages := Some (imgs @ [saved (stored_desc d) raster es]), FileExtensionBlocks := None,
            FileExtensionBlockCount := 0\<rparr>)"
  have "slurp_image g = Some (GIF_OK, g2)"
    using g(3) g1(1,7,8) h1(1) p'(1) im(1) lr fits sz d z
    by (cases "es = []") (simp_all add: slurp_image_def Let_def g2_def collected_def saved_def del: of_nat_mult)
  moreover have "shown (imgs @ [saved (stored_desc d) raster es]) g2" "collected [] g2" "same_screen g g2" "input (Private g2) = R"
    using g(3) g1(6,7,8) im(2) h1(2) p'(2,3) by (auto simp: g2_def shown_def collected_def same_screen_def)
  ultimately show ?thesis by blast
qed

section \<open>All images\<close>

definition code_size :: "ColorMapObject option \<Rightarrow> GifImageDesc \<Rightarrow> int" where
  "code_size gmap d = max 2 (case ColorMap d of Some m \<Rightarrow> BitsPerPixel m | None \<Rightarrow> (case gmap of Some m \<Rightarrow> BitsPerPixel m | None \<Rightarrow> 0))"

lemma code_size_unsorted [simp]: "code_size (unsorted gmap) d = code_size gmap d"
  by (cases gmap; cases "ColorMap d") (simp_all add: code_size_def)

lemma code_size_le: "storable gmap \<Longrightarrow> desc_ok d \<Longrightarrow> 2 \<le> code_size gmap d \<and> code_size gmap d \<le> 8"
  by (auto simp: code_size_def desc_ok_def storable_def storable_map_def split: option.splits)

definition exts_of :: "SavedImage \<Rightarrow> ExtensionBlock list" where
  "exts_of sp = (case ExtensionBlocks sp of None \<Rightarrow> [] | Some es \<Rightarrow> es)"

definition raster_of :: "SavedImage \<Rightarrow> u8 list" where
  "raster_of sp = (case RasterBits sp of None \<Rightarrow> [] | Some r \<Rightarrow> r)"

text \<open>An image that the format can hold, when \<open>gmap\<close> is the map of the screen.\<close>

definition image_ok :: "ColorMapObject option \<Rightarrow> SavedImage \<Rightarrow> bool" where
  "image_ok gmap sp \<longleftrightarrow> sp = saved (ImageDesc sp) (raster_of sp) (exts_of sp) \<and> desc_ok (ImageDesc sp) \<and> raster_ok (ImageDesc sp) (raster_of sp) \<and>
     list_all ext_ok (exts_of sp) \<and> at_start (exts_of sp) \<and> length (exts_of sp) < 10000000 \<and> (ColorMap (ImageDesc sp) \<noteq> None \<or> gmap \<noteq> None)"

text \<open>What a reader finds in its place: the order flag of the local map is gone, and pixels are reduced to the
  bits of the code size.\<close>

definition reread :: "ColorMapObject option \<Rightarrow> SavedImage \<Rightarrow> SavedImage" where
  "reread gmap sp = saved (stored_desc (ImageDesc sp)) (pixel_bits (code_size gmap (ImageDesc sp)) (raster_of sp)) (exts_of sp)"

definition image_written :: "int \<Rightarrow> GifImageDesc \<Rightarrow> u8 list \<Rightarrow> u8 list \<Rightarrow> bool" where
  "image_written bpp d raster B \<longleftrightarrow> (\<exists>Y pad. B = 0x2c # image_head d @ of_int bpp # sub_blocks Y \<and>
     byte_bits Y = code_bits (image_codes bpp (image_rows d (pixel_bits bpp raster))) @ pad)"

fun images_written :: "ColorMapObject option \<Rightarrow> SavedImage list \<Rightarrow> u8 list \<Rightarrow> bool" where
  "images_written gmap [] S \<longleftrightarrow> S = []"
| "images_written gmap (sp # sps) S \<longleftrightarrow> (\<exists>B S'. S = ext_stream (exts_of sp) @ B @ S' \<and>
     image_written (code_size gmap (ImageDesc sp)) (ImageDesc sp) (raster_of sp) B \<and> images_written gmap sps S')"

lemma image_okD:
  assumes "image_ok gmap sp"
  shows "RasterBits sp = Some (raster_of sp)" "ExtensionBlockCount sp = int (length (exts_of sp))"
    "ExtensionBlocks sp = (if exts_of sp = [] then None else Some (exts_of sp))"
  using assms unfolding image_ok_def saved_def by (metis SavedImage.select_convs)+

lemma ready_same_file:
  assumes "ready g" "same_file ((Private g)\<lparr>PixelCount := n\<rparr>) p" "PixelCount p = 0"
  shows "ready (g\<lparr>Private := p\<rparr>)"
  using assms by (simp add: ready_def same_file_def IS_WRITEABLE_def)

lemma EGifWriteExtensions_all:
  assumes "ready g" "list_all ext_ok es"
  shows "EGifWriteExtensions (int (length es)) (if es = [] then None else Some es) g =
    Some (GIF_OK, g\<lparr>Private := (Private g)\<lparr>written := written (Private g) @ ext_stream es\<rparr>\<rparr>)"
  using write_extensions_all [of g es] assms by (cases g) (auto simp: EGifWriteExtensions_def ready_def)

lemma spew_image_bytes:
  assumes r: "ready g" and ok: "image_ok (SColorMap g) sp" "storable (SColorMap g)" and i: "SavedImages g = Some imgs" "i < length imgs"
  shows "\<exists>g' B sp'. spew_image (int i) sp g = Some (GIF_OK, g') \<and> ready g' \<and> written (Private g') = written (Private g) @ ext_stream (exts_of sp) @ B \<and>
    image_written (code_size (SColorMap g) (ImageDesc sp)) (ImageDesc sp) (raster_of sp) B \<and> same_plan (g\<lparr>SavedImages := Some (imgs[i := sp'])\<rparr>) g'"
proof -
  let ?d = "ImageDesc sp" and ?raster = "raster_of sp" and ?es = "exts_of sp" and ?bpp = "code_size (SColorMap g) (ImageDesc sp)"
  have o: "desc_ok ?d" "raster_ok ?d ?raster" "list_all ext_ok ?es" "ColorMap ?d \<noteq> None \<or> SColorMap g \<noteq> None" using ok(1) by (auto simp: image_ok_def)
  note f = image_okD [OF ok(1)]
  obtain w h where wh: "Width ?d = int w" "Height ?d = int h" "0 < w" "0 < h" "length ?raster = h * w" "h * w < 2 ^ 31" using raster_size [OF o(1,2)] by metis
  define g1 where "g1 = g\<lparr>Private := (Private g)\<lparr>written := written (Private g) @ ext_stream ?es\<rparr>\<rparr>"
  have w1: "EGifWriteExtensions (ExtensionBlockCount sp) (ExtensionBlocks sp) g = Some (GIF_OK, g1)"
    unfolding f(2,3) g1_def by (rule EGifWriteExtensions_all [OF r o(3)])
  have r1: "ready g1" using r by (simp add: ready_def g1_def)
  obtain m where m: "(case unsorted (ColorMap ?d) of Some m \<Rightarrow> Some m | None \<Rightarrow> SColorMap g1) = Some m" "?bpp = max 2 (BitsPerPixel m)"
    using o(4) by (cases "ColorMap ?d"; cases "SColorMap g") (auto simp: g1_def code_size_def)
  have bpp: "?bpp \<le> 8" using code_size_le [OF ok(2) o(1)] by simp
  have st: "storable (ColorMap ?d)" using o(1) by (simp add: desc_ok_def)
  let ?W = "written (Private g1) @ 0x2c # image_head ?d @ [of_int ?bpp]"
  obtain g2 where g2: "EGifPutImageDesc (Left ?d) (Top ?d) (Width ?d) (Height ?d) (Interlace ?d) (ColorMap ?d) g1 = Some (GIF_OK, g2)"
    "wrote ?bpp ?W [] (Private g2)" "PixelCount (Private g2) = of_int (Width ?d) * of_int (Height ?d)" "IS_WRITEABLE (Private g2)" "space (Private g2) = None"
    "outcomes (gheap g2) = []" "same_plan g1 g2"
    using EGifPutImageDesc_bytes [OF r1 st m bpp] by blast
  note rf = row_order_facts [of ?d]
  have ins: "\<forall>j \<in> set (row_order ?d). inside w ?raster j" using rows_inside [OF wh(5)] rf(1) wh by auto
  have lt: "length (row_order ?d) * w < 2 ^ 32" using rf(2) wh by simp
  have pc: "PixelCount (Private g2) = of_nat (length (row_order ?d) * w)" using g2(3) rf(2) wh by (simp add: mult.commute)
  have ne: "row_order ?d \<noteq> []" using rf(3) wh by simp
  from write_rows_wrote [OF g2(2,4) ins wh(3) lt ne pc] obtain raster' p' Y pad where
    p': "write_rows (int w) (row_order ?d) ?raster g2 = Some (GIF_OK, raster', g2\<lparr>Private := p'\<rparr>)" "written p' = ?W @ sub_blocks Y"
    "byte_bits Y = code_bits (image_codes ?bpp (image_rows ?d (pixel_bits ?bpp ?raster))) @ pad" "PixelCount p' = 0"
    "same_file ((Private g2)\<lparr>PixelCount := 0\<rparr>) p'" by (auto simp: image_rows_def wh)
  define sp' where "sp' = sp\<lparr>RasterBits := Some raster'\<rparr>"
  define g' where "g' = g2\<lparr>Private := p', SavedImages := Some (imgs[i := sp'])\<rparr>"
  have si: "SavedImages g2 = Some imgs" using g2(7) i(1) by (simp add: same_plan_def g1_def)
  have "lwrite imgs (int i) sp' = Some (imgs[i := sp'])" using i(2) by (simp add: lwrite_def)
  then have "spew_image (int i) sp g = Some (GIF_OK, g')"
    using f(1) w1 g2(1) p'(1) si wh by (simp add: spew_image_def Let_def row_order_def sp'_def g'_def)
  moreover have "ready g'" using p'(4,5) g2(4-6) by (simp add: ready_def g'_def same_file_def IS_WRITEABLE_def)
  moreover have "written (Private g') = written (Private g) @ ext_stream ?es @ (0x2c # image_head ?d @ of_int ?bpp # sub_blocks Y)"
    using p'(2) by (simp add: g'_def g1_def)
  moreover have "image_written ?bpp ?d ?raster (0x2c # image_head ?d @ of_int ?bpp # sub_blocks Y)" using p'(3) by (auto simp: image_written_def)
  moreover have "same_plan (g\<lparr>SavedImages := Some (imgs[i := sp'])\<rparr>) g'" using g2(7) by (simp add: same_plan_def g'_def g1_def)
  ultimately show ?thesis by blast
qed

lemma spew_images_bytes:
  assumes "ready g" "storable (SColorMap g)" "list_all (image_ok (SColorMap g)) imgs" "SavedImages g = Some (before @ imgs)"
  shows "\<exists>g' S. spew_images (length imgs) (int (length before)) g = Some (GIF_OK, g') \<and> ready g' \<and> written (Private g') = written (Private g) @ S \<and>
    images_written (SColorMap g) imgs S \<and> SColorMap g' = SColorMap g \<and> FileExtensionBlockCount g' = FileExtensionBlockCount g \<and>
    FileExtensionBlocks g' = FileExtensionBlocks g"
  using assms
proof (induction imgs arbitrary: g before)
  case (Cons sp imgs)
  have ok: "image_ok (SColorMap g) sp" using Cons.prems(3) by simp
  obtain g1 B sp' where g1: "spew_image (int (length before)) sp g = Some (GIF_OK, g1)" "ready g1"
    "written (Private g1) = written (Private g) @ ext_stream (exts_of sp) @ B"
    "image_written (code_size (SColorMap g) (ImageDesc sp)) (ImageDesc sp) (raster_of sp) B"
    "same_plan (g\<lparr>SavedImages := Some ((before @ sp # imgs)[length before := sp'])\<rparr>) g1"
    using spew_image_bytes [OF Cons.prems(1) ok Cons.prems(2,4), of "length before"] by auto
  have k: "SColorMap g1 = SColorMap g" "SavedImages g1 = Some ((before @ [sp']) @ imgs)" "FileExtensionBlockCount g1 = FileExtensionBlockCount g"
    "FileExtensionBlocks g1 = FileExtensionBlocks g" using g1(5) by (simp_all add: same_plan_def)
  have lr: "lread (before @ sp # imgs) (int (length before)) = Some sp" by (simp add: lread_def)
  obtain g' S where "spew_images (length imgs) (int (length (before @ [sp']))) g1 = Some (GIF_OK, g')" "ready g'" "written (Private g') = written (Private g1) @ S"
    "images_written (SColorMap g) imgs S" "SColorMap g' = SColorMap g" "FileExtensionBlockCount g' = FileExtensionBlockCount g" "FileExtensionBlocks g' = FileExtensionBlocks g"
    using Cons.IH [OF g1(2) _ _ k(2)] Cons.prems(2,3) k by auto
  then show ?case using g1(1,3,4) Cons.prems(4) lr by (intro exI [of _ g'] exI [of _ "ext_stream (exts_of sp) @ B @ S"]) (auto simp: add.commute)
qed auto

lemma same_images_shown: "same_images g g' \<Longrightarrow> shown imgs g' = shown imgs g" "same_images g g' \<Longrightarrow> same_screen g g'"
  by (auto simp: same_images_def shown_def same_screen_def)

lemma slurp_loop_images:
  assumes "images_written gmap imgs S" "list_all (image_ok gmap) imgs" "storable gmap" "IS_READABLE (Private g)" "shown before g" "collected [] g"
    "length before + length imgs < 10000000" "input (Private g) = S @ R"
  shows "\<exists>g'. slurp_loop g = slurp_loop g' \<and> shown (before @ map (reread gmap) imgs) g' \<and> collected [] g' \<and> same_screen g g' \<and> input (Private g') = R"
  using assms
proof (induction imgs arbitrary: S before g)
  case Nil
  then show ?case by (auto simp: same_screen_def)
next
  case (Cons sp imgs)
  let ?d = "ImageDesc sp" and ?es = "exts_of sp" and ?bpp = "code_size gmap (ImageDesc sp)"
  let ?raster = "pixel_bits ?bpp (raster_of sp)"
  obtain B S' where S: "S = ext_stream ?es @ B @ S'" "image_written ?bpp ?d (raster_of sp) B" "images_written gmap imgs S'" using Cons.prems(1) by auto
  have ok: "desc_ok ?d" "raster_ok ?d (raster_of sp)" "list_all ext_ok ?es" "at_start ?es" "length ?es < 10000000" using Cons.prems(2) by (auto simp: image_ok_def)
  have rok: "raster_ok ?d ?raster" using ok(2) by (simp add: raster_ok_def)
  obtain g1 where g1: "slurp_loop g = slurp_loop g1" "collected ?es g1" "same_images g g1" "input (Private g1) = B @ S' @ R"
    using slurp_loop_stream [OF Cons.prems(6) ok(3,4) _ Cons.prems(4), of "B @ S' @ R"] ok(5) Cons.prems(8) S(1) by auto
  have sh: "shown before g1" "same_screen g g1" using same_images_shown [OF g1(3)] Cons.prems(5) by auto
  have rd: "IS_READABLE (Private g1)" using sh(2) Cons.prems(4) by (simp add: same_screen_def IS_READABLE_def)
  obtain Y pad where Y: "B = 0x2c # image_head ?d @ of_int ?bpp # sub_blocks Y" "byte_bits Y = code_bits (image_codes ?bpp (image_rows ?d ?raster)) @ pad"
    using S(2) by (auto simp: image_written_def)
  define g2 where "g2 = g1\<lparr>Private := (Private g1)\<lparr>input := image_head ?d @ of_int ?bpp # sub_blocks Y @ (S' @ R)\<rparr>\<rparr>"
  have rt: "DGifGetRecordType g1 = (GIF_OK, IMAGE_DESC_RECORD_TYPE, g2)"
    using rd g1(4) Y(1) by (simp add: DGifGetRecordType_def READ_def g2_def)
  have g2: "IS_READABLE (Private g2)" "shown before g2" "collected ?es g2" "same_screen g1 g2"
    "input (Private g2) = image_head ?d @ of_int ?bpp # sub_blocks Y @ (S' @ R)" and len: "length before < 10000000"
    using rd sh(1) g1(2) Cons.prems(7) by (simp_all add: g2_def IS_READABLE_def shown_def same_screen_def)
  have b: "2 \<le> ?bpp" "?bpp \<le> 8" using code_size_le [OF Cons.prems(3) ok(1)] by auto
  obtain g3 where g3: "slurp_image g2 = Some (GIF_OK, g3)" "shown (before @ [reread gmap sp]) g3" "collected [] g3" "same_screen g2 g3" "input (Private g3) = S' @ R"
    using slurp_image_bytes [OF ok(1) rok g2(1-3) len g2(5) Y(2) b pixel_bits_less] by (auto simp: reread_def)
  have run: "slurp_loop g1 = slurp_loop g3" using rt g3(1) by (subst slurp_loop.simps) simp
  have sc: "same_screen g g3" using same_screen_trans sh(2) g2(4) g3(4) by blast
  have "IS_READABLE (Private g3)" using sc Cons.prems(4) by (simp add: same_screen_def IS_READABLE_def)
  from Cons.IH [OF S(3) _ Cons.prems(3) this g3(2,3) _ g3(5)] Cons.prems(2,7) obtain g' where
    "slurp_loop g3 = slurp_loop g'" "shown ((before @ [reread gmap sp]) @ map (reread gmap) imgs) g'" "collected [] g'" "same_screen g3 g'" "input (Private g') = R" by auto
  then show ?case using g1(1) run same_screen_trans [OF sc] by (intro exI [of _ g']) simp
qed

section \<open>Whole files\<close>

text \<open>An in-memory picture that \<open>EGifSpew\<close> can write and the format can hold.\<close>

definition gif_ok :: "egif \<Rightarrow> SavedImage list \<Rightarrow> ExtensionBlock list \<Rightarrow> bool" where
  "gif_ok g imgs es \<longleftrightarrow> ready g \<and> written (Private g) = [] \<and> FileState (Private g) AND FILE_STATE_SCREEN = 0 \<and> storable (SColorMap g) \<and>
     0 \<le> SWidth g \<and> SWidth g < 65536 \<and> 0 \<le> SHeight g \<and> SHeight g < 65536 \<and> 1 \<le> SColorResolution g \<and> SColorResolution g \<le> 8 \<and>
     0 \<le> SBackGroundColor g \<and> SBackGroundColor g < 256 \<and>
     imgs \<noteq> [] \<and> length imgs < 10000000 \<and> SavedImages g = Some imgs \<and> ImageCount g = int (length imgs) \<and> list_all (image_ok (SColorMap g)) imgs \<and>
     list_all ext_ok es \<and> at_start es \<and> length es < 10000000 \<and>
     FileExtensionBlockCount g = int (length es) \<and> FileExtensionBlocks g = (if es = [] then None else Some es)"

lemma needs_gif89_total: "needs_gif89 (int (length es)) (if es = [] then None else Some es) \<noteq> None"
  by (auto simp: needs_gif89_def)

lemma images_need_gif89_total: "list_all (image_ok gmap) imgs \<Longrightarrow> images_need_gif89 imgs \<noteq> None"
proof (induction imgs)
  case (Cons sp imgs)
  then have "image_ok gmap sp" "images_need_gif89 imgs \<noteq> None" by simp_all
  then show ?case using needs_gif89_total [of "exts_of sp"] image_okD(2,3) [of gmap sp] by auto
qed simp

lemma image_ok_unsorted [simp]: "image_ok (unsorted gmap) = image_ok gmap"
  by (rule ext) (simp add: image_ok_def)

lemma storable_unsorted [simp]: "storable (unsorted gmap) = storable gmap"
  by (cases gmap) (simp_all add: storable_def storable_map_def)

lemma images_written_unsorted [simp]: "images_written (unsorted gmap) imgs S = images_written gmap imgs S"
  by (induction imgs arbitrary: S) simp_all

lemma EGifSpew_bytes:
  assumes ok: "gif_ok g imgs es" and fc: "file_close \<noteq> Some False"
  shows "\<exists>bytes h stamp S. EGifSpew file_close g = Some (GIF_OK, Inr (bytes, h)) \<and> length stamp = 6 \<and> take 3 stamp = [0x47, 0x49, 0x46] \<and>
    bytes = stamp @ screen_bytes (SWidth g) (SHeight g) (SColorResolution g) (SBackGroundColor g) (AspectByte g) (SColorMap g) @ S @ ext_stream es @ [0x3b] \<and>
    images_written (SColorMap g) imgs S"
proof -
  have o: "ready g" "written (Private g) = []" "FileState (Private g) AND FILE_STATE_SCREEN = 0" "storable (SColorMap g)" "SavedImages g = Some imgs"
    "ImageCount g = int (length imgs)" "list_all (image_ok (SColorMap g)) imgs" "list_all ext_ok es"
    "FileExtensionBlockCount g = int (length es)" "FileExtensionBlocks g = (if es = [] then None else Some es)" using ok by (simp_all add: gif_ok_def)
  have r: "IS_WRITEABLE (Private g)" "space (Private g) = None" "outcomes (gheap g) = []" "PixelCount (Private g) = 0" using o(1) by (simp_all add: ready_def)
  have "used_images g = Some imgs" using o(5,6) ok by (simp add: used_images_def gif_ok_def)
  then obtain stamp g0 where v: "EGifGetGifVersion g = Some (stamp, g0)"
    using images_need_gif89_total [OF o(7)] needs_gif89_total [of es] o(9,10) by (auto simp: EGifGetGifVersion_def Let_def)
  let ?SB = "screen_bytes (SWidth g) (SHeight g) (SColorResolution g) (SBackGroundColor g) (AspectByte g) (SColorMap g)"
  obtain g1 where g1: "EGifPutScreenDesc (SWidth g) (SHeight g) (SColorResolution g) (SBackGroundColor g) (SColorMap g) g = Some (GIF_OK, g1)"
    "written (Private g1) = stamp @ ?SB" "ready g1" "SColorMap g1 = unsorted (SColorMap g)" "same_plan (g\<lparr>SColorMap := unsorted (SColorMap g)\<rparr>) g1"
    using EGifPutScreenDesc_bytes [OF o(3) r(1,2) v o(4) r(3), of "SWidth g" "SHeight g" "SColorResolution g" "SBackGroundColor g"] o(2) r(4) by (auto simp: ready_def unsorted_def same_plan_def)
  have p1: "SavedImages g1 = Some ([] @ imgs)" "ImageCount g1 = int (length imgs)" "FileExtensionBlockCount g1 = int (length es)"
    "FileExtensionBlocks g1 = (if es = [] then None else Some es)" using g1(5) o by (simp_all add: same_plan_def)
  obtain g2 S where g2: "spew_images (length imgs) (int (length ([] :: SavedImage list))) g1 = Some (GIF_OK, g2)" "ready g2" "written (Private g2) = stamp @ ?SB @ S"
    "images_written (SColorMap g) imgs S" "FileExtensionBlockCount g2 = int (length es)" "FileExtensionBlocks g2 = (if es = [] then None else Some es)"
    using spew_images_bytes [OF g1(3) _ _ p1(1)] g1(2,4) o(4,7) p1(3,4) by auto
  have e: "EGifWriteExtensions (FileExtensionBlockCount g2) (FileExtensionBlocks g2) g2 =
      Some (GIF_OK, g2\<lparr>Private := (Private g2)\<lparr>written := written (Private g2) @ ext_stream es\<rparr>\<rparr>)"
    unfolding g2(5,6) by (rule EGifWriteExtensions_all [OF g2(2) o(8)])
  obtain h where "EGifSpew file_close g = Some (GIF_OK, Inr (stamp @ ?SB @ S @ ext_stream es @ [0x3b], h))"
    using g1(1) g2(1-3) p1(2) e fc
    by (simp add: EGifSpew_def EGifCloseFile_def Let_def ready_def put_all TERMINATOR_INTRODUCER_def)
  then show ?thesis using EGifGetGifVersion_stamp [OF v] g2(4) by blast
qed

lemma DGifOpen_bytes:
  assumes h: "outcomes h = []" and st: "length stamp = 6" "take 3 stamp = [0x47, 0x49, 0x46]"
    and rng: "0 \<le> W" "W < 65536" "0 \<le> H" "H < 65536" "1 \<le> cr" "cr \<le> 8" "0 \<le> bg" "bg < 256" and m: "storable cmap"
  shows "\<exists>d h'. DGifOpen (stamp @ screen_bytes W H cr bg asp cmap @ R) h = Some (Some d, None, h') \<and> SWidth d = W \<and> SHeight d = H \<and>
    SColorResolution d = cr \<and> SBackGroundColor d = bg \<and> AspectByte d = asp \<and> SColorMap d = cmap \<and> IS_READABLE (Private d) \<and> shown [] d \<and>
    collected [] d \<and> input (Private d) = R"
proof -
  let ?bytes = "stamp @ screen_bytes W H cr bg asp cmap @ R" and ?h2 = "h\<lparr>outcomes := [], blocks := 2 + blocks h\<rparr>"
  have mal: "malloc k h' = (True, h'\<lparr>outcomes := [], blocks := blocks h' + 1\<rparr>)" if "k < 2 ^ 31" "outcomes h' = []" for k h'
    using that by (simp add: malloc_def granted_def)
  define g where "g = new_gif ?bytes ?h2"
  define g1 where "g1 = g\<lparr>Private := (Private g)\<lparr>input := screen_bytes W H cr bg asp cmap @ R\<rparr>\<rparr>"
  have g: "input (Private g) = ?bytes" "IS_READABLE (Private g)" "outcomes (gheap g) = []" "shown [] g" "collected [] g"
    by (simp_all add: g_def new_gif_def zero_private_def GifFilePrivateType.defs dpriv.defs IS_READABLE_def FILE_STATE_READ_def shown_def collected_def)
  have rd: "READ 6 (Private g) = (stamp, Private g1)" using g(1) st(1) by (simp add: READ_def g1_def)
  have "IS_READABLE (Private g1)" "outcomes (gheap g1) = []" "input (Private g1) = screen_bytes W H cr bg asp cmap @ R"
    using g by (simp_all add: g1_def IS_READABLE_def)
  from DGifGetScreenDesc_bytes [OF this rng m] obtain h' where
    sd: "DGifGetScreenDesc g1 = Some (GIF_OK, g1\<lparr>SWidth := W, SHeight := H, SColorResolution := cr, SBackGroundColor := bg,
      AspectByte := asp, SColorMap := cmap, gheap := h', Private := (Private g1)\<lparr>input := R\<rparr>\<rparr>)" "outcomes h' = []" by blast
  have g1: "g\<lparr>Private := Private g1\<rparr> = g1" by (simp add: g1_def)
  define d where "d = g1\<lparr>SWidth := W, SHeight := H, SColorResolution := cr, SBackGroundColor := bg, AspectByte := asp, SColorMap := cmap, gheap := h',
      Error := 0, Private := (Private g1)\<lparr>input := R, gif89 := (stamp ! 3 = 0x39)\<rparr>\<rparr>"
  have run: "DGifOpen ?bytes h = Some (Some d, None, h')"
    using h mal st rd sd(1) g1 unfolding DGifOpen_def open_source_def by (simp add: Let_def g_def [symmetric] d_def)
  have "shown [] d" "collected [] d" "IS_READABLE (Private d)" using g sd(2) by (simp_all add: d_def g1_def shown_def collected_def IS_READABLE_def)
  with run show ?thesis by (intro exI [of _ d] exI [of _ h']) (simp add: d_def)
qed

text \<open>(C1) What \<open>EGifSpew\<close> writes, \<open>DGifOpen\<close> and \<open>DGifSlurp\<close> read back: for a picture with at least one image, maps the format
  can hold, complete rasters and well-formed extensions, writing succeeds, and reading the bytes succeeds and gives the same screen,
  the same images in the same order (interlaced or not), with their extensions, and the same trailing
  extensions. What does not come back is named by \<open>reread\<close>: pixels are cut to the code size of their map, and a local map is
  not marked as sorted.\<close>

theorem spew_slurp_round_trip:
  assumes ok: "gif_ok g imgs es" and fc: "file_close \<noteq> Some False" and h: "outcomes h = []"
  shows "\<exists>bytes hw d hr d'. EGifSpew file_close g = Some (GIF_OK, Inr (bytes, hw)) \<and> DGifOpen bytes h = Some (Some d, None, hr) \<and>
    DGifSlurp d = Some (GIF_OK, d') \<and> SWidth d' = SWidth g \<and> SHeight d' = SHeight g \<and> SColorResolution d' = SColorResolution g \<and>
    SBackGroundColor d' = SBackGroundColor g \<and> AspectByte d' = AspectByte g \<and> SColorMap d' = SColorMap g \<and>
    ImageCount d' = ImageCount g \<and> SavedImages d' = Some (map (reread (SColorMap g)) imgs) \<and>
    FileExtensionBlockCount d' = FileExtensionBlockCount g \<and> FileExtensionBlocks d' = FileExtensionBlocks g"
proof -
  let ?SB = "screen_bytes (SWidth g) (SHeight g) (SColorResolution g) (SBackGroundColor g) (AspectByte g) (SColorMap g)"
  obtain bytes hw stamp S where w: "EGifSpew file_close g = Some (GIF_OK, Inr (bytes, hw))" "length stamp = 6" "take 3 stamp = [0x47, 0x49, 0x46]"
    "bytes = stamp @ ?SB @ S @ ext_stream es @ [0x3b]" "images_written (SColorMap g) imgs S" using EGifSpew_bytes [OF ok fc] by blast
  have o: "storable (SColorMap g)" "0 \<le> SWidth g" "SWidth g < 65536" "0 \<le> SHeight g" "SHeight g < 65536" "1 \<le> SColorResolution g" "SColorResolution g \<le> 8"
    "0 \<le> SBackGroundColor g" "SBackGroundColor g < 256" "list_all (image_ok (SColorMap g)) imgs" "list_all ext_ok es" "at_start es" "length es < 10000000"
    "imgs \<noteq> []" "length imgs < 10000000" "ImageCount g = int (length imgs)" "FileExtensionBlockCount g = int (length es)"
    "FileExtensionBlocks g = (if es = [] then None else Some es)" using ok by (simp_all add: gif_ok_def)
  let ?R = "S @ ext_stream es @ [0x3b]"
  obtain d hr where d: "DGifOpen bytes h = Some (Some d, None, hr)" "SWidth d = SWidth g" "SHeight d = SHeight g" "SColorResolution d = SColorResolution g"
    "SBackGroundColor d = SBackGroundColor g" "AspectByte d = AspectByte g" "SColorMap d = SColorMap g" "IS_READABLE (Private d)" "shown [] d"
    "collected [] d" "input (Private d) = ?R"
    using DGifOpen_bytes [OF h w(2,3) o(2-9,1), of "AspectByte g" ?R] w(4) by auto
  define d0 where "d0 = d\<lparr>FileExtensionBlocks := None, FileExtensionBlockCount := 0\<rparr>"
  have d0: "IS_READABLE (Private d0)" "shown [] d0" "collected [] d0" "input (Private d0) = ?R" "same_screen d d0"
    using d by (simp_all add: d0_def shown_def collected_def same_screen_def)
  obtain d1 where d1: "slurp_loop d0 = slurp_loop d1" "shown (map (reread (SColorMap g)) imgs) d1" "collected [] d1" "same_screen d0 d1"
    "input (Private d1) = ext_stream es @ [0x3b]"
    using slurp_loop_images [OF w(5) o(10,1) d0(1-3) _ d0(4)] o(15) by auto
  have rd1: "IS_READABLE (Private d1)" using d0(1) d1(4) by (simp add: same_screen_def IS_READABLE_def)
  obtain d2 where d2: "slurp_loop d1 = slurp_loop d2" "collected es d2" "same_images d1 d2" "input (Private d2) = [0x3b]"
    using slurp_loop_stream [OF d1(3) o(11,12) _ rd1 d1(5)] o(13) by auto
  have s2: "shown (map (reread (SColorMap g)) imgs) d2" "same_screen d d2"
    using same_images_shown [OF d2(3)] d1(2,4) d0(5) same_screen_trans by blast+
  have "IS_READABLE (Private d2)" using s2(2) d(8) by (simp add: same_screen_def IS_READABLE_def)
  then have rt: "DGifGetRecordType d2 = (GIF_OK, TERMINATE_RECORD_TYPE, d2\<lparr>Private := (Private d2)\<lparr>input := []\<rparr>\<rparr>)"
    using d2(4) by (simp add: DGifGetRecordType_def READ_def)
  have "slurp_loop d2 = Some (GIF_OK, d2\<lparr>Private := (Private d2)\<lparr>input := []\<rparr>\<rparr>)"
    using rt s2(1) o(14) by (subst slurp_loop.simps) (simp add: shown_def)
  then have "DGifSlurp d = Some (GIF_OK, d2\<lparr>Private := (Private d2)\<lparr>input := []\<rparr>\<rparr>)" using d1(1) d2(1) by (simp add: DGifSlurp_def d0_def)
  with w(1) d(1) show ?thesis using s2 d2(2) d(2-7) o(14,16-18) by (auto simp: shown_def same_screen_def collected_def)
qed

definition sample_image :: SavedImage where
  "sample_image = saved \<lparr>Left = 0, Top = 1, Width = 2, Height = 3, Interlace = True, ColorMap = None\<rparr> [1, 2, 3, 4, 5, 6]
     [\<lparr>ByteCount = 4, Bytes = Some [0, 10, 0, 0], Function = 0xf9\<rparr>]"

definition sample_gif :: egif where
  "sample_gif = (sample_egif 0)\<lparr>SWidth := 2, SHeight := 4, SColorResolution := 3, SBackGroundColor := 1, SColorMap := Some sample_map,
     ImageCount := 1, SavedImages := Some [sample_image], FileExtensionBlockCount := 2,
     FileExtensionBlocks := Some [\<lparr>ByteCount = 2, Bytes = Some [104, 105], Function = 0xfe\<rparr>, \<lparr>ByteCount = 1, Bytes = Some [33], Function = 0\<rparr>]\<rparr>"

lemma sample_gif_ok:
  "gif_ok sample_gif [sample_image] [\<lparr>ByteCount = 2, Bytes = Some [104, 105], Function = 0xfe\<rparr>, \<lparr>ByteCount = 1, Bytes = Some [33], Function = 0\<rparr>]"
  by (simp add: gif_ok_def ready_def sample_gif_def sample_egif_def new_egif_def zero_private_def GifFilePrivateType.defs epriv.defs IS_WRITEABLE_def
      FILE_STATE_WRITE_def FILE_STATE_SCREEN_def storable_def storable_map_def sample_map_def image_ok_def sample_image_def saved_def raster_of_def exts_of_def
      desc_ok_def raster_ok_def ext_ok_def at_start_def CONTINUE_EXT_FUNC_CODE_def)

theorem spew_slurp_round_trip_witness:
  "\<exists>bytes hw d hr d'. EGifSpew None sample_gif = Some (GIF_OK, Inr (bytes, hw)) \<and> DGifOpen bytes \<lparr>outcomes = [], blocks = 0\<rparr> = Some (Some d, None, hr) \<and>
    DGifSlurp d = Some (GIF_OK, d') \<and> SWidth d' = 2 \<and> SHeight d' = 4 \<and> SColorMap d' = Some sample_map \<and>
    SavedImages d' = Some [sample_image] \<and> FileExtensionBlockCount d' = 2"
proof -
  have "reread (Some sample_map) sample_image = sample_image"
    by (simp add: reread_def sample_image_def saved_def raster_of_def exts_of_def stored_desc_def code_size_def sample_map_def pixel_bits_def take_bit_eq_mod)
  moreover have "SWidth sample_gif = 2" "SHeight sample_gif = 4" "SColorMap sample_gif = Some sample_map" "FileExtensionBlockCount sample_gif = 2"
    by (simp_all add: sample_gif_def)
  ultimately show ?thesis using spew_slurp_round_trip [OF sample_gif_ok, of None "\<lparr>outcomes = [], blocks = 0\<rparr>"] by fastforce
qed

end
