(* ===== verification/GifExt.thy ===== *)
theory GifExt
  imports GifSpewSlurp
begin

text \<open>
  Single records of the writer against the reader: comments, graphics control blocks, and what becomes of
  a sink that does not accept everything.
\<close>

section \<open>Comments\<close>

text \<open>The extension blocks of a comment: pieces of 255 bytes, the first with the comment code.\<close>

function comment_exts :: "int \<Rightarrow> u8 list \<Rightarrow> ExtensionBlock list" where
  "comment_exts func c =
     (if length c > 255 then \<lparr>ByteCount = 255, Bytes = Some (take 255 c), Function = func\<rparr> # comment_exts CONTINUE_EXT_FUNC_CODE (drop 255 c)
      else if c = [] then []
      else [\<lparr>ByteCount = int (length c), Bytes = Some c, Function = func\<rparr>])"
  by pat_completeness auto
termination
  by (relation "measure (\<lambda>(func, c). length c)") auto

declare comment_exts.simps [simp del]

lemma comment_exts_spec:
  "list_all ext_ok (comment_exts func c) \<and> concat (map (\<lambda>e. the (Bytes e)) (comment_exts func c)) = c \<and>
     length (comment_exts func c) \<le> length c \<and> (c \<noteq> [] \<longrightarrow> comment_exts func c \<noteq> [] \<and> Function (hd (comment_exts func c)) = func)"
  if "0 \<le> func" "func < 256"
  using that
proof (induction func c rule: comment_exts.induct)
  case (1 func c)
  show ?case
  proof (cases "length c > 255")
    case True
    have IH: "list_all ext_ok (comment_exts CONTINUE_EXT_FUNC_CODE (drop 255 c))"
      "concat (map (\<lambda>e. the (Bytes e)) (comment_exts CONTINUE_EXT_FUNC_CODE (drop 255 c))) = drop 255 c"
      "length (comment_exts CONTINUE_EXT_FUNC_CODE (drop 255 c)) \<le> length (drop 255 c)"
      using "1.IH" [OF True] by (auto simp: CONTINUE_EXT_FUNC_CODE_def)
    have "c \<noteq> []" "min (length c) 255 = 255" using True by auto
    then show ?thesis using IH True "1.prems" by (subst (1 2 3 4 5) comment_exts.simps) (auto simp: ext_ok_def)
  next
    case False
    then show ?thesis using "1.prems" by (subst (1 2 3 4 5) comment_exts.simps) (auto simp: ext_ok_def Suc_le_eq)
  qed
qed

definition block_of :: "u8 list \<Rightarrow> u8 list" where
  "block_of bs = of_int (int (length bs)) # bs"

lemma EGifPutExtensionBlock_bytes:
  assumes "IS_WRITEABLE (Private g)" "space (Private g) = None" "bs \<noteq> []" "n = int (length bs)"
  shows "EGifPutExtensionBlock n (Some bs) g = Some (GIF_OK, g\<lparr>Private := (Private g)\<lparr>written := written (Private g) @ block_of bs\<rparr>\<rparr>)"
  using assms by (simp add: EGifPutExtensionBlock_def ext_bytes_def write_if_def put_all block_of_def)

lemma at_start_comment: "at_start (comment_exts CONTINUE_EXT_FUNC_CODE c) \<longleftrightarrow> c = []"
proof (cases "c = []")
  case True
  then show ?thesis by (subst comment_exts.simps) (simp add: at_start_def)
next
  case False
  have "comment_exts CONTINUE_EXT_FUNC_CODE c \<noteq> [] \<and> Function (hd (comment_exts CONTINUE_EXT_FUNC_CODE c)) = CONTINUE_EXT_FUNC_CODE"
    using comment_exts_spec [of CONTINUE_EXT_FUNC_CODE c] False by (simp add: CONTINUE_EXT_FUNC_CODE_def)
  then show ?thesis using False by (cases "comment_exts CONTINUE_EXT_FUNC_CODE c") (simp_all add: at_start_def)
qed

lemma comment_blocks_stream:
  assumes "IS_WRITEABLE (Private g)" "space (Private g) = None" "c \<noteq> []"
  shows "comment_blocks c g = Some (GIF_OK, g\<lparr>Private := (Private g)\<lparr>written := written (Private g) @
    butlast (ext_stream (comment_exts CONTINUE_EXT_FUNC_CODE c))\<rparr>\<rparr>) \<and> last (ext_stream (comment_exts CONTINUE_EXT_FUNC_CODE c)) = 0 \<and>
    ext_stream (comment_exts CONTINUE_EXT_FUNC_CODE c) \<noteq> []"
  using assms
proof (induction c g rule: comment_blocks.induct)
  case (1 c g)
  let ?C = CONTINUE_EXT_FUNC_CODE
  show ?case
  proof (cases "length c > 255")
    case True
    let ?g = "g\<lparr>Private := (Private g)\<lparr>written := written (Private g) @ block_of (take 255 c)\<rparr>\<rparr>"
    have t: "take 255 c \<noteq> []" "(255 :: int) = int (length (take 255 c))" "drop 255 c \<noteq> []" using True by auto
    have b: "EGifPutExtensionBlock 255 (Some (take 255 c)) g = Some (GIF_OK, ?g)"
      by (rule EGifPutExtensionBlock_bytes [OF "1.prems"(1,2) t(1,2)])
    have IH: "comment_blocks (drop 255 c) ?g = Some (GIF_OK, ?g\<lparr>Private := (Private ?g)\<lparr>written := written (Private ?g) @
        butlast (ext_stream (comment_exts ?C (drop 255 c)))\<rparr>\<rparr>)"
      "last (ext_stream (comment_exts ?C (drop 255 c))) = 0" "ext_stream (comment_exts ?C (drop 255 c)) \<noteq> []"
      using "1.IH" [OF True b refl refl] "1.prems" t(3) by simp_all
    have s: "ext_stream (comment_exts ?C c) = block_of (take 255 c) @ ext_stream (comment_exts ?C (drop 255 c))"
      using True t(3) by (subst comment_exts.simps) (simp add: at_start_comment block_bytes_def block_of_def)
    have "comment_blocks c g = comment_blocks (drop 255 c) ?g" using True b by (subst comment_blocks.simps) simp
    then show ?thesis unfolding s using IH by (simp add: butlast_append)
  next
    case False
    have s: "ext_stream (comment_exts ?C c) = block_of c @ [0]"
      using False "1.prems"(3) by (subst comment_exts.simps) (simp add: at_start_def block_bytes_def block_of_def)
    have "comment_blocks c g = Some (GIF_OK, g\<lparr>Private := (Private g)\<lparr>written := written (Private g) @ block_of c\<rparr>\<rparr>)"
      using False "1.prems" EGifPutExtensionBlock_bytes [of g c "int (length c)"] by (subst comment_blocks.simps) simp
    then show ?thesis unfolding s by simp
  qed
qed

lemma EGifPutComment_stream:
  assumes "IS_WRITEABLE (Private g)" "space (Private g) = None" "c \<noteq> []"
  shows "EGifPutComment c g = Some (GIF_OK, g\<lparr>Private := (Private g)\<lparr>written := written (Private g) @
    ext_stream (comment_exts COMMENT_EXT_FUNC_CODE c)\<rparr>\<rparr>)"
proof (cases "length c > 255")
  case False
  have s: "ext_stream (comment_exts COMMENT_EXT_FUNC_CODE c) = [0x21, 0xfe] @ block_of c @ [0]"
    using False assms(3) by (subst comment_exts.simps)
      (simp add: at_start_def block_bytes_def block_of_def COMMENT_EXT_FUNC_CODE_def CONTINUE_EXT_FUNC_CODE_def)
  show ?thesis unfolding s using False assms
    by (simp add: EGifPutComment_def EGifPutExtension_def ext_bytes_def write_if_def put_all block_of_def EXTENSION_INTRODUCER_def COMMENT_EXT_FUNC_CODE_def)
next
  case True
  let ?C = CONTINUE_EXT_FUNC_CODE
  define g1 where "g1 = g\<lparr>Private := (Private g)\<lparr>written := written (Private g) @ [0x21, 0xfe]\<rparr>\<rparr>"
  have lead: "EGifPutExtensionLeader COMMENT_EXT_FUNC_CODE g = (GIF_OK, g1)"
    using assms by (simp add: EGifPutExtensionLeader_def write_if_def put_all EXTENSION_INTRODUCER_def COMMENT_EXT_FUNC_CODE_def g1_def)
  have g1: "IS_WRITEABLE (Private g1)" "space (Private g1) = None" using assms by (simp_all add: g1_def)
  note b = comment_blocks_stream [OF g1 assms(3)]
  have s: "ext_stream (comment_exts COMMENT_EXT_FUNC_CODE c) = [0x21, 0xfe] @ ext_stream (comment_exts ?C c)"
    using True by (subst (1 2) comment_exts.simps) (simp add: block_bytes_def COMMENT_EXT_FUNC_CODE_def CONTINUE_EXT_FUNC_CODE_def)
  have "butlast (ext_stream (comment_exts ?C c)) @ [0] = ext_stream (comment_exts ?C c)" using b by (metis append_butlast_last_id)
  then show ?thesis unfolding s using True lead b g1
    by (simp add: EGifPutComment_def EGifPutExtensionTrailer_def write_if_def put_all g1_def)
qed

text \<open>(C34) A comment that is not empty and shorter than \<open>10 ^ 7\<close> bytes comes back: the blocks the reader
  collects, put together, are the comment.\<close>

theorem comment_round_trip:
  assumes w: "IS_WRITEABLE (Private g)" "space (Private g) = None" and c: "c \<noteq> []" "length c < 10000000"
  shows "\<exists>g' B es. EGifPutComment c g = Some (GIF_OK, g') \<and> written (Private g') = written (Private g) @ B \<and>
    concat (map (\<lambda>e. the (Bytes e)) es) = c \<and>
    (\<forall>d R. IS_READABLE (Private d) \<and> outcomes (gheap d) = [] \<and> FileExtensionBlocks d = None \<and> FileExtensionBlockCount d = 0 \<and>
       input (Private d) = B @ R \<longrightarrow>
       (\<exists>d'. slurp_loop d = slurp_loop d' \<and> FileExtensionBlocks d' = Some es \<and> input (Private d') = R))"
proof -
  let ?es = "comment_exts COMMENT_EXT_FUNC_CODE c"
  have es: "list_all ext_ok ?es" "concat (map (\<lambda>e. the (Bytes e)) ?es) = c" "length ?es < 10000000" "?es \<noteq> []" "at_start ?es"
    using comment_exts_spec [of COMMENT_EXT_FUNC_CODE c] c
    by (auto simp: COMMENT_EXT_FUNC_CODE_def at_start_def CONTINUE_EXT_FUNC_CODE_def split: list.splits)
  have "\<exists>d'. slurp_loop d = slurp_loop d' \<and> FileExtensionBlocks d' = Some ?es \<and> input (Private d') = R"
    if d: "IS_READABLE (Private d)" "outcomes (gheap d) = []" "FileExtensionBlocks d = None" "FileExtensionBlockCount d = 0"
      "input (Private d) = ext_stream ?es @ R" for d R
  proof -
    have "collected [] d" using d by (simp add: collected_def)
    then show ?thesis using slurp_loop_stream [OF _ es(1,5) _ d(1,5), of "[]"] es(3,4) by (auto simp: collected_def)
  qed
  then show ?thesis using EGifPutComment_stream [OF w c(1)] es(2)
    by (intro exI [of _ "g\<lparr>Private := (Private g)\<lparr>written := written (Private g) @ ext_stream ?es\<rparr>\<rparr>"] exI [of _ "ext_stream ?es"] exI [of _ ?es]) auto
qed

theorem comment_round_trip_witness:
  "\<exists>g' B (es :: ExtensionBlock list). EGifPutComment (replicate 300 65) (sample_egif 0) = Some (GIF_OK, g') \<and>
    written (Private g') = written (Private (sample_egif 0)) @ B \<and> concat (map (\<lambda>e. the (Bytes e)) es) = replicate 300 65"
proof -
  have "replicate 300 (65 :: u8) \<noteq> []" "length (replicate 300 (65 :: u8)) < 10000000" by (simp_all only: replicate_empty length_replicate)
  from comment_round_trip [OF sample_egif_fields(1) [of 0] sample_egif_fields(2) this] show ?thesis by blast
qed

text \<open>(C40) An empty comment is written as a zero length followed by a terminator; the reader takes the zero length for the
  terminator, finds the second zero where a record must start, and gives up.\<close>

theorem empty_comment_unreadable:
  assumes "IS_WRITEABLE (Private g)" "space (Private g) = None"
  shows "\<exists>g'. EGifPutComment [] g = Some (GIF_OK, g') \<and> written (Private g') = written (Private g) @ [0x21, 0xfe, 0, 0] \<and>
    (\<forall>d R. IS_READABLE (Private d) \<and> input (Private d) = [0x21, 0xfe, 0, 0] @ R \<longrightarrow>
       (\<exists>d'. slurp_loop d = Some (GIF_ERROR, d') \<and> Error d' = D_GIF_ERR_WRONG_RECORD))"
proof -
  have "\<exists>d'. slurp_loop d = Some (GIF_ERROR, d') \<and> Error d' = D_GIF_ERR_WRONG_RECORD"
    if d: "IS_READABLE (Private d)" "input (Private d) = [0x21, 0xfe, 0, 0] @ R" for d R
  proof -
    define d1 where "d1 = d\<lparr>Private := (Private d)\<lparr>input := [0xfe, 0, 0] @ R\<rparr>\<rparr>"
    define d2 where "d2 = d\<lparr>Private := (Private d)\<lparr>input := 0 # R\<rparr>\<rparr>"
    have "DGifGetRecordType d = (GIF_OK, EXTENSION_RECORD_TYPE, d1)" using d by (simp add: DGifGetRecordType_def READ_def d1_def)
    moreover have "slurp_extension d1 = Some (GIF_OK, d2)"
      using d(1) by (simp add: slurp_extension_def DGifGetExtension_def DGifGetExtensionNext_def READ_def d1_def d2_def IS_READABLE_def)
    ultimately have "slurp_loop d = slurp_loop d2" by (subst slurp_loop.simps) simp
    moreover have "DGifGetRecordType d2 = (GIF_ERROR, UNDEFINED_RECORD_TYPE, d\<lparr>Private := (Private d)\<lparr>input := R\<rparr>, Error := D_GIF_ERR_WRONG_RECORD\<rparr>)"
      using d(1) by (simp add: DGifGetRecordType_def READ_def d2_def IS_READABLE_def)
    then have "slurp_loop d2 = Some (GIF_ERROR, d\<lparr>Private := (Private d)\<lparr>input := R\<rparr>, Error := D_GIF_ERR_WRONG_RECORD\<rparr>)"
      by (subst slurp_loop.simps) simp
    ultimately show ?thesis by simp
  qed
  moreover have "EGifPutComment [] g = Some (GIF_OK, g\<lparr>Private := (Private g)\<lparr>written := written (Private g) @ [0x21, 0xfe, 0, 0]\<rparr>\<rparr>)"
    using assms by (simp add: EGifPutComment_def EGifPutExtension_def ext_bytes_def write_if_def put_all EXTENSION_INTRODUCER_def COMMENT_EXT_FUNC_CODE_def)
  ultimately show ?thesis by auto
qed

theorem empty_comment_unreadable_witness:
  "\<exists>g'. EGifPutComment [] (sample_egif 0) = Some (GIF_OK, g') \<and>
     written (Private g') = written (Private (sample_egif 0)) @ [0x21, 0xfe, 0, 0] \<and>
    (\<forall>d R. IS_READABLE (Private d) \<and> input (Private d) = [0x21, 0xfe, 0, 0] @ R \<longrightarrow>
       (\<exists>d'. slurp_loop d = Some (GIF_ERROR, d') \<and> Error d' = D_GIF_ERR_WRONG_RECORD))"
  by (rule empty_comment_unreadable) simp_all

section \<open>Graphics control blocks\<close>

definition gcb_ok :: "GraphicsControlBlock \<Rightarrow> bool" where
  "gcb_ok gcb \<longleftrightarrow> 0 \<le> DisposalMode gcb \<and> DisposalMode gcb < 8 \<and> 0 \<le> DelayTime gcb \<and> DelayTime gcb < 65536 \<and>
     - 1 \<le> TransparentColor gcb \<and> TransparentColor gcb < 256"

lemma gcb_bytes_decode:
  assumes "gcb_ok gcb"
  shows "DGifExtensionToGCB 4 (gcb_bytes gcb @ rest) = Some (Some gcb)"
proof -
  note r = assms [unfolded gcb_ok_def]
  have d: "DisposalMode gcb \<in> {0, 1, 2, 3, 4, 5, 6, 7}" using r by auto
  have tc: "uint (of_int (TransparentColor gcb) :: u8) = TransparentColor gcb" if "TransparentColor gcb \<noteq> - 1"
    using r that by (simp add: uint_word_of_int_eq take_bit_int_eq_self)
  have dt: "uint (of_le16 (LOBYTE (DelayTime gcb)) (HIBYTE (DelayTime gcb))) = DelayTime gcb" using of_le16_bytes r by blast
  show ?thesis using d tc dt
    by (cases gcb) (auto simp: DGifExtensionToGCB_def gcb_bytes_def lread_def NO_TRANSPARENT_COLOR_def)
qed

text \<open>The first graphics block of a list, if there is one, has its four bytes.\<close>

definition first_gcb_ok :: "ExtensionBlock list \<Rightarrow> bool" where
  "first_gcb_ok es \<longleftrightarrow>
     (case dropWhile (\<lambda>e. Function e \<noteq> GRAPHICS_EXT_FUNC_CODE) es of [] \<Rightarrow> True | e # _ \<Rightarrow> ByteCount e = 4)"

lemma first_gcb_ok_Cons: "first_gcb_ok (e # es) = (if Function e = GRAPHICS_EXT_FUNC_CODE then ByteCount e = 4 else first_gcb_ok es)"
  by (simp add: first_gcb_ok_def)

lemma replace_gcb_find:
  assumes "gcb_ok gcb" "replace_gcb gcb es = Some (found, es')" "first_gcb_ok es"
  shows "length es' = length es \<and> (if found then find_gcb (es' @ rest) = Some (Some gcb) else \<forall>e \<in> set es. Function e \<noteq> GRAPHICS_EXT_FUNC_CODE)"
  using assms
proof (induction es arbitrary: es' found)
  case (Cons e es)
  show ?case
  proof (cases "Function e = GRAPHICS_EXT_FUNC_CODE")
    case True
    then show ?thesis using Cons.prems gcb_bytes_decode [OF assms(1)]
      by (auto simp: bind_eq_Some_conv EGifGCBToExtension_def first_gcb_ok_Cons split: if_splits)
  next
    case False
    then show ?thesis using Cons by (auto simp: bind_eq_Some_conv first_gcb_ok_Cons split: if_splits)
  qed
qed simp

lemma find_gcb_skip: "\<forall>e \<in> set es. Function e \<noteq> GRAPHICS_EXT_FUNC_CODE \<Longrightarrow> find_gcb (es @ rest) = find_gcb rest"
  by (induction es) auto

text \<open>(C33) A graphics control block stored with an image is the one read from it, whether it replaces the first graphics
  block the image had or is added to its blocks, also to none at all, provided its fields fit their bytes and the graphics
  block to be replaced has the size of four bytes.\<close>

theorem gcb_saved_round_trip:
  assumes gcb: "gcb_ok gcb" and set: "EGifGCBToSavedExtension gcb idx g = Some (GIF_OK, g')"
    and img: "SavedImages g = Some imgs" "0 \<le> idx" "idx < int (length imgs)"
    and exts: "es = (case ExtensionBlocks (imgs ! nat idx) of None \<Rightarrow> [] | Some es \<Rightarrow> es)"
      "ExtensionBlockCount (imgs ! nat idx) = int (length es)" "first_gcb_ok es"
  shows "DGifSavedExtensionToGCB g' idx = Some (Some gcb)"
proof -
  let ?sp = "imgs ! nat idx"
  have rng: "\<not> (idx < 0 \<or> idx > ImageCount g - 1)" using set by (auto simp: EGifGCBToSavedExtension_def split: if_splits)
  have lr: "lread imgs idx = Some ?sp" "lwrite imgs idx x = Some (imgs[nat idx := x])" for x using img by (simp_all add: lread_def lwrite_def)
  obtain found es' where f: "replace_gcb gcb es = Some (found, es')"
    using set rng img(1) lr exts(2) by (auto simp: EGifGCBToSavedExtension_def bind_eq_Some_conv simp flip: exts(1) split: if_splits)
  note rf = replace_gcb_find [OF gcb f exts(3)]
  have rd: "DGifSavedExtensionToGCB g' idx = find_gcb xs"
    if "ImageCount g' = ImageCount g" "SavedImages g' = Some (imgs[nat idx := sp'])" "ExtensionBlocks sp' = Some xs" "ExtensionBlockCount sp' = int (length xs)" for sp' xs
    using that rng img(2,3) by (simp add: DGifSavedExtensionToGCB_def lread_def)
  show ?thesis
  proof (cases found)
    case True
    then have "g' = g\<lparr>SavedImages := Some (imgs[nat idx := ?sp\<lparr>ExtensionBlocks := Some es'\<rparr>])\<rparr>"
      using set rng img(1) lr exts(2) f by (simp add: EGifGCBToSavedExtension_def flip: exts(1))
    then show ?thesis using rd [of "?sp\<lparr>ExtensionBlocks := Some es'\<rparr>" es'] rf [of "[]"] True exts(2) by simp
  next
    case False
    let ?e = "\<lparr>ByteCount = 4, Bytes = Some (gcb_bytes gcb), Function = GRAPHICS_EXT_FUNC_CODE\<rparr>"
    have len: "length (gcb_bytes gcb) = 4" by (simp add: gcb_bytes_def)
    obtain c ebs h where add: "GifAddExtensionBlock (int (length es)) (ExtensionBlocks ?sp) GRAPHICS_EXT_FUNC_CODE 4 (Some (gcb_bytes gcb @ replicate 12 0)) (gheap g) =
        Some (GIF_OK, c, ebs, h)"
      and g': "g' = g\<lparr>SavedImages := Some (imgs[nat idx := ?sp\<lparr>ExtensionBlockCount := c, ExtensionBlocks := ebs\<rparr>]), gheap := h\<rparr>"
      using set rng img(1) lr exts(2) f False
      by (auto simp: EGifGCBToSavedExtension_def EGifGCBToExtension_def bind_eq_Some_conv simp flip: exts(1))
    have "c = int (length (es @ [?e])) \<and> ebs = Some (es @ [?e])"
    proof (cases "ExtensionBlocks ?sp")
      case None
      then show ?thesis using add len exts(1)
        by (auto simp: GifAddExtensionBlock_def Let_def lwrite_def bind_eq_Some_conv split: if_splits prod.splits bool.splits)
    next
      case (Some es0)
      then show ?thesis using add len exts(1)
        by (auto simp: GifAddExtensionBlock_def Let_def lwrite_def resize_def nat_add_distrib bind_eq_Some_conv split: if_splits prod.splits bool.splits)
    qed
    then show ?thesis
      using rd [of "?sp\<lparr>ExtensionBlockCount := c, ExtensionBlocks := ebs\<rparr>" "es @ [?e]"] g' rf [of "[]"] False
        find_gcb_skip [of es "[?e]"] gcb_bytes_decode [OF gcb, of "[]"] by simp
  qed
qed

theorem gcb_saved_round_trip_witness:
  "\<exists>g'. EGifGCBToSavedExtension \<lparr>DisposalMode = 2, UserInputFlag = True, DelayTime = 300, TransparentColor = - 1\<rparr> 0 sample_gif = Some (GIF_OK, g') \<and>
     DGifSavedExtensionToGCB g' 0 = Some (Some \<lparr>DisposalMode = 2, UserInputFlag = True, DelayTime = 300, TransparentColor = - 1\<rparr>)"
proof -
  let ?gcb = "\<lparr>DisposalMode = 2, UserInputFlag = True, DelayTime = 300, TransparentColor = - 1\<rparr>"
  have ok: "gcb_ok ?gcb" by (simp add: gcb_ok_def)
  have s: "SavedImages sample_gif = Some [sample_image]" "ImageCount sample_gif = 1" by (simp_all add: sample_gif_def)
  have i: "ExtensionBlocks sample_image = Some [\<lparr>ByteCount = 4, Bytes = Some [0, 10, 0, 0], Function = 0xf9\<rparr>]" "ExtensionBlockCount sample_image = 1"
    by (simp_all add: sample_image_def saved_def)
  obtain g' where g': "EGifGCBToSavedExtension ?gcb 0 sample_gif = Some (GIF_OK, g')"
    using s i by (auto simp: EGifGCBToSavedExtension_def lread_def lwrite_def GRAPHICS_EXT_FUNC_CODE_def EGifGCBToExtension_def)
  show ?thesis using gcb_saved_round_trip [OF ok g' s(1)] g' i by (simp add: first_gcb_ok_def GRAPHICS_EXT_FUNC_CODE_def)
qed

section \<open>Sinks that refuse\<close>

text \<open>A short write behind the version stamp is not reported: on a sink with room for six bytes, writing a screen descriptor without
  a colour map returns success although nothing but the stamp is in the file.\<close>

theorem screen_desc_loses_write_error:
  assumes "FileState (Private g) AND FILE_STATE_SCREEN = 0" "IS_WRITEABLE (Private g)" "space (Private g) = Some 6"
    "EGifGetGifVersion g = Some (stamp, g1)"
  shows "\<exists>g'. EGifPutScreenDesc W H cr bg None g = Some (GIF_OK, g') \<and> written (Private g') = written (Private g) @ stamp"
proof -
  have l: "length stamp = 6" by (rule EGifGetGifVersion_stamp [OF assms(4)])
  obtain v where g1: "g1 = g\<lparr>Private := (Private g)\<lparr>gif89 := v\<rparr>\<rparr>" using EGifGetGifVersion_stamp(3) [OF assms(4)] by blast
  show ?thesis using assms l unfolding EGifPutScreenDesc_def g1
    by (simp add: Let_def InternalWrite_def put_def put_word_def EGifPutWord_def write_color_map_def)
qed

theorem screen_desc_loses_write_error_witness:
  "\<exists>g'. EGifPutScreenDesc 640 480 8 0 None (new_egif (Some 6) (\<lambda>_. 0) \<lparr>outcomes = [], blocks = 3\<rparr>) = Some (GIF_OK, g') \<and>
     written (Private g') = written (Private (new_egif (Some 6) (\<lambda>_. 0) \<lparr>outcomes = [], blocks = 3\<rparr>)) @ GIF87_STAMP"
  by (rule screen_desc_loses_write_error)
    (simp_all add: new_egif_def zero_private_def GifFilePrivateType.defs epriv.defs IS_WRITEABLE_def FILE_STATE_WRITE_def FILE_STATE_SCREEN_def
       EGifGetGifVersion_def used_images_def needs_gif89_def)

end
