(* ===== verification/ByteStream.thy ===== *)
theory ByteStream
  imports DGif EGif
begin

text \<open>
  The byte streams of \<open>libframesequence\<close> (\<open>Stream.cpp\<close>, \<open>Stream.h\<close>) and the registry that
  chooses a decoder by the first bytes of a stream (\<open>Registry.cpp\<close>).

  The virtual \<open>doRead\<close> is a parameter of the operations that call it: from the wanted count and the
  state of the source it gives the bytes it stores in the buffer, the count it returns and the new
  state.  \<open>size_t\<close> values are \<open>nat\<close>, except in the loop over the Java stream, where they are
  subtracted without a check and are words.
\<close>

section \<open>Buffered streams\<close>

record stream =
  mPeekBuffer :: "u8 list option"
  mPeekSize :: nat
  mPeekOffset :: nat

type_synonym 's do_read = "nat \<Rightarrow> 's \<Rightarrow> (u8 list \<times> nat \<times> 's) option"

definition new_stream :: stream where
  "new_stream = \<lparr>mPeekBuffer = None, mPeekSize = 0, mPeekOffset = 0\<rparr>"

text \<open>\<open>memcpy\<close> of \<open>n\<close> bytes from offset \<open>i\<close> of a buffer; a null buffer has no bytes.\<close>

definition bytes_at :: "u8 list option \<Rightarrow> nat \<Rightarrow> nat \<Rightarrow> u8 list option" where
  "bytes_at buf i n =
     (case buf of None \<Rightarrow> if n = 0 then Some [] else None
      | Some b \<Rightarrow> if i + n \<le> length b then Some (take n (drop i b)) else None)"

definition store_at :: "u8 list \<Rightarrow> nat \<Rightarrow> u8 list \<Rightarrow> u8 list option" where
  "store_at b i bs = (if i + length bs \<le> length b then Some (take i b @ bs @ drop (i + length bs) b) else None)"

text \<open>The bytes stored in \<open>buffer\<close> (their number is the result), the stream and the source.\<close>

definition peek :: "'s do_read \<Rightarrow> nat \<Rightarrow> stream \<times> 's \<Rightarrow> (u8 list \<times> stream \<times> 's) option" where
  "peek doRead sz s =
     (let (st, src) = s; peek_remaining = mPeekSize st - mPeekOffset st in
      do { (st', src') \<leftarrow>
             (if sz > peek_remaining then
                do { old \<leftarrow> (if mPeekBuffer st = None then Some []
                             else bytes_at (mPeekBuffer st) (mPeekOffset st) peek_remaining);
                     b0 \<leftarrow> store_at (replicate sz 0) 0 old;
                     (bs, n, src') \<leftarrow> doRead (sz - peek_remaining) src;
                     b1 \<leftarrow> store_at b0 (mPeekOffset st) bs;
                     Some (\<lparr>mPeekBuffer = Some b1, mPeekSize = peek_remaining + n, mPeekOffset = 0\<rparr>, src') }
              else Some (st, src));
           bs \<leftarrow> bytes_at (mPeekBuffer st') (mPeekOffset st') (min sz (mPeekSize st' - mPeekOffset st'));
           Some (bs, st', src') })"

text \<open>\<open>read\<close> takes peeked bytes first.  The bytes stored in \<open>buffer\<close>, the result, the stream and
  the source.\<close>

definition take_peeked :: "nat \<Rightarrow> stream \<Rightarrow> (u8 list \<times> stream) option" where
  "take_peeked sz st =
     (let peek_remaining = mPeekSize st - mPeekOffset st in
      if peek_remaining \<noteq> 0 then
        do { let bytes_read = min sz peek_remaining;
             bs \<leftarrow> bytes_at (mPeekBuffer st) (mPeekOffset st) bytes_read;
             let st1 = st\<lparr>mPeekOffset := mPeekOffset st + bytes_read\<rparr>;
             Some (bs, if mPeekOffset st1 = mPeekSize st1 then new_stream else st1) }
      else Some ([], st))"

definition read_stream :: "'s do_read \<Rightarrow> nat \<Rightarrow> stream \<times> 's \<Rightarrow> (u8 list \<times> nat \<times> stream \<times> 's) option" where
  "read_stream doRead sz s =
     do { (bytes, st') \<leftarrow> take_peeked sz (fst s);
          if sz - length bytes \<noteq> 0 then
            do { (bs, n, src') \<leftarrow> doRead (sz - length bytes) (snd s);
                 Some (bytes @ bs, length bytes + n, st', src') }
          else Some (bytes, length bytes, st', snd s) }"

text \<open>A \<open>MemoryStream\<close> is the bytes from \<open>mBuffer\<close> on, \<open>mRemaining\<close> in number; a \<open>FileStream\<close> is what
  \<open>fread\<close> still finds in the file.\<close>

definition MemoryStream_doRead :: "u8 list do_read" where
  "MemoryStream_doRead sz src = Some (take sz src, min sz (length src), drop sz src)"

definition FileStream_doRead :: "u8 list do_read" where
  "FileStream_doRead sz src = Some (take sz src, length (take sz src), drop sz src)"

text \<open>A call of \<open>InputStream.read(byte[], 0, n)\<close>: an exception, a negative result, or the bytes it
  has put in the array.\<close>

datatype java_read = Threw | Negative | Got "u8 list"

partial_function (option) java_loop ::
    "(nat \<Rightarrow> 's \<Rightarrow> java_read \<times> 's) \<Rightarrow> u32 \<Rightarrow> u32 \<Rightarrow> u8 list \<Rightarrow> 's \<Rightarrow> (u8 list \<times> nat \<times> 's) option" where
  "java_loop jread mByteArrayLength sz stored src =
     (let requested = min sz mByteArrayLength in
      case jread (unat requested) src of
        (Threw, src') \<Rightarrow> Some (stored, 0, src')
      | (Negative, src') \<Rightarrow> Some (stored, 0, src')
      | (Got bs, src') \<Rightarrow>
          let sz' = sz - of_nat (length bs) in
          if sz' > 0 then java_loop jread mByteArrayLength sz' (stored @ bs) src'
          else Some (stored @ bs, length (stored @ bs), src'))"

declare java_loop.simps [code]

definition JavaInputStream_doRead :: "(nat \<Rightarrow> 's \<Rightarrow> java_read \<times> 's) \<Rightarrow> u32 \<Rightarrow> 's do_read" where
  "JavaInputStream_doRead jread mByteArrayLength sz src = java_loop jread mByteArrayLength (of_nat sz) [] src"

section \<open>Registry\<close>

text \<open>\<open>createFrameSequence\<close> is the tag of the decoder that the entry constructs.\<close>

record 'c RegistryEntry =
  requiredHeaderBytes :: nat
  checkHeader :: "u8 list \<Rightarrow> bool option"
  createFrameSequence :: 'c
  acceptsBuffer :: bool

record 'c registry =
  gHead :: "'c RegistryEntry list"
  gHeaderBytesRequired :: nat

definition no_registry :: "'c registry" where
  "no_registry = \<lparr>gHead = [], gHeaderBytesRequired = 0\<rparr>"

definition Registry :: "'c RegistryEntry \<Rightarrow> 'c registry \<Rightarrow> 'c registry" where
  "Registry entry r = \<lparr>gHead = entry # gHead r,
     gHeaderBytesRequired = (if gHeaderBytesRequired r < requiredHeaderBytes entry then requiredHeaderBytes entry
                             else gHeaderBytesRequired r)\<rparr>"

fun find_header :: "'c RegistryEntry list \<Rightarrow> u8 list \<Rightarrow> 'c RegistryEntry option option" where
  "find_header [] header = Some None"
| "find_header (e # es) header =
     (if length header \<ge> requiredHeaderBytes e then
        do { ok \<leftarrow> checkHeader e header; if ok then Some (Some e) else find_header es header }
      else find_header es header)"

definition Find :: "'c registry \<Rightarrow> bool \<Rightarrow> 's do_read \<Rightarrow> stream \<times> 's \<Rightarrow> ('c RegistryEntry option \<times> stream \<times> 's) option" where
  "Find r raw_buffer doRead s =
     (if raw_buffer then Some (find acceptsBuffer (gHead r), s)
      else do { (header, s') \<leftarrow> peek doRead (gHeaderBytesRequired r) s;
                e \<leftarrow> find_header (gHead r) header;
                Some (e, s') })"

datatype decoder = FrameSequence_gif_decoder | FrameSequence_webp_decoder

definition memcmp_eq :: "u8 list \<Rightarrow> u8 list \<Rightarrow> nat \<Rightarrow> bool option" where
  "memcmp_eq stamp header i =
     (if i + length stamp \<le> length header then Some (take (length stamp) (drop i header) = stamp) else None)"

definition GIF_STAMP :: "u8 list" where "GIF_STAMP = [0x47, 0x49, 0x46, 0x56, 0x45, 0x52]"

definition isGif :: "u8 list \<Rightarrow> bool option" where
  "isGif header =
     do { a \<leftarrow> memcmp_eq GIF_STAMP header 0;
          if a then Some True
          else do { b \<leftarrow> memcmp_eq GIF87_STAMP header 0;
                    if b then Some True else memcmp_eq GIF89_STAMP header 0 } }"

definition RIFF_HEADER_SIZE :: nat where "RIFF_HEADER_SIZE = 12"

definition isWebP :: "u8 list \<Rightarrow> bool option" where
  "isWebP header =
     (if length header \<ge> RIFF_HEADER_SIZE then
        do { a \<leftarrow> memcmp_eq [0x52, 0x49, 0x46, 0x46] header 0;
             if a then memcmp_eq [0x57, 0x45, 0x42, 0x50] header 8 else Some False }
      else Some False)"

definition gif_entry :: "decoder RegistryEntry" where
  "gif_entry = \<lparr>requiredHeaderBytes = length GIF_STAMP, checkHeader = isGif,
                createFrameSequence = FrameSequence_gif_decoder, acceptsBuffer = False\<rparr>"

definition webp_entry :: "decoder RegistryEntry" where
  "webp_entry = \<lparr>requiredHeaderBytes = RIFF_HEADER_SIZE, checkHeader = isWebP,
                 createFrameSequence = FrameSequence_webp_decoder, acceptsBuffer = True\<rparr>"

section \<open>A stream delivers its bytes in order\<close>

text \<open>
  What the decoder relies on: a call for \<open>n\<close> bytes returns the next \<open>n\<close>, fewer only at the end.
  The GIF reader of this development takes its bytes from a list by \<open>READ\<close>; a stream in its place
  is the same to it.
\<close>

text \<open>A client that asks for bytes in turn, each time for a number that depends on what it has seen.\<close>

fun pull :: "(nat \<Rightarrow> 's \<Rightarrow> (u8 list \<times> 's) option) \<Rightarrow> (u8 list list \<Rightarrow> nat) \<Rightarrow> nat \<Rightarrow> u8 list list \<Rightarrow> 's \<Rightarrow>
    (u8 list list \<times> 's) option" where
  "pull rd ask 0 seen s = Some (seen, s)"
| "pull rd ask (Suc k) seen s = do { (bs, s') \<leftarrow> rd (ask seen) s; pull rd ask k (seen @ [bs]) s' }"

fun pieces :: "(u8 list list \<Rightarrow> nat) \<Rightarrow> nat \<Rightarrow> u8 list list \<Rightarrow> u8 list \<Rightarrow> u8 list list" where
  "pieces ask 0 seen bs = seen"
| "pieces ask (Suc k) seen bs = pieces ask k (seen @ [take (ask seen) bs]) (drop (ask seen) bs)"

locale byte_source =
  fixes good :: "'s \<Rightarrow> bool" and content :: "'s \<Rightarrow> u8 list" and rd :: "nat \<Rightarrow> 's \<Rightarrow> (u8 list \<times> 's) option"
  assumes rd_next: "good s \<Longrightarrow> \<exists>s'. rd n s = Some (take n (content s), s') \<and> good s' \<and> content s' = drop n (content s)"
begin

lemma pull_pieces:
  assumes "good s"
  shows "\<exists>s'. pull rd ask k seen s = Some (pieces ask k seen (content s), s') \<and> good s'"
  using assms
proof (induction k arbitrary: seen s)
  case (Suc k)
  obtain s' where s': "rd (ask seen) s = Some (take (ask seen) (content s), s')" "good s'"
    "content s' = drop (ask seen) (content s)"
    using rd_next [OF Suc.prems] by blast
  from Suc.IH [OF s'(2)] s' show ?case by simp
qed simp

end

interpretation reader: byte_source "\<lambda>_. True" input "\<lambda>n p. Some (READ n p)"
  by unfold_locales (simp add: READ_def)

text \<open>A source that returns what is asked for until it is used up.\<close>

locale raw_source =
  fixes doRead :: "'s do_read" and rest :: "'s \<Rightarrow> u8 list"
  assumes doRead_next: "\<exists>s'. doRead n s = Some (take n (rest s), min n (length (rest s)), s') \<and> rest s' = drop n (rest s)"

definition unread_peeked :: "stream \<Rightarrow> u8 list" where
  "unread_peeked st = (case mPeekBuffer st of None \<Rightarrow> [] | Some b \<Rightarrow> take (mPeekSize st - mPeekOffset st) (drop (mPeekOffset st) b))"

definition stream_ok :: "stream \<Rightarrow> bool" where
  "stream_ok st \<longleftrightarrow> mPeekOffset st \<le> mPeekSize st \<and>
     mPeekSize st \<le> (case mPeekBuffer st of None \<Rightarrow> 0 | Some b \<Rightarrow> length b)"

text \<open>\<open>streamReader\<close>, the callback given to \<open>DGifOpen\<close>: the first bytes of the buffer, as many as the
  result says.\<close>

definition streamReader :: "'s do_read \<Rightarrow> nat \<Rightarrow> stream \<times> 's \<Rightarrow> (u8 list \<times> stream \<times> 's) option" where
  "streamReader doRead sz s = do { (bs, n, s') \<leftarrow> read_stream doRead sz s; Some (take n bs, s') }"

lemma bytes_at_peeked:
  assumes "stream_ok st" "n \<le> mPeekSize st - mPeekOffset st"
  shows "bytes_at (mPeekBuffer st) (mPeekOffset st) n = Some (take n (unread_peeked st))"
  using assms by (auto simp: bytes_at_def stream_ok_def unread_peeked_def min_def split: option.splits)

lemma length_unread: "stream_ok st \<Longrightarrow> length (unread_peeked st) = mPeekSize st - mPeekOffset st"
  by (auto simp: stream_ok_def unread_peeked_def split: option.splits)

lemma new_stream_facts [simp]: "stream_ok new_stream" "mPeekOffset new_stream = 0" "unread_peeked new_stream = []"
  by (simp_all add: stream_ok_def new_stream_def unread_peeked_def)

text \<open>The part of a read that the peeked bytes serve.\<close>

lemma take_peeked_next:
  assumes ok: "stream_ok st"
  shows "\<exists>st'. take_peeked sz st = Some (take sz (unread_peeked st), st') \<and>
      stream_ok st' \<and> unread_peeked st' = drop sz (unread_peeked st)"
proof (cases "mPeekSize st - mPeekOffset st = 0")
  case True
  then show ?thesis using ok length_unread [OF ok] by (simp add: take_peeked_def)
next
  case False
  let ?k = "min sz (mPeekSize st - mPeekOffset st)"
  let ?st = "st\<lparr>mPeekOffset := mPeekOffset st + ?k\<rparr>"
  have b: "bytes_at (mPeekBuffer st) (mPeekOffset st) ?k = Some (take sz (unread_peeked st))"
    using bytes_at_peeked [OF ok, of ?k] length_unread [OF ok] by (simp add: min_def)
  have "mPeekOffset st + ?k \<le> mPeekSize st" using ok [unfolded stream_ok_def, THEN conjunct1] by linarith
  then have 1: "stream_ok ?st" using ok by (simp add: stream_ok_def)
  have "drop ?k (unread_peeked st) = unread_peeked ?st"
    by (simp add: unread_peeked_def drop_take add.commute split: option.split)
  moreover have "drop ?k (unread_peeked st) = drop sz (unread_peeked st)"
    using length_unread [OF ok] by (simp add: min_def)
  ultimately have 2: "unread_peeked ?st = drop sz (unread_peeked st)" by simp
  show ?thesis
  proof (cases "mPeekOffset ?st = mPeekSize ?st")
    case True
    then have "unread_peeked ?st = []" using length_unread [OF 1] by simp
    with True 2 b False show ?thesis by (simp add: take_peeked_def Let_def)
  next
    case neq: False
    with 1 2 b False show ?thesis by (simp add: take_peeked_def Let_def)
  qed
qed

context raw_source
begin

lemma read_stream_next:
  assumes ok: "stream_ok st"
  shows "\<exists>st' s'. read_stream doRead sz (st, s) = Some (take sz (unread_peeked st @ rest s),
      min sz (length (unread_peeked st @ rest s)), st', s') \<and> stream_ok st' \<and>
    unread_peeked st' @ rest s' = drop sz (unread_peeked st @ rest s)"
proof -
  obtain st' where st': "take_peeked sz st = Some (take sz (unread_peeked st), st')"
     "stream_ok st'" "unread_peeked st' = drop sz (unread_peeked st)"
    using take_peeked_next [OF ok, of sz] by blast
  let ?u = "unread_peeked st"
  obtain s' where s': "doRead (sz - length (take sz ?u)) s = Some (take (sz - length (take sz ?u)) (rest s),
      min (sz - length (take sz ?u)) (length (rest s)), s')" "rest s' = drop (sz - length (take sz ?u)) (rest s)"
    using doRead_next by blast
  show ?thesis
  proof (cases "sz \<le> length ?u")
    case True
    with st' show ?thesis by (auto simp: read_stream_def min_def)
  next
    case False
    with st' s' show ?thesis by (auto simp: read_stream_def min_def)
  qed
qed

lemma streamReader_next:
  assumes "stream_ok st"
  shows "\<exists>st' s'. streamReader doRead sz (st, s) = Some (take sz (unread_peeked st @ rest s), st', s') \<and> stream_ok st' \<and>
    unread_peeked st' @ rest s' = drop sz (unread_peeked st @ rest s)"
  using read_stream_next [OF assms, of sz s] by (auto simp: streamReader_def min_def)

text \<open>A peek that needs no more than what is already there, or that finds nothing there, leaves the
  bytes of the stream as they are.\<close>

lemma peek_next:
  assumes ok: "stream_ok st" and first: "unread_peeked st = [] \<and> mPeekOffset st = 0 \<or> sz \<le> length (unread_peeked st)"
  shows "\<exists>st' s'. peek doRead sz (st, s) = Some (take sz (unread_peeked st @ rest s), st', s') \<and> stream_ok st' \<and>
    unread_peeked st' @ rest s' = unread_peeked st @ rest s"
proof (cases "sz \<le> length (unread_peeked st)")
  case True
  then have "sz \<le> mPeekSize st - mPeekOffset st" using length_unread [OF ok] by simp
  with bytes_at_peeked [OF ok this] ok True show ?thesis by (auto simp: peek_def min_def)
next
  case False
  with first have e: "unread_peeked st = []" "mPeekOffset st = 0" by auto
  then have z: "mPeekSize st = 0" using length_unread [OF ok] by simp
  obtain s' where s': "doRead sz s = Some (take sz (rest s), min sz (length (rest s)), s')" "rest s' = drop sz (rest s)"
    using doRead_next by blast
  let ?b = "take sz (rest s) @ drop (min (length (rest s)) sz) (replicate sz 0)"
  have "bytes_at (mPeekBuffer st) 0 0 = Some []" by (auto simp: bytes_at_def split: option.splits)
  then have "peek doRead sz (st, s) = Some (take sz (rest s),
      \<lparr>mPeekBuffer = Some ?b, mPeekSize = min sz (length (rest s)), mPeekOffset = 0\<rparr>, s')"
    using False z e s' by (auto simp: peek_def Let_def store_at_def bytes_at_def min_def)
  moreover have "stream_ok \<lparr>mPeekBuffer = Some ?b, mPeekSize = min sz (length (rest s)), mPeekOffset = 0\<rparr>"
    "unread_peeked \<lparr>mPeekBuffer = Some ?b, mPeekSize = min sz (length (rest s)), mPeekOffset = 0\<rparr> = take sz (rest s)"
    by (auto simp: stream_ok_def unread_peeked_def min_def)
  ultimately show ?thesis using s'(2) e by auto
qed

end

sublocale raw_source < buffered: byte_source "\<lambda>s. stream_ok (fst s)" "\<lambda>s. unread_peeked (fst s) @ rest (snd s)" "streamReader doRead"
proof (unfold_locales, goal_cases)
  case (1 s n)
  from streamReader_next [OF 1, of n "snd s"] show ?case by (cases s) auto
qed

interpretation memory: raw_source MemoryStream_doRead "\<lambda>src. src"
  by unfold_locales (simp add: MemoryStream_doRead_def)

interpretation file_stream: raw_source FileStream_doRead "\<lambda>src. src"
  by unfold_locales (simp add: FileStream_doRead_def)

section \<open>Choosing the decoder\<close>

lemma memcmp_eq_prefix: "length stamp \<le> length header \<Longrightarrow> memcmp_eq stamp header 0 = Some (take (length stamp) header = stamp)"
  by (simp add: memcmp_eq_def)

definition stamps :: "u8 list list" where
  "stamps = [GIF_STAMP, GIF87_STAMP, GIF89_STAMP]"

lemma stamps_facts: "x \<in> set stamps \<Longrightarrow> length x = 6" "x \<in> set stamps \<Longrightarrow> take 4 x \<noteq> [0x52, 0x49, 0x46, 0x46]"
  by (auto simp: stamps_def GIF_STAMP_def GIF87_STAMP_def GIF89_STAMP_def)

lemma isGif_header:
  assumes "6 \<le> length header"
  shows "isGif header = Some (take 6 header \<in> set stamps)"
proof -
  have "memcmp_eq x header 0 = Some (take 6 header = x)" if "x \<in> set stamps" for x
    using memcmp_eq_prefix [of x header] stamps_facts(1) [OF that] assms by simp
  then show ?thesis by (simp add: isGif_def stamps_def)
qed

lemma isWebP_not_gif:
  assumes "take 6 header \<in> set stamps"
  shows "isWebP header = Some False"
proof -
  have "take 4 header \<noteq> [0x52, 0x49, 0x46, 0x46]" using stamps_facts(2) [OF assms] by (simp add: min_def)
  then show ?thesis by (simp add: isWebP_def memcmp_eq_def RIFF_HEADER_SIZE_def eval_nat_numeral)
qed

definition registries :: "decoder registry list" where
  "registries = [Registry gif_entry (Registry webp_entry no_registry), Registry webp_entry (Registry gif_entry no_registry)]"

lemma find_header_gif:
  assumes "r \<in> set registries" "take 6 header \<in> set stamps"
  shows "find_header (gHead r) header = Some (Some gif_entry)"
proof -
  have "length (take 6 header) = 6" using assms(2) by (rule stamps_facts(1))
  then have "6 \<le> length header" by simp
  then show ?thesis
    using assms isGif_header isWebP_not_gif [OF assms(2)]
    by (auto simp: registries_def Registry_def no_registry_def gif_entry_def webp_entry_def GIF_STAMP_def)
qed

lemma registries_header: "r \<in> set registries \<Longrightarrow> gHeaderBytesRequired r = 12"
  by (auto simp: registries_def Registry_def no_registry_def gif_entry_def webp_entry_def GIF_STAMP_def RIFF_HEADER_SIZE_def)

lemma Find_raw_buffer: "r \<in> set registries \<Longrightarrow> Find r True doRead s = Some (Some webp_entry, s)"
  by (auto simp: Find_def registries_def Registry_def no_registry_def gif_entry_def webp_entry_def)

text \<open>(C14) A memory stream without a raw buffer, that starts with a GIF stamp is
  given to the GIF decoder, in whichever order the two decoders were registered, and the peek at its header costs nothing: every
  client that then reads through \<open>streamReader\<close> gets the bytes the reader of this development takes from the list of
  all the bytes.  With a raw buffer, that of a direct \<open>ByteBuffer\<close>, the same bytes are given to the WebP decoder without a look at
  them.\<close>

theorem gif_stream_dispatch:
  assumes "r \<in> set registries" "take 6 bytes \<in> set stamps" "input p = bytes"
  shows "\<exists>s. Find r False MemoryStream_doRead (new_stream, bytes) = Some (Some gif_entry, s) \<and>
    map_option fst (pull (streamReader MemoryStream_doRead) ask k [] s) =
    map_option fst (pull (\<lambda>n p. Some (READ n p)) ask k [] p) \<and>
    Find r True MemoryStream_doRead (new_stream, bytes) = Some (Some webp_entry, (new_stream, bytes))"
proof -
  obtain st src where pk: "peek MemoryStream_doRead 12 (new_stream, bytes) = Some (take 12 bytes, st, src)" "stream_ok st"
    "unread_peeked st @ src = bytes"
    using memory.peek_next [of new_stream 12 bytes] by auto
  have "take 6 (take 12 bytes) = take 6 bytes" by (simp add: min_def)
  then have "Find r False MemoryStream_doRead (new_stream, bytes) = Some (Some gif_entry, (st, src))"
    using find_header_gif [OF assms(1), of "take 12 bytes"] assms(2) registries_header [OF assms(1)] pk(1)
    by (simp add: Find_def)
  moreover obtain s' where "pull (streamReader MemoryStream_doRead) ask k [] (st, src) = Some (pieces ask k [] bytes, s')"
    using memory.buffered.pull_pieces [of "(st, src)" ask k "[]"] pk by auto
  moreover obtain p' where "pull (\<lambda>n p. Some (READ n p)) ask k [] p = Some (pieces ask k [] bytes, p')"
    using reader.pull_pieces [where s = p and ask = ask and k = k and seen = "[]"] assms(3) by auto
  ultimately show ?thesis using Find_raw_buffer [OF assms(1)] by auto
qed

definition demo_reader :: "u8 list \<Rightarrow> dpriv" where
  "demo_reader bs = GifFilePrivateType.extend zero_private (dpriv.fields bs)"

theorem gif_stream_dispatch_witness:
  "\<exists>s. Find (Registry gif_entry (Registry webp_entry no_registry)) False MemoryStream_doRead
        (new_stream, GIF89_STAMP @ [1, 2, 3]) = Some (Some gif_entry, s) \<and>
    map_option fst (pull (streamReader MemoryStream_doRead) (\<lambda>seen. length seen + 1) 3 [] s) =
    map_option fst (pull (\<lambda>n p. Some (READ n p)) (\<lambda>seen. length seen + 1) 3 [] (demo_reader (GIF89_STAMP @ [1, 2, 3]))) \<and>
    Find (Registry gif_entry (Registry webp_entry no_registry)) True MemoryStream_doRead (new_stream, GIF89_STAMP @ [1, 2, 3]) =
      Some (Some webp_entry, (new_stream, GIF89_STAMP @ [1, 2, 3]))"
  by (rule gif_stream_dispatch)
     (simp_all add: registries_def stamps_def GIF89_STAMP_def demo_reader_def GifFilePrivateType.defs dpriv.defs)

text \<open>A second, longer peek reads over what the first one has peeked, and after a read it may write
  behind the new buffer.\<close>

lemma peek_twice_corrupts:
  "do { (_, s) \<leftarrow> peek MemoryStream_doRead 2 (new_stream, [1, 2, 3, 4]); peek MemoryStream_doRead 4 s } =
     Some ([3, 4, 0, 0], \<lparr>mPeekBuffer = Some [3, 4, 0, 0], mPeekSize = 4, mPeekOffset = 0\<rparr>, [])"
  by code_simp

lemma peek_after_read_overflows:
  "do { (_, s) \<leftarrow> peek MemoryStream_doRead 4 (new_stream, [1, 2, 3, 4, 5, 6]);
        (_, _, s) \<leftarrow> read_stream MemoryStream_doRead 3 s;
        peek MemoryStream_doRead 2 s } = None"
  by code_simp

section \<open>The Java stream\<close>

text \<open>What \<open>java.io.InputStream\<close> documents of \<open>read(byte[], int, int)\<close> for a positive count: at least one
  byte and at most the wanted number, \<open>-1\<close> at the end of the stream.\<close>

definition input_stream :: "(nat \<Rightarrow> 's \<Rightarrow> java_read \<times> 's) \<Rightarrow> ('s \<Rightarrow> u8 list) \<Rightarrow> bool" where
  "input_stream jread rest \<longleftrightarrow> (\<forall>n s. 0 < n \<longrightarrow>
     (if rest s = [] then fst (jread n s) = Negative \<and> rest (snd (jread n s)) = []
      else \<exists>k. 0 < k \<and> k \<le> n \<and> k \<le> length (rest s) \<and> fst (jread n s) = Got (take k (rest s)) \<and>
        rest (snd (jread n s)) = drop k (rest s)))"

lemma input_streamD:
  assumes "input_stream jread rest" "0 < n"
  shows "rest s = [] \<Longrightarrow> fst (jread n s) = Negative \<and> rest (snd (jread n s)) = []"
    and "rest s \<noteq> [] \<Longrightarrow> \<exists>k. 0 < k \<and> k \<le> n \<and> k \<le> length (rest s) \<and> fst (jread n s) = Got (take k (rest s)) \<and>
        rest (snd (jread n s)) = drop k (rest s)"
  using assms by (simp_all add: input_stream_def)

lemma java_loop_reads:
  assumes js: "input_stream jread rest" and len: "0 < len" and "0 < sz" "length (rest s) < 2 ^ 32"
  shows "\<exists>s'. java_loop jread len sz acc s =
       Some (acc @ take (unat sz) (rest s), if unat sz \<le> length (rest s) then length acc + unat sz else 0, s') \<and>
     rest s' = drop (unat sz) (rest s)"
  using assms(3-)
proof (induction "unat sz" arbitrary: sz acc s rule: less_induct)
  case less
  let ?n = "unat (min sz len)"
  have n: "0 < ?n" "?n \<le> unat sz" using less.prems len by (auto simp: min_def word_less_nat_alt word_le_nat_alt)
  obtain res s1 where r: "jread ?n s = (res, s1)" by fastforce
  show ?case
  proof (cases "rest s = []")
    case True
    with input_streamD(1) [OF js n(1), of s] r have "res = Negative" "rest s1 = []" by auto
    with r True less.prems show ?thesis by (subst java_loop.simps) (simp add: Let_def word_less_nat_alt)
  next
    case False
    with input_streamD(2) [OF js n(1), of s] r obtain k where k: "0 < k" "k \<le> ?n" "k \<le> length (rest s)" "res = Got (take k (rest s))"
      "rest s1 = drop k (rest s)"
      by auto
    have ks: "k \<le> unat sz" "k < 2 ^ 32" using k n less.prems by auto
    have u: "unat (sz - of_nat k) = unat sz - k"
      using ks by (simp add: unat_sub word_le_nat_alt unat_of_nat take_bit_nat_eq_self)
    show ?thesis
    proof (cases "k = unat sz")
      case True
      with u have "sz - of_nat k = 0" by (simp add: unat_eq_zero)
      with r k True show ?thesis by (subst java_loop.simps) (simp add: Let_def min_def)
    next
      case neq: False
      have pos: "0 < sz - of_nat k" using u neq ks by (simp add: word_less_nat_alt)
      have "unat (sz - of_nat k) < unat sz" using u k(1) ks neq by simp
      moreover have "length (rest s1) < 2 ^ 32" using k(5) less.prems(2) by simp
      ultimately obtain s' where
        "java_loop jread len (sz - of_nat k) (acc @ take k (rest s)) s1 =
           Some ((acc @ take k (rest s)) @ take (unat sz - k) (rest s1),
             if unat sz - k \<le> length (rest s1) then length (acc @ take k (rest s)) + (unat sz - k) else 0, s')"
        "rest s' = drop (unat sz - k) (rest s1)"
        using less.hyps [OF _ pos, of s1 "acc @ take k (rest s)"] unfolding u by blast
      moreover have "take k (rest s) @ take (unat sz - k) (drop k (rest s)) = take (unat sz) (rest s)"
        using ks(1) by (metis le_add_diff_inverse take_add)
      ultimately show ?thesis using r k pos ks(1) by (subst java_loop.simps) (auto simp: Let_def min_def)
    qed
  qed
qed

text \<open>(C15) Over a Java stream that keeps its contract, a read of \<open>n > 0\<close> bytes through an array of any
  positive length comes to an end.  When the stream has that many bytes left it returns exactly the next \<open>n\<close>;
  otherwise it reports \<open>0\<close>, although it has taken all the remaining bytes out of the stream.\<close>

theorem JavaInputStream_doRead_exact:
  assumes "input_stream jread rest" "0 < len" "0 < n" "n < 2 ^ 32" "length (rest s) < 2 ^ 32"
  shows "\<exists>s'. JavaInputStream_doRead jread len n s =
      Some (take n (rest s), if n \<le> length (rest s) then n else 0, s') \<and> rest s' = drop n (rest s)"
proof -
  have u: "unat (of_nat n :: u32) = n" using assms(4) by (simp add: unat_of_nat take_bit_nat_eq_self)
  then have "0 < (of_nat n :: u32)" using assms(3) by (simp add: word_less_nat_alt)
  from java_loop_reads [OF assms(1,2) this assms(5), of "[]"] show ?thesis
    unfolding u JavaInputStream_doRead_def append_Nil list.size(3) add_0 .
qed

text \<open>A stream that hands out its bytes two at a time.\<close>

definition slow_stream :: "nat \<Rightarrow> u8 list \<Rightarrow> java_read \<times> u8 list" where
  "slow_stream n bs = (if bs = [] then (Negative, []) else (Got (take (min n 2) bs), drop (min n 2) bs))"

lemma slow_stream_input: "input_stream slow_stream (\<lambda>bs. bs)"
proof (unfold input_stream_def, intro allI impI)
  fix n :: nat and s :: "u8 list"
  assume "0 < n"
  then show "if s = [] then fst (slow_stream n s) = Negative \<and> snd (slow_stream n s) = []
      else \<exists>k. 0 < k \<and> k \<le> n \<and> k \<le> length s \<and> fst (slow_stream n s) = Got (take k s) \<and> snd (slow_stream n s) = drop k s"
    by (auto simp: slow_stream_def Suc_le_eq min_def intro!: exI [of _ "min (min n 2) (length s)"])
qed

theorem JavaInputStream_doRead_exact_witness:
  "\<exists>s'. JavaInputStream_doRead slow_stream 4096 5 [1, 2, 3, 4, 5, 6, 7] =
      Some (take 5 [1, 2, 3, 4, 5, 6, 7], if 5 \<le> length [1, 2, 3, 4, 5, 6, 7 :: u8] then 5 else 0, s') \<and>
     s' = drop 5 [1, 2, 3, 4, 5, 6, 7]"
  using JavaInputStream_doRead_exact [OF slow_stream_input, of 4096 5 "[1, 2, 3, 4, 5, 6, 7]"] by simp

end
