(* ===== verification/FrameSeq.thy ===== *)
theory FrameSeq
  imports DGifSafe EGif
begin

text \<open>
  The GIF player of \<open>libframesequence\<close> (\<open>FrameSequence_gif.cpp\<close>): the tables it computes when a file has
  been read, and the drawing of a frame into the pixels of a bitmap.

  The output buffer and the preserve buffer are lists of pixels; a pointer into the output is an index.
  A variable that the code declares without a value is \<open>None\<close> until it is assigned.  The stream is the
  list of its bytes, which the theory \<open>ByteStream\<close> justifies.  Memory obtained by \<open>new\<close> is not counted by the
  allocator.
\<close>

type_synonym Color8888 = u32

definition TRANSPARENT :: Color8888 where "TRANSPARENT = 0x0"
definition COLOR_8888_ALPHA_MASK :: Color8888 where "COLOR_8888_ALPHA_MASK = 0xff000000"

definition ARGB_TO_COLOR8888 :: "u32 \<Rightarrow> u32 \<Rightarrow> u32 \<Rightarrow> u32 \<Rightarrow> Color8888" where
  "ARGB_TO_COLOR8888 a r g b = push_bit 24 a OR push_bit 16 b OR push_bit 8 g OR r"

definition gifColorToColor8888 :: "GifColorType \<Rightarrow> Color8888" where
  "gifColorToColor8888 c = ARGB_TO_COLOR8888 0xff (ucast (Red c)) (ucast (Green c)) (ucast (Blue c))"

definition getDelayMs :: "GraphicsControlBlock \<Rightarrow> int" where
  "getDelayMs gcb = DelayTime gcb * 10"

definition DISPOSE_BACKGROUND :: int where "DISPOSE_BACKGROUND = 2"
definition DISPOSE_PREVIOUS :: int where "DISPOSE_PREVIOUS = 3"

definition willBeCleared :: "GraphicsControlBlock \<Rightarrow> bool" where
  "willBeCleared gcb \<longleftrightarrow> DisposalMode gcb = DISPOSE_BACKGROUND \<or> DisposalMode gcb = DISPOSE_PREVIOUS"

text \<open>What \<open>DGifSavedExtensionToGCB(g, i, &gcb)\<close> leaves in the variable: the old content for an index
  outside the file, the default values when the frame has no usable graphics block.\<close>

definition saved_gcb :: "dgif \<Rightarrow> int \<Rightarrow> GraphicsControlBlock option \<Rightarrow> GraphicsControlBlock option option" where
  "saved_gcb g i old =
     (if i < 0 \<or> i > ImageCount g - 1 then Some old
      else do { r \<leftarrow> DGifSavedExtensionToGCB g i;
                Some (Some (case r of
                   None \<Rightarrow> \<lparr>DisposalMode = DISPOSAL_UNSPECIFIED, UserInputFlag = False, DelayTime = 0,
                            TransparentColor = NO_TRANSPARENT_COLOR\<rparr>
                 | Some gcb \<Rightarrow> gcb)) })"

section \<open>The frame sequence\<close>

record FrameSequence_gif =
  mGif :: "dgif option"
  mLoopCount :: int
  mBgColor :: Color8888
  mPreservedFrames :: "bool list option"
  mRestoringFrames :: "int list option"

definition NETSCAPE :: "u8 list" where
  "NETSCAPE = [0x4e, 0x45, 0x54, 0x53, 0x43, 0x41, 0x50, 0x45, 0x32, 0x2e, 0x30]"

text \<open>The loop over pairs of neighbouring extension blocks.\<close>

definition loop_pair :: "ExtensionBlock \<Rightarrow> ExtensionBlock \<Rightarrow> int \<Rightarrow> int option" where
  "loop_pair eb1 eb2 loops =
     (if Function eb1 = APPLICATION_EXT_FUNC_CODE \<and> ByteCount eb1 = 11 then
        do { b1 \<leftarrow> Bytes eb1;
             if length b1 < 11 then None
             else if take 11 b1 = NETSCAPE \<and> Function eb2 = CONTINUE_EXT_FUNC_CODE \<and> ByteCount eb2 = 3 then
               do { b2 \<leftarrow> Bytes eb2;
                    x0 \<leftarrow> lread b2 0;
                    if x0 = 1 then do { x2 \<leftarrow> lread b2 2; x1 \<leftarrow> lread b2 1; Some (uint x2 * 2 ^ 8 + uint x1) }
                    else Some loops }
             else Some loops }
      else Some loops)"

fun find_loop :: "ExtensionBlock list \<Rightarrow> int \<Rightarrow> int option" where
  "find_loop (eb1 # eb2 # es) loops = do { loops' \<leftarrow> loop_pair eb1 eb2 loops; find_loop (eb2 # es) loops' }"
| "find_loop _ loops = Some loops"

text \<open>One turn of the constructor's loop over the images; \<open>duration\<close> and \<open>lastUnclearedFrame\<close> are local.\<close>

definition scan_frame :: "dgif \<Rightarrow> int \<Rightarrow> FrameSequence_gif \<times> int \<times> int \<Rightarrow> (FrameSequence_gif \<times> int \<times> int) option" where
  "scan_frame g i s =
     (case s of (fs, durationMs, lastUnclearedFrame) \<Rightarrow>
      do { imgs \<leftarrow> SavedImages g;
           image \<leftarrow> lread imgs i;
           exts \<leftarrow> (if ExtensionBlockCount image \<le> 1 then Some []
                    else do { es \<leftarrow> ExtensionBlocks image;
                              if nat (ExtensionBlockCount image) \<le> length es
                              then Some (take (nat (ExtensionBlockCount image)) es) else None });
           loops \<leftarrow> find_loop exts (mLoopCount fs);
           v \<leftarrow> saved_gcb g i None;
           gcb \<leftarrow> v;
           pf \<leftarrow> mPreservedFrames fs;
           rf \<leftarrow> mRestoringFrames fs;
           pf1 \<leftarrow> lwrite pf i False;
           rf1 \<leftarrow> lwrite rf i (- 1);
           (pf2, rf2) \<leftarrow>
             (if DisposalMode gcb = DISPOSE_PREVIOUS \<and> lastUnclearedFrame \<ge> 0 then
                do { p \<leftarrow> lwrite pf1 lastUnclearedFrame True; r \<leftarrow> lwrite rf1 i lastUnclearedFrame; Some (p, r) }
              else Some (pf1, rf1));
           Some (fs\<lparr>mLoopCount := loops, mPreservedFrames := Some pf2, mRestoringFrames := Some rf2\<rparr>,
                 durationMs + getDelayMs gcb, if \<not> willBeCleared gcb then i else lastUnclearedFrame) })"

fun scan_frames :: "dgif \<Rightarrow> nat \<Rightarrow> int \<Rightarrow> FrameSequence_gif \<times> int \<times> int \<Rightarrow> (FrameSequence_gif \<times> int \<times> int) option" where
  "scan_frames g 0 i s = Some s"
| "scan_frames g (Suc k) i s = do { s' \<leftarrow> scan_frame g i s; scan_frames g k (i + 1) s' }"

definition background :: "dgif \<Rightarrow> Color8888 option" where
  "background g =
     (case SColorMap g of
        None \<Rightarrow> Some TRANSPARENT
      | Some m \<Rightarrow>
          do { v \<leftarrow> saved_gcb g 0 None;
               gcb \<leftarrow> v;
               if TransparentColor gcb = NO_TRANSPARENT_COLOR
               then do { c \<leftarrow> lread (Colors m) (SBackGroundColor g); Some (gifColorToColor8888 c) }
               else Some TRANSPARENT })"

definition no_sequence :: FrameSequence_gif where
  "no_sequence = \<lparr>mGif = None, mLoopCount = 1, mBgColor = TRANSPARENT, mPreservedFrames = None, mRestoringFrames = None\<rparr>"

text \<open>The constructor after \<open>DGifSlurp\<close> has succeeded.\<close>

definition sequence_of :: "dgif \<Rightarrow> FrameSequence_gif option" where
  "sequence_of g =
     do { let fs0 = no_sequence\<lparr>mGif := Some g, mPreservedFrames := Some (replicate (nat (ImageCount g)) False),
                                mRestoringFrames := Some (replicate (nat (ImageCount g)) 0)\<rparr>;
          (fs, _, _) \<leftarrow> scan_frames g (nat (ImageCount g)) 0 (fs0, 0, - 1);
          bg \<leftarrow> background g;
          Some (fs\<lparr>mBgColor := bg\<rparr>) }"

definition new_FrameSequence_gif :: "u8 list \<Rightarrow> heap \<Rightarrow> (FrameSequence_gif \<times> heap) option" where
  "new_FrameSequence_gif stream h =
     do { (gif, _, h1) \<leftarrow> DGifOpen stream h;
          case gif of
            None \<Rightarrow> Some (no_sequence, h1)
          | Some g \<Rightarrow>
              do { (st, g1) \<leftarrow> DGifSlurp g;
                   if st \<noteq> GIF_OK then do { (_, _, h2) \<leftarrow> DGifCloseFile None g1; Some (no_sequence, h2) }
                   else do { fs \<leftarrow> sequence_of g1; Some (fs, gheap g1) } } }"

definition delete_FrameSequence_gif :: "FrameSequence_gif \<Rightarrow> heap \<Rightarrow> heap option" where
  "delete_FrameSequence_gif fs h =
     (case mGif fs of None \<Rightarrow> Some h | Some g \<Rightarrow> do { (_, _, h') \<leftarrow> DGifCloseFile None g; Some h' })"

definition getWidth :: "FrameSequence_gif \<Rightarrow> int" where
  "getWidth fs = (case mGif fs of None \<Rightarrow> 0 | Some g \<Rightarrow> SWidth g)"

definition getHeight :: "FrameSequence_gif \<Rightarrow> int" where
  "getHeight fs = (case mGif fs of None \<Rightarrow> 0 | Some g \<Rightarrow> SHeight g)"

definition isOpaque :: "FrameSequence_gif \<Rightarrow> bool" where
  "isOpaque fs \<longleftrightarrow> mBgColor fs AND COLOR_8888_ALPHA_MASK = COLOR_8888_ALPHA_MASK"

definition getFrameCount :: "FrameSequence_gif \<Rightarrow> int" where
  "getFrameCount fs = (case mGif fs of None \<Rightarrow> 0 | Some g \<Rightarrow> ImageCount g)"

definition getPreservedFrame :: "FrameSequence_gif \<Rightarrow> int \<Rightarrow> bool option" where
  "getPreservedFrame fs frameIndex = do { pf \<leftarrow> mPreservedFrames fs; lread pf frameIndex }"

definition getRestoringFrame :: "FrameSequence_gif \<Rightarrow> int \<Rightarrow> int option" where
  "getRestoringFrame fs frameIndex = do { rf \<leftarrow> mRestoringFrames fs; lread rf frameIndex }"

text \<open>\<open>FrameSequence::create\<close>, with the GIF entry as the one the registry has found: the sequence, or
  \<open>None\<close> for \<open>NULL\<close>.\<close>

definition create_sequence :: "u8 list \<Rightarrow> heap \<Rightarrow> (FrameSequence_gif option \<times> heap) option" where
  "create_sequence stream h =
     do { (fs, h1) \<leftarrow> new_FrameSequence_gif stream h;
          if getFrameCount fs = 0 \<or> getWidth fs = 0 \<or> getHeight fs = 0
          then do { h2 \<leftarrow> delete_FrameSequence_gif fs h1; Some (None, h2) }
          else Some (Some fs, h1) }"

section \<open>Draw helpers\<close>

definition checkIfCover :: "GifImageDesc \<Rightarrow> GifImageDesc \<Rightarrow> bool" where
  "checkIfCover target covered \<longleftrightarrow>
     Left target \<le> Left covered \<and> Left covered + Width covered \<le> Left target + Width target \<and>
     Top target \<le> Top covered \<and> Top covered + Height covered \<le> Top target + Height target"

text \<open>The lines are given by their width and the indices of their first pixels.\<close>

fun copyLine :: "nat \<Rightarrow> int \<Rightarrow> int \<Rightarrow> u8 list \<Rightarrow> ColorMapObject \<Rightarrow> int \<Rightarrow> Color8888 list \<Rightarrow> Color8888 list option" where
  "copyLine 0 dst src raster cmap transparent out = Some out"
| "copyLine (Suc width) dst src raster cmap transparent out =
     do { b \<leftarrow> lread raster src;
          out' \<leftarrow> (if uint b \<noteq> transparent \<and> uint b < ColorCount cmap then
                     do { c \<leftarrow> lread (Colors cmap) (uint b); lwrite out dst (gifColorToColor8888 c) }
                   else Some out);
          copyLine width (dst + 1) (src + 1) raster cmap transparent out' }"

fun setLineColor :: "nat \<Rightarrow> int \<Rightarrow> Color8888 \<Rightarrow> Color8888 list \<Rightarrow> Color8888 list option" where
  "setLineColor 0 dst color out = Some out"
| "setLineColor (Suc width) dst color out = do { out' \<leftarrow> lwrite out dst color; setLineColor width (dst + 1) color out' }"

definition getCopySize :: "GifImageDesc \<Rightarrow> int \<Rightarrow> int \<Rightarrow> int \<times> int" where
  "getCopySize d maxWidth maxHeight =
     (if Left d + Width d > maxWidth then maxWidth - Left d else Width d,
      if Top d + Height d > maxHeight then maxHeight - Top d else Height d)"

section \<open>Drawing\<close>

record FrameSequenceState_gif =
  mPreserveBuffer :: "Color8888 list option"
  mPreserveBufferFrame :: int

definition createState :: FrameSequenceState_gif where
  "createState = \<lparr>mPreserveBuffer = None, mPreserveBufferFrame = - 1\<rparr>"

text \<open>\<open>memcpy\<close> of \<open>n\<close> pixels, and the loop that copies lines \<open>y\<close>, \<open>y + 1\<close>, \dots between two buffers of
  the given strides.\<close>

definition memcpy_px :: "'a list \<Rightarrow> int \<Rightarrow> 'a list \<Rightarrow> int \<Rightarrow> nat \<Rightarrow> 'a list option" where
  "memcpy_px dst di src si n =
     (if n = 0 then Some dst
      else if 0 \<le> di \<and> di + int n \<le> int (length dst) \<and> 0 \<le> si \<and> si + int n \<le> int (length src)
      then Some (take (nat di) dst @ take n (drop (nat si) src) @ drop (nat di + n) dst) else None)"

fun copy_rows :: "nat \<Rightarrow> int \<Rightarrow> nat \<Rightarrow> int \<Rightarrow> int \<Rightarrow> 'a list \<Rightarrow> 'a list \<Rightarrow> 'a list option" where
  "copy_rows 0 y width dstride sstride src dst = Some dst"
| "copy_rows (Suc k) y width dstride sstride src dst =
     do { dst' \<leftarrow> memcpy_px dst (dstride * y) src (sstride * y) width;
          copy_rows k (y + 1) width dstride sstride src dst' }"

definition savePreserveBuffer :: "FrameSequence_gif \<Rightarrow> Color8888 list \<Rightarrow> int \<Rightarrow> int \<Rightarrow> FrameSequenceState_gif \<Rightarrow>
    FrameSequenceState_gif option" where
  "savePreserveBuffer fs out outputPixelStride frameNr st =
     (if frameNr = mPreserveBufferFrame st then Some st
      else let width = getWidth fs; height = getHeight fs;
               buf = (case mPreserveBuffer st of None \<Rightarrow> replicate (nat (width * height)) 0 | Some b \<Rightarrow> b)
           in do { buf' \<leftarrow> copy_rows (nat height) 0 (nat width) width outputPixelStride out buf;
                   Some (st\<lparr>mPreserveBufferFrame := frameNr, mPreserveBuffer := Some buf'\<rparr>) })"

definition restorePreserveBuffer :: "FrameSequence_gif \<Rightarrow> int \<Rightarrow> FrameSequenceState_gif \<Rightarrow> Color8888 list \<Rightarrow>
    Color8888 list option" where
  "restorePreserveBuffer fs outputPixelStride st out =
     (case mPreserveBuffer st of
        None \<Rightarrow> Some out
      | Some buf \<Rightarrow> copy_rows (nat (getHeight fs)) 0 (nat (getWidth fs)) outputPixelStride (getWidth fs) buf out)"

text \<open>The clearing of the bitmap before frame 0, pixel by pixel.\<close>

fun clear_line :: "nat \<Rightarrow> int \<Rightarrow> int \<Rightarrow> int \<Rightarrow> Color8888 \<Rightarrow> Color8888 list \<Rightarrow> Color8888 list option" where
  "clear_line 0 x y stride bg out = Some out"
| "clear_line (Suc k) x y stride bg out = do { out' \<leftarrow> lwrite out (y * stride + x) bg; clear_line k (x + 1) y stride bg out' }"

fun clear_bitmap :: "nat \<Rightarrow> int \<Rightarrow> nat \<Rightarrow> int \<Rightarrow> Color8888 \<Rightarrow> Color8888 list \<Rightarrow> Color8888 list option" where
  "clear_bitmap 0 y width stride bg out = Some out"
| "clear_bitmap (Suc k) y width stride bg out =
     do { out' \<leftarrow> clear_line width 0 y stride bg out; clear_bitmap k (y + 1) width stride bg out' }"

text \<open>\<open>for (; copyHeight > 0; copyHeight--)\<close>.\<close>

fun clear_rows :: "nat \<Rightarrow> int \<Rightarrow> nat \<Rightarrow> int \<Rightarrow> Color8888 list \<Rightarrow> Color8888 list option" where
  "clear_rows 0 dst copyWidth stride out = Some out"
| "clear_rows (Suc k) dst copyWidth stride out =
     do { out' \<leftarrow> setLineColor copyWidth dst TRANSPARENT out; clear_rows k (dst + stride) copyWidth stride out' }"

fun draw_rows :: "nat \<Rightarrow> int \<Rightarrow> int \<Rightarrow> nat \<Rightarrow> int \<Rightarrow> int \<Rightarrow> u8 list \<Rightarrow> ColorMapObject \<Rightarrow> int \<Rightarrow> Color8888 list \<Rightarrow>
    Color8888 list option" where
  "draw_rows 0 dst src copyWidth stride width raster cmap transparent out = Some out"
| "draw_rows (Suc k) dst src copyWidth stride width raster cmap transparent out =
     do { out' \<leftarrow> copyLine copyWidth dst src raster cmap transparent out;
          draw_rows k (dst + stride) (src + width) copyWidth stride width raster cmap transparent out' }"

definition dispose_previous :: "FrameSequence_gif \<Rightarrow> int \<Rightarrow> GraphicsControlBlock \<Rightarrow> SavedImage \<Rightarrow> FrameSequenceState_gif \<Rightarrow>
    Color8888 list \<Rightarrow> Color8888 list option" where
  "dispose_previous fs stride prevGcb prevFrame st out =
     (if DisposalMode prevGcb = DISPOSE_BACKGROUND then
        let d = ImageDesc prevFrame; (copyWidth, copyHeight) = getCopySize d (getWidth fs) (getHeight fs)
        in clear_rows (nat copyHeight) (Left d + Top d * stride) (nat copyWidth) stride out
      else if DisposalMode prevGcb = DISPOSE_PREVIOUS then restorePreserveBuffer fs stride st out
      else Some out)"

text \<open>The part of a turn before the frame itself is drawn.\<close>

definition prepare_frame :: "FrameSequence_gif \<Rightarrow> dgif \<Rightarrow> int \<Rightarrow> int \<Rightarrow> GraphicsControlBlock \<Rightarrow> SavedImage \<Rightarrow>
    FrameSequenceState_gif \<times> Color8888 list \<Rightarrow> (FrameSequenceState_gif \<times> Color8888 list) option" where
  "prepare_frame fs g stride i gcb frame s =
     (let (st, out) = s in
      if i = 0 then
        do { out' \<leftarrow> clear_bitmap (nat (getHeight fs)) 0 (nat (getWidth fs)) stride (mBgColor fs) out; Some (st, out') }
      else
        do { v \<leftarrow> saved_gcb g (i - 1) None;
             prevGcb \<leftarrow> v;
             imgs \<leftarrow> SavedImages g;
             prevFrame \<leftarrow> lread imgs (i - 1);
             let prevFrameDisposed = willBeCleared prevGcb;
             let newFrameOpaque = (TransparentColor gcb = NO_TRANSPARENT_COLOR);
             let prevFrameCompletelyCovered = (newFrameOpaque \<and> checkIfCover (ImageDesc frame) (ImageDesc prevFrame));
             out1 \<leftarrow> (if prevFrameDisposed \<and> \<not> prevFrameCompletelyCovered
                      then dispose_previous fs stride prevGcb prevFrame st out else Some out);
             preserve \<leftarrow> getPreservedFrame fs (i - 1);
             st1 \<leftarrow> (if preserve then savePreserveBuffer fs out1 stride (i - 1) st else Some st);
             Some (st1, out1) })"

definition frame_cmap :: "dgif \<Rightarrow> SavedImage \<Rightarrow> ColorMapObject option" where
  "frame_cmap g frame = (if ColorMap (ImageDesc frame) \<noteq> None then ColorMap (ImageDesc frame) else SColorMap g)"

definition paint_frame :: "FrameSequence_gif \<Rightarrow> dgif \<Rightarrow> int \<Rightarrow> GraphicsControlBlock \<Rightarrow> SavedImage \<Rightarrow>
    Color8888 list \<Rightarrow> Color8888 list option" where
  "paint_frame fs g stride gcb frame out =
     (case frame_cmap g frame of
        None \<Rightarrow> Some out
      | Some cmap \<Rightarrow>
          let d = ImageDesc frame; (copyWidth, copyHeight) = getCopySize d (getWidth fs) (getHeight fs)
          in case RasterBits frame of
               None \<Rightarrow> if copyHeight \<le> 0 \<or> copyWidth \<le> 0 then Some out else None
             | Some raster \<Rightarrow> draw_rows (nat copyHeight) (Left d + Top d * stride) 0 (nat copyWidth) stride (Width d) raster cmap
                                (TransparentColor gcb) out)"

definition draw_turn :: "FrameSequence_gif \<Rightarrow> dgif \<Rightarrow> int \<Rightarrow> int \<Rightarrow> int \<Rightarrow>
    FrameSequenceState_gif \<times> Color8888 list \<Rightarrow> (GraphicsControlBlock \<times> FrameSequenceState_gif \<times> Color8888 list) option" where
  "draw_turn fs g stride frameNr i s =
     do { v \<leftarrow> saved_gcb g i None;
          gcb \<leftarrow> v;
          imgs \<leftarrow> SavedImages g;
          frame \<leftarrow> lread imgs i;
          (st, out) \<leftarrow> prepare_frame fs g stride i gcb frame s;
          out' \<leftarrow> (if i = frameNr \<or> \<not> willBeCleared gcb then paint_frame fs g stride gcb frame out else Some out);
          Some (gcb, st, out') }"

fun draw_loop :: "FrameSequence_gif \<Rightarrow> dgif \<Rightarrow> int \<Rightarrow> int \<Rightarrow> nat \<Rightarrow> int \<Rightarrow> GraphicsControlBlock option \<times> FrameSequenceState_gif \<times> Color8888 list \<Rightarrow>
    (GraphicsControlBlock option \<times> FrameSequenceState_gif \<times> Color8888 list) option" where
  "draw_loop fs g stride frameNr 0 i s = Some s"
| "draw_loop fs g stride frameNr (Suc k) i s =
     do { (gcb, s') \<leftarrow> draw_turn fs g stride frameNr i (snd s); draw_loop fs g stride frameNr k (i + 1) (Some gcb, s') }"

text \<open>The loop that looks for a frame whose preserved predecessor is not in the buffer.\<close>

fun choose_start :: "FrameSequence_gif \<Rightarrow> FrameSequenceState_gif \<Rightarrow> nat \<Rightarrow> int \<Rightarrow> int \<Rightarrow> int option" where
  "choose_start fs st 0 i start = Some start"
| "choose_start fs st (Suc k) i start =
     do { neededPreservedFrame \<leftarrow> getRestoringFrame fs i;
          choose_start fs st k (i + 1)
            (if neededPreservedFrame \<ge> 0 \<and> mPreserveBufferFrame st \<noteq> neededPreservedFrame then 0 else start) }"

text \<open>\<open>%\<close> of C, which truncates.\<close>

definition c_mod :: "int \<Rightarrow> int \<Rightarrow> int option" where
  "c_mod a b = (if b = 0 then None else Some (if a < 0 then - ((- a) mod \<bar>b\<bar>) else a mod \<bar>b\<bar>))"

definition drawFrame :: "FrameSequence_gif \<Rightarrow> int \<Rightarrow> int \<Rightarrow> int \<Rightarrow> FrameSequenceState_gif \<times> Color8888 list \<Rightarrow>
    (int \<times> FrameSequenceState_gif \<times> Color8888 list) option" where
  "drawFrame fs frameNr outputPixelStride previousFrameNr s =
     (case mGif fs of
        None \<Rightarrow> Some (- 1, s)
      | Some g \<Rightarrow>
          do { let start0 = max (previousFrameNr + 1) 0;
               let i0 = max (start0 - 1) 0;
               start \<leftarrow> choose_start fs (fst s) (nat (frameNr - i0)) i0 start0;
               (gcb, s') \<leftarrow> draw_loop fs g outputPixelStride frameNr (nat (frameNr - start + 1)) start (None, s);
               lastFrame \<leftarrow> c_mod (frameNr + ImageCount g - 1) (ImageCount g);
               v \<leftarrow> saved_gcb g lastFrame gcb;
               gcb' \<leftarrow> v;
               Some (getDelayMs gcb', s') })"

end
