(* ===== verification/FrameDraw.thy ===== *)
theory FrameDraw
  imports FrameSeq
begin

text \<open>
  What the player draws.  Every drawing operation paints some pixels of a buffer with colours that do not
  depend on the buffer; \<open>paints\<close> states that of its loops.  The reference is the composition of the frames of
  the GIF specification, \<open>before\<close> and \<open>displayed\<close>; the main theorem says that \<open>drawFrame\<close>, incremental or from
  scratch, produces the picture \<open>displayed\<close> and keeps the preserve buffer right.
\<close>

section \<open>Pixels\<close>

definition pix :: "int \<Rightarrow> 'a list \<Rightarrow> int \<Rightarrow> int \<Rightarrow> 'a" where
  "pix s out x y = out ! nat (y * s + x)"

text \<open>The colours \<open>P\<close> put over what is there.\<close>

definition overlay :: "'a option \<Rightarrow> 'a \<Rightarrow> 'a" where
  "overlay p c = (case p of None \<Rightarrow> c | Some v \<Rightarrow> v)"

lemma overlay_simps [simp]: "overlay None c = c" "overlay (Some v) c = v"
  by (simp_all add: overlay_def)

definition paints :: "int \<Rightarrow> (int \<Rightarrow> int \<Rightarrow> 'a option) \<Rightarrow> 'a list \<Rightarrow> 'a list \<Rightarrow> bool" where
  "paints s P out out' \<longleftrightarrow> length out' = length out \<and>
     (\<forall>x y. 0 \<le> x \<and> x < s \<and> 0 \<le> y \<longrightarrow> pix s out' x y = overlay (P x y) (pix s out x y))"

lemma paints_length: "paints s P out out' \<Longrightarrow> length out' = length out"
  by (simp add: paints_def)

lemma paints_pix: "paints s P out out' \<Longrightarrow> 0 \<le> x \<Longrightarrow> x < s \<Longrightarrow> 0 \<le> y \<Longrightarrow> pix s out' x y = overlay (P x y) (pix s out x y)"
  by (simp add: paints_def)

lemma paints_none [simp]: "paints s (\<lambda>x y. None) out out"
  by (simp add: paints_def)

lemma paints_then:
  assumes "paints s P a b" "paints s Q b c"
    and "\<And>x y. R x y = (case Q x y of None \<Rightarrow> P x y | Some v \<Rightarrow> Some v)"
  shows "paints s R a c"
  using assms by (auto simp: paints_def overlay_def split: option.splits)

lemma index_eq:
  fixes s :: int
  assumes "0 \<le> x" "x < s" "0 \<le> x'" "x' < s"
  shows "y * s + x = y' * s + x' \<longleftrightarrow> x = x' \<and> y = y'"
proof
  assume eq: "y * s + x = y' * s + x'"
  have "(y * s + x) div s = y" "(y' * s + x') div s = y'" using assms by simp_all
  with eq have "y = y'" by simp
  with eq show "x = x' \<and> y = y'" by simp
qed simp

lemma index_nonneg: "0 \<le> x \<Longrightarrow> 0 \<le> y \<Longrightarrow> 0 < s \<Longrightarrow> 0 \<le> y * s + (x :: int)"
  by simp

text \<open>The pixels of \<open>h\<close> rows lie in a buffer of \<open>h\<close> times the stride.\<close>

lemma index_less:
  fixes s :: int
  assumes "x < s" "y < h" "0 \<le> s" "h * s \<le> n"
  shows "y * s + x < n"
proof -
  have "(y + 1) * s \<le> h * s" using assms by (intro mult_right_mono) auto
  then show ?thesis using assms by (simp add: algebra_simps)
qed

lemma paints_pixel:
  assumes "0 \<le> x0" "x0 < s" "0 \<le> y0" "y0 * s + x0 < int (length out)"
  shows "\<exists>out'. lwrite out (y0 * s + x0) c = Some out' \<and> paints s (\<lambda>x y. if x = x0 \<and> y = y0 then Some c else None) out out'"
proof -
  have i: "0 \<le> y0 * s + x0" using assms by (intro index_nonneg) auto
  have "pix s (out[nat (y0 * s + x0) := c]) x y = overlay (if x = x0 \<and> y = y0 then Some c else None) (pix s out x y)"
    if "0 \<le> x" "x < s" "0 \<le> y" for x y
  proof -
    have j: "0 \<le> y * s + x" using that by (intro index_nonneg) auto
    have "nat (y * s + x) = nat (y0 * s + x0) \<longleftrightarrow> x = x0 \<and> y = y0"
      using index_eq [of x s x0 y y0] assms that i j by (simp add: eq_nat_nat_iff)
    then show ?thesis using i assms(4) by (auto simp: pix_def)
  qed
  then show ?thesis using assms(4) i by (simp add: paints_def)
qed

section \<open>Lines\<close>

definition segment :: "int \<Rightarrow> int \<Rightarrow> nat \<Rightarrow> int \<Rightarrow> int \<Rightarrow> bool" where
  "segment x0 y0 k x y \<longleftrightarrow> y = y0 \<and> x0 \<le> x \<and> x < x0 + int k"

lemma segment_0 [simp]: "\<not> segment x0 y0 0 x y"
  by (simp add: segment_def)

lemma setLineColor_paints:
  assumes "0 \<le> x0" "x0 + int k \<le> s" "0 \<le> y0" "y0 * s + x0 + int k \<le> int (length out)"
  shows "\<exists>out'. setLineColor k (y0 * s + x0) c out = Some out' \<and>
     paints s (\<lambda>x y. if segment x0 y0 k x y then Some c else None) out out'"
  using assms
proof (induction k arbitrary: x0 out)
  case 0
  then show ?case by simp
next
  case (Suc k)
  obtain o1 where o1: "lwrite out (y0 * s + x0) c = Some o1" "paints s (\<lambda>x y. if x = x0 \<and> y = y0 then Some c else None) out o1"
    using paints_pixel [of x0 s y0 out c] Suc.prems by auto
  have "\<exists>out'. setLineColor k (y0 * s + (x0 + 1)) c o1 = Some out' \<and>
     paints s (\<lambda>x y. if segment (x0 + 1) y0 k x y then Some c else None) o1 out'"
    by (rule Suc.IH) (use Suc.prems paints_length [OF o1(2)] in auto)
  then obtain o2 where o2: "setLineColor k (y0 * s + x0 + 1) c o1 = Some o2"
    "paints s (\<lambda>x y. if segment (x0 + 1) y0 k x y then Some c else None) o1 o2" by (auto simp: add.assoc)
  have "paints s (\<lambda>x y. if segment x0 y0 (Suc k) x y then Some c else None) out o2"
    by (rule paints_then [OF o1(2) o2(2)]) (auto simp: segment_def)
  with o1(1) o2(1) show ?case by simp
qed

lemma clear_line_paints:
  assumes "0 \<le> x0" "x0 + int k \<le> s" "0 \<le> y0" "y0 * s + x0 + int k \<le> int (length out)"
  shows "\<exists>out'. clear_line k x0 y0 s c out = Some out' \<and>
     paints s (\<lambda>x y. if segment x0 y0 k x y then Some c else None) out out'"
proof -
  have "clear_line k x0 y0 s c out = setLineColor k (y0 * s + x0) c out" for x0 out
    by (induction k arbitrary: x0 out) (simp_all add: add.assoc [symmetric] cong: bind_option_cong)
  then show ?thesis using setLineColor_paints [OF assms] by simp
qed

text \<open>The colour that byte \<open>j\<close> of a raster stands for, if it has one.\<close>

definition raster_px :: "u8 list \<Rightarrow> ColorMapObject \<Rightarrow> int \<Rightarrow> int \<Rightarrow> Color8888 option" where
  "raster_px raster cmap transparent j =
     (let b = raster ! nat j in
      if uint b \<noteq> transparent \<and> uint b < ColorCount cmap then Some (gifColorToColor8888 (Colors cmap ! unat b)) else None)"

lemma copyLine_paints:
  assumes "0 \<le> x0" "x0 + int k \<le> s" "0 \<le> y0" "y0 * s + x0 + int k \<le> int (length out)"
    and "0 \<le> src" "src + int k \<le> int (length raster)" "ColorCount cmap \<le> int (length (Colors cmap))"
  shows "\<exists>out'. copyLine k (y0 * s + x0) src raster cmap t out = Some out' \<and>
     paints s (\<lambda>x y. if segment x0 y0 k x y then raster_px raster cmap t (src + (x - x0)) else None) out out'"
  using assms
proof (induction k arbitrary: x0 src out)
  case 0
  then show ?case by simp
next
  case (Suc k)
  let ?p = "raster_px raster cmap t src"
  have eq: "src + 1 + (x - (x0 + 1)) = src + (x - x0)" for x by simp
  have "\<exists>o1. (case p of None \<Rightarrow> Some out | Some c \<Rightarrow> lwrite out (y0 * s + x0) c) = Some o1 \<and>
      paints s (\<lambda>x y. if x = x0 \<and> y = y0 then p else None) out o1" for p
    using paints_pixel [of x0 s y0 out] Suc.prems by (cases p) auto
  then obtain o1 where o1: "(case ?p of None \<Rightarrow> Some out | Some c \<Rightarrow> lwrite out (y0 * s + x0) c) = Some o1"
    "paints s (\<lambda>x y. if x = x0 \<and> y = y0 then ?p else None) out o1" by blast
  have "\<exists>out'. copyLine k (y0 * s + (x0 + 1)) (src + 1) raster cmap t o1 = Some out' \<and>
     paints s (\<lambda>x y. if segment (x0 + 1) y0 k x y then raster_px raster cmap t (src + 1 + (x - (x0 + 1))) else None) o1 out'"
    by (rule Suc.IH) (use Suc.prems paints_length [OF o1(2)] in auto)
  then obtain o2 where o2: "copyLine k (y0 * s + x0 + 1) (src + 1) raster cmap t o1 = Some o2"
    "paints s (\<lambda>x y. if segment (x0 + 1) y0 k x y then raster_px raster cmap t (src + (x - x0)) else None) o1 o2"
    unfolding eq by (auto simp: add.assoc)
  have "paints s (\<lambda>x y. if segment x0 y0 (Suc k) x y then raster_px raster cmap t (src + (x - x0)) else None) out o2"
    by (rule paints_then [OF o1(2) o2(2)]) (auto simp: segment_def split: option.splits)
  moreover have "copyLine (Suc k) (y0 * s + x0) src raster cmap t out = Some o2"
  proof -
    have "lread raster src = Some (raster ! nat src)" using Suc.prems by simp
    moreover have "uint b < ColorCount cmap \<Longrightarrow> lread (Colors cmap) (uint b) = Some (Colors cmap ! unat b)" for b :: u8
      using Suc.prems(7) by (simp add: unsigned_greater_eq flip: nat_uint_eq)
    ultimately show ?thesis using o1(1) o2(1) by (auto simp: raster_px_def Let_def)
  qed
  ultimately show ?case by blast
qed

section \<open>Rectangles\<close>

definition rect :: "int \<Rightarrow> int \<Rightarrow> nat \<Rightarrow> nat \<Rightarrow> int \<Rightarrow> int \<Rightarrow> bool" where
  "rect x0 y0 w h x y \<longleftrightarrow> x0 \<le> x \<and> x < x0 + int w \<and> y0 \<le> y \<and> y < y0 + int h"

lemma rect_0 [simp]: "\<not> rect x0 y0 w 0 x y"
  by (simp add: rect_def)

lemma rect_nat: "rect x0 y0 (nat w) (nat h) x y \<longleftrightarrow> x0 \<le> x \<and> x - x0 < w \<and> y0 \<le> y \<and> y - y0 < h"
  by (auto simp: rect_def)

lemma rect_Suc: "rect x0 y0 w (Suc h) x y \<longleftrightarrow> segment x0 y0 w x y \<or> rect x0 (y0 + 1) w h x y"
  by (auto simp: rect_def segment_def)

lemma segment_not_rect: "segment x0 y0 w x y \<Longrightarrow> \<not> rect x0 (y0 + 1) w h x y"
  by (simp add: rect_def segment_def)

lemma row_inside:
  fixes s :: int
  assumes "y0 + int (Suc k) \<le> h" "h * s \<le> n" "0 \<le> x0" "x0 + int w \<le> s"
  shows "y0 * s + x0 + int w \<le> n"
proof -
  have "(y0 + 1) * s \<le> h * s" using assms by (intro mult_right_mono) auto
  then show ?thesis using assms by (simp add: algebra_simps)
qed

lemma clear_rows_paints:
  assumes "0 \<le> x0" "x0 + int w \<le> s" "0 \<le> y0" "y0 + int k \<le> h" "h * s \<le> int (length out)"
  shows "\<exists>out'. clear_rows k (x0 + y0 * s) w s out = Some out' \<and>
     paints s (\<lambda>x y. if rect x0 y0 w k x y then Some TRANSPARENT else None) out out'"
  using assms
proof (induction k arbitrary: y0 out)
  case 0
  then show ?case by simp
next
  case (Suc k)
  obtain o1 where o1: "setLineColor w (y0 * s + x0) TRANSPARENT out = Some o1"
    "paints s (\<lambda>x y. if segment x0 y0 w x y then Some TRANSPARENT else None) out o1"
    using setLineColor_paints [of x0 w s y0 out TRANSPARENT] row_inside [OF Suc.prems(4,5,1,2)] Suc.prems by auto
  have "\<exists>out'. clear_rows k (x0 + (y0 + 1) * s) w s o1 = Some out' \<and>
     paints s (\<lambda>x y. if rect x0 (y0 + 1) w k x y then Some TRANSPARENT else None) o1 out'"
    by (rule Suc.IH) (use Suc.prems paints_length [OF o1(2)] in auto)
  then obtain o2 where o2: "clear_rows k (x0 + (y0 + 1) * s) w s o1 = Some o2"
    "paints s (\<lambda>x y. if rect x0 (y0 + 1) w k x y then Some TRANSPARENT else None) o1 o2" by blast
  have "paints s (\<lambda>x y. if rect x0 y0 w (Suc k) x y then Some TRANSPARENT else None) out o2"
    by (rule paints_then [OF o1(2) o2(2)]) (auto simp: rect_Suc)
  with o1(1) o2(1) show ?case by (simp add: algebra_simps)
qed

lemma clear_bitmap_paints:
  assumes "int w \<le> s" "0 \<le> y0" "y0 + int k \<le> h" "h * s \<le> int (length out)"
  shows "\<exists>out'. clear_bitmap k y0 w s c out = Some out' \<and>
     paints s (\<lambda>x y. if rect 0 y0 w k x y then Some c else None) out out'"
  using assms
proof (induction k arbitrary: y0 out)
  case 0
  then show ?case by simp
next
  case (Suc k)
  obtain o1 where o1: "clear_line w 0 y0 s c out = Some o1"
    "paints s (\<lambda>x y. if segment 0 y0 w x y then Some c else None) out o1"
    using clear_line_paints [of 0 w s y0 out c] row_inside [OF Suc.prems(3,4), of 0 w] Suc.prems by auto
  have "\<exists>out'. clear_bitmap k (y0 + 1) w s c o1 = Some out' \<and>
     paints s (\<lambda>x y. if rect 0 (y0 + 1) w k x y then Some c else None) o1 out'"
    by (rule Suc.IH) (use Suc.prems paints_length [OF o1(2)] in auto)
  then obtain o2 where o2: "clear_bitmap k (y0 + 1) w s c o1 = Some o2"
    "paints s (\<lambda>x y. if rect 0 (y0 + 1) w k x y then Some c else None) o1 o2" by blast
  have "paints s (\<lambda>x y. if rect 0 y0 w (Suc k) x y then Some c else None) out o2"
    by (rule paints_then [OF o1(2) o2(2)]) (auto simp: rect_Suc)
  with o1(1) o2(1) show ?case by simp
qed

lemma draw_rows_paints:
  assumes "0 \<le> x0" "x0 + int w \<le> s" "0 \<le> y0" "y0 + int k \<le> h" "h * s \<le> int (length out)"
    and "0 \<le> src" "int w \<le> W" "src + int k * W \<le> int (length raster)" "ColorCount cmap \<le> int (length (Colors cmap))"
  shows "\<exists>out'. draw_rows k (x0 + y0 * s) src w s W raster cmap t out = Some out' \<and>
     paints s (\<lambda>x y. if rect x0 y0 w k x y then raster_px raster cmap t (src + (y - y0) * W + (x - x0)) else None) out out'"
  using assms
proof (induction k arbitrary: y0 src out)
  case 0
  then show ?case by simp
next
  case (Suc k)
  have eq: "src + W + (y - (y0 + 1)) * W + (x - x0) = src + (y - y0) * W + (x - x0)" for x y by (simp add: algebra_simps)
  have W: "0 \<le> int k * W" "src + W + int k * W \<le> int (length raster)" using Suc.prems(7,8) by (simp_all add: algebra_simps)
  obtain o1 where o1: "copyLine w (y0 * s + x0) src raster cmap t out = Some o1"
    "paints s (\<lambda>x y. if segment x0 y0 w x y then raster_px raster cmap t (src + (x - x0)) else None) out o1"
    using copyLine_paints [of x0 w s y0 out src raster cmap t] row_inside [OF Suc.prems(4,5,1,2)] Suc.prems W by auto
  have "\<exists>out'. draw_rows k (x0 + (y0 + 1) * s) (src + W) w s W raster cmap t o1 = Some out' \<and>
     paints s (\<lambda>x y. if rect x0 (y0 + 1) w k x y then raster_px raster cmap t (src + W + (y - (y0 + 1)) * W + (x - x0)) else None) o1 out'"
    by (rule Suc.IH) (use Suc.prems W paints_length [OF o1(2)] in auto)
  then obtain o2 where o2: "draw_rows k (x0 + (y0 + 1) * s) (src + W) w s W raster cmap t o1 = Some o2"
    "paints s (\<lambda>x y. if rect x0 (y0 + 1) w k x y then raster_px raster cmap t (src + (y - y0) * W + (x - x0)) else None) o1 o2"
    unfolding eq by blast
  have "paints s (\<lambda>x y. if rect x0 y0 w (Suc k) x y then raster_px raster cmap t (src + (y - y0) * W + (x - x0)) else None) out o2"
    by (rule paints_then [OF o1(2) o2(2)]) (auto simp: rect_Suc segment_not_rect segment_def split: option.splits)
  with o1(1) o2(1) show ?case by (simp add: algebra_simps)
qed

text \<open>Copying lines between the bitmap and the preserve buffer.\<close>

lemma segment_index:
  fixes ds :: int
  assumes "int w \<le> ds" "0 \<le> y" "0 \<le> x" "x < ds" "0 \<le> y'"
  shows "segment 0 y w x y' \<longleftrightarrow> nat (ds * y) \<le> nat (y' * ds + x) \<and> nat (y' * ds + x) < nat (ds * y) + w"
proof (cases "y' = y")
  case True
  then show ?thesis using assms by (auto simp: segment_def mult.commute nat_add_distrib)
next
  case False
  have nn: "0 \<le> y' * ds + x" "0 \<le> ds * y" using assms by auto
  have "y' * ds + x < y * ds \<or> y * ds + int w \<le> y' * ds + x"
  proof (cases "y' < y")
    case True
    with index_less [of x ds y' y "y * ds"] assms show ?thesis by simp
  next
    case ge: False
    with False have "(y + 1) * ds \<le> y' * ds" using assms by (intro mult_right_mono) auto
    then show ?thesis using assms by (simp add: algebra_simps)
  qed
  then show ?thesis using False nn by (auto simp: segment_def mult.commute)
qed

lemma blit_nth:
  assumes "d + w \<le> length a" "s + w \<le> length b"
  shows "(take d a @ take w (drop s b) @ drop (d + w) a) ! i = (if d \<le> i \<and> i < d + w then b ! (s + (i - d)) else a ! i)"
proof -
  consider "i < d" | "d \<le> i" "i < d + w" | "d + w \<le> i" by linarith
  then show ?thesis
  proof cases
    case 2
    then have "i - d < length b - s" "i - d < w" using assms by linarith+
    with 2 assms show ?thesis by (simp add: nth_append)
  next
    case 3
    have "length (take d a @ take w (drop s b)) = d + w" using assms by auto
    with 3 assms show ?thesis unfolding append_assoc [symmetric] by (subst nth_append) simp
  qed (use assms in \<open>simp add: nth_append\<close>)
qed

lemma memcpy_px_paints:
  assumes "int w \<le> ds" "int w \<le> ss" "0 \<le> y" "y * ds + int w \<le> int (length dst)" "y * ss + int w \<le> int (length src)"
  shows "\<exists>dst'. memcpy_px dst (ds * y) src (ss * y) w = Some dst' \<and>
     paints ds (\<lambda>x y'. if segment 0 y w x y' then Some (pix ss src x y) else None) dst dst'"
proof (cases "w = 0")
  case True
  then show ?thesis by (simp add: memcpy_px_def)
next
  case False
  let ?d = "nat (ds * y)" and ?s = "nat (ss * y)"
  have nn: "0 \<le> ds * y" "0 \<le> ss * y" using assms False by auto
  have le: "ds * y + int w \<le> int (length dst)" "ss * y + int w \<le> int (length src)"
    using assms(4,5) by (simp_all add: mult.commute)
  then have b: "?d + w \<le> length dst" "?s + w \<le> length src" using nn by linarith+
  let ?dst = "take ?d dst @ take w (drop ?s src) @ drop (?d + w) dst"
  have "pix ds ?dst x y' = overlay (if segment 0 y w x y' then Some (pix ss src x y) else None) (pix ds dst x y')"
    if "0 \<le> x" "x < ds" "0 \<le> y'" for x y'
  proof -
    have "nat (y * ss + x) = ?s + (nat (y' * ds + x) - ?d)" if "segment 0 y w x y'"
      using that nn by (auto simp: segment_def nat_add_distrib mult.commute)
    then show ?thesis
      using segment_index [OF assms(1,3) that] unfolding pix_def blit_nth [OF b] by auto
  qed
  then show ?thesis using False nn le b by (simp add: memcpy_px_def paints_def)
qed

lemma copy_rows_paints:
  assumes "int w \<le> ds" "int w \<le> ss" "0 \<le> y0" "y0 + int k \<le> h" "h * ds \<le> int (length dst)" "h * ss \<le> int (length src)"
  shows "\<exists>dst'. copy_rows k y0 w ds ss src dst = Some dst' \<and>
     paints ds (\<lambda>x y. if rect 0 y0 w k x y then Some (pix ss src x y) else None) dst dst'"
  using assms
proof (induction k arbitrary: y0 dst)
  case 0
  then show ?case by simp
next
  case (Suc k)
  have "y0 * ds + int w \<le> int (length dst)" "y0 * ss + int w \<le> int (length src)"
    using row_inside [OF Suc.prems(4,5), of 0 w] row_inside [OF Suc.prems(4,6), of 0 w] Suc.prems by auto
  then obtain o1 where o1: "memcpy_px dst (ds * y0) src (ss * y0) w = Some o1"
    "paints ds (\<lambda>x y'. if segment 0 y0 w x y' then Some (pix ss src x y0) else None) dst o1"
    using memcpy_px_paints [of w ds ss y0 dst src] Suc.prems by auto
  have "\<exists>out'. copy_rows k (y0 + 1) w ds ss src o1 = Some out' \<and>
     paints ds (\<lambda>x y. if rect 0 (y0 + 1) w k x y then Some (pix ss src x y) else None) o1 out'"
    by (rule Suc.IH) (use Suc.prems paints_length [OF o1(2)] in auto)
  then obtain o2 where o2: "copy_rows k (y0 + 1) w ds ss src o1 = Some o2"
    "paints ds (\<lambda>x y. if rect 0 (y0 + 1) w k x y then Some (pix ss src x y) else None) o1 o2" by blast
  have "paints ds (\<lambda>x y. if rect 0 y0 w (Suc k) x y then Some (pix ss src x y) else None) dst o2"
    by (rule paints_then [OF o1(2) o2(2)]) (auto simp: rect_Suc segment_def)
  with o1(1) o2(1) show ?case by simp
qed

section \<open>The pictures of an animation\<close>

text \<open>The frames of a file, their graphics blocks and the colours they give to the pixels of the screen.\<close>

definition frame_at :: "dgif \<Rightarrow> nat \<Rightarrow> SavedImage" where
  "frame_at g i = (case SavedImages g of None \<Rightarrow> zero_image | Some imgs \<Rightarrow> imgs ! i)"

definition gcb_at :: "dgif \<Rightarrow> nat \<Rightarrow> GraphicsControlBlock" where
  "gcb_at g i = the (the (saved_gcb g (int i) None))"

definition frame_px :: "dgif \<Rightarrow> nat \<Rightarrow> int \<Rightarrow> int \<Rightarrow> Color8888 option" where
  "frame_px g i x y =
     (let d = ImageDesc (frame_at g i) in
      case (frame_cmap g (frame_at g i), RasterBits (frame_at g i)) of
        (Some cmap, Some raster) \<Rightarrow>
          if rect (Left d) (Top d) (nat (Width d)) (nat (Height d)) x y
          then raster_px raster cmap (TransparentColor (gcb_at g i)) ((y - Top d) * Width d + (x - Left d)) else None
      | _ \<Rightarrow> None)"

abbreviation in_frame :: "dgif \<Rightarrow> nat \<Rightarrow> int \<Rightarrow> int \<Rightarrow> bool" where
  "in_frame g i \<equiv> rect (Left (ImageDesc (frame_at g i))) (Top (ImageDesc (frame_at g i)))
     (nat (Width (ImageDesc (frame_at g i)))) (nat (Height (ImageDesc (frame_at g i))))"

text \<open>The screen before frame \<open>i\<close> is drawn, and the picture with it.  After its time a frame is left in place,
  its area is cleared, or what was there before it comes back.\<close>

fun before :: "dgif \<Rightarrow> Color8888 \<Rightarrow> nat \<Rightarrow> int \<Rightarrow> int \<Rightarrow> Color8888" where
  "before g bg 0 x y = bg"
| "before g bg (Suc i) x y =
     (if DisposalMode (gcb_at g i) = DISPOSE_BACKGROUND then (if in_frame g i x y then TRANSPARENT else before g bg i x y)
      else if DisposalMode (gcb_at g i) = DISPOSE_PREVIOUS then before g bg i x y
      else overlay (frame_px g i x y) (before g bg i x y))"

definition displayed :: "dgif \<Rightarrow> Color8888 \<Rightarrow> nat \<Rightarrow> int \<Rightarrow> int \<Rightarrow> Color8888" where
  "displayed g bg i x y = overlay (frame_px g i x y) (before g bg i x y)"

text \<open>The last frame before \<open>i\<close> that stays.\<close>

fun last_kept :: "dgif \<Rightarrow> nat \<Rightarrow> nat option" where
  "last_kept g 0 = None"
| "last_kept g (Suc i) = (if willBeCleared (gcb_at g i) then last_kept g i else Some i)"

lemma last_kept_Some: "last_kept g i = Some f \<Longrightarrow> f < i \<and> \<not> willBeCleared (gcb_at g f)"
  by (induction i) (auto split: if_splits)

lemma last_kept_upper: "last_kept g i = Some f \<Longrightarrow> f < j \<Longrightarrow> j < i \<Longrightarrow> willBeCleared (gcb_at g j)"
  by (induction i) (auto split: if_splits simp: less_Suc_eq)

text \<open>What a file needs to be played: a frame lies to the right of and below the corner, has all its pixels
  and colours, and its graphics block can be read.\<close>

definition map_full :: "ColorMapObject option \<Rightarrow> bool" where
  "map_full m = (case m of None \<Rightarrow> True | Some c \<Rightarrow> ColorCount c \<le> int (length (Colors c)))"

definition frame_ok :: "SavedImage \<Rightarrow> bool" where
  "frame_ok img = (let d = ImageDesc img in
     0 \<le> Left d \<and> 0 \<le> Top d \<and> 0 \<le> Width d \<and> 0 \<le> Height d \<and> map_full (ColorMap d) \<and>
     (case RasterBits img of None \<Rightarrow> False | Some r \<Rightarrow> Width d * Height d \<le> int (length r)))"

definition readable_gcb :: "dgif \<Rightarrow> nat \<Rightarrow> bool" where
  "readable_gcb g i = (case DGifSavedExtensionToGCB g (int i) of None \<Rightarrow> False | Some _ \<Rightarrow> True)"

definition playable :: "dgif \<Rightarrow> bool" where
  "playable g \<longleftrightarrow> 0 < ImageCount g \<and> 0 \<le> SWidth g \<and> 0 \<le> SHeight g \<and> map_full (SColorMap g) \<and>
     (case SavedImages g of None \<Rightarrow> False | Some imgs \<Rightarrow> nat (ImageCount g) \<le> length imgs) \<and>
     (\<forall>i < nat (ImageCount g). frame_ok (frame_at g i) \<and> readable_gcb g i)"

text \<open>Two conditions on the file under which the player shows the pictures of the specification: a frame to be
  undone by restoring is neither the first one nor directly behind one whose area is cleared, and a frame
  without a transparent colour uses only colours of its map.\<close>

definition restorable :: "dgif \<Rightarrow> bool" where
  "restorable g \<longleftrightarrow> (\<forall>i < nat (ImageCount g). DisposalMode (gcb_at g i) = DISPOSE_PREVIOUS \<longrightarrow>
     0 < i \<and> DisposalMode (gcb_at g (i - 1)) \<noteq> DISPOSE_BACKGROUND)"

definition opaque_full :: "dgif \<Rightarrow> bool" where
  "opaque_full g \<longleftrightarrow> (\<forall>i < nat (ImageCount g). TransparentColor (gcb_at g i) = NO_TRANSPARENT_COLOR \<longrightarrow>
     (case frame_cmap g (frame_at g i) of None \<Rightarrow> False | Some m \<Rightarrow>
       (case RasterBits (frame_at g i) of None \<Rightarrow> False | Some r \<Rightarrow> (\<forall>b \<in> set r. uint b < ColorCount m))))"

lemma playable_frame:
  assumes "playable g" "i < nat (ImageCount g)"
  shows "saved_gcb g (int i) v = Some (Some (gcb_at g i))" "\<exists>imgs. SavedImages g = Some imgs \<and> lread imgs (int i) = Some (frame_at g i)"
    "frame_ok (frame_at g i)"
  using assms
  by (auto simp: playable_def gcb_at_def saved_gcb_def readable_gcb_def frame_at_def split: option.splits)

lemma frame_cmap_full: "playable g \<Longrightarrow> i < nat (ImageCount g) \<Longrightarrow> map_full (frame_cmap g (frame_at g i))"
  by (auto simp: playable_def frame_cmap_def frame_ok_def Let_def)

text \<open>A frame that restores finds the screen as the last frame that stays has left it.\<close>

lemma before_previous:
  assumes r: "restorable g" and "i < nat (ImageCount g)" "DisposalMode (gcb_at g i) = DISPOSE_PREVIOUS"
  shows "\<exists>f. last_kept g i = Some f \<and> before g bg (Suc f) = before g bg i"
  using assms(2-)
proof (induction i)
  case 0
  with r have "0 < (0 :: nat)" unfolding restorable_def by blast
  then show ?case by simp
next
  case (Suc i)
  have nb: "DisposalMode (gcb_at g i) \<noteq> DISPOSE_BACKGROUND" using r Suc.prems by (auto simp: restorable_def)
  show ?case
  proof (cases "DisposalMode (gcb_at g i) = DISPOSE_PREVIOUS")
    case True
    then obtain f where f: "last_kept g i = Some f" "before g bg (Suc f) = before g bg i"
      using Suc.IH Suc.prems(1) Suc_lessD by blast
    have "before g bg (Suc i) = before g bg i" using True nb by (intro ext) (simp add: DISPOSE_BACKGROUND_def DISPOSE_PREVIOUS_def)
    with f True show ?thesis by (simp add: willBeCleared_def del: before.simps)
  next
    case False
    with nb show ?thesis by (simp add: willBeCleared_def)
  qed
qed

section \<open>The operations on the visible pixels\<close>

definition visible :: "dgif \<Rightarrow> int \<Rightarrow> int \<Rightarrow> bool" where
  "visible g x y \<longleftrightarrow> 0 \<le> x \<and> x < SWidth g \<and> 0 \<le> y \<and> y < SHeight g"

definition draws :: "dgif \<Rightarrow> int \<Rightarrow> (int \<Rightarrow> int \<Rightarrow> Color8888 option) \<Rightarrow> Color8888 list \<Rightarrow> Color8888 list \<Rightarrow> bool" where
  "draws g s P out out' \<longleftrightarrow> length out' = length out \<and>
     (\<forall>x y. visible g x y \<longrightarrow> pix s out' x y = overlay (P x y) (pix s out x y))"

definition bitmap :: "dgif \<Rightarrow> int \<Rightarrow> Color8888 list \<Rightarrow> bool" where
  "bitmap g s out \<longleftrightarrow> 0 \<le> SWidth g \<and> 0 \<le> SHeight g \<and> SWidth g \<le> s \<and> SHeight g * s \<le> int (length out)"

lemma bitmap_length: "bitmap g s out \<Longrightarrow> length out' = length out \<Longrightarrow> bitmap g s out'"
  by (simp add: bitmap_def)

lemma paints_draws:
  assumes "paints s P out out'" "bitmap g s out" "\<And>x y. visible g x y \<Longrightarrow> Q x y = P x y"
  shows "draws g s Q out out'"
  using assms by (auto simp: paints_def draws_def visible_def bitmap_def)

lemma draws_same: "(\<And>x y. visible g x y \<Longrightarrow> P x y = None) \<Longrightarrow> draws g s P out out"
  by (simp add: draws_def)

text \<open>The part of a frame inside the screen.\<close>

lemma getCopySize_clips:
  assumes "getCopySize d w h = (cw, ch)" "0 \<le> Left d" "0 \<le> Top d"
  shows "0 \<le> x \<Longrightarrow> x < w \<Longrightarrow> 0 \<le> y \<Longrightarrow> y < h \<Longrightarrow>
      rect (Left d) (Top d) (nat cw) (nat ch) x y \<longleftrightarrow> rect (Left d) (Top d) (nat (Width d)) (nat (Height d)) x y"
    and "0 < cw \<Longrightarrow> Left d + cw \<le> w" "0 < ch \<Longrightarrow> Top d + ch \<le> h" "cw \<le> Width d" "ch \<le> Height d"
  using assms by (auto simp: getCopySize_def rect_def split: if_splits)

lemma clear_rows_empty: "clear_rows k dst 0 s out = Some out"
  by (induction k arbitrary: dst) simp_all

lemma draw_rows_empty: "draw_rows k dst src 0 s W raster cmap t out = Some out"
  by (induction k arbitrary: dst src) simp_all

lemma clear_frame_draws:
  assumes ok: "frame_ok (frame_at g i)" and bm: "bitmap g s out"
    and sz: "getCopySize (ImageDesc (frame_at g i)) (SWidth g) (SHeight g) = (cw, ch)"
  defines "d \<equiv> ImageDesc (frame_at g i)"
  shows "\<exists>out'. clear_rows (nat ch) (Left d + Top d * s) (nat cw) s out = Some out' \<and>
     draws g s (\<lambda>x y. if in_frame g i x y then Some TRANSPARENT else None) out out'"
proof -
  have pos: "0 \<le> Left d" "0 \<le> Top d" using ok by (simp_all add: frame_ok_def d_def Let_def)
  note clip = getCopySize_clips [OF sz [folded d_def] pos]
  have eq: "in_frame g i x y \<longleftrightarrow> rect (Left d) (Top d) (nat cw) (nat ch) x y" if "visible g x y" for x y
    using clip(1) [of x y] that by (simp add: visible_def d_def)
  show ?thesis
  proof (cases "0 < cw \<and> 0 < ch")
    case True
    obtain out' where o: "clear_rows (nat ch) (Left d + Top d * s) (nat cw) s out = Some out'"
      "paints s (\<lambda>x y. if rect (Left d) (Top d) (nat cw) (nat ch) x y then Some TRANSPARENT else None) out out'"
      using clear_rows_paints [of "Left d" "nat cw" s "Top d" "nat ch" "SHeight g" out] True clip pos bm
      by (auto simp: bitmap_def)
    have "draws g s (\<lambda>x y. if in_frame g i x y then Some TRANSPARENT else None) out out'"
      by (rule paints_draws [OF o(2) bm]) (simp add: eq)
    with o(1) show ?thesis by blast
  next
    case False
    then have "clear_rows (nat ch) (Left d + Top d * s) (nat cw) s out = Some out" by (auto simp: clear_rows_empty)
    moreover have "\<not> in_frame g i x y" if "visible g x y" for x y using eq [OF that] False by (auto simp: rect_def)
    ultimately show ?thesis by (auto intro!: draws_same)
  qed
qed

lemma paint_frame_draws:
  assumes pl: "playable g" and i: "i < nat (ImageCount g)" and bm: "bitmap g s out"
    and fs: "getWidth fs = SWidth g" "getHeight fs = SHeight g"
  shows "\<exists>out'. paint_frame fs g s (gcb_at g i) (frame_at g i) out = Some out' \<and> draws g s (frame_px g i) out out'"
proof (cases "frame_cmap g (frame_at g i)")
  case None
  then show ?thesis by (auto simp: paint_frame_def frame_px_def Let_def intro: draws_same)
next
  case (Some m)
  define d where "d = ImageDesc (frame_at g i)"
  obtain r where r: "RasterBits (frame_at g i) = Some r" "Width d * Height d \<le> int (length r)"
    and pos: "0 \<le> Left d" "0 \<le> Top d" "0 \<le> Width d" "0 \<le> Height d"
    using playable_frame(3) [OF pl i] by (auto simp: frame_ok_def d_def Let_def split: option.splits)
  have m: "ColorCount m \<le> int (length (Colors m))" using frame_cmap_full [OF pl i] Some by (simp add: map_full_def)
  obtain cw ch where sz: "getCopySize d (SWidth g) (SHeight g) = (cw, ch)" by fastforce
  note clip = getCopySize_clips [OF sz pos(1,2)]
  let ?t = "TransparentColor (gcb_at g i)"
  have run: "paint_frame fs g s (gcb_at g i) (frame_at g i) out =
      draw_rows (nat ch) (Left d + Top d * s) 0 (nat cw) s (Width d) r m ?t out"
    using Some r(1) sz fs by (simp add: paint_frame_def d_def [symmetric])
  have eq: "frame_px g i x y = (if rect (Left d) (Top d) (nat cw) (nat ch) x y
      then raster_px r m ?t (0 + (y - Top d) * Width d + (x - Left d)) else None)" if "visible g x y" for x y
    using clip(1) [of x y] that Some r(1) by (simp add: visible_def frame_px_def d_def [symmetric])
  show ?thesis
  proof (cases "0 < cw \<and> 0 < ch")
    case True
    have "int (nat ch) * Width d \<le> Height d * Width d" using True clip(5) pos by (intro mult_right_mono) auto
    then have "0 + int (nat ch) * Width d \<le> int (length r)" using r(2) by (simp add: mult.commute)
    then obtain out' where o: "draw_rows (nat ch) (Left d + Top d * s) 0 (nat cw) s (Width d) r m ?t out = Some out'"
      "paints s (\<lambda>x y. if rect (Left d) (Top d) (nat cw) (nat ch) x y
         then raster_px r m ?t (0 + (y - Top d) * Width d + (x - Left d)) else None) out out'"
      using draw_rows_paints [of "Left d" "nat cw" s "Top d" "nat ch" "SHeight g" out 0 "Width d" r m ?t] True clip pos bm m
      by (auto simp: bitmap_def)
    have "draws g s (frame_px g i) out out'" by (rule paints_draws [OF o(2) bm]) (rule eq)
    with o(1) run show ?thesis by simp
  next
    case False
    then have "draw_rows (nat ch) (Left d + Top d * s) 0 (nat cw) s (Width d) r m ?t out = Some out"
      by (auto simp: draw_rows_empty)
    moreover have "frame_px g i x y = None" if "visible g x y" for x y using eq [OF that] False by (auto simp: rect_def)
    ultimately show ?thesis using run by (auto intro!: draws_same)
  qed
qed

lemma screen_rect: "0 \<le> SWidth g \<Longrightarrow> 0 \<le> SHeight g \<Longrightarrow> rect 0 0 (nat (SWidth g)) (nat (SHeight g)) x y \<longleftrightarrow> visible g x y"
  by (auto simp: rect_def visible_def)

lemma clear_bitmap_draws:
  assumes bm: "bitmap g s out"
  shows "\<exists>out'. clear_bitmap (nat (SHeight g)) 0 (nat (SWidth g)) s c out = Some out' \<and> draws g s (\<lambda>x y. Some c) out out'"
proof -
  obtain out' where o: "clear_bitmap (nat (SHeight g)) 0 (nat (SWidth g)) s c out = Some out'"
    "paints s (\<lambda>x y. if rect 0 0 (nat (SWidth g)) (nat (SHeight g)) x y then Some c else None) out out'"
    using clear_bitmap_paints [of "nat (SWidth g)" s 0 "nat (SHeight g)" "SHeight g" out c] bm by (auto simp: bitmap_def)
  have "draws g s (\<lambda>x y. Some c) out out'"
    by (rule paints_draws [OF o(2) bm]) (use bm in \<open>simp add: screen_rect bitmap_def\<close>)
  with o(1) show ?thesis by blast
qed

lemma copy_screen_draws:
  assumes bm: "bitmap g ds dst" "bitmap g ss src"
  shows "\<exists>dst'. copy_rows (nat (SHeight g)) 0 (nat (SWidth g)) ds ss src dst = Some dst' \<and>
     draws g ds (\<lambda>x y. Some (pix ss src x y)) dst dst'"
proof -
  obtain dst' where o: "copy_rows (nat (SHeight g)) 0 (nat (SWidth g)) ds ss src dst = Some dst'"
    "paints ds (\<lambda>x y. if rect 0 0 (nat (SWidth g)) (nat (SHeight g)) x y then Some (pix ss src x y) else None) dst dst'"
    using copy_rows_paints [of "nat (SWidth g)" ds ss 0 "nat (SHeight g)" "SHeight g" dst src] bm by (auto simp: bitmap_def)
  have "draws g ds (\<lambda>x y. Some (pix ss src x y)) dst dst'"
    by (rule paints_draws [OF o(2) bm(1)]) (use bm in \<open>simp add: screen_rect bitmap_def\<close>)
  with o(1) show ?thesis by blast
qed

section \<open>The state between calls\<close>

text \<open>The tables of the sequence, against the frames.\<close>

definition restoring :: "dgif \<Rightarrow> nat \<Rightarrow> int" where
  "restoring g i = (if DisposalMode (gcb_at g i) = DISPOSE_PREVIOUS
     then (case last_kept g i of None \<Rightarrow> - 1 | Some f \<Rightarrow> int f) else - 1)"

definition preserved :: "dgif \<Rightarrow> nat \<Rightarrow> bool" where
  "preserved g f \<longleftrightarrow> (\<exists>i < nat (ImageCount g). restoring g i = int f)"

definition tables :: "dgif \<Rightarrow> FrameSequence_gif \<Rightarrow> bool" where
  "tables g fs \<longleftrightarrow> mGif fs = Some g \<and> mRestoringFrames fs = Some (map (restoring g) [0..<nat (ImageCount g)]) \<and>
     mPreservedFrames fs = Some (map (preserved g) [0..<nat (ImageCount g)])"

lemma restoring_Some: "restoring g i = int f \<Longrightarrow> DisposalMode (gcb_at g i) = DISPOSE_PREVIOUS \<and> last_kept g i = Some f"
  by (auto simp: restoring_def split: if_splits option.splits)

lemma preserved_kept: "preserved g f \<Longrightarrow> \<not> willBeCleared (gcb_at g f)"
  using last_kept_Some restoring_Some by (fastforce simp: preserved_def)

lemma tables_facts:
  assumes "tables g fs"
  shows "getWidth fs = SWidth g" "getHeight fs = SHeight g"
    "i < nat (ImageCount g) \<Longrightarrow> getPreservedFrame fs (int i) = Some (preserved g i)"
    "i < nat (ImageCount g) \<Longrightarrow> getRestoringFrame fs (int i) = Some (restoring g i)"
  using assms by (simp_all add: tables_def getWidth_def getHeight_def getPreservedFrame_def getRestoringFrame_def lread_def)

text \<open>A buffer shows frame \<open>i\<close>; it may show it; the preserve buffer holds the frame it names.\<close>

definition pictures :: "dgif \<Rightarrow> Color8888 \<Rightarrow> int \<Rightarrow> nat \<Rightarrow> Color8888 list \<Rightarrow> bool" where
  "pictures g bg s i out \<longleftrightarrow> (\<forall>x y. visible g x y \<longrightarrow> pix s out x y = displayed g bg i x y)"

definition passed :: "dgif \<Rightarrow> Color8888 \<Rightarrow> int \<Rightarrow> nat \<Rightarrow> Color8888 list \<Rightarrow> bool" where
  "passed g bg s i out \<longleftrightarrow> (\<forall>x y. visible g x y \<longrightarrow>
     (if willBeCleared (gcb_at g i) then in_frame g i x y \<or> pix s out x y = before g bg i x y
      else pix s out x y = before g bg (Suc i) x y))"

definition preserves :: "dgif \<Rightarrow> Color8888 \<Rightarrow> FrameSequenceState_gif \<Rightarrow> bool" where
  "preserves g bg st \<longleftrightarrow>
     (case mPreserveBuffer st of
        None \<Rightarrow> mPreserveBufferFrame st = - 1
      | Some b \<Rightarrow> \<exists>f. mPreserveBufferFrame st = int f \<and> bitmap g (SWidth g) b \<and>
          (\<forall>x y. visible g x y \<longrightarrow> pix (SWidth g) b x y = before g bg (Suc f) x y))"

lemma frame_px_outside: "\<not> in_frame g i x y \<Longrightarrow> frame_px g i x y = None"
  by (simp add: frame_px_def Let_def split: option.splits)

lemma displayed_kept: "\<not> willBeCleared (gcb_at g i) \<Longrightarrow> before g bg (Suc i) x y = displayed g bg i x y"
  by (simp add: displayed_def willBeCleared_def)

lemma pictures_passed: "pictures g bg s i out \<Longrightarrow> passed g bg s i out"
  using displayed_kept [of g i bg] overlay_simps(1) frame_px_outside [of g i]
  unfolding pictures_def passed_def displayed_def by metis

lemma frame_px_full:
  assumes "opaque_full g" "playable g" "i < nat (ImageCount g)" "TransparentColor (gcb_at g i) = NO_TRANSPARENT_COLOR" "in_frame g i x y"
  shows "frame_px g i x y \<noteq> None"
proof -
  define d where "d = ImageDesc (frame_at g i)"
  obtain r where r: "RasterBits (frame_at g i) = Some r" "Width d * Height d \<le> int (length r)"
    using playable_frame(3) [OF assms(2,3)] by (auto simp: frame_ok_def d_def Let_def split: option.splits)
  obtain m where m: "frame_cmap g (frame_at g i) = Some m" "\<forall>b \<in> set r. uint b < ColorCount m"
    using assms(1,3,4) r(1) by (auto simp: opaque_full_def split: option.splits)
  let ?j = "(y - Top d) * Width d + (x - Left d)"
  have inside: "Left d \<le> x" "x - Left d < Width d" "Top d \<le> y" "y - Top d < Height d"
    using assms(5) by (auto simp: rect_nat d_def)
  then have "0 \<le> ?j" "?j < int (length r)"
    using index_less [of "x - Left d" "Width d" "y - Top d" "Height d"] r(2) by (simp_all add: mult.commute)
  then have "r ! nat ?j \<in> set r" by simp
  moreover have "uint (r ! nat ?j) \<noteq> - 1" using unsigned_greater_eq [where 'a = int and w = "r ! nat ?j"] by linarith
  ultimately show ?thesis using m r(1) assms(4,5)
    by (auto simp: frame_px_def Let_def raster_px_def NO_TRANSPARENT_COLOR_def d_def [symmetric])
qed

lemma cover_in_frame:
  assumes "checkIfCover (ImageDesc (frame_at g i)) (ImageDesc (frame_at g j))" "in_frame g j x y"
  shows "in_frame g i x y"
  using assms by (auto simp: checkIfCover_def rect_nat)

lemma savePreserveBuffer_preserves:
  assumes pr: "preserves g bg st" and bm: "bitmap g s out" and fs: "getWidth fs = SWidth g" "getHeight fs = SHeight g"
    and out: "\<And>x y. visible g x y \<Longrightarrow> pix s out x y = before g bg (Suc f) x y"
  shows "\<exists>st'. savePreserveBuffer fs out s (int f) st = Some st' \<and> preserves g bg st' \<and> mPreserveBufferFrame st' = int f"
proof (cases "int f = mPreserveBufferFrame st")
  case True
  with pr show ?thesis by (simp add: savePreserveBuffer_def)
next
  case False
  define b where "b = (case mPreserveBuffer st of None \<Rightarrow> replicate (nat (SWidth g * SHeight g)) 0 | Some b \<Rightarrow> b)"
  have b: "bitmap g (SWidth g) b"
    using pr bm by (auto simp: b_def preserves_def bitmap_def mult.commute split: option.splits)
  obtain b' where b': "copy_rows (nat (SHeight g)) 0 (nat (SWidth g)) (SWidth g) s out b = Some b'"
    "draws g (SWidth g) (\<lambda>x y. Some (pix s out x y)) b b'"
    using copy_screen_draws [OF b bm] by blast
  have "bitmap g (SWidth g) b'" using b b'(2) by (intro bitmap_length [OF b]) (simp add: draws_def)
  with False b' out fs show ?thesis
    by (auto simp: savePreserveBuffer_def Let_def b_def [symmetric] preserves_def draws_def)
qed

section \<open>One turn\<close>

text \<open>The preserve buffer holds what the frame before \<open>i\<close> needs.\<close>

definition serves :: "dgif \<Rightarrow> nat \<Rightarrow> FrameSequenceState_gif \<Rightarrow> bool" where
  "serves g j st \<longleftrightarrow> (DisposalMode (gcb_at g j) = DISPOSE_PREVIOUS \<longrightarrow> (\<forall>f. last_kept g j = Some f \<longrightarrow> mPreserveBufferFrame st = int f))"

lemma dispose_previous_draws:
  assumes pl: "playable g" and re: "restorable g" and j: "j < nat (ImageCount g)" and tb: "tables g fs" and bm: "bitmap g s out"
    and pr: "preserves g bg st" "serves g j st" and pa: "passed g bg s j out" and cl: "willBeCleared (gcb_at g j)"
  shows "\<exists>out'. dispose_previous fs s (gcb_at g j) (frame_at g j) st out = Some out' \<and> length out' = length out \<and>
     (\<forall>x y. visible g x y \<longrightarrow> pix s out' x y = before g bg (Suc j) x y)"
proof (cases "DisposalMode (gcb_at g j) = DISPOSE_BACKGROUND")
  case True
  obtain cw ch where sz: "getCopySize (ImageDesc (frame_at g j)) (SWidth g) (SHeight g) = (cw, ch)" by fastforce
  from clear_frame_draws [OF playable_frame(3) [OF pl j] bm sz] True sz pa cl tables_facts(1,2) [OF tb] show ?thesis
    by (fastforce simp: dispose_previous_def draws_def passed_def)
next
  case False
  with cl have m: "DisposalMode (gcb_at g j) = DISPOSE_PREVIOUS" by (simp add: willBeCleared_def)
  obtain f where f: "last_kept g j = Some f" "before g bg (Suc f) = before g bg j"
    using before_previous [OF re j m] by blast
  have "mPreserveBufferFrame st = int f" using pr(2) m f(1) by (simp add: serves_def)
  then obtain b where b: "mPreserveBuffer st = Some b" "bitmap g (SWidth g) b"
    "\<forall>x y. visible g x y \<longrightarrow> pix (SWidth g) b x y = before g bg (Suc f) x y"
    using pr(1) by (auto simp: preserves_def simp del: before.simps split: option.splits)
  obtain out' where "copy_rows (nat (SHeight g)) 0 (nat (SWidth g)) s (SWidth g) b out = Some out'"
    "draws g s (\<lambda>x y. Some (pix (SWidth g) b x y)) out out'"
    using copy_screen_draws [OF bm b(2)] by blast
  moreover have "before g bg (Suc j) x y = before g bg j x y" for x y using m False by simp
  ultimately show ?thesis using b m False f(2) tables_facts(1,2) [OF tb]
    by (auto simp: dispose_previous_def restorePreserveBuffer_def draws_def simp del: before.simps)
qed

text \<open>Before frame \<open>j + 1\<close> is painted: the screen of the specification, except where the frame that was not
  disposed of will be covered.\<close>

definition prepared :: "dgif \<Rightarrow> Color8888 \<Rightarrow> int \<Rightarrow> nat \<Rightarrow> Color8888 list \<Rightarrow> bool" where
  "prepared g bg s i out \<longleftrightarrow> (\<forall>x y. visible g x y \<longrightarrow> pix s out x y = before g bg i x y \<or>
     in_frame g i x y \<and> TransparentColor (gcb_at g i) = NO_TRANSPARENT_COLOR)"

lemma before_outside: "willBeCleared (gcb_at g j) \<Longrightarrow> \<not> in_frame g j x y \<Longrightarrow> before g bg (Suc j) x y = before g bg j x y"
  by (auto simp: willBeCleared_def)

lemma undisposed_prepared:
  assumes pa: "passed g bg s j out"
    and "willBeCleared (gcb_at g j) \<Longrightarrow> TransparentColor (gcb_at g (Suc j)) = NO_TRANSPARENT_COLOR \<and>
      checkIfCover (ImageDesc (frame_at g (Suc j))) (ImageDesc (frame_at g j))"
  shows "prepared g bg s (Suc j) out"
  using assms before_outside [of g j _ _ bg] cover_in_frame [of g "Suc j" j]
  unfolding prepared_def passed_def by metis

lemma prepare_frame_ready:
  assumes pl: "playable g" and re: "restorable g" and i: "Suc j < nat (ImageCount g)" and tb: "tables g fs" and bm: "bitmap g s out"
    and pr: "preserves g bg st" "serves g j st" and pa: "passed g bg s j out"
  shows "\<exists>st' out'. prepare_frame fs g s (int (Suc j)) (gcb_at g (Suc j)) (frame_at g (Suc j)) (st, out) = Some (st', out') \<and>
     length out' = length out \<and> prepared g bg s (Suc j) out' \<and> preserves g bg st' \<and>
     mPreserveBufferFrame st' = (if preserved g j then int j else mPreserveBufferFrame st)"
proof -
  have j: "j < nat (ImageCount g)" using i by simp
  note gj = playable_frame(1) [OF pl j]
  obtain imgs where imgs: "SavedImages g = Some imgs" "lread imgs (int j) = Some (frame_at g j)"
    using playable_frame(2) [OF pl j] by blast
  let ?op = "TransparentColor (gcb_at g (Suc j)) = NO_TRANSPARENT_COLOR"
  let ?covered = "?op \<and> checkIfCover (ImageDesc (frame_at g (Suc j))) (ImageDesc (frame_at g j))"
  let ?dispose = "willBeCleared (gcb_at g j) \<and> \<not> ?covered"
  have "\<exists>o1. (if ?dispose then dispose_previous fs s (gcb_at g j) (frame_at g j) st out else Some out) = Some o1 \<and>
     length o1 = length out \<and> prepared g bg s (Suc j) o1 \<and>
     (\<not> willBeCleared (gcb_at g j) \<longrightarrow> (\<forall>x y. visible g x y \<longrightarrow> pix s o1 x y = before g bg (Suc j) x y))"
  proof (cases ?dispose)
    case True
    then show ?thesis
      using dispose_previous_draws [OF pl re j tb bm pr pa] by (auto simp: prepared_def simp del: before.simps)
  next
    case False
    then have "prepared g bg s (Suc j) out" by (intro undisposed_prepared [OF pa]) blast
    moreover have "pix s out x y = before g bg (Suc j) x y" if "\<not> willBeCleared (gcb_at g j)" "visible g x y" for x y
      using pa that by (simp add: passed_def del: before.simps)
    ultimately show ?thesis using False by (auto simp del: before.simps)
  qed
  then obtain o1 where o1: "(if ?dispose then dispose_previous fs s (gcb_at g j) (frame_at g j) st out else Some out) = Some o1"
    "length o1 = length out" "prepared g bg s (Suc j) o1"
    "\<not> willBeCleared (gcb_at g j) \<Longrightarrow> visible g x y \<Longrightarrow> pix s o1 x y = before g bg (Suc j) x y" for x y
    by blast
  have "\<exists>st'. (if preserved g j then savePreserveBuffer fs o1 s (int j) st else Some st) = Some st' \<and> preserves g bg st' \<and>
     mPreserveBufferFrame st' = (if preserved g j then int j else mPreserveBufferFrame st)"
    using savePreserveBuffer_preserves [OF pr(1) bitmap_length [OF bm o1(2)] tables_facts(1,2) [OF tb] o1(4)] preserved_kept pr(1)
    by auto
  then show ?thesis using o1 gj imgs tables_facts(3) [OF tb j] by (auto simp: prepare_frame_def Let_def)
qed

text \<open>Painting completes the picture; leaving a frame out that is cleared later does no harm.\<close>

lemma ready_painted:
  assumes "opaque_full g" "playable g" "i < nat (ImageCount g)" "prepared g bg s i out" "draws g s (frame_px g i) out out'"
  shows "pictures g bg s i out'"
proof (unfold pictures_def, intro allI impI)
  fix x y assume v: "visible g x y"
  have p: "pix s out' x y = overlay (frame_px g i x y) (pix s out x y)" using assms(5) v by (simp add: draws_def)
  show "pix s out' x y = displayed g bg i x y"
  proof (cases "pix s out x y = before g bg i x y")
    case False
    with assms(4) v have "frame_px g i x y \<noteq> None" using frame_px_full [OF assms(1-3), of x y] unfolding prepared_def by metis
    with p show ?thesis by (auto simp: displayed_def)
  qed (simp add: p displayed_def)
qed

lemma prepared_skipped: "willBeCleared (gcb_at g i) \<Longrightarrow> prepared g bg s i out \<Longrightarrow> passed g bg s i out"
  by (auto simp: prepared_def passed_def)

text \<open>A turn that has prepared the screen.\<close>

lemma turn_paints:
  assumes fr: "playable g" "opaque_full g" "i < nat (ImageCount g)" and tb: "tables g fs" and bm: "bitmap g s out"
    and prep: "prepare_frame fs g s (int i) (gcb_at g i) (frame_at g i) x = Some (st, out)" and rd: "prepared g bg s i out"
  shows "\<exists>out'. draw_turn fs g s (int m) (int i) x = Some (gcb_at g i, st, out') \<and> length out' = length out \<and>
    passed g bg s i out' \<and> (m = i \<longrightarrow> pictures g bg s i out')"
proof -
  obtain imgs where imgs: "SavedImages g = Some imgs" "lread imgs (int i) = Some (frame_at g i)"
    using playable_frame(2) [OF fr(1,3)] by blast
  note run = playable_frame(1) [OF fr(1,3)] imgs prep
  show ?thesis
  proof (cases "i = m \<or> \<not> willBeCleared (gcb_at g i)")
    case True
    obtain out' where p: "paint_frame fs g s (gcb_at g i) (frame_at g i) out = Some out'" "draws g s (frame_px g i) out out'"
      using paint_frame_draws [OF fr(1,3) bm tables_facts(1,2) [OF tb]] by blast
    have "pictures g bg s i out'" by (rule ready_painted [OF fr(2,1,3) rd p(2)])
    with True run p show ?thesis using pictures_passed by (auto simp: draw_turn_def draws_def)
  next
    case False
    then have "passed g bg s i out" using rd by (intro prepared_skipped) auto
    with False run show ?thesis by (auto simp: draw_turn_def)
  qed
qed

lemma draw_turn_first:
  assumes fr: "playable g" "opaque_full g" and tb: "tables g fs" and bm: "bitmap g s out"
  shows "\<exists>out'. draw_turn fs g s (int m) 0 (st, out) = Some (gcb_at g 0, st, out') \<and> length out' = length out \<and>
    passed g (mBgColor fs) s 0 out' \<and> (m = 0 \<longrightarrow> pictures g (mBgColor fs) s 0 out')"
proof -
  obtain o1 where o1: "clear_bitmap (nat (SHeight g)) 0 (nat (SWidth g)) s (mBgColor fs) out = Some o1"
    "draws g s (\<lambda>x y. Some (mBgColor fs)) out o1"
    using clear_bitmap_draws [OF bm] by blast
  have "prepared g (mBgColor fs) s 0 o1" "length o1 = length out" using o1(2) by (auto simp: prepared_def draws_def)
  moreover have "prepare_frame fs g s (int 0) (gcb_at g 0) (frame_at g 0) (st, out) = Some (st, o1)"
    using o1(1) tables_facts(1,2) [OF tb] by (simp add: prepare_frame_def)
  moreover have "0 < nat (ImageCount g)" using fr(1) by (simp add: playable_def)
  ultimately show ?thesis using turn_paints [OF fr _ tb bitmap_length [OF bm], of 0] by fastforce
qed

lemma draw_turn_next:
  assumes fr: "playable g" "restorable g" "opaque_full g" and i: "Suc j < nat (ImageCount g)" and tb: "tables g fs"
    and bm: "bitmap g s out" and pr: "preserves g bg st" "serves g j st" and pa: "passed g bg s j out"
  shows "\<exists>st' out'. draw_turn fs g s (int m) (int (Suc j)) (st, out) = Some (gcb_at g (Suc j), st', out') \<and> length out' = length out \<and>
    passed g bg s (Suc j) out' \<and> (m = Suc j \<longrightarrow> pictures g bg s (Suc j) out') \<and> preserves g bg st' \<and>
    mPreserveBufferFrame st' = (if preserved g j then int j else mPreserveBufferFrame st)"
proof -
  obtain st' o1 where p: "prepare_frame fs g s (int (Suc j)) (gcb_at g (Suc j)) (frame_at g (Suc j)) (st, out) = Some (st', o1)"
    "length o1 = length out" "prepared g bg s (Suc j) o1" "preserves g bg st'"
    "mPreserveBufferFrame st' = (if preserved g j then int j else mPreserveBufferFrame st)"
    using prepare_frame_ready [OF fr(1,2) i tb bm pr pa] by blast
  obtain out' where "draw_turn fs g s (int m) (int (Suc j)) (st, out) = Some (gcb_at g (Suc j), st', out')" "length out' = length o1"
    "passed g bg s (Suc j) out'" "m = Suc j \<longrightarrow> pictures g bg s (Suc j) out'"
    using turn_paints [OF fr(1,3) i tb bitmap_length [OF bm p(2)] p(1,3)] by blast
  with p(2,4,5) show ?thesis by (intro exI [of _ st'] exI [of _ out']) simp
qed

section \<open>The loops\<close>

text \<open>Every frame from \<open>i - 1\<close> on that restores finds its frame in the buffer, or it will be saved on the way.\<close>

definition needs :: "dgif \<Rightarrow> nat \<Rightarrow> nat \<Rightarrow> FrameSequenceState_gif \<Rightarrow> bool" where
  "needs g i m st \<longleftrightarrow> (\<forall>j f. i \<le> Suc j \<and> j < m \<and> restoring g j = int f \<longrightarrow> i \<le> Suc f \<or> mPreserveBufferFrame st = int f)"

lemma restoring_eq:
  "restoring g j = int f \<longleftrightarrow> DisposalMode (gcb_at g j) = DISPOSE_PREVIOUS \<and> last_kept g j = Some f"
  by (auto simp: restoring_def split: if_splits option.splits)

lemma needs_first: "needs g 0 m st" "needs g (Suc 0) m st"
  by (simp_all add: needs_def)

lemma needs_serves: "needs g (Suc j) m st \<Longrightarrow> j < m \<Longrightarrow> serves g j st"
  using last_kept_Some by (fastforce simp: needs_def serves_def restoring_eq)

lemma needs_next:
  assumes n: "needs g (Suc j) m st" and m: "m < nat (ImageCount g)"
    and st': "mPreserveBufferFrame st' = (if preserved g j then int j else mPreserveBufferFrame st)"
  shows "needs g (Suc (Suc j)) m st'"
proof (unfold needs_def, intro allI impI)
  fix i f assume a: "Suc (Suc j) \<le> Suc i \<and> i < m \<and> restoring g i = int f"
  then have lk: "last_kept g i = Some f" by (simp add: restoring_eq)
  consider "j < f" | "f = j" | "f < j" by linarith
  then show "Suc (Suc j) \<le> Suc f \<or> mPreserveBufferFrame st' = int f"
  proof cases
    case 2
    have "preserved g j" using a m 2 by (auto simp: preserved_def intro!: exI [of _ i])
    with 2 st' show ?thesis by simp
  next
    case 3
    then have "willBeCleared (gcb_at g j)" using last_kept_upper [OF lk] a by auto
    then have "\<not> preserved g j" using preserved_kept by blast
    moreover have "mPreserveBufferFrame st = int f" using n [unfolded needs_def, rule_format, of i f] a 3 by auto
    ultimately show ?thesis using st' by simp
  qed auto
qed

lemma draw_loop_shows:
  assumes fr: "playable g" "restorable g" "opaque_full g" and tb: "tables g fs" and m: "i + k = m" "m < nat (ImageCount g)"
    and "bitmap g s out" "preserves g (mBgColor fs) st" "needs g i m st" "0 < i \<Longrightarrow> passed g (mBgColor fs) s (i - 1) out"
  shows "\<exists>v st' out'. draw_loop fs g s (int m) (Suc k) (int i) (v0, st, out) = Some (v, st', out') \<and> length out' = length out \<and>
    pictures g (mBgColor fs) s m out' \<and> preserves g (mBgColor fs) st'"
  using assms(5-)
proof (induction k arbitrary: i v0 st out)
  case (0 i v0 st out)
  show ?case
  proof (cases i)
    case 0
    with draw_turn_first [OF fr(1,3) tb "0.prems"(3), of m st] "0.prems" show ?thesis by fastforce
  next
    case (Suc j)
    with draw_turn_next [OF fr _ tb "0.prems"(3,4), of j m] needs_serves [of g j m st] "0.prems" show ?thesis by fastforce
  qed
next
  case (Suc k)
  have "\<exists>gcb st' out'. draw_turn fs g s (int m) (int i) (st, out) = Some (gcb, st', out') \<and> length out' = length out \<and>
      passed g (mBgColor fs) s i out' \<and> preserves g (mBgColor fs) st' \<and> needs g (Suc i) m st'"
  proof (cases i)
    case 0
    with draw_turn_first [OF fr(1,3) tb Suc.prems(3), of m st] Suc.prems needs_first show ?thesis by fastforce
  next
    case i: (Suc j)
    have "serves g j st" using Suc.prems i by (intro needs_serves) auto
    moreover have "Suc j < nat (ImageCount g)" using Suc.prems i by simp
    ultimately show ?thesis
      using draw_turn_next [OF fr _ tb Suc.prems(3,4), of j m] needs_next [of g j m st] Suc.prems i by fastforce
  qed
  then obtain gcb st1 o1 where t: "draw_turn fs g s (int m) (int i) (st, out) = Some (gcb, st1, o1)" "length o1 = length out"
    "passed g (mBgColor fs) s i o1" "preserves g (mBgColor fs) st1" "needs g (Suc i) m st1" by blast
  have "\<exists>v st' out'. draw_loop fs g s (int m) (Suc k) (int (Suc i)) (Some gcb, st1, o1) = Some (v, st', out') \<and> length out' = length o1 \<and>
      pictures g (mBgColor fs) s m out' \<and> preserves g (mBgColor fs) st'"
    by (rule Suc.IH) (use Suc.prems t bitmap_length [OF Suc.prems(3)] in auto)
  moreover have "int (Suc i) = int i + 1" by simp
  ultimately show ?case using t(1,2) by (subst draw_loop.simps) (simp del: draw_loop.simps of_nat_Suc)
qed

lemma ex_range_Suc:
  "(\<exists>j. i \<le> j \<and> j < i + Suc k \<and> P j) \<longleftrightarrow> P i \<or> (\<exists>j. Suc i \<le> j \<and> j < Suc i + k \<and> P j)"
proof
  assume "\<exists>j. i \<le> j \<and> j < i + Suc k \<and> P j"
  then obtain j where j: "i \<le> j" "j < i + Suc k" "P j" by blast
  then show "P i \<or> (\<exists>j. Suc i \<le> j \<and> j < Suc i + k \<and> P j)"
    by (cases "j = i") (auto intro!: exI [of _ j])
next
  assume "P i \<or> (\<exists>j. Suc i \<le> j \<and> j < Suc i + k \<and> P j)"
  then show "\<exists>j. i \<le> j \<and> j < i + Suc k \<and> P j"
  proof
    assume "P i" then show ?thesis by (intro exI [of _ i]) simp
  next
    assume "\<exists>j. Suc i \<le> j \<and> j < Suc i + k \<and> P j"
    then obtain j where "Suc i \<le> j" "j < Suc i + k" "P j" by blast
    then show ?thesis by (intro exI [of _ j]) simp
  qed
qed

lemma choose_start_spec:
  assumes tb: "tables g fs" and "i + k \<le> nat (ImageCount g)"
  shows "choose_start fs st k (int i) start =
    Some (if \<exists>j. i \<le> j \<and> j < i + k \<and> 0 \<le> restoring g j \<and> mPreserveBufferFrame st \<noteq> restoring g j then 0 else start)"
  using assms(2)
proof (induction k arbitrary: i start)
  case (Suc k)
  let ?bad = "\<lambda>j. 0 \<le> restoring g j \<and> mPreserveBufferFrame st \<noteq> restoring g j"
  define later where "later \<longleftrightarrow> (\<exists>j. Suc i \<le> j \<and> j < Suc i + k \<and> ?bad j)"
  have eq: "int i + 1 = int (Suc i)" by simp
  have IH: "choose_start fs st k (int i + 1) z = Some (if later then 0 else z)" for z
    unfolding later_def eq by (rule Suc.IH) (use Suc.prems in simp)
  have ex: "(\<exists>j. i \<le> j \<and> j < i + Suc k \<and> ?bad j) \<longleftrightarrow> ?bad i \<or> later"
    unfolding later_def by (rule ex_range_Suc)
  have "choose_start fs st (Suc k) (int i) start = Some (if later then 0 else if ?bad i then 0 else start)"
    using tables_facts(4) [OF tb, of i] IH Suc.prems by simp
  then show ?case unfolding ex by (cases later) simp_all
next
  case 0
  have "\<not> (i \<le> j \<and> j < i + 0 \<and> P)" for j P by auto
  then show ?case by (simp only: choose_start.simps if_False simp_thms)
qed

section \<open>Drawing a frame\<close>

lemma drawFrame_pictures:
  assumes fr: "playable g" "restorable g" "opaque_full g" and tb: "tables g fs" and m: "m < nat (ImageCount g)"
    and bm: "bitmap g s out" and pr: "preserves g (mBgColor fs) st" and prev: "p \<le> int m"
    and out: "0 \<le> p \<Longrightarrow> pictures g (mBgColor fs) s (nat p) out"
  shows "\<exists>st' out'. drawFrame fs (int m) s p (st, out) =
      Some (getDelayMs (gcb_at g ((m + nat (ImageCount g) - 1) mod nat (ImageCount g))), st', out') \<and>
    length out' = length out \<and> pictures g (mBgColor fs) s m out' \<and> preserves g (mBgColor fs) st'"
proof -
  define n where "n = nat (ImageCount g)"
  define start0 where "start0 = nat (max (p + 1) 0)"
  define i0 where "i0 = nat (max (int start0 - 1) 0)"
  define bad where "bad \<longleftrightarrow> (\<exists>j. i0 \<le> j \<and> j < i0 + (m - i0) \<and> 0 \<le> restoring g j \<and> mPreserveBufferFrame st \<noteq> restoring g j)"
  define start where "start = (if bad then 0 else start0)"
  have i0: "i0 \<le> m" "start0 \<le> Suc m" "start0 = 0 \<or> start0 = Suc i0" using prev by (auto simp: i0_def start0_def)
  have n: "0 < n" "int n = ImageCount g" using m by (simp_all add: n_def)
  have ch: "choose_start fs st (m - i0) (int i0) (int start0) = Some (int start)"
    using choose_start_spec [OF tb, of i0 "m - i0" st "int start0", folded bad_def] i0(1) m by (simp add: start_def)
  have needs: "needs g start m st"
  proof (cases "start = 0")
    case False
    then have "\<not> bad" "start = start0" by (auto simp: start_def split: if_splits)
    with False i0(3) have i: "start = Suc i0" by simp
    have "mPreserveBufferFrame st = int f" if "start \<le> Suc j" "j < m" "restoring g j = int f" for j f
    proof -
      have "i0 \<le> j" "j < i0 + (m - i0)" using that i i0(1) by simp_all
      with \<open>\<not> bad\<close> that(3) show ?thesis unfolding bad_def by (metis of_nat_0_le_iff)
    qed
    then show ?thesis unfolding needs_def by blast
  qed (simp add: needs_first)
  have "\<exists>v st' out'. draw_loop fs g s (int m) (nat (int m - int start + 1)) (int start) (None, st, out) = Some (v, st', out') \<and>
      length out' = length out \<and> pictures g (mBgColor fs) s m out' \<and> preserves g (mBgColor fs) st'"
  proof (cases "start \<le> m")
    case True
    have "passed g (mBgColor fs) s (start - 1) out" if "0 < start"
    proof -
      have "start = start0" "0 \<le> p" "nat p = start - 1" using that by (auto simp: start_def start0_def split: if_splits)
      with out show ?thesis using pictures_passed by metis
    qed
    moreover have "nat (int m - int start + 1) = Suc (m - start)" "start + (m - start) = m" using True by simp_all
    ultimately show ?thesis using draw_loop_shows [OF fr tb _ m bm pr needs, of "m - start"] by metis
  next
    case False
    then have "start = Suc m" "p = int m" using i0(2) prev by (auto simp: start_def start0_def split: if_splits)
    with out pr show ?thesis by simp
  qed
  then obtain v st' out' where loop: "draw_loop fs g s (int m) (nat (int m - int start + 1)) (int start) (None, st, out) = Some (v, st', out')"
    "length out' = length out" "pictures g (mBgColor fs) s m out'" "preserves g (mBgColor fs) st'" by blast
  have last: "c_mod (int m + ImageCount g - 1) (ImageCount g) = Some (int ((m + n - 1) mod n))"
    using n by (simp add: c_mod_def of_nat_diff zmod_int flip: n(2))
  have "(m + n - 1) mod n < nat (ImageCount g)" using n by (simp add: n_def)
  note gcb = playable_frame(1) [OF fr(1) this]
  have "max (p + 1) 0 = int start0" "max (int start0 - 1) 0 = int i0" by (simp_all add: start0_def i0_def)
  moreover have "nat (int m - int i0) = m - i0" by simp
  ultimately show ?thesis using ch loop last gcb tb by (simp add: drawFrame_def tables_def n_def [symmetric])
qed

section \<open>The tables\<close>

definition kept_index :: "dgif \<Rightarrow> nat \<Rightarrow> int" where
  "kept_index g i = (case last_kept g i of None \<Rightarrow> - 1 | Some f \<Rightarrow> int f)"

definition scanned :: "dgif \<Rightarrow> nat \<Rightarrow> FrameSequence_gif \<times> int \<times> int \<Rightarrow> bool" where
  "scanned g i s \<longleftrightarrow> (case s of (fs, dur, lst) \<Rightarrow> mGif fs = Some g \<and> lst = kept_index g i \<and>
     mRestoringFrames fs = Some (map (\<lambda>j. if j < i then restoring g j else 0) [0..<nat (ImageCount g)]) \<and>
     mPreservedFrames fs = Some (map (\<lambda>f. \<exists>j < i. restoring g j = int f) [0..<nat (ImageCount g)]))"

lemma kept_index_less: "kept_index g i < int i"
  using last_kept_Some [of g i] by (auto simp: kept_index_def split: option.splits)

lemma restoring_kept: "restoring g i = (if DisposalMode (gcb_at g i) = DISPOSE_PREVIOUS then kept_index g i else - 1)"
  by (simp add: restoring_def kept_index_def)

lemma map_upt_update: "i < n \<Longrightarrow> (map h [0..<n])[i := v] = map (\<lambda>j. if j = i then v else h j) [0..<n]"
  by (rule nth_equalityI) (auto simp: nth_list_update)

lemma scan_frame_result:
  assumes run: "scan_frame g i (fs, dur, lst) = Some s'" and gcb: "saved_gcb g i None = Some (Some gcb)"
    and tabs: "mPreservedFrames fs = Some pf" "mRestoringFrames fs = Some rf"
    and i: "0 \<le> i" "i < int (length pf)" "i < int (length rf)" "lst < int (length pf)"
  defines "c \<equiv> DisposalMode gcb = DISPOSE_PREVIOUS \<and> lst \<ge> 0"
  shows "\<exists>loops. s' = (fs\<lparr>mLoopCount := loops,
      mPreservedFrames := Some (if c then (pf[nat i := False])[nat lst := True] else pf[nat i := False]),
      mRestoringFrames := Some (rf[nat i := if c then lst else - 1])\<rparr>,
    dur + getDelayMs gcb, if \<not> willBeCleared gcb then i else lst)"
proof -
  obtain imgs image exts loops where "SavedImages g = Some imgs" "lread imgs i = Some image"
    "(if ExtensionBlockCount image \<le> 1 then Some []
      else do { es \<leftarrow> ExtensionBlocks image;
                if nat (ExtensionBlockCount image) \<le> length es
                then Some (take (nat (ExtensionBlockCount image)) es) else None }) = Some exts"
    "find_loop exts (mLoopCount fs) = Some loops"
    using run unfolding scan_frame_def prod.case bind_eq_Some_conv by blast
  with run gcb tabs i show ?thesis by (cases c) (auto simp: scan_frame_def c_def)
qed

lemma scan_frame_scanned:
  assumes pl: "playable g" and i: "i < nat (ImageCount g)" and s: "scanned g i s" and run: "scan_frame g (int i) s = Some s'"
  shows "scanned g (Suc i) s'"
proof -
  obtain fs dur lst where fs: "s = (fs, dur, lst)" by (cases s)
  let ?n = "nat (ImageCount g)"
  let ?rf = "map (\<lambda>j. if j < i then restoring g j else 0) [0..<?n]"
  let ?pf = "\<lambda>i. map (\<lambda>f. \<exists>j < i. restoring g j = int f) [0..<?n]"
  have lst: "lst = kept_index g i" and g: "mGif fs = Some g"
    and tabs: "mRestoringFrames fs = Some ?rf" "mPreservedFrames fs = Some (?pf i)"
    using s by (simp_all add: scanned_def fs)
  have range: "0 \<le> int i" "int i < int ?n" "lst < int ?n" using i kept_index_less [of g i] lst by linarith+
  define c where "c \<longleftrightarrow> DisposalMode (gcb_at g i) = DISPOSE_PREVIOUS \<and> lst \<ge> 0"
  have less: "restoring g j < int j" for j using kept_index_less [of g j] by (simp add: restoring_kept)
  have r: "restoring g i = (if c then lst else - 1)"
    using lst by (auto simp: c_def restoring_kept kept_index_def split: option.splits)
  obtain loops where s': "s' = (fs\<lparr>mLoopCount := loops,
      mPreservedFrames := Some (if c then ((?pf i)[i := False])[nat lst := True] else (?pf i)[i := False]),
      mRestoringFrames := Some (?rf[i := if c then lst else - 1])\<rparr>,
    dur + getDelayMs (gcb_at g i), if \<not> willBeCleared (gcb_at g i) then int i else lst)"
    using scan_frame_result [OF run [unfolded fs] playable_frame(1) [OF pl i] tabs(2,1), folded c_def,
      unfolded length_map length_upt diff_zero nat_int] range by blast
  have rf: "?rf[i := if c then lst else - 1] = map (\<lambda>j. if j < Suc i then restoring g j else 0) [0..<?n]"
    unfolding map_upt_update [OF i] r [symmetric] by (auto simp: less_Suc_eq)
  have reset: "(?pf i)[i := False] = ?pf i"
    unfolding map_upt_update [OF i] using less by (auto intro!: map_cong) (metis less_imp_neq less_trans of_nat_less_iff)
  have pf: "(if c then ((?pf i)[i := False])[nat lst := True] else (?pf i)[i := False]) = ?pf (Suc i)"
  proof (cases c)
    case True
    then have f: "restoring g i = int (nat lst)" using r by (simp add: c_def)
    have "int (nat lst) < int i" using less [of i] unfolding f .
    then have "nat lst < ?n" using i by linarith
    then have "(?pf i)[nat lst := True] = ?pf (Suc i)"
      unfolding map_upt_update [OF \<open>nat lst < ?n\<close>] using f
      by (intro map_cong refl) (metis less_Suc_eq nat_int)
    with True show ?thesis unfolding reset by simp
  next
    case False
    then show ?thesis unfolding reset using r by (auto simp: less_Suc_eq)
  qed
  have "kept_index g (Suc i) = (if \<not> willBeCleared (gcb_at g i) then int i else lst)" using lst by (simp add: kept_index_def)
  then show ?thesis unfolding scanned_def s' pf rf using g by simp
qed

lemma scan_frames_scanned:
  "playable g \<Longrightarrow> i + k = nat (ImageCount g) \<Longrightarrow> scanned g i s \<Longrightarrow> scan_frames g k (int i) s = Some s' \<Longrightarrow>
     scanned g (nat (ImageCount g)) s'"
proof (induction k arbitrary: i s)
  case (Suc k)
  obtain s1 where s1: "scan_frame g (int i) s = Some s1" "scan_frames g k (int i + 1) s1 = Some s'"
    using Suc.prems(4) by (auto simp: bind_eq_Some_conv)
  have "scanned g (Suc i) s1" by (rule scan_frame_scanned [OF Suc.prems(1) _ Suc.prems(3) s1(1)]) (use Suc.prems(2) in simp)
  from Suc.IH [OF Suc.prems(1) _ this] s1(2) Suc.prems(2) show ?case by (simp add: add.commute)
qed simp

lemma sequence_of_tables:
  assumes pl: "playable g" and run: "sequence_of g = Some fs"
  shows "tables g fs" "background g = Some (mBgColor fs)"
proof -
  let ?n = "nat (ImageCount g)"
  let ?fs = "no_sequence\<lparr>mGif := Some g, mPreservedFrames := Some (replicate ?n False), mRestoringFrames := Some (replicate ?n 0)\<rparr>"
  obtain fs1 d l bg where r: "scan_frames g ?n 0 (?fs, 0, - 1) = Some (fs1, d, l)" "background g = Some bg"
    "fs = fs1\<lparr>mBgColor := bg\<rparr>"
    using run by (auto simp: sequence_of_def bind_eq_Some_conv)
  have "scanned g 0 (?fs, 0, - 1)" by (simp add: scanned_def kept_index_def map_replicate_const)
  from scan_frames_scanned [OF pl _ this, of ?n] r(1) have "scanned g ?n (fs1, d, l)" by simp
  then show "tables g fs" by (auto simp: scanned_def tables_def preserved_def r(3))
  show "background g = Some (mBgColor fs)" using r by simp
qed

end
