(* ===== verification/FrameSafe.thy ===== *)
theory FrameSafe
  imports FrameDraw
begin

text \<open>
  The player on files that come from the reader: whatever bytes \<open>DGifOpen\<close> and \<open>DGifSlurp\<close> accept, every
  saved image has its pixels, its colours and readable extension blocks, so that a sequence and its
  frames can be made and drawn without leaving an array.
\<close>

section \<open>What a successful read leaves\<close>

definition ext_full :: "ExtensionBlock \<Rightarrow> bool" where
  "ext_full e \<longleftrightarrow> (case Bytes e of None \<Rightarrow> False | Some bs \<Rightarrow> int (length bs) = ByteCount e)"

definition exts_full :: "int \<Rightarrow> ExtensionBlock list option \<Rightarrow> bool" where
  "exts_full c es \<longleftrightarrow> (case es of None \<Rightarrow> c = 0 | Some l \<Rightarrow> c = int (length l) \<and> list_all ext_full l)"

definition image_full :: "SavedImage \<Rightarrow> bool" where
  "image_full sp \<longleftrightarrow> frame_ok sp \<and> exts_full (ExtensionBlockCount sp) (ExtensionBlocks sp)"

definition images_full :: "int \<Rightarrow> SavedImage list option \<Rightarrow> bool" where
  "images_full c imgs \<longleftrightarrow> 0 \<le> c \<and>
     (case imgs of None \<Rightarrow> c = 0 | Some l \<Rightarrow> c \<le> int (length l) \<and> list_all image_full (take (nat c) l))"

definition gif_full :: "dgif \<Rightarrow> bool" where
  "gif_full g \<longleftrightarrow> 0 \<le> SWidth g \<and> 0 \<le> SHeight g \<and> map_full (SColorMap g) \<and> 0 \<le> SBackGroundColor g \<and>
     images_full (ImageCount g) (SavedImages g) \<and> exts_full (FileExtensionBlockCount g) (FileExtensionBlocks g)"

definition same_rest :: "dgif \<Rightarrow> dgif \<Rightarrow> bool" where
  "same_rest g g' \<longleftrightarrow> SWidth g' = SWidth g \<and> SHeight g' = SHeight g \<and> SColorMap g' = SColorMap g \<and>
     SBackGroundColor g' = SBackGroundColor g \<and>
     FileExtensionBlockCount g' = FileExtensionBlockCount g \<and> FileExtensionBlocks g' = FileExtensionBlocks g"

lemma map_ok_full: "map_ok m \<Longrightarrow> map_full (Some m)"
  by (simp add: map_full_def map_ok_def)

lemma GifMakeMapObject_full:
  assumes "GifMakeMapObject cc colors h = Some (m, h')" "case colors of None \<Rightarrow> True | Some cs \<Rightarrow> cc = int (length cs)"
  shows "map_full m"
  using GifMakeMapObject_total [OF assms(2), of h] assms(1) map_ok_full by (auto simp: map_full_def split: option.splits)

text \<open>The image that has been appended.\<close>

definition appended :: "dgif \<Rightarrow> dgif \<Rightarrow> bool" where
  "appended g g' \<longleftrightarrow> same_rest g g' \<and> ImageCount g' = ImageCount g + 1 \<and>
     (\<exists>l m. SavedImages g' = Some l \<and> length l = nat (ImageCount g + 1) \<and> map_full m \<and>
        take (nat (ImageCount g)) l = take (nat (ImageCount g)) (case SavedImages g of None \<Rightarrow> [] | Some xs \<Rightarrow> xs) \<and>
        l ! nat (ImageCount g) = zero_image\<lparr>ImageDesc := (Image g')\<lparr>ColorMap := m\<rparr>\<rparr>)"

lemma append_image_full:
  assumes io: "images_ok (ImageCount g) (SavedImages g)"
    and cm: "\<And>cm. ColorMap (Image g) = Some cm \<Longrightarrow> ColorCount cm = int (length (Colors cm))"
    and run: "append_image g = Some (GIF_OK, g')"
  shows "appended g g'" "Image g' = Image g"
proof -
  define arr where "arr = (case SavedImages g of None \<Rightarrow> [zero_image] | Some xs \<Rightarrow> resize (nat (ImageCount g + 1)) zero_image xs)"
  note pi = put_image [OF io arr_def]
  have c: "0 \<le> ImageCount g" using io by (simp add: images_ok_def)
  obtain ok h1 where al: "(case SavedImages g of None \<Rightarrow> malloc 36 (gheap g)
            | Some _ \<Rightarrow> reallocarray True (of_int (ImageCount g + 1)) 36 (gheap g)) = (ok, h1)" by fastforce
  have ok using run al by (auto simp: append_image_def Let_def split: if_splits)
  obtain m h2 where mk: "(case ColorMap (Image g) of None \<Rightarrow> Some (None, h1)
             | Some cm \<Rightarrow> GifMakeMapObject (ColorCount cm) (Some (Colors cm)) h1) = Some (m, h2)"
    using run al \<open>ok\<close> by (auto simp: append_image_def Let_def bind_eq_Some_conv)
  have m: "map_full m"
  proof (cases "ColorMap (Image g)")
    case (Some x)
    with mk have "GifMakeMapObject (ColorCount x) (Some (Colors x)) h1 = Some (m, h2)" by simp
    then show ?thesis by (rule GifMakeMapObject_full) (simp add: cm [OF Some])
  qed (use mk in \<open>simp add: map_full_def\<close>)
  let ?sp = "zero_image\<lparr>ImageDesc := (Image g)\<lparr>ColorMap := m\<rparr>\<rparr>"
  let ?p = "(Private g)\<lparr>PixelCount := of_int (Width (Image g)) * of_int (Height (Image g))\<rparr>"
  have "\<not> (ColorMap (Image g) \<noteq> None \<and> m = None)"
    using run al \<open>ok\<close> mk pi(1) by (auto simp: append_image_def Let_def arr_def [symmetric] split: if_splits)
  moreover obtain r p' where su: "DGifSetupDecompress ?p = Some (r, p')" using DGifSetupDecompress_total [of ?p] by blast
  ultimately have "g' = g\<lparr>SavedImages := Some (arr[nat (ImageCount g) := ?sp]), gheap := h2, ImageCount := ImageCount g + 1, Private := p'\<rparr>"
    using run al \<open>ok\<close> mk pi(1) by (cases r) (auto simp: append_image_def Let_def arr_def [symmetric])
  moreover have "nat (ImageCount g) < length arr" using pi(2) c by simp
  ultimately show "appended g g'" "Image g' = Image g" using m pi(2,3)
    by (auto simp: appended_def same_rest_def intro!: exI [of _ m])
qed

lemma read_image_words_corner:
  assumes "read_image_words d p = (LzOk x, d', p')"
  shows "0 \<le> Left d' \<and> 0 \<le> Top d'"
proof -
  obtain r1 p1 where w1: "DGifGetWord p = (r1, p1)" by fastforce
  obtain r2 p2 where w2: "DGifGetWord p1 = (r2, p2)" by fastforce
  obtain r3 p3 where w3: "DGifGetWord p2 = (r3, p3)" by fastforce
  obtain r4 p4 where w4: "DGifGetWord p3 = (r4, p4)" by fastforce
  show ?thesis using assms w1 w2 w3 w4 DGifGetWord_range [of p] DGifGetWord_range [of p1]
    by (cases r1; cases r2; cases r3; cases r4) (auto simp: read_image_words_def)
qed

lemma DGifGetImageDesc_full:
  assumes inv: "gif_inv g" and run: "DGifGetImageDesc g = Some (GIF_OK, g')"
  shows "appended g g'" "0 \<le> Left (Image g')" "0 \<le> Top (Image g')"
proof -
  obtain r d p where w: "read_image_words (Image g) (Private g) = (r, d, p)" by (metis prod_cases3)
  have io: "images_ok (ImageCount g) (SavedImages g)" using inv by (simp add: gif_inv_def)
  have rd: "IS_READABLE (Private g)" using run by (auto simp: DGifGetImageDesc_def split: if_splits)
  obtain x where r: "r = LzOk x" using run w rd by (cases r) (auto simp: DGifGetImageDesc_def)
  have corner: "0 \<le> Left d \<and> 0 \<le> Top d" using read_image_words_corner w r by blast
  obtain bs p1 where b: "READ 1 p = (bs, p1)" by fastforce
  obtain b0 bs' where bs: "bs = b0 # bs'" using run w rd r b by (cases bs) (auto simp: DGifGetImageDesc_def)
  define h1 where "h1 = GifFreeMapObject (ColorMap d) (gheap g)"
  define d1 where "d1 = d\<lparr>Interlace := (b0 AND 0x40 \<noteq> 0), ColorMap := None\<rparr>"
  have main: "\<exists>g1. append_image g1 = Some (GIF_OK, g') \<and> same_rest g g1 \<and> ImageCount g1 = ImageCount g \<and>
      SavedImages g1 = SavedImages g \<and> Left (Image g1) = Left d \<and> Top (Image g1) = Top d \<and>
      (\<forall>cm. ColorMap (Image g1) = Some cm \<longrightarrow> ColorCount cm = int (length (Colors cm)))"
  proof (cases "b0 AND 0x80 = 0")
    case True
    then show ?thesis using run w rd r b bs
      by (intro exI [of _ "g\<lparr>Private := p1, Image := d1, gheap := h1\<rparr>"])
         (simp add: DGifGetImageDesc_def Let_def same_rest_def d1_def h1_def)
  next
    case False
    then obtain m h2 where mk: "GifMakeMapObject (2 ^ (unat (b0 AND 0x07) + 1)) None h1 = Some (m, h2)"
      using run w rd r b bs by (auto simp: DGifGetImageDesc_def Let_def h1_def bind_eq_Some_conv)
    then obtain cm where cm: "m = Some cm" "ColorCount cm = 2 ^ (unat (b0 AND 0x07) + 1)"
      using run w rd r b bs False GifMakeMapObject_total [where colors = None and cc = "2 ^ (unat (b0 AND 0x07) + 1)" and h = h1]
      by (cases m) (auto simp: DGifGetImageDesc_def Let_def h1_def)
    obtain o2 p2 where rc: "read_colors (nat (ColorCount cm)) [] p1 = (o2, p2)" by fastforce
    then obtain cs where cs: "o2 = Some cs"
      using run w rd r b bs False mk cm(1) by (cases o2) (auto simp: DGifGetImageDesc_def Let_def h1_def)
    let ?g1 = "g\<lparr>Private := p2, gheap := h2, Image := d1\<lparr>ColorMap := Some (cm\<lparr>Colors := cs\<rparr>)\<rparr>\<rparr>"
    have "length cs = nat (ColorCount cm)" using read_colors_length rc cs by fastforce
    then have "ColorCount cm = int (length cs)" using cm(2) by simp
    then show ?thesis using run w rd r b bs False mk cm(1) rc cs
      by (intro exI [of _ ?g1]) (simp add: DGifGetImageDesc_def Let_def same_rest_def d1_def h1_def)
  qed
  then obtain g1 where g1: "append_image g1 = Some (GIF_OK, g')" "same_rest g g1" "ImageCount g1 = ImageCount g"
    "SavedImages g1 = SavedImages g" "Left (Image g1) = Left d" "Top (Image g1) = Top d"
    "\<And>cm. ColorMap (Image g1) = Some cm \<Longrightarrow> ColorCount cm = int (length (Colors cm))" by blast
  note ap = append_image_full [OF _ g1(7) g1(1), unfolded g1(3,4), OF io]
  show "appended g g'" using ap(1) g1(2,3,4) by (simp add: appended_def same_rest_def)
  show "0 \<le> Left (Image g')" "0 \<le> Top (Image g')" using ap(2) g1(5,6) corner by simp_all
qed

lemma add_file_extension_full:
  assumes run: "add_file_extension func bs g = Some (GIF_OK, g')" and ex: "exts_full (FileExtensionBlockCount g) (FileExtensionBlocks g)"
  shows "exts_full (FileExtensionBlockCount g') (FileExtensionBlocks g')"
    "\<exists>c es h. g' = g\<lparr>FileExtensionBlockCount := c, FileExtensionBlocks := es, gheap := h\<rparr>"
proof -
  let ?c = "FileExtensionBlockCount g"
  define old where "old = (case FileExtensionBlocks g of None \<Rightarrow> [] | Some l \<Rightarrow> l)"
  define arr where "arr = (case FileExtensionBlocks g of None \<Rightarrow> [zero_ext] | Some l \<Rightarrow> resize (nat (?c + 1)) zero_ext l)"
  have c: "?c = int (length old)" "list_all ext_full old" using ex by (auto simp: exts_full_def old_def split: option.splits)
  have arr: "arr = old @ [zero_ext]" using c by (auto simp: arr_def old_def resize_def nat_add_distrib split: option.splits)
  have w: "lwrite arr ?c e = Some (old @ [e])" for e using c arr by simp
  obtain c' es' h' where add: "GifAddExtensionBlock ?c (FileExtensionBlocks g) func (length bs) (Some bs) (gheap g) = Some (GIF_OK, c', es', h')"
    and g': "g' = g\<lparr>FileExtensionBlockCount := c', FileExtensionBlocks := es', gheap := h'\<rparr>"
    using run by (auto simp: add_file_extension_def bind_eq_Some_conv)
  let ?e = "\<lparr>ByteCount = int (length bs), Bytes = Some bs, Function = func\<rparr>"
  have "c' = ?c + 1 \<and> es' = Some (old @ [?e])"
    using add by (auto simp: GifAddExtensionBlock_def arr_def [symmetric] w Let_def split: prod.splits if_splits bool.splits)
  then show "exts_full (FileExtensionBlockCount g') (FileExtensionBlocks g')"
    using c g' by (simp add: exts_full_def ext_full_def)
  show "\<exists>c es h. g' = g\<lparr>FileExtensionBlockCount := c, FileExtensionBlocks := es, gheap := h\<rparr>" using g' by blast
qed

lemma images_full_append:
  assumes io: "images_full (ImageCount g) (SavedImages g)" and l: "length l = nat (ImageCount g + 1)"
    "take (nat (ImageCount g)) l = take (nat (ImageCount g)) (case SavedImages g of None \<Rightarrow> [] | Some xs \<Rightarrow> xs)"
    and sp: "image_full sp"
  shows "images_full (ImageCount g + 1) (Some (l[nat (ImageCount g) := sp]))"
proof -
  let ?k = "nat (ImageCount g)"
  have c: "0 \<le> ImageCount g" "nat (ImageCount g + 1) = Suc ?k" using io by (auto simp: images_full_def)
  have "take (Suc ?k) (l[?k := sp]) = take ?k l @ [sp]"
    using l(1) c(2) by (subst take_Suc_conv_app_nth) simp_all
  moreover have "list_all image_full (take ?k l)"
    using io unfolding l(2) by (auto simp: images_full_def split: option.splits)
  ultimately show ?thesis using c l(1) sp by (simp add: images_full_def)
qed

lemma slurp_image_full:
  assumes inv: "gif_inv g" and full: "gif_full g" and run: "slurp_image g = Some (GIF_OK, g')"
  shows "gif_full g'"
proof -
  obtain r1 g1 where d: "DGifGetImageDesc g = Some (r1, g1)" "keeps g g1" "r1 = GIF_OK \<longrightarrow> image_ready g1"
    using DGifGetImageDesc_keeps [OF inv] by blast
  have r1: "r1 = GIF_OK" using run d(1) by (cases r1) (auto simp: slurp_image_def)
  have rdy: "image_ready g1" using d(3) r1 by blast
  note dg = DGifGetImageDesc_full [OF inv d(1) [unfolded r1]]
  obtain l m where l: "SavedImages g1 = Some l" "length l = nat (ImageCount g + 1)" "map_full m"
    "take (nat (ImageCount g)) l = take (nat (ImageCount g)) (case SavedImages g of None \<Rightarrow> [] | Some xs \<Rightarrow> xs)"
    "l ! nat (ImageCount g) = zero_image\<lparr>ImageDesc := (Image g1)\<lparr>ColorMap := m\<rparr>\<rparr>"
    and same: "same_rest g g1" and cnt: "ImageCount g1 = ImageCount g + 1"
    using dg(1) by (auto simp: appended_def)
  have c: "0 \<le> ImageCount g" using full by (simp add: gif_full_def images_full_def)
  define sp where "sp = zero_image\<lparr>ImageDesc := (Image g1)\<lparr>ColorMap := m\<rparr>\<rparr>"
  have rd: "lread l (ImageCount g1 - 1) = Some sp" and wr: "lwrite l (ImageCount g1 - 1) x = Some (l[nat (ImageCount g) := x])" for x
    using l(2,5) c cnt by (simp_all add: sp_def)
  have dim: "0 \<le> Width (ImageDesc sp)" "Width (ImageDesc sp) \<le> 65535" "0 \<le> Height (ImageDesc sp)" "Height (ImageDesc sp) \<le> 65535"
    "Width (Image g1) = Width (ImageDesc sp)" "PixelCount (Private g1) = image_size (ImageDesc sp)" "lz_inv (Private g1)"
    using rdy by (simp_all add: image_ready_def sp_def image_size_def)
  obtain ok h where al: "reallocarray False (image_size (ImageDesc sp)) 1 (gheap g1) = (ok, h)" by fastforce
  have small: "\<not> image_size (ImageDesc sp) > (- 1) div 1" by (simp add: word_not_simps not_less)
  have ok: ok using run d(1) r1 l(1) rd dim al small by (cases ok) (auto simp: slurp_image_def Let_def)
  have "unat (image_size (ImageDesc sp)) < 2 ^ 31"
    using al ok by (auto simp: reallocarray_def reallocarray_size_def realloc_def granted_def split: if_splits)
  then obtain r raster p where px: "read_pixels (ImageDesc sp) (Width (ImageDesc sp)) (Private g1) = Some (r, raster, p)"
    "int (length raster) = Width (ImageDesc sp) * Height (ImageDesc sp)"
    using read_pixels_total [OF dim(7,1-4,6)] by blast
  note steps = d(1) r1 l(1) rd wr dim al ok small px(1)
  have r: "r = LzOk ()" using run steps by (cases r) (auto simp: slurp_image_def Let_def)
  let ?sp1 = "sp\<lparr>RasterBits := Some raster\<rparr>"
  have "Left (ImageDesc sp) = Left (Image g1)" "Top (ImageDesc sp) = Top (Image g1)" "ColorMap (ImageDesc sp) = m"
    by (simp_all add: sp_def)
  then have f1: "frame_ok ?sp1" using dim(1,3) l(3) dg(2,3) px(2) by (simp add: frame_ok_def Let_def)
  have z: "ExtensionBlocks ?sp1 = None" "ExtensionBlockCount ?sp1 = 0" by (simp_all add: sp_def zero_image_def)
  have io: "images_full (ImageCount g) (SavedImages g)" and ef: "exts_full (FileExtensionBlockCount g) (FileExtensionBlocks g)"
    using full by (simp_all add: gif_full_def)
  note add = images_full_append [OF io l(2,4)]
  show ?thesis
  proof (cases "FileExtensionBlocks g1")
    case None
    have "g' = g1\<lparr>gheap := h, Private := p, SavedImages := Some (l[nat (ImageCount g) := ?sp1])\<rparr>"
      using run steps r None by (simp add: slurp_image_def Let_def)
    moreover have "image_full ?sp1" using f1 z by (simp add: image_full_def exts_full_def)
    ultimately show ?thesis using add full same cnt by (simp add: gif_full_def same_rest_def)
  next
    case (Some es)
    let ?sp2 = "?sp1\<lparr>ExtensionBlocks := Some es, ExtensionBlockCount := FileExtensionBlockCount g1\<rparr>"
    have "g' = g1\<lparr>gheap := h, Private := p, SavedImages := Some (l[nat (ImageCount g) := ?sp2]),
        FileExtensionBlocks := None, FileExtensionBlockCount := 0\<rparr>"
      using run steps r Some by (simp add: slurp_image_def Let_def)
    moreover have "image_full ?sp2" using f1 ef same Some by (simp add: image_full_def frame_ok_def same_rest_def)
    ultimately show ?thesis using add full same cnt by (simp add: gif_full_def same_rest_def exts_full_def)
  qed
qed

lemma gif_full_frame [simp]:
  "gif_full (g\<lparr>Private := p\<rparr>) = gif_full g" "gif_full (g\<lparr>Error := e\<rparr>) = gif_full g" "gif_full (g\<lparr>gheap := h\<rparr>) = gif_full g"
  by (simp_all add: gif_full_def)

lemma add_extension_gif_full:
  assumes run: "add_file_extension func bs g = Some (GIF_OK, g')" and full: "gif_full g"
  shows "gif_full g'"
proof -
  have ex: "exts_full (FileExtensionBlockCount g) (FileExtensionBlocks g)" using full by (simp add: gif_full_def)
  from add_file_extension_full [OF run ex] full show ?thesis by (auto simp: gif_full_def)
qed

lemma slurp_ext_loop_full: "gif_full g \<Longrightarrow> slurp_ext_loop g = Some (GIF_OK, g') \<Longrightarrow> gif_full g'"
proof (induction g rule: slurp_ext_loop.induct)
  case (1 g)
  show ?case
  proof (cases "\<exists>bs p. DGifGetExtensionNext (Private g) = Some (LzOk (Some bs), p)")
    case False
    with "1.prems" show ?thesis
      by (subst (asm) slurp_ext_loop.simps) (auto split: option.splits lz_result.splits)
  next
    case True
    then obtain bs p where n: "DGifGetExtensionNext (Private g) = Some (LzOk (Some bs), p)" by blast
    obtain g1 where a: "add_file_extension CONTINUE_EXT_FUNC_CODE bs (g\<lparr>Private := p\<rparr>) = Some (GIF_OK, g1)" "slurp_ext_loop g1 = Some (GIF_OK, g')"
      using "1.prems"(2) n by (subst (asm) slurp_ext_loop.simps) (auto split: option.splits gif_status.splits)
    have "gif_full g1" using add_extension_gif_full [OF a(1)] "1.prems"(1) by simp
    with "1.IH" n a show ?thesis by blast
  qed
qed

lemma slurp_extension_full:
  assumes full: "gif_full g" and run: "slurp_extension g = Some (GIF_OK, g')"
  shows "gif_full g'"
proof -
  obtain r p where n: "DGifGetExtension (Private g) = Some (r, p)" using DGifGetExtension_total by blast
  obtain func x where r: "r = LzOk (func, x)" using run n by (cases r) (auto simp: slurp_extension_def)
  show ?thesis
  proof (cases x)
    case None
    with run n r full show ?thesis by (auto simp: slurp_extension_def)
  next
    case (Some bs)
    obtain s g1 where a: "add_file_extension func bs (g\<lparr>Private := p\<rparr>) = Some (s, g1)"
      using run n r Some by (auto simp: slurp_extension_def bind_eq_Some_conv)
    then have "s = GIF_OK" "slurp_ext_loop g1 = Some (GIF_OK, g')"
      using run n r Some by (cases s; auto simp: slurp_extension_def)+
    note a = a this
    have "gif_full g1" using add_extension_gif_full a(1,2) full by simp
    then show ?thesis using a(3) by (rule slurp_ext_loop_full)
  qed
qed

lemma DGifGetRecordType_full:
  assumes "DGifGetRecordType g = (r, t, g')"
  shows "gif_full g' = gif_full g"
proof -
  obtain bs p where rd: "READ 1 (Private g) = (bs, p)" by fastforce
  show ?thesis
  proof (cases bs)
    case Nil
    with assms rd show ?thesis by (simp add: DGifGetRecordType_def split: if_splits) force+
  next
    case (Cons c cs)
    with assms rd show ?thesis by (simp add: DGifGetRecordType_def split: if_splits) force+
  qed
qed

lemma slurp_loop_full: "gif_inv g \<Longrightarrow> gif_full g \<Longrightarrow> slurp_loop g = Some (GIF_OK, g') \<Longrightarrow> gif_full g' \<and> 0 < ImageCount g'"
proof (induction "left (Private g)" arbitrary: g rule: less_induct)
  case less
  obtain r t g1 where rt: "DGifGetRecordType g = (r, t, g1)" by (metis prod_cases3)
  note k = DGifGetRecordType_keeps [OF less.prems(1) rt]
  have f1: "gif_full g1" using DGifGetRecordType_full [OF rt] less.prems(2) by simp
  have inv1: "gif_inv g1" using k(1) by (simp add: keeps_def)
  have r: "r = GIF_OK" using less.prems(3) rt by (subst (asm) slurp_loop.simps) (auto split: gif_status.splits)
  show ?case
  proof (cases "t = TERMINATE_RECORD_TYPE")
    case True
    then have "ImageCount g1 \<noteq> 0" "g' = g1"
      using less.prems(3) rt r by (subst (asm) slurp_loop.simps; auto split: if_splits)+
    with f1 show ?thesis by (auto simp: gif_full_def images_full_def)
  next
    case False
    obtain g2 where st: "(if t = IMAGE_DESC_RECORD_TYPE then slurp_image g1 else slurp_extension g1) = Some (GIF_OK, g2)"
      "slurp_loop g2 = Some (GIF_OK, g')"
      using less.prems(3) rt r False by (subst (asm) slurp_loop.simps) (auto split: option.splits gif_status.splits)
    have "gif_full g2" using st(1) slurp_image_full [OF inv1 f1] slurp_extension_full [OF f1] by (auto split: if_splits)
    moreover have k2: "keeps g1 g2" using st(1) slurp_image_keeps [OF inv1] slurp_extension_keeps [OF inv1] by (auto split: if_splits)
    then have "left (Private g2) < left (Private g)" "gif_inv g2" using k(2) r by (simp_all add: keeps_def)
    ultimately show ?thesis using less.hyps st(2) by blast
  qed
qed

section \<open>The sequence of a file\<close>

lemma find_gcb_total: "list_all ext_full es \<Longrightarrow> \<exists>r. find_gcb es = Some r"
proof (induction es)
  case (Cons e es)
  then obtain bs where bs: "Bytes e = Some bs" "int (length bs) = ByteCount e" by (auto simp: ext_full_def split: option.splits)
  with Cons show ?case by (cases "ByteCount e = 4") (auto simp: DGifExtensionToGCB_def)
qed simp

lemma loop_pair_total: "ext_full e1 \<Longrightarrow> ext_full e2 \<Longrightarrow> \<exists>n'. loop_pair e1 e2 n = Some n'"
  by (auto simp: loop_pair_def ext_full_def split: option.splits)

lemma find_loop_total: "list_all ext_full es \<Longrightarrow> \<exists>n'. find_loop es n = Some n'"
proof (induction es n rule: find_loop.induct)
  case (1 e1 e2 es n)
  obtain n1 where "loop_pair e1 e2 n = Some n1" using loop_pair_total 1(2) by fastforce
  with 1 show ?case by simp
qed simp_all

lemma full_frame:
  assumes "gif_full g" "i < nat (ImageCount g)"
  shows "image_full (frame_at g i)" "\<exists>imgs. SavedImages g = Some imgs \<and> lread imgs (int i) = Some (frame_at g i)"
  using assms by (auto simp: gif_full_def images_full_def frame_at_def list_all_length split: option.splits)

lemma full_readable:
  assumes "gif_full g" "i < nat (ImageCount g)"
  shows "readable_gcb g i"
proof -
  obtain imgs where "SavedImages g = Some imgs" "lread imgs (int i) = Some (frame_at g i)" using full_frame(2) [OF assms] by blast
  then show ?thesis
    using full_frame(1) [OF assms] assms(2)
    by (auto dest!: find_gcb_total simp: readable_gcb_def DGifSavedExtensionToGCB_def image_full_def exts_full_def split: option.splits)
qed

lemma full_playable: "gif_full g \<Longrightarrow> 0 < ImageCount g \<Longrightarrow> playable g"
  using full_readable full_frame(1)
  by (auto simp: playable_def image_full_def gif_full_def images_full_def split: option.splits)

lemma scan_frame_total:
  assumes full: "gif_full g" "0 < ImageCount g" and i: "i < nat (ImageCount g)" and s: "scanned g i s"
  shows "\<exists>s'. scan_frame g (int i) s = Some s'"
proof -
  obtain fs dur lst where fs: "s = (fs, dur, lst)" by (cases s)
  obtain imgs where imgs: "SavedImages g = Some imgs" "lread imgs (int i) = Some (frame_at g i)" using full_frame(2) [OF full(1) i] by blast
  let ?c = "ExtensionBlockCount (frame_at g i)"
  have "\<exists>exts. (if ?c \<le> 1 then Some []
      else do { es \<leftarrow> ExtensionBlocks (frame_at g i);
                if nat ?c \<le> length es then Some (take (nat ?c) es) else None }) = Some exts \<and> list_all ext_full exts"
    using full_frame(1) [OF full(1) i] by (auto simp: image_full_def exts_full_def split: option.splits)
  then obtain exts loops where ex: "(if ?c \<le> 1 then Some []
      else do { es \<leftarrow> ExtensionBlocks (frame_at g i);
                if nat ?c \<le> length es then Some (take (nat ?c) es) else None }) = Some exts"
    "find_loop exts (mLoopCount fs) = Some loops" using find_loop_total by blast
  have gcb: "saved_gcb g (int i) None = Some (Some (gcb_at g i))" by (rule playable_frame(1) [OF full_playable [OF full] i])
  have "lst < int (nat (ImageCount g))" using s i kept_index_less [of g i] by (auto simp: scanned_def fs)
  then have "lst < ImageCount g" using full(2) by simp
  moreover have "int i < ImageCount g" using i by simp
  ultimately show ?thesis using s imgs ex gcb by (simp add: scan_frame_def fs scanned_def)
qed

lemma scan_frames_total:
  "gif_full g \<Longrightarrow> 0 < ImageCount g \<Longrightarrow> i + k = nat (ImageCount g) \<Longrightarrow> scanned g i s \<Longrightarrow> \<exists>s'. scan_frames g k (int i) s = Some s'"
proof (induction k arbitrary: i s)
  case (Suc k)
  have i: "i < nat (ImageCount g)" using Suc.prems(3) by simp
  obtain s1 where s1: "scan_frame g (int i) s = Some s1" using scan_frame_total [OF Suc.prems(1,2) i Suc.prems(4)] by blast
  have "scanned g (Suc i) s1" by (rule scan_frame_scanned [OF full_playable [OF Suc.prems(1,2)] i Suc.prems(4) s1])
  from Suc.IH [OF Suc.prems(1,2) _ this] s1 Suc.prems(3) show ?case by (simp add: add.commute)
next
  case 0
  then show ?case by (cases s) simp
qed

text \<open>The colour index of the background, when it is used, lies in the global map.\<close>

definition background_ok :: "dgif \<Rightarrow> bool" where
  "background_ok g \<longleftrightarrow> (case SColorMap g of None \<Rightarrow> True | Some m \<Rightarrow>
     TransparentColor (gcb_at g 0) = NO_TRANSPARENT_COLOR \<longrightarrow> SBackGroundColor g < int (length (Colors m)))"

lemma sequence_of_total:
  assumes full: "gif_full g" "0 < ImageCount g"
  shows "(\<exists>fs. sequence_of g = Some fs) \<longleftrightarrow> background_ok g"
proof -
  let ?n = "nat (ImageCount g)"
  let ?fs = "no_sequence\<lparr>mGif := Some g, mPreservedFrames := Some (replicate ?n False), mRestoringFrames := Some (replicate ?n 0)\<rparr>"
  have "scanned g 0 (?fs, 0, - 1)" by (simp add: scanned_def kept_index_def map_replicate_const)
  from scan_frames_total [OF full _ this, of ?n] obtain s where "scan_frames g ?n 0 (?fs, 0, - 1) = Some s" by auto
  then have "(\<exists>fs. sequence_of g = Some fs) \<longleftrightarrow> (\<exists>bg. background g = Some bg)"
    by (cases s) (simp add: sequence_of_def bind_eq_Some_conv)
  moreover have "saved_gcb g 0 None = Some (Some (gcb_at g 0))"
    using playable_frame(1) [OF full_playable [OF full], of 0 None] full(2) by simp
  moreover have "0 \<le> SBackGroundColor g" using full(1) by (simp add: gif_full_def)
  ultimately show ?thesis by (auto simp: background_def background_ok_def lread_def split: option.splits)
qed

section \<open>Files that the reader has opened\<close>

lemma DGifGetScreenDesc_full:
  assumes run: "DGifGetScreenDesc g = Some (GIF_OK, g')"
  shows "0 \<le> SWidth g' \<and> 0 \<le> SHeight g' \<and> map_full (SColorMap g') \<and> 0 \<le> SBackGroundColor g'"
proof -
  have rd: "IS_READABLE (Private g)" using run by (auto simp: DGifGetScreenDesc_def split: if_splits)
  obtain r1 p1 where w1: "DGifGetWord (Private g) = (r1, p1)" by fastforce
  obtain w where r1: "r1 = LzOk w" using run rd w1 by (cases r1) (auto simp: DGifGetScreenDesc_def)
  obtain r2 p2 where w2: "DGifGetWord p1 = (r2, p2)" by fastforce
  obtain v where r2: "r2 = LzOk v" using run rd w1 r1 w2 by (cases r2) (auto simp: DGifGetScreenDesc_def)
  have wv: "0 \<le> w" "0 \<le> v" using DGifGetWord_range w1 w2 r1 r2 by blast+
  obtain bs p3 where b: "READ 3 p2 = (bs, p3)" by fastforce
  obtain b0 b1 b2 where bs: "bs = [b0, b1, b2]"
  proof (cases "\<exists>b0 b1 b2. bs = [b0, b1, b2]")
    case False
    then have "DGifGetScreenDesc g \<noteq> Some (GIF_OK, g')"
      using rd w1 r1 w2 r2 b by (auto simp: DGifGetScreenDesc_def Let_def split: list.splits)
    with run show ?thesis by blast
  qed (use that in blast)
  show ?thesis
  proof (cases "b0 AND 0x80 = 0")
    case True
    with run rd w1 r1 w2 r2 b bs wv show ?thesis by (auto simp: DGifGetScreenDesc_def Let_def map_full_def)
  next
    case False
    then obtain m hp where mk: "GifMakeMapObject (2 ^ (unat (b0 AND 0x07) + 1)) None (gheap g) = Some (m, hp)"
      using run rd w1 r1 w2 r2 b bs by (auto simp: DGifGetScreenDesc_def Let_def bind_eq_Some_conv)
    obtain cm where cm: "m = Some cm" using run rd w1 r1 w2 r2 b bs mk False by (cases m) (auto simp: DGifGetScreenDesc_def Let_def)
    have cc: "ColorCount cm = 2 ^ (unat (b0 AND 0x07) + 1)"
      using mk cm GifMakeMapObject_total [where colors = None and cc = "2 ^ (unat (b0 AND 0x07) + 1)" and h = "gheap g"] by auto
    obtain o2 p4 where rc: "read_colors (nat (ColorCount cm)) [] p3 = (o2, p4)" by fastforce
    obtain cs where cs: "o2 = Some cs" using run rd w1 r1 w2 r2 b bs mk False cm rc by (cases o2) (auto simp: DGifGetScreenDesc_def Let_def)
    have "length cs = nat (ColorCount cm)" using read_colors_length rc cs by fastforce
    then have "ColorCount cm \<le> int (length cs)" using cc by simp
    with run rd w1 r1 w2 r2 b bs mk False cm rc cs wv show ?thesis by (auto simp: DGifGetScreenDesc_def Let_def map_full_def)
  qed
qed

lemma DGifOpen_full:
  assumes run: "DGifOpen stream h = Some (Some g, e, h')"
  shows "gif_full g" "gif_inv g" "slack g = blocks h" "FileExtensionBlocks g = None"
proof -
  show k: "gif_inv g" "slack g = blocks h" "FileExtensionBlocks g = None"
    using open_source_total [of "Some D_GIF_ERR_NO_SCRN_DSCR" stream h] run unfolding DGifOpen_def by auto
  obtain ok1 h1 where m1: "malloc 76 h = (ok1, h1)" by fastforce
  obtain ok2 h2 where m2: "malloc 24908 h1 = (ok2, h2)" by fastforce
  obtain stamp p where rd: "READ 6 (Private (new_gif stream h2)) = (stamp, p)" by fastforce
  let ?g = "new_gif stream h2\<lparr>Private := p\<rparr>"
  have oks: ok1 ok2 "length stamp = 6" "take 3 stamp = [0x47, 0x49, 0x46]"
    using run m1 m2 rd by (auto simp: DGifOpen_def open_source_def Let_def split: bool.splits if_splits)
  obtain r g2 where sd: "DGifGetScreenDesc ?g = Some (r, g2)" "SavedImages g2 = SavedImages ?g" "ImageCount g2 = ImageCount ?g"
    using DGifGetScreenDesc_keeps [of ?g] new_gif_facts [of stream h2] by auto
  have r: "r = GIF_OK" using run m1 m2 rd oks sd(1) by (cases r) (auto simp: DGifOpen_def open_source_def Let_def)
  have g: "g = g2\<lparr>Error := 0, Private := (Private g2)\<lparr>gif89 := (stamp ! 3 = 0x39)\<rparr>\<rparr>"
    using run m1 m2 rd oks sd(1) r by (auto simp: DGifOpen_def open_source_def Let_def)
  have "exts_full (FileExtensionBlockCount g) (FileExtensionBlocks g)"
    using k(1,3) by (simp add: gif_inv_def ext_ok_def exts_full_def)
  moreover have "images_full (ImageCount g) (SavedImages g)" using sd(2,3) by (simp add: g images_full_def new_gif_def)
  ultimately show "gif_full g" using DGifGetScreenDesc_full [OF sd(1) [unfolded r]] by (simp add: gif_full_def g)
qed

lemma DGifSlurp_full:
  assumes o: "DGifOpen stream h = Some (Some g, e, h')" and run: "DGifSlurp g = Some (st, g')"
  shows "gif_inv g'" "slack g' = blocks h" "st = GIF_OK \<Longrightarrow> gif_full g' \<and> 0 < ImageCount g'"
proof -
  note f = DGifOpen_full [OF o]
  let ?g = "g\<lparr>FileExtensionBlocks := None, FileExtensionBlockCount := 0\<rparr>"
  have g: "gif_inv ?g" "slack ?g = blocks h" "gif_full ?g"
    using f gif_inv_clear_ext [of g] by (simp_all add: slack_ext ext_blocks_def gif_full_def exts_full_def)
  have "keeps ?g g'" using slurp_loop_keeps [OF g(1)] run by (auto simp: DGifSlurp_def)
  then show "gif_inv g'" "slack g' = blocks h" using g(2) by (simp_all add: keeps_def)
  show "gif_full g' \<and> 0 < ImageCount g'" if "st = GIF_OK" using slurp_loop_full [OF g(1,3)] run that by (simp add: DGifSlurp_def)
qed

lemma DGifSlurp_total:
  assumes "DGifOpen stream h = Some (Some g, e, h')"
  shows "\<exists>st g'. DGifSlurp g = Some (st, g')"
  using slurp_loop_keeps [of "g\<lparr>FileExtensionBlocks := None, FileExtensionBlockCount := 0\<rparr>"]
    gif_inv_clear_ext [OF DGifOpen_full(2) [OF assms]] by (auto simp: DGifSlurp_def)

lemma new_FrameSequence_gif_cases:
  obtains (bad) g0 e h0 g where "DGifOpen stream h = Some (Some g0, e, h0)" "DGifSlurp g0 = Some (GIF_OK, g)"
      "\<not> background_ok g" "new_FrameSequence_gif stream h = None"
  | (none) h' where "new_FrameSequence_gif stream h = Some (no_sequence, h')" "blocks h' = blocks h"
  | (some) g fs where "new_FrameSequence_gif stream h = Some (fs, gheap g)" "mGif fs = Some g" "playable g" "tables g fs"
      "gif_inv g" "slack g = blocks h" "background g = Some (mBgColor fs)"
proof -
  obtain r e h0 where o: "DGifOpen stream h = Some (r, e, h0)" "r = None \<Longrightarrow> blocks h0 = blocks h"
    using open_source_total [of "Some D_GIF_ERR_NO_SCRN_DSCR" stream h] unfolding DGifOpen_def by (auto split: option.splits)
  show thesis
  proof (cases r)
    case None
    with o show thesis by (intro none [of h0]) (simp_all add: new_FrameSequence_gif_def)
  next
    case (Some g0)
    note og = o(1) [unfolded Some]
    obtain st g where sl: "DGifSlurp g0 = Some (st, g)" using DGifSlurp_total [OF og] by blast
    note f = DGifSlurp_full [OF og sl]
    show thesis
    proof (cases st)
      case GIF_ERROR
      obtain s c h2 where "DGifCloseFile None g = Some (s, c, h2)" "blocks h2 = blocks h"
        using DGifCloseFile_total [OF f(1), of None] f(2) by auto
      with og sl GIF_ERROR show thesis by (intro none [of h2]) (simp_all add: new_FrameSequence_gif_def)
    next
      case GIF_OK
      then have full: "gif_full g" "0 < ImageCount g" using f(3) by auto
      show thesis
      proof (cases "sequence_of g")
        case None
        then have "\<not> background_ok g" using sequence_of_total [OF full] by simp
        with og sl GIF_OK None show thesis by (intro bad) (simp_all add: new_FrameSequence_gif_def)
      next
        case seq: (Some fs)
        note pl = full_playable [OF full]
        have "mGif fs = Some g" using sequence_of_tables(1) [OF pl seq] by (simp add: tables_def)
        with og sl GIF_OK seq f(1,2) pl sequence_of_tables [OF pl seq] show thesis
          by (intro some) (simp_all add: new_FrameSequence_gif_def)
      qed
    qed
  qed
qed

text \<open>(C9) Creating a player for any bytes either fails, with every block given back, or yields a sequence
  with a screen and frames that all have their pixels and colours, whose tables name for each frame the one it
  restores and the ones to preserve, and whose deletion gives every block back.  The only access outside an
  array is the one of the background colour, for a file whose background index lies behind the global map.\<close>

theorem create_sequence_exact:
  "case create_sequence stream h of
     None \<Rightarrow> \<exists>g0 e h0 g. DGifOpen stream h = Some (Some g0, e, h0) \<and> DGifSlurp g0 = Some (GIF_OK, g) \<and> \<not> background_ok g
   | Some (None, h') \<Rightarrow> blocks h' = blocks h
   | Some (Some fs, h') \<Rightarrow> \<exists>g. mGif fs = Some g \<and> playable g \<and> 0 < SWidth g \<and> 0 < SHeight g \<and> tables g fs \<and>
       background g = Some (mBgColor fs) \<and>
       (\<exists>h''. delete_FrameSequence_gif fs h' = Some h'' \<and> blocks h'' = blocks h)"
proof (cases rule: new_FrameSequence_gif_cases [of stream h])
  case (bad g0 e h0 g)
  then show ?thesis by (auto simp: create_sequence_def)
next
  case (none h')
  then show ?thesis
    by (simp add: create_sequence_def no_sequence_def getFrameCount_def delete_FrameSequence_gif_def)
next
  case (some g fs)
  obtain s c h2 where cl: "DGifCloseFile None g = Some (s, c, h2)" "blocks h2 = blocks h"
    using DGifCloseFile_total [OF some(5), of None] some(6) by auto
  have "0 < ImageCount g" "0 \<le> SWidth g" "0 \<le> SHeight g" using some(3) by (simp_all add: playable_def)
  with some cl show ?thesis
    by (auto simp: create_sequence_def getFrameCount_def getWidth_def getHeight_def delete_FrameSequence_gif_def)
qed

section \<open>Drawing is safe\<close>

definition state_ok :: "dgif \<Rightarrow> FrameSequenceState_gif \<Rightarrow> bool" where
  "state_ok g st \<longleftrightarrow> (case mPreserveBuffer st of None \<Rightarrow> True | Some b \<Rightarrow> bitmap g (SWidth g) b)"

lemma savePreserveBuffer_safe:
  assumes st: "state_ok g st" and bm: "bitmap g s out" and fs: "getWidth fs = SWidth g" "getHeight fs = SHeight g"
  shows "\<exists>st'. savePreserveBuffer fs out s i st = Some st' \<and> state_ok g st'"
proof -
  define b where "b = (case mPreserveBuffer st of None \<Rightarrow> replicate (nat (SWidth g * SHeight g)) 0 | Some b \<Rightarrow> b)"
  have b: "bitmap g (SWidth g) b"
    using st bm by (auto simp: b_def state_ok_def bitmap_def mult.commute split: option.splits)
  obtain b' where "copy_rows (nat (SHeight g)) 0 (nat (SWidth g)) (SWidth g) s out b = Some b'" "length b' = length b"
    using copy_screen_draws [OF b bm] by (auto simp: draws_def)
  with bitmap_length [OF b] st fs show ?thesis
    by (cases "i = mPreserveBufferFrame st") (auto simp: savePreserveBuffer_def Let_def b_def [symmetric] state_ok_def)
qed

lemma dispose_previous_safe:
  assumes pl: "playable g" and j: "j < nat (ImageCount g)" and fs: "getWidth fs = SWidth g" "getHeight fs = SHeight g"
    and st: "state_ok g st" and bm: "bitmap g s out"
  shows "\<exists>out'. dispose_previous fs s gcb (frame_at g j) st out = Some out' \<and> length out' = length out"
proof -
  obtain cw ch where sz: "getCopySize (ImageDesc (frame_at g j)) (SWidth g) (SHeight g) = (cw, ch)" by fastforce
  have "\<exists>out'. restorePreserveBuffer fs s st out = Some out' \<and> length out' = length out"
    using copy_screen_draws [OF bm] st fs by (fastforce simp: restorePreserveBuffer_def state_ok_def draws_def split: option.splits)
  then show ?thesis
    using clear_frame_draws [OF playable_frame(3) [OF pl j] bm sz] sz fs by (fastforce simp: dispose_previous_def draws_def)
qed

lemma prepare_frame_safe:
  assumes pl: "playable g" and i: "i < nat (ImageCount g)" and tb: "tables g fs" and st: "state_ok g st" and bm: "bitmap g s out"
  shows "\<exists>st' out'. prepare_frame fs g s (int i) gcb frame (st, out) = Some (st', out') \<and> length out' = length out \<and> state_ok g st'"
proof (cases i)
  case 0
  obtain o1 where "clear_bitmap (nat (SHeight g)) 0 (nat (SWidth g)) s (mBgColor fs) out = Some o1" "length o1 = length out"
    using clear_bitmap_draws [OF bm, of "mBgColor fs"] unfolding draws_def by blast
  with 0 st tables_facts(1,2) [OF tb] show ?thesis by (simp add: prepare_frame_def)
next
  case (Suc j)
  have j: "j < nat (ImageCount g)" using i Suc by simp
  obtain imgs where imgs: "SavedImages g = Some imgs" "lread imgs (int j) = Some (frame_at g j)"
    using playable_frame(2) [OF pl j] by blast
  let ?c = "willBeCleared (gcb_at g j) \<and> \<not> (TransparentColor gcb = NO_TRANSPARENT_COLOR \<and>
      checkIfCover (ImageDesc frame) (ImageDesc (frame_at g j)))"
  obtain o1 where o1: "(if ?c then dispose_previous fs s (gcb_at g j) (frame_at g j) st out else Some out) = Some o1" "length o1 = length out"
    using dispose_previous_safe [OF pl j tables_facts(1,2) [OF tb] st bm] by (cases ?c) auto
  obtain st' where "(if preserved g j then savePreserveBuffer fs o1 s (int j) st else Some st) = Some st'" "state_ok g st'"
    using savePreserveBuffer_safe [OF st bitmap_length [OF bm o1(2)] tables_facts(1,2) [OF tb]] st by (cases "preserved g j") auto
  with o1 imgs playable_frame(1) [OF pl j] tables_facts(3) [OF tb j] Suc show ?thesis
    by (cases "preserved g j"; cases ?c) (auto simp: prepare_frame_def Let_def)
qed

lemma draw_turn_safe:
  assumes pl: "playable g" and i: "i < nat (ImageCount g)" and tb: "tables g fs" and st: "state_ok g st" and bm: "bitmap g s out"
  shows "\<exists>gcb st' out'. draw_turn fs g s m (int i) (st, out) = Some (gcb, st', out') \<and> length out' = length out \<and> state_ok g st'"
proof -
  obtain imgs where imgs: "SavedImages g = Some imgs" "lread imgs (int i) = Some (frame_at g i)"
    using playable_frame(2) [OF pl i] by blast
  obtain st' o1 where p: "prepare_frame fs g s (int i) (gcb_at g i) (frame_at g i) (st, out) = Some (st', o1)"
    "length o1 = length out" "state_ok g st'" using prepare_frame_safe [OF pl i tb st bm] by blast
  obtain o2 where "paint_frame fs g s (gcb_at g i) (frame_at g i) o1 = Some o2" "length o2 = length o1"
    using paint_frame_draws [OF pl i bitmap_length [OF bm p(2)] tables_facts(1,2) [OF tb]] by (auto simp: draws_def)
  with playable_frame(1) [OF pl i] imgs p show ?thesis
    by (cases "int i = m \<or> \<not> willBeCleared (gcb_at g i)") (auto simp: draw_turn_def)
qed

lemma draw_loop_safe:
  "playable g \<Longrightarrow> tables g fs \<Longrightarrow> i + k \<le> nat (ImageCount g) \<Longrightarrow> state_ok g st \<Longrightarrow> bitmap g s out \<Longrightarrow>
    \<exists>v' st' out'. draw_loop fs g s m k (int i) (v, st, out) = Some (v', st', out') \<and> length out' = length out \<and> state_ok g st'"
proof (induction k arbitrary: i v st out)
  case (Suc k)
  have i: "i < nat (ImageCount g)" using Suc.prems(3) by simp
  obtain gcb st1 o1 where t: "draw_turn fs g s m (int i) (st, out) = Some (gcb, st1, o1)" "length o1 = length out" "state_ok g st1"
    using draw_turn_safe [OF Suc.prems(1) i Suc.prems(2,4,5)] by blast
  from Suc.IH [OF Suc.prems(1,2) _ t(3) bitmap_length [OF Suc.prems(5) t(2)], of "Suc i" "Some gcb"] Suc.prems(3) t show ?case
    by (simp add: add.commute)
qed simp

text \<open>(C13) Drawing any frame of a sequence as \<open>create_sequence_exact\<close> yields it, from any previous frame and with any preserve buffer left by
  earlier calls, stays inside the bitmap, the preserve buffer and the data of the file, and keeps the length of the
  bitmap.\<close>

theorem drawFrame_safe:
  assumes pl: "playable g" and tb: "tables g fs" and m: "0 \<le> m" "m < ImageCount g" and bm: "bitmap g stride out" and st: "state_ok g st"
  shows "\<exists>delay st' out'. drawFrame fs m stride p (st, out) = Some (delay, st', out') \<and> length out' = length out \<and> state_ok g st'"
proof -
  define start0 where "start0 = max (p + 1) 0"
  define i0 where "i0 = nat (max (start0 - 1) 0)"
  have "\<exists>b. choose_start fs st (nat (m - int i0)) (int i0) start0 = Some (if b then 0 else start0)"
  proof (cases "nat (m - int i0) = 0")
    case True
    then show ?thesis by (intro exI [of _ False]) simp
  next
    case False
    then have "i0 + nat (m - int i0) \<le> nat (ImageCount g)" using m by linarith
    from choose_start_spec [OF tb this, of st start0] show ?thesis by blast
  qed
  then obtain b where ch: "choose_start fs st (nat (m - int i0)) (int i0) start0 = Some (if b then 0 else start0)" by blast
  define start where "start = nat (if b then 0 else start0)"
  have start: "(if b then 0 else start0) = int start" by (simp add: start_def start0_def)
  have "\<exists>v st' out'. draw_loop fs g stride m (nat (m - int start + 1)) (int start) (None, st, out) = Some (v, st', out') \<and>
      length out' = length out \<and> state_ok g st'"
  proof (cases "int start \<le> m")
    case True
    then have "start + nat (m - int start + 1) \<le> nat (ImageCount g)" using m by linarith
    from draw_loop_safe [OF pl tb this st bm] show ?thesis .
  next
    case False
    then have "nat (m - int start + 1) = 0" by simp
    with st show ?thesis by simp
  qed
  then obtain v st' out' where loop: "draw_loop fs g stride m (nat (m - int start + 1)) (int start) (None, st, out) = Some (v, st', out')"
    "length out' = length out" "state_ok g st'" by blast
  let ?l = "(m + ImageCount g - 1) mod ImageCount g"
  have last: "c_mod (m + ImageCount g - 1) (ImageCount g) = Some ?l" "0 \<le> ?l" "?l < ImageCount g"
    using m by (simp_all add: c_mod_def)
  have "saved_gcb g (int (nat ?l)) v = Some (Some (gcb_at g (nat ?l)))" by (rule playable_frame(1) [OF pl]) (use last m in simp)
  then have "saved_gcb g ?l v = Some (Some (gcb_at g (nat ?l)))" using last(2) by simp
  with ch loop last(1) tb start show ?thesis
    by (simp add: drawFrame_def tables_def start0_def [symmetric] i0_def)
qed

text \<open>(C3) In a sequence as \<open>create_sequence_exact\<close> yields it, whose restored frames have a kept frame to go back to and whose opaque frames
  use only colours of their maps, \<open>drawFrame\<close> paints exactly the picture of the specification: whatever the
  preserve buffer still holds, and whether it starts from a bitmap of any content or from one that shows an
  earlier frame.  It leaves the preserve buffer right for the next call and returns the delay of the
  frame before the drawn one.\<close>

theorem drawFrame_shows:
  assumes fs: "playable g" "tables g fs" and sp: "restorable g" "opaque_full g"
    and m: "m < nat (ImageCount g)" and bm: "bitmap g stride out" and pr: "preserves g (mBgColor fs) st"
    and prev: "p \<le> int m" "0 \<le> p \<longrightarrow> pictures g (mBgColor fs) stride (nat p) out"
  shows "\<exists>st' out'. drawFrame fs (int m) stride p (st, out) =
      Some (getDelayMs (gcb_at g ((m + nat (ImageCount g) - 1) mod nat (ImageCount g))), st', out') \<and>
    length out' = length out \<and> pictures g (mBgColor fs) stride m out' \<and> preserves g (mBgColor fs) st'"
  using drawFrame_pictures [OF fs(1) sp fs(2) m bm pr prev(1)] prev(2) by blast

lemma createState_preserves: "preserves g bg createState" "state_ok g createState"
  by (simp_all add: preserves_def createState_def state_ok_def)

section \<open>An example\<close>

text \<open>Three frames on a screen of two pixels: a kept one, one on the left pixel that is undone by restoring, and one
  that paints the right pixel and has a transparent colour.\<close>

definition demo_frame :: "int \<Rightarrow> int \<Rightarrow> u8 \<Rightarrow> u8 list \<Rightarrow> SavedImage" where
  "demo_frame l w flags px =
     \<lparr>ImageDesc = \<lparr>Left = l, Top = 0, Width = w, Height = 1, Interlace = False, ColorMap = None\<rparr>,
      RasterBits = Some px, ExtensionBlockCount = 1,
      ExtensionBlocks = Some [\<lparr>ByteCount = 4, Bytes = Some [flags, 7, 0, 0], Function = GRAPHICS_EXT_FUNC_CODE\<rparr>]\<rparr>"

definition demo_gif :: dgif where
  "demo_gif = (new_gif [] \<lparr>outcomes = [], blocks = 0\<rparr>)\<lparr>ImageCount := 3, SWidth := 2, SHeight := 1,
     SavedImages := Some [demo_frame 0 2 4 [0, 1], demo_frame 0 1 12 [1], demo_frame 1 1 5 [1]],
     SColorMap := Some (demo_map [rgb 1 2 3, rgb 4 5 6])\<rparr>"

definition demo_sequence :: FrameSequence_gif where
  "demo_sequence = no_sequence\<lparr>mGif := Some demo_gif, mBgColor := TRANSPARENT,
     mPreservedFrames := Some [True, False, False], mRestoringFrames := Some [- 1, 0, - 1]\<rparr>"

lemma demo_playable: "playable demo_gif"
  by code_simp

lemma demo_tables: "tables demo_gif demo_sequence"
proof -
  have "map (restoring demo_gif) [0..<nat (ImageCount demo_gif)] = [- 1, 0, - 1]" by code_simp
  moreover have "map (preserved demo_gif) [0..<nat (ImageCount demo_gif)] = [True, False, False]" by code_simp
  ultimately show ?thesis by (simp add: tables_def demo_sequence_def)
qed

lemma demo_conditions: "restorable demo_gif" "opaque_full demo_gif"
  by code_simp+

lemma demo_bitmap: "bitmap demo_gif 2 [0, 0]"
  by code_simp

theorem drawFrame_safe_witness:
  "\<exists>delay st' out'. drawFrame demo_sequence 2 2 1 (createState, [0, 0]) = Some (delay, st', out') \<and>
     length out' = length [0, 0 :: u32] \<and> state_ok demo_gif st'"
  by (rule drawFrame_safe [OF demo_playable demo_tables _ _ demo_bitmap createState_preserves(2)]) code_simp+

theorem drawFrame_shows_witness:
  "\<exists>st' out'. drawFrame demo_sequence (int 2) 2 (- 1) (createState, [0, 0]) =
      Some (getDelayMs (gcb_at demo_gif ((2 + nat (ImageCount demo_gif) - 1) mod nat (ImageCount demo_gif))), st', out') \<and>
    length out' = length [0, 0 :: u32] \<and> pictures demo_gif (mBgColor demo_sequence) 2 2 out' \<and>
    preserves demo_gif (mBgColor demo_sequence) st'"
  by (rule drawFrame_shows [OF demo_playable demo_tables demo_conditions _ demo_bitmap createState_preserves(1)]) (code_simp, simp_all)

text \<open>The picture of the third frame, and what the code draws.\<close>

lemma demo_pixels:
  "map_option (\<lambda>(d, st, out). (d, out)) (drawFrame demo_sequence 2 2 (- 1) (createState, [0, 0])) =
     Some (70, [0xff030201, 0xff060504])"
  "displayed demo_gif TRANSPARENT 2 0 0 = 0xff030201" "displayed demo_gif TRANSPARENT 1 0 0 = 0xff060504"
  by code_simp+

text \<open>Without a kept frame in front, a frame that is to be undone stays on the screen when the next one is drawn
  over it, but not when the next one is drawn from scratch.\<close>

definition orphan_gif :: dgif where
  "orphan_gif = demo_gif\<lparr>ImageCount := 2, SavedImages := Some [demo_frame 0 2 12 [1, 1], demo_frame 1 1 5 [1]]\<rparr>"

definition orphan_sequence :: FrameSequence_gif where
  "orphan_sequence = no_sequence\<lparr>mGif := Some orphan_gif, mPreservedFrames := Some [False, False],
     mRestoringFrames := Some [- 1, - 1]\<rparr>"

lemma orphan_depends_on_history:
  "map_option (\<lambda>(d, st, out). out) (drawFrame orphan_sequence 1 2 (- 1) (createState, [0, 0])) = Some [0, 0xff060504]"
  "map_option (\<lambda>(d, st, out). out) (do { (_, s) \<leftarrow> drawFrame orphan_sequence 0 2 (- 1) (createState, [0, 0]);
      drawFrame orphan_sequence 1 2 0 s }) = Some [0xff060504, 0xff060504]"
  by code_simp+

end
