(* ===== verification/EventQueue.thy ===== *)
theory EventQueue
  imports Prelude
begin

text \<open>
  The event queue of the crash collector, \<open>libcrash_collect/anr/event_queue.cpp\<close>: a singly linked list
  with a head and a tail pointer, held in an explicit store. A pointer is an optional address, \<open>None\<close>
  for \<open>NULL\<close>; the store maps the addresses of the live entries and of the live queues to their
  contents, so that an access through \<open>NULL\<close> or to a freed block is the result \<open>None\<close>. The queue is
  shown to implement the list of its entries, through the locale \<open>fifo\<close>.
\<close>

type_synonym addr = nat

text \<open>\<open>struct inotify_event\<close>; its flexible array member \<open>name\<close> has \<open>len\<close> bytes.\<close>

record inotify_event =
  wd :: u32
  mask :: u32
  cookie :: u32
  len :: u32
  name :: "u8 list"

record queue_entry =
  next_ptr :: "addr option"
  inot_ev :: inotify_event

record queue_struct =
  head :: "addr option"
  tail :: "addr option"

text \<open>The allocator hands out addresses it has not used before; \<open>refusals\<close> says of the next requests
  which of them fail.\<close>

record store =
  entries :: "addr \<rightharpoonup> queue_entry"
  queues :: "addr \<rightharpoonup> queue_struct"
  brk :: addr
  refusals :: "bool list"

definition malloc :: "store \<Rightarrow> addr option \<times> store" where
  "malloc s =
     (case refusals s of
        True # rs \<Rightarrow> (None, s\<lparr>refusals := rs\<rparr>)
      | rs \<Rightarrow> (Some (brk s), s\<lparr>brk := brk s + 1, refusals := tl rs\<rparr>))"

section \<open>Operations\<close>

text \<open>A write through a pointer to an entry and to a queue.\<close>

definition set_next :: "addr \<Rightarrow> addr option \<Rightarrow> store \<Rightarrow> store option" where
  "set_next d p s = do { e \<leftarrow> entries s d; Some (s\<lparr>entries := (entries s)(d \<mapsto> e\<lparr>next_ptr := p\<rparr>)\<rparr>) }"

definition set_queue :: "addr \<Rightarrow> queue_struct \<Rightarrow> store \<Rightarrow> store" where
  "set_queue q v s = s\<lparr>queues := (queues s)(q \<mapsto> v)\<rparr>"

definition free_entry :: "addr \<Rightarrow> store \<Rightarrow> store option" where
  "free_entry d s = do { _ \<leftarrow> entries s d; Some (s\<lparr>entries := (entries s)(d := None)\<rparr>) }"

definition queue_empty :: "addr \<Rightarrow> store \<Rightarrow> bool option" where
  "queue_empty q s = do { v \<leftarrow> queues s q; Some (head v = None) }"

text \<open>\<open>None\<close> for the queue is \<open>exit (-1)\<close>.\<close>

definition queue_create :: "store \<Rightarrow> addr option \<times> store" where
  "queue_create s =
     (case malloc s of
        (None, s1) \<Rightarrow> (None, s1)
      | (Some q, s1) \<Rightarrow> (Some q, set_queue q \<lparr>head = None, tail = None\<rparr> s1))"

partial_function (option) destroy_loop :: "addr \<Rightarrow> store \<Rightarrow> store option" where
  "destroy_loop q s =
     (case queues s q of
        None \<Rightarrow> None
      | Some v \<Rightarrow>
          (case head v of
             None \<Rightarrow> Some s
           | Some nxt \<Rightarrow>
               do { e \<leftarrow> entries s nxt;
                    s2 \<leftarrow> set_next nxt None (set_queue q (v\<lparr>head := next_ptr e\<rparr>) s);
                    s3 \<leftarrow> free_entry nxt s2;
                    destroy_loop q s3 }))"

declare destroy_loop.simps [code]

definition queue_destroy :: "addr option \<Rightarrow> store \<Rightarrow> store option" where
  "queue_destroy qp s =
     (case qp of
        None \<Rightarrow> Some s
      | Some q \<Rightarrow>
          do { s1 \<leftarrow> destroy_loop q s;
               let s2 = set_queue q \<lparr>head = None, tail = None\<rparr> s1;
               Some (s2\<lparr>queues := (queues s2)(q := None)\<rparr>) })"

definition queue_enqueue :: "addr \<Rightarrow> addr \<Rightarrow> store \<Rightarrow> store option" where
  "queue_enqueue d q s =
     do { s1 \<leftarrow> set_next d None s;
          v \<leftarrow> queues s1 q;
          case tail v of
            Some t \<Rightarrow> do { s2 \<leftarrow> set_next t (Some d) s1; Some (set_queue q (v\<lparr>tail := Some d\<rparr>) s2) }
          | None \<Rightarrow> Some (set_queue q \<lparr>head = Some d, tail = Some d\<rparr> s1) }"

definition queue_dequeue :: "addr \<Rightarrow> store \<Rightarrow> (addr option \<times> store) option" where
  "queue_dequeue q s =
     do { v \<leftarrow> queues s q;
          case head v of
            None \<Rightarrow> Some (None, s)
          | Some first \<Rightarrow>
              do { e \<leftarrow> entries s first;
                   let v1 = v\<lparr>head := next_ptr e\<rparr>;
                   let v2 = (if head v1 = None then v1\<lparr>tail := None\<rparr> else v1);
                   s2 \<leftarrow> set_next first None (set_queue q v2 s);
                   Some (Some first, s2) } }"

section \<open>The list a queue holds\<close>

text \<open>\<open>chain s p ds\<close>: the entries reached from \<open>p\<close> are those at the addresses \<open>ds\<close>, in this order.\<close>

fun chain :: "store \<Rightarrow> addr option \<Rightarrow> addr list \<Rightarrow> bool" where
  "chain s p [] \<longleftrightarrow> p = None"
| "chain s p (d # ds) \<longleftrightarrow> p = Some d \<and> (case entries s d of None \<Rightarrow> False | Some e \<Rightarrow> chain s (next_ptr e) ds)"

definition holds :: "addr \<Rightarrow> store \<Rightarrow> addr list \<Rightarrow> bool" where
  "holds q s ds \<longleftrightarrow>
     (case queues s q of
        None \<Rightarrow> False
      | Some v \<Rightarrow> chain s (head v) ds \<and> distinct ds \<and> tail v = (if ds = [] then None else Some (last ds)))"

text \<open>What is in an entry at \<open>d\<close>.\<close>

definition event_at :: "store \<Rightarrow> addr \<Rightarrow> inotify_event option" where
  "event_at s d = map_option inot_ev (entries s d)"

lemma chain_unique: "chain s p ds \<Longrightarrow> chain s p es \<Longrightarrow> ds = es"
  by (induction s p ds arbitrary: es rule: chain.induct) (case_tac es; auto split: option.splits)+

lemma chain_dom: "chain s p ds \<Longrightarrow> d \<in> set ds \<Longrightarrow> \<exists>e. entries s d = Some e"
  by (induction s p ds rule: chain.induct) (auto split: option.splits)

lemma chain_cong: "(\<And>d. d \<in> set ds \<Longrightarrow> entries s' d = entries s d) \<Longrightarrow> chain s' p ds = chain s p ds"
  by (induction s p ds rule: chain.induct) (auto split: option.splits)

lemma chain_snoc:
  assumes "chain s p (ds @ [t])" "distinct (ds @ [t])" "entries s t = Some e"
    "entries s' = (entries s)(t \<mapsto> e\<lparr>next_ptr := Some d\<rparr>, d \<mapsto> e'\<lparr>next_ptr := None\<rparr>)" "d \<notin> set (ds @ [t])"
  shows "chain s' p (ds @ [t, d])"
  using assms by (induction ds arbitrary: p) (auto split: option.splits)

lemma holds_dom: "holds q s ds \<Longrightarrow> d \<in> set ds \<Longrightarrow> \<exists>e. entries s d = Some e"
  by (auto simp: holds_def intro: chain_dom split: option.splits)

lemma holds_empty: "holds q s ds \<Longrightarrow> queue_empty q s = Some (ds = [])"
  by (cases ds) (auto simp: holds_def queue_empty_def split: option.splits)

lemma holds_enqueue:
  assumes h: "holds q s ds" and e: "entries s d = Some e" and n: "d \<notin> set ds"
  shows "\<exists>s'. queue_enqueue d q s = Some s' \<and> holds q s' (ds @ [d]) \<and> (\<forall>c. event_at s' c = event_at s c)"
proof -
  obtain v where v: "queues s q = Some v" "chain s (head v) ds" "distinct ds"
    "tail v = (if ds = [] then None else Some (last ds))"
    using h by (auto simp: holds_def split: option.splits)
  show ?thesis
  proof (cases ds rule: rev_cases)
    case Nil
    with v e show ?thesis
      by (auto simp: queue_enqueue_def set_next_def set_queue_def holds_def event_at_def)
  next
    case (snoc cs t)
    from h snoc obtain et where et: "entries s t = Some et" using holds_dom by fastforce
    have "t \<noteq> d" using n snoc by auto
    let ?s = "set_queue q (v\<lparr>tail := Some d\<rparr>)
                (s\<lparr>entries := (entries s)(d \<mapsto> e\<lparr>next_ptr := None\<rparr>, t \<mapsto> et\<lparr>next_ptr := Some d\<rparr>)\<rparr>)"
    have "queue_enqueue d q s = Some ?s"
      using v e et \<open>t \<noteq> d\<close> snoc by (simp add: queue_enqueue_def set_next_def set_queue_def)
    moreover have "chain ?s (head v) (cs @ [t, d])"
      by (rule chain_snoc [where s = s and e = et and e' = e])
        (use v et n snoc \<open>t \<noteq> d\<close> in \<open>auto simp: set_queue_def fun_upd_twist\<close>)
    moreover have "event_at ?s c = event_at s c" for c
      using e et by (simp add: event_at_def set_queue_def)
    ultimately show ?thesis using v n snoc by (auto simp: holds_def set_queue_def)
  qed
qed

lemma holds_dequeue:
  assumes h: "holds q s (d # ds)"
  shows "\<exists>s'. queue_dequeue q s = Some (Some d, s') \<and> holds q s' ds \<and> (\<forall>c. event_at s' c = event_at s c)"
proof -
  obtain v e where v: "queues s q = Some v" "head v = Some d" "entries s d = Some e" "chain s (next_ptr e) ds"
      "distinct (d # ds)" "tail v = Some (last (d # ds))"
    using h by (auto simp: holds_def split: option.splits)
  let ?v = "if next_ptr e = None then v\<lparr>head := None, tail := None\<rparr> else v\<lparr>head := next_ptr e\<rparr>"
  let ?s = "s\<lparr>queues := (queues s)(q \<mapsto> ?v), entries := (entries s)(d \<mapsto> e\<lparr>next_ptr := None\<rparr>)\<rparr>"
  have "queue_dequeue q s = Some (Some d, ?s)"
    using v by (auto simp: queue_dequeue_def set_next_def set_queue_def Let_def)
  moreover have "chain ?s (next_ptr e) ds" using v by (subst chain_cong [where s = s]) auto
  moreover have "next_ptr e = None \<longleftrightarrow> ds = []" using v by (cases ds) auto
  ultimately show ?thesis using v by (auto simp: holds_def event_at_def)
qed

lemma holds_dequeue_empty: "holds q s [] \<Longrightarrow> queue_dequeue q s = Some (None, s)"
  by (auto simp: holds_def queue_dequeue_def split: option.splits)

lemma holds_create:
  "queue_create s = (Some q, s') \<Longrightarrow> holds q s' []"
  by (auto simp: queue_create_def malloc_def holds_def set_queue_def split: list.splits bool.splits)

section \<open>The interface\<close>

text \<open>Sequences of operations, and their results: one for each \<open>Deq\<close>.\<close>

datatype 'a qop = Enq 'a | Deq

fun run_ops :: "('a \<Rightarrow> 's \<Rightarrow> 's option) \<Rightarrow> ('s \<Rightarrow> ('a option \<times> 's) option) \<Rightarrow> 'a qop list \<Rightarrow> 's \<Rightarrow>
    ('a option list \<times> 's) option" where
  "run_ops enqueue dequeue [] s = Some ([], s)"
| "run_ops enqueue dequeue (Enq d # ops) s = do { s' \<leftarrow> enqueue d s; run_ops enqueue dequeue ops s' }"
| "run_ops enqueue dequeue (Deq # ops) s =
     do { (r, s') \<leftarrow> dequeue s; (rs, s'') \<leftarrow> run_ops enqueue dequeue ops s'; Some (r # rs, s'') }"

text \<open>The abstract queue: a list.\<close>

fun spec_ops :: "'a qop list \<Rightarrow> 'a list \<Rightarrow> 'a option list \<times> 'a list" where
  "spec_ops [] ds = ([], ds)"
| "spec_ops (Enq d # ops) ds = spec_ops ops (ds @ [d])"
| "spec_ops (Deq # ops) [] = apfst (Cons None) (spec_ops ops [])"
| "spec_ops (Deq # ops) (d # ds) = apfst (Cons (Some d)) (spec_ops ops ds)"

text \<open>What a caller owes: an entry is put only where it is not in the queue, and it is an entry.\<close>

fun legal_ops :: "('a \<Rightarrow> bool) \<Rightarrow> 'a qop list \<Rightarrow> 'a list \<Rightarrow> bool" where
  "legal_ops live [] ds \<longleftrightarrow> True"
| "legal_ops live (Enq d # ops) ds \<longleftrightarrow> live d \<and> d \<notin> set ds \<and> legal_ops live ops (ds @ [d])"
| "legal_ops live (Deq # ops) ds \<longleftrightarrow> legal_ops live ops (tl ds)"

locale fifo =
  fixes rep :: "'s \<Rightarrow> 'a list \<Rightarrow> bool"
    and view :: "'s \<Rightarrow> 'a \<Rightarrow> 'e option"
    and empty :: "'s \<Rightarrow> bool option"
    and enqueue :: "'a \<Rightarrow> 's \<Rightarrow> 's option"
    and dequeue :: "'s \<Rightarrow> ('a option \<times> 's) option"
  assumes empty_law: "rep s ds \<Longrightarrow> empty s = Some (ds = [])"
    and enqueue_law: "rep s ds \<Longrightarrow> view s d \<noteq> None \<Longrightarrow> d \<notin> set ds \<Longrightarrow>
      \<exists>s'. enqueue d s = Some s' \<and> rep s' (ds @ [d]) \<and> view s' = view s"
    and dequeue_law: "rep s (d # ds) \<Longrightarrow>
      \<exists>s'. dequeue s = Some (Some d, s') \<and> rep s' ds \<and> view s' = view s"
    and dequeue_empty_law: "rep s [] \<Longrightarrow> dequeue s = Some (None, s)"
begin

lemma run_ops_refines:
  assumes "rep s ds" "legal_ops (\<lambda>d. view s d \<noteq> None) ops ds"
  shows "\<exists>s'. run_ops enqueue dequeue ops s = Some (fst (spec_ops ops ds), s') \<and>
     rep s' (snd (spec_ops ops ds)) \<and> view s' = view s"
  using assms
proof (induction ops ds arbitrary: s rule: spec_ops.induct)
  case (2 d ops ds)
  from 2 obtain s1 where "enqueue d s = Some s1" "rep s1 (ds @ [d])" "view s1 = view s"
    using enqueue_law [of s ds d] by auto
  with 2 "2.IH" [of s1] show ?case by simp
next
  case (3 ops)
  then obtain s' where "run_ops enqueue dequeue ops s = Some (fst (spec_ops ops []), s')"
    "rep s' (snd (spec_ops ops []))" "view s' = view s" using "3.IH" [of s] by auto
  with dequeue_empty_law [OF "3.prems"(1)] show ?case by simp
next
  case (4 ops d ds)
  from 4 obtain s1 where "dequeue s = Some (Some d, s1)" "rep s1 ds" "view s1 = view s"
    using dequeue_law [of s d ds] by auto
  moreover from this 4 obtain s' where "run_ops enqueue dequeue ops s1 = Some (fst (spec_ops ops ds), s')"
    "rep s' (snd (spec_ops ops ds))" "view s' = view s1" using "4.IH" [of s1] by auto
  ultimately show ?case by simp
qed simp

end

interpretation event_queue: fifo "holds q" event_at "queue_empty q" "\<lambda>d. queue_enqueue d q" "queue_dequeue q" for q
proof
  fix s ds d
  show "holds q s ds \<Longrightarrow> queue_empty q s = Some (ds = [])" by (rule holds_empty)
  show "holds q s ds \<Longrightarrow> event_at s d \<noteq> None \<Longrightarrow> d \<notin> set ds \<Longrightarrow>
      \<exists>s'. queue_enqueue d q s = Some s' \<and> holds q s' (ds @ [d]) \<and> event_at s' = event_at s"
    using holds_enqueue [of q s ds d] by (auto simp: event_at_def fun_eq_iff)
  show "holds q s (d # ds) \<Longrightarrow>
      \<exists>s'. queue_dequeue q s = Some (Some d, s') \<and> holds q s' ds \<and> event_at s' = event_at s"
    using holds_dequeue [of q s d ds] by (auto simp: fun_eq_iff)
  show "holds q s [] \<Longrightarrow> queue_dequeue q s = Some (None, s)" by (rule holds_dequeue_empty)
qed

section \<open>Destroying a queue\<close>

lemma destroy_loop_ends:
  assumes "queues s q = Some v" "chain s (head v) ds" "distinct ds"
  shows "\<exists>v'. destroy_loop q s =
     Some (s\<lparr>entries := entries s |` (- set ds), queues := (queues s)(q \<mapsto> v')\<rparr>)"
  using assms
proof (induction ds arbitrary: s v)
  case Nil
  then have "(queues s)(q \<mapsto> v) = queues s" "entries s |` (- set []) = entries s"
    by (auto simp: fun_upd_idem restrict_map_def)
  then have "s = s\<lparr>entries := entries s |` (- set []), queues := (queues s)(q \<mapsto> v)\<rparr>" by simp
  with Nil show ?case by (subst destroy_loop.simps) auto
next
  case (Cons d ds)
  then obtain e where e: "head v = Some d" "entries s d = Some e" "chain s (next_ptr e) ds" "d \<notin> set ds" "distinct ds"
    by (auto split: option.splits)
  let ?s = "s\<lparr>entries := (entries s)(d := None), queues := (queues s)(q \<mapsto> v\<lparr>head := next_ptr e\<rparr>)\<rparr>"
  have "destroy_loop q s = destroy_loop q ?s"
    using Cons.prems(1) e by (subst destroy_loop.simps) (cases s; simp add: set_next_def free_entry_def set_queue_def)
  moreover have "chain ?s (next_ptr e) ds" using e by (subst chain_cong [where s = s]) auto
  then have "\<exists>v'. destroy_loop q ?s =
      Some (?s\<lparr>entries := entries ?s |` (- set ds), queues := (queues ?s)(q \<mapsto> v')\<rparr>)"
    by (intro Cons.IH [of ?s "v\<lparr>head := next_ptr e\<rparr>"]) (simp_all add: e(5))
  moreover have "entries ?s |` (- set ds) = entries s |` (- set (d # ds))"
    by (auto simp: restrict_map_def)
  moreover have "(queues ?s)(q \<mapsto> v') = (queues s)(q \<mapsto> v')" for v' by simp
  ultimately show ?case by (simp only: store.simps store.update_convs) (simp add: fun_upd_def)
qed

lemma queue_destroy_empties:
  assumes "holds q s ds"
  shows "queue_destroy (Some q) s =
     Some (s\<lparr>entries := entries s |` (- set ds), queues := (queues s)(q := None)\<rparr>)"
proof -
  obtain v where "queues s q = Some v" "chain s (head v) ds" "distinct ds"
    using assms by (auto simp: holds_def split: option.splits)
  from destroy_loop_ends [OF this] show ?thesis by (auto simp: queue_destroy_def set_queue_def)
qed

text \<open>Destroying a queue ends and frees exactly its entries and the queue itself: every other
  entry and queue is as before, and no access is made to a freed block.\<close>

theorem queue_destroy_frees:
  assumes "holds q s ds"
  shows "queue_destroy (Some q) s =
     Some (s\<lparr>entries := entries s |` (- set ds), queues := (queues s)(q := None)\<rparr>)"
  using assms by (rule queue_destroy_empties)

definition sample_event :: "nat \<Rightarrow> inotify_event" where
  "sample_event i = \<lparr>wd = 1, mask = 8, cookie = of_nat i, len = 4, name = [97, 110, 114, 0]\<rparr>"

definition sample_store :: "nat \<Rightarrow> store" where
  "sample_store n =
     \<lparr>entries = (\<lambda>d. if d < n then Some \<lparr>next_ptr = None, inot_ev = sample_event d\<rparr> else None),
      queues = Map.empty, brk = n, refusals = []\<rparr>"

theorem queue_destroy_frees_witness:
  "\<exists>s. holds 2 s [1, 0] \<and> queue_destroy (Some 2) s = Some (s\<lparr>entries := Map.empty, queues := Map.empty\<rparr>)"
proof -
  let ?s = "\<lparr>entries = [0 \<mapsto> \<lparr>next_ptr = None, inot_ev = sample_event 0\<rparr>, 1 \<mapsto> \<lparr>next_ptr = Some 0, inot_ev = sample_event 1\<rparr>],
      queues = [2 \<mapsto> \<lparr>head = Some 1, tail = Some 0\<rparr>], brk = 3, refusals = []\<rparr>"
  have h: "holds 2 ?s [1, 0]" by (simp add: holds_def)
  have "entries ?s |` (- set [1, 0]) = Map.empty" by (auto simp: restrict_map_def)
  with h queue_destroy_frees [OF h] show ?thesis by (auto simp: fun_eq_iff)
qed

text \<open>(C25) A queue implements the list of its entries: from its creation on, every sequence of
  insertions and removals gives the results that a list gives, no operation fails, and the events
  in the entries stay as they are.\<close>

theorem event_queue_refines_list:
  assumes "queue_create s = (Some q, s0)" "legal_ops (\<lambda>d. event_at s0 d \<noteq> None) ops []"
  shows "\<exists>s'. run_ops (\<lambda>d. queue_enqueue d q) (queue_dequeue q) ops s0 = Some (fst (spec_ops ops []), s') \<and>
     holds q s' (snd (spec_ops ops [])) \<and> queue_empty q s' = Some (snd (spec_ops ops []) = []) \<and>
     event_at s' = event_at s0"
  using event_queue.run_ops_refines [OF holds_create [OF assms(1)] assms(2)] event_queue.empty_law by blast

theorem event_queue_refines_list_witness:
  "\<exists>s0 s'. queue_create (sample_store 3) = (Some 3, s0) \<and>
     run_ops (\<lambda>d. queue_enqueue d 3) (queue_dequeue 3) [Deq, Enq 0, Enq 1, Deq, Enq 2, Enq 0, Deq] s0 =
       Some ([None, Some 0, Some 1], s') \<and> holds 3 s' [2, 0]"
proof -
  let ?ops = "[Deq, Enq 0, Enq 1, Deq, Enq 2, Enq 0, Deq] :: nat qop list"
  obtain s0 where c: "queue_create (sample_store 3) = (Some 3, s0)" "entries s0 = entries (sample_store 3)"
    by (simp add: queue_create_def malloc_def sample_store_def set_queue_def)
  have "legal_ops (\<lambda>d. event_at s0 d \<noteq> None) ?ops []"
    by (simp add: event_at_def c(2)) (simp add: sample_store_def)
  from event_queue_refines_list [OF c(1) this] c(1) show ?thesis by auto
qed

end
