(* ===== verification/Utf.thy ===== *)
theory Utf
  imports Prelude
begin

unbundle bit_operations_syntax

text \<open>
  The conversion of UTF-16 to UTF-8, \<open>libcrash_collect/utils/utf.cpp\<close>, of which
  \<open>libmemcheck/common/utf.cpp\<close> is a copy. Pointers into the source and the destination are indices; the
  destination is the whole array behind \<open>dst\<close>, whose length need not be \<open>dst_len\<close>, and a write behind it
  is the result \<open>None\<close>.
\<close>

definition kFirstByteMark :: "u32 list" where
  "kFirstByteMark = [0x00, 0x00, 0xC0, 0xE0, 0xF0]"

definition kByteMask :: u32 where "kByteMask = 0xBF"
definition kByteMark :: u32 where "kByteMark = 0x80"
definition kUnicodeSurrogateStart :: u32 where "kUnicodeSurrogateStart = 0xD800"
definition kUnicodeSurrogateEnd :: u32 where "kUnicodeSurrogateEnd = 0xDFFF"
definition kUnicodeMaxCodepoint :: u32 where "kUnicodeMaxCodepoint = 0x10FFFF"

lemmas utf_consts = kFirstByteMark_def kByteMask_def kByteMark_def kUnicodeSurrogateStart_def
  kUnicodeSurrogateEnd_def kUnicodeMaxCodepoint_def

text \<open>The \<open>switch\<close> whose cases fall through, entered at case \<open>n\<close> with \<open>dstP\<close> behind the bytes.\<close>

fun fall :: "nat \<Rightarrow> u8 list \<Rightarrow> nat \<Rightarrow> u32 \<Rightarrow> nat \<Rightarrow> u8 list option" where
  "fall 0 dst dstP srcChar bytes = Some dst"
| "fall (Suc 0) dst dstP srcChar bytes =
     do { m \<leftarrow> aget kFirstByteMark bytes; aset dst (dstP - 1) (ucast (srcChar OR m)) }"
| "fall (Suc (Suc n)) dst dstP srcChar bytes =
     do { dst' \<leftarrow> aset dst (dstP - 1) (ucast ((srcChar OR kByteMark) AND kByteMask));
          fall (Suc n) dst' (dstP - 1) (drop_bit 6 srcChar) bytes }"

definition utf32_to_utf8 :: "u8 list \<Rightarrow> nat \<Rightarrow> u32 \<Rightarrow> nat \<Rightarrow> u8 list option" where
  "utf32_to_utf8 dst dstP srcChar bytes =
     (if bytes \<le> 4 then fall bytes dst (dstP + bytes) srcChar bytes else Some dst)"

definition utf32_to_utf8_bytes :: "u32 \<Rightarrow> nat" where
  "utf32_to_utf8_bytes srcChar =
     (if srcChar < 0x80 then 1
      else if srcChar < 0x800 then 2
      else if srcChar < 0x10000 then
        (if srcChar < kUnicodeSurrogateStart \<or> srcChar > kUnicodeSurrogateEnd then 3 else 0)
      else if srcChar \<le> kUnicodeMaxCodepoint then 4
      else 0)"

text \<open>The code point at index \<open>i\<close> and the index behind it.\<close>

definition next_utf32 :: "u16 list \<Rightarrow> nat \<Rightarrow> nat \<Rightarrow> (u32 \<times> nat) option" where
  "next_utf32 src src_len i =
     do { a \<leftarrow> aget src i;
          if a AND 0xFC00 = 0xD800 \<and> i + 1 < src_len then
            do { b \<leftarrow> aget src (i + 1);
                 Some ((push_bit 10 (ucast a - 0xD800) OR (ucast b - 0xDC00)) + 0x10000, i + 2) }
          else Some (ucast a, i + 1) }"

function utf_loop :: "u16 list \<Rightarrow> nat \<Rightarrow> nat \<Rightarrow> nat \<Rightarrow> u8 list \<Rightarrow> nat \<Rightarrow> (nat \<times> u8 list) option" where
  "utf_loop src src_len dst_len i dst cur =
     (if i < src_len \<and> cur < dst_len then
        (case next_utf32 src src_len i of
           None \<Rightarrow> None
         | Some (utf32, i') \<Rightarrow>
             (case utf32_to_utf8 dst cur utf32 (utf32_to_utf8_bytes utf32) of
                None \<Rightarrow> None
              | Some dst' \<Rightarrow> utf_loop src src_len dst_len i' dst' (cur + utf32_to_utf8_bytes utf32)))
      else Some (cur, dst))"
  by pat_completeness auto
termination
  by (relation "measure (\<lambda>(src, src_len, dst_len, i, dst, cur). src_len - i)")
    (auto simp: next_utf32_def bind_eq_Some_conv split: if_splits)

declare utf_loop.simps [simp del]

definition utf16_to_utf8 :: "u16 list option \<Rightarrow> nat \<Rightarrow> u8 list \<Rightarrow> nat \<Rightarrow> (nat \<times> u8 list) option" where
  "utf16_to_utf8 src src_len dst dst_len =
     (case src of
        None \<Rightarrow> Some (0, dst)
      | Some s \<Rightarrow>
          if src_len = 0 \<or> dst_len = 0 then Some (0, dst)
          else do { (cur, dst') \<leftarrow> utf_loop s src_len dst_len 0 dst 0;
                    dst'' \<leftarrow> (if cur < dst_len then aset dst' cur 0 else Some dst');
                    Some (cur, dst'') })"

section \<open>The encodings\<close>

text \<open>A Unicode scalar value, and its two encodings, in arithmetic.\<close>

definition scalar :: "nat \<Rightarrow> bool" where
  "scalar c \<longleftrightarrow> c < 0xD800 \<or> 0xDFFF < c \<and> c \<le> 0x10FFFF"

definition utf16_enc :: "nat \<Rightarrow> u16 list" where
  "utf16_enc c =
     (if c < 0x10000 then [of_nat c]
      else [of_nat (0xD800 + (c - 0x10000) div 0x400), of_nat (0xDC00 + (c - 0x10000) mod 0x400)])"

definition utf8_enc :: "nat \<Rightarrow> u8 list" where
  "utf8_enc c =
     (if c < 0x80 then [of_nat c]
      else if c < 0x800 then [of_nat (0xC0 + c div 0x40), of_nat (0x80 + c mod 0x40)]
      else if c < 0x10000 then
        [of_nat (0xE0 + c div 0x1000), of_nat (0x80 + c div 0x40 mod 0x40), of_nat (0x80 + c mod 0x40)]
      else [of_nat (0xF0 + c div 0x40000), of_nat (0x80 + c div 0x1000 mod 0x40),
            of_nat (0x80 + c div 0x40 mod 0x40), of_nat (0x80 + c mod 0x40)])"

lemma length_utf8_enc: "length (utf8_enc c) = (if c < 0x80 then 1 else if c < 0x800 then 2 else if c < 0x10000 then 3 else 4)"
  by (simp add: utf8_enc_def)

lemma nat_lt_8_cases: "n < 8 \<Longrightarrow> n = 0 \<or> n = 1 \<or> n = 2 \<or> n = 3 \<or> n = 4 \<or> n = 5 \<or> n = 6 \<or> n = (7::nat)"
  by arith

lemma cont_byte_word: "(w OR 0x80) AND 0xBF = 0x80 + take_bit 6 (w :: u8)"
proof -
  have "0x80 AND take_bit 6 w = 0"
    by (rule bit_word_eqI) (auto simp: bit_simps dest!: nat_lt_8_cases)
  then have "0x80 + take_bit 6 w = 0x80 OR take_bit 6 w" by (rule disjunctive_add_eq_or)
  moreover have "(w OR 0x80) AND 0xBF = 0x80 OR take_bit 6 w"
    by (rule bit_word_eqI) (auto simp: bit_simps dest!: nat_lt_8_cases)
  ultimately show ?thesis by simp
qed

lemma cont_byte: "(ucast ((c OR kByteMark) AND kByteMask) :: u8) = of_nat (0x80 + unat c mod 0x40)"
proof -
  have "(ucast ((c OR kByteMark) AND kByteMask) :: u8) = (ucast c OR 0x80) AND 0xBF"
    by (simp add: utf_consts unsigned_and_eq unsigned_or_eq)
  also have "\<dots> = 0x80 + take_bit 6 (ucast c)" by (rule cont_byte_word)
  also have "(ucast c :: u8) = of_nat (unat c)" by (simp add: unsigned_def)
  also have "take_bit 6 (of_nat (unat c) :: u8) = of_nat (take_bit 6 (unat c))" by (rule take_bit_of_nat)
  finally show ?thesis by (simp add: take_bit_eq_mod)
qed

text \<open>The bytes of the \<open>switch\<close>, as a list.\<close>

fun enc_bytes :: "nat \<Rightarrow> u32 \<Rightarrow> u32 \<Rightarrow> u8 list" where
  "enc_bytes 0 c m = [ucast (c OR m)]"
| "enc_bytes (Suc n) c m = enc_bytes n (drop_bit 6 c) m @ [ucast ((c OR kByteMark) AND kByteMask)]"

lemma length_enc_bytes [simp]: "length (enc_bytes n c m) = Suc n"
  by (induction n arbitrary: c) simp_all

lemma fall_enc:
  assumes "bytes \<le> 4"
  shows "fall (Suc n) dst (cur + Suc n) c bytes =
     (if cur + Suc n \<le> length dst
      then Some (take cur dst @ enc_bytes n c (kFirstByteMark ! bytes) @ drop (cur + Suc n) dst) else None)"
proof (induction n arbitrary: dst c)
  case 0
  then show ?case using assms
    by (auto simp: aset_def kFirstByteMark_def upd_conv_take_nth_drop Suc_le_eq)
next
  case (Suc n)
  let ?b = "ucast ((c OR kByteMark) AND kByteMask) :: u8"
  have "drop (cur + Suc n) (dst[cur + Suc n := ?b]) = ?b # drop (cur + Suc (Suc n)) dst"
    if "cur + Suc (Suc n) \<le> length dst"
    using that by (simp add: Cons_nth_drop_Suc [symmetric])
  with Suc.IH [of "dst[cur + Suc n := ?b]" "drop_bit 6 c"] show ?case
    by (auto simp: aset_def Suc_le_eq)
qed

lemma ucast_u32_u8: "n < 2 ^ 32 \<Longrightarrow> (ucast (of_nat n :: u32) :: u8) = of_nat n"
proof -
  assume "n < 2 ^ 32"
  then have "unat (of_nat n :: u32) = n" by (simp add: unat_of_nat take_bit_nat_eq_self)
  moreover have "(ucast (of_nat n :: u32) :: u8) = of_nat (unat (of_nat n :: u32))" unfolding unsigned_def by simp
  ultimately show ?thesis by (simp only:)
qed

lemma first_byte:
  assumes "n < 2 ^ k" "m = push_bit k (of_nat q)" "n + q * 2 ^ k < 2 ^ 8"
  shows "(ucast (of_nat n OR m :: u32) :: u8) = of_nat (q * 2 ^ k + n)"
proof -
  have "(ucast (of_nat (n + q * 2 ^ k) :: u32) :: u8) = of_nat (n + q * 2 ^ k)" using assms(3) by (intro ucast_u32_u8) simp
  then show ?thesis unfolding assms(2) or_shifted [OF assms(1)] by (simp add: add.commute)
qed

lemma enc_bytes_Suc_nat:
  assumes "c < 2 ^ 32"
  shows "enc_bytes (Suc n) (of_nat c) m = enc_bytes n (of_nat (c div 0x40)) m @ [of_nat (0x80 + c mod 0x40)]"
proof -
  have u: "unat (of_nat d :: u32) = d" if "d < 2 ^ 32" for d using that by (simp add: unat_of_nat take_bit_nat_eq_self)
  have "unat (drop_bit 6 (of_nat c :: u32)) = c div 0x40"
    using u [OF assms] by (simp add: drop_bit_eq_div unat_div)
  also have "\<dots> = unat (of_nat (c div 0x40) :: u32)" using u [of "c div 0x40"] assms by (simp add: div_le_dividend)
  finally have "drop_bit 6 (of_nat c :: u32) = of_nat (c div 0x40)" by (simp only: word_unat_eq_iff)
  then show ?thesis using u [OF assms] by (simp add: cont_byte)
qed

text \<open>The bytes the code writes for a code point that is not a surrogate are its UTF-8 encoding.\<close>

lemma bytes_utf8_enc:
  assumes "scalar c"
  shows "utf32_to_utf8_bytes (of_nat c) = length (utf8_enc c)"
    "enc_bytes (length (utf8_enc c) - 1) (of_nat c) (kFirstByteMark ! length (utf8_enc c)) = utf8_enc c"
proof -
  have c: "c \<le> 0x10FFFF" using assms by (auto simp: scalar_def)
  have u: "unat (of_nat c :: u32) = c" using c by (simp add: unat_of_nat take_bit_nat_eq_self)
  show "utf32_to_utf8_bytes (of_nat c) = length (utf8_enc c)"
    using assms c by (auto simp: utf32_to_utf8_bytes_def length_utf8_enc utf_consts word_less_nat_alt word_le_nat_alt u scalar_def)
  have e: "enc_bytes (Suc n) (of_nat d) m = enc_bytes n (of_nat (d div 0x40)) m @ [of_nat (0x80 + d mod 0x40)]"
    if "d \<le> 0x10FFFF" for n d m using enc_bytes_Suc_nat [of d n m] that by simp
  have d: "c div 64 \<le> 0x10FFFF" "c div 4096 \<le> 0x10FFFF" using c by simp_all
  note e = e [OF c] e [OF d(1)] e [OF d(2)]
  consider "c < 0x80" | "0x80 \<le> c" "c < 0x800" | "0x800 \<le> c" "c < 0x10000" | "0x10000 \<le> c" by linarith
  then show "enc_bytes (length (utf8_enc c) - 1) (of_nat c) (kFirstByteMark ! length (utf8_enc c)) = utf8_enc c"
  proof cases
    case 1
    then show ?thesis using first_byte [of c 7 0 0] by (simp add: length_utf8_enc utf8_enc_def kFirstByteMark_def)
  next
    case 2
    have "enc_bytes (Suc 0) (of_nat c) 0xC0 = utf8_enc c"
      using 2 first_byte [of "c div 64" 5 "0xC0" 6] by (simp add: utf8_enc_def e del: enc_bytes.simps(2))
    then show ?thesis using 2 by (simp add: length_utf8_enc kFirstByteMark_def)
  next
    case 3
    have "enc_bytes (Suc (Suc 0)) (of_nat c) 0xE0 = utf8_enc c"
      using 3 first_byte [of "c div 4096" 4 "0xE0" 14] by (simp add: utf8_enc_def e div_mult2_eq [symmetric] del: enc_bytes.simps(2))
    then show ?thesis using 3 by (simp add: length_utf8_enc kFirstByteMark_def numeral_2_eq_2)
  next
    case 4
    have "enc_bytes (Suc (Suc (Suc 0))) (of_nat c) 0xF0 = utf8_enc c"
      using 4 c first_byte [of "c div 262144" 3 "0xF0" 30] by (simp add: utf8_enc_def e div_mult2_eq [symmetric] del: enc_bytes.simps(2))
    then show ?thesis using 4 by (simp add: length_utf8_enc kFirstByteMark_def numeral_3_eq_3)
  qed
qed

lemma utf32_to_utf8_scalar:
  assumes "scalar c"
  shows "utf32_to_utf8 dst cur (of_nat c) (utf32_to_utf8_bytes (of_nat c)) =
     (if cur + length (utf8_enc c) \<le> length dst
      then Some (take cur dst @ utf8_enc c @ drop (cur + length (utf8_enc c)) dst) else None)"
proof -
  have n: "0 < length (utf8_enc c)" "length (utf8_enc c) \<le> 4" by (simp_all add: length_utf8_enc)
  then obtain k where k: "length (utf8_enc c) = Suc k" by (cases "length (utf8_enc c)") auto
  show ?thesis
    using n fall_enc [of "Suc k" k dst cur "of_nat c"] bytes_utf8_enc [OF assms] k
    by (simp add: utf32_to_utf8_def)
qed

section \<open>Reading UTF-16\<close>

lemma high_surrogate: "(w :: u16) AND 0xFC00 = 0xD800 \<longleftrightarrow> 0xD800 \<le> unat w \<and> unat w < 0xDC00"
proof -
  have "w AND NOT (mask 10) = push_bit 10 (drop_bit 10 w)" by (rule bit_word_eqI) (auto simp: bit_simps)
  also have "NOT (mask 10 :: u16) = 0xFC00" by (simp add: mask_eq_exp_minus_1 not_eq_complement)
  finally have "unat (w AND 0xFC00) = unat (push_bit 10 (drop_bit 10 w))" by simp
  also have "unat (push_bit 10 (drop_bit 10 w)) = unat w div 1024 * 1024"
  proof -
    have "unat w < 2 ^ 16" using unsigned_less [of w] by simp
    then have "unat w div 1024 * 1024 < 2 ^ 16" by simp
    moreover have "unat (drop_bit 10 w) = unat w div 1024" by (simp add: drop_bit_eq_div unat_div)
    ultimately show ?thesis by (subst unsigned_push_bit_eq) (simp add: push_bit_eq_mult take_bit_nat_eq_self)
  qed
  finally have "unat (w AND 0xFC00) = unat w div 1024 * 1024" .
  moreover have "w AND 0xFC00 = 0xD800 \<longleftrightarrow> unat (w AND 0xFC00) = 0xD800" by (simp add: word_unat_eq_iff)
  moreover have "unat w div 1024 * 1024 = 0xD800 \<longleftrightarrow> unat w div 1024 = 54" by simp
  moreover have "unat w div 1024 = 54 \<longleftrightarrow> 0xD800 \<le> unat w \<and> unat w < 0xDC00" by auto
  ultimately show ?thesis by simp
qed

lemma unat_u16: "n < 2 ^ 16 \<Longrightarrow> unat (of_nat n :: u16) = n"
  by (simp add: unat_of_nat take_bit_nat_eq_self)

lemma ucast_u16: "n < 2 ^ 16 \<Longrightarrow> (ucast (of_nat n :: u16) :: u32) = of_nat n"
  using unat_u16 [of n] unfolding unsigned_def by simp

lemma next_utf32_scalar:
  assumes "scalar c"
  shows "next_utf32 (pre @ utf16_enc c @ rest) (length (pre @ utf16_enc c @ rest)) (length pre) =
     Some (of_nat c, length pre + length (utf16_enc c))"
proof (cases "c < 0x10000")
  case True
  then show ?thesis using assms
    by (auto simp: next_utf32_def utf16_enc_def high_surrogate unat_u16 ucast_u16 scalar_def nth_append)
next
  case False
  have c: "c \<le> 0x10FFFF" using assms by (auto simp: scalar_def)
  define h l where hl: "h = (c - 0x10000) div 1024" "l = (c - 0x10000) mod 1024"
  have b: "h < 1024" "l < 1024" "0x10000 + (l + h * 1024) = c" using c False by (auto simp: hl)
  have "(ucast (of_nat (0xD800 + h) :: u16) :: u32) - 0xD800 = of_nat h" "(ucast (of_nat (0xDC00 + l) :: u16) :: u32) - 0xDC00 = of_nat l"
    using b ucast_u16 [of "0xD800 + h"] ucast_u16 [of "0xDC00 + l"] by (simp_all del: of_nat_add) simp_all
  moreover have "push_bit 10 (of_nat h) OR of_nat l = (of_nat (l + h * 1024) :: u32)"
    using or_shifted [of l 10 h] b by (simp add: or.commute)
  moreover have "(of_nat (l + h * 1024) :: u32) + 0x10000 = of_nat c"
    unfolding b(3) [symmetric] by simp
  moreover have "(of_nat (0xD800 + h) :: u16) AND 0xFC00 = 0xD800" using b by (simp add: high_surrogate unat_u16 del: of_nat_add)
  ultimately show ?thesis using False
    by (simp add: next_utf32_def utf16_enc_def nth_append flip: hl del: of_nat_add)
qed

section \<open>The conversion of valid text\<close>

text \<open>The code points that are written into a buffer of \<open>m\<close> bytes: the last may run over its end.\<close>

fun enc_until :: "nat \<Rightarrow> nat list \<Rightarrow> u8 list" where
  "enc_until m [] = []"
| "enc_until m (c # cs) = (if m = 0 then [] else utf8_enc c @ enc_until (m - length (utf8_enc c)) cs)"

abbreviation utf16_text :: "nat list \<Rightarrow> u16 list" where
  "utf16_text cs \<equiv> concat (map utf16_enc cs)"

abbreviation utf8_text :: "nat list \<Rightarrow> u8 list" where
  "utf8_text cs \<equiv> concat (map utf8_enc cs)"

lemma enc_until_all: "length (utf8_text cs) \<le> m \<Longrightarrow> enc_until m cs = utf8_text cs"
proof (induction cs arbitrary: m)
  case (Cons c cs)
  then have "m \<noteq> 0" by (auto simp: length_utf8_enc split: if_splits)
  with Cons show ?case by simp
qed simp

lemma length_enc_until: "length (enc_until m cs) \<le> (if m = 0 then 0 else m + 3)"
proof (induction cs arbitrary: m)
  case (Cons c cs)
  show ?case using Cons [of "m - length (utf8_enc c)"] by (auto simp: length_utf8_enc split: if_splits)
qed simp

lemma splice:
  assumes "n + length e \<le> length dst" "dst' = take n dst @ e @ drop (n + length e) dst"
  shows "length dst' = length dst" "take (n + length e) dst' = take n dst @ e"
    "drop (n + length e + k) dst' = drop (n + length e + k) dst"
proof -
  have "length (take n dst @ e) = n + length e" using assms(1) by simp
  then show "take (n + length e) dst' = take n dst @ e" "drop (n + length e + k) dst' = drop (n + length e + k) dst"
    unfolding assms(2) append_assoc [symmetric] by (simp_all add: add.commute)
  show "length dst' = length dst" using assms by simp
qed

lemma utf_loop_text:
  assumes "\<forall>c\<in>set cs. scalar c" "cur \<le> length dst"
  shows "utf_loop (pre @ utf16_text cs) (length (pre @ utf16_text cs)) dst_len (length pre) dst cur =
     (let out = enc_until (dst_len - cur) cs
      in if cur + length out \<le> length dst then Some (cur + length out, take cur dst @ out @ drop (cur + length out) dst)
         else None)"
  using assms
proof (induction cs arbitrary: pre dst cur)
  case Nil
  then show ?case by (subst utf_loop.simps) simp
next
  case (Cons c cs)
  let ?e = "utf8_enc c" and ?src = "pre @ utf16_enc c @ utf16_text cs"
  have c: "scalar c" using Cons.prems by simp
  have l: "length (utf16_enc c) > 0" by (simp add: utf16_enc_def)
  show ?case
  proof (cases "cur < dst_len")
    case False
    then show ?thesis using Cons.prems by (subst utf_loop.simps) simp
  next
    case True
    have lt: "length pre < length ?src" using l by simp
    define dst' where d: "dst' = take cur dst @ ?e @ drop (cur + length ?e) dst"
    have step: "utf_loop ?src (length ?src) dst_len (length pre) dst cur =
        (if cur + length ?e \<le> length dst
         then utf_loop ?src (length ?src) dst_len (length pre + length (utf16_enc c)) dst' (cur + length ?e) else None)"
      using True lt next_utf32_scalar [OF c, of pre "utf16_text cs"] utf32_to_utf8_scalar [OF c, of dst cur] bytes_utf8_enc(1) [OF c] d
      by (subst utf_loop.simps) simp
    show ?thesis
    proof (cases "cur + length ?e \<le> length dst")
      case True
      then show ?thesis
        using step Cons.IH [of "cur + length ?e" dst' "pre @ utf16_enc c"] Cons.prems \<open>cur < dst_len\<close> splice [OF True d]
        by (simp add: Let_def add.assoc)
    next
      case False
      then show ?thesis using step \<open>cur < dst_len\<close> by (simp add: Let_def)
    qed
  qed
qed

text \<open>What is in the array afterwards: the bytes, a terminator where one fits in \<open>dst_len\<close>, and the rest
  as it was.\<close>

definition converted :: "u8 list \<Rightarrow> u8 list \<Rightarrow> nat \<Rightarrow> u8 list" where
  "converted out dst dst_len =
     (if length out < dst_len then out @ 0 # drop (length out + 1) dst else out @ drop (length out) dst)"

lemma utf16_to_utf8_chars:
  assumes "\<forall>c\<in>set cs. scalar c" "cs \<noteq> []" "0 < dst_len" "dst_len \<le> length dst"
  shows "utf16_to_utf8 (Some (utf16_text cs)) (length (utf16_text cs)) dst dst_len =
     (let out = enc_until dst_len cs
      in if length out \<le> length dst then Some (length out, converted out dst dst_len) else None)"
proof -
  have nz: "\<not> (length (utf16_text cs) = 0 \<or> dst_len = 0)" using assms(2,3) by (cases cs) (auto simp: utf16_enc_def)
  have "utf_loop (utf16_text cs) (length (utf16_text cs)) dst_len 0 dst 0 =
      (let out = enc_until dst_len cs in if length out \<le> length dst then Some (length out, out @ drop (length out) dst) else None)"
    using utf_loop_text [OF assms(1), of 0 dst "[]" dst_len] by (simp add: Let_def)
  moreover have "(out @ drop (length out) dst)[length out := 0] = out @ 0 # drop (length out + 1) dst"
    if "length out < length dst" for out
    using that by (simp add: list_update_append Cons_nth_drop_Suc [symmetric])
  ultimately show ?thesis using assms(4)
    unfolding utf16_to_utf8_def option.case if_not_P [OF nz] by (simp add: converted_def Let_def)
qed

text \<open>(C26) Converting the UTF-16 text of the code points \<open>cs\<close> writes the UTF-8 encoding of as many of
  them as start before \<open>dst_len\<close>, and it leaves the destination exactly when these bytes do not fit.\<close>

theorem utf16_to_utf8_text:
  assumes "\<forall>c\<in>set cs. scalar c" "cs \<noteq> []" "0 < dst_len" "dst_len \<le> length dst"
  shows "utf16_to_utf8 (Some (utf16_text cs)) (length (utf16_text cs)) dst dst_len =
     (let out = enc_until dst_len cs
      in if length out \<le> length dst then Some (length out, converted out dst dst_len) else None)"
  using assms by (rule utf16_to_utf8_chars)

theorem utf16_to_utf8_text_witness:
  "map_option snd (utf16_to_utf8 (Some (utf16_text [0x41, 0xE9, 0x20AC, 0x1F600]))
       (length (utf16_text [0x41, 0xE9, 0x20AC, 0x1F600])) [7, 7, 7, 7, 7, 7, 7, 7, 7, 7, 7, 7] 12) =
     Some [0x41, 0xC3, 0xA9, 0xE2, 0x82, 0xAC, 0xF0, 0x9F, 0x98, 0x80, 0, 7]"
proof -
  have "\<forall>c\<in>set [0x41, 0xE9, 0x20AC, 0x1F600]. scalar c" by (simp add: scalar_def)
  from utf16_to_utf8_text [OF this, of 12 "[7, 7, 7, 7, 7, 7, 7, 7, 7, 7, 7, 7]"] show ?thesis
    by (simp add: utf16_enc_def utf8_enc_def converted_def)
qed

lemma utf_loop_bounded:
  assumes "src_len \<le> length src" "dst_len + 3 \<le> length dst" "cur \<le> dst_len + 3"
  shows "\<exists>cur' dst'. utf_loop src src_len dst_len i dst cur = Some (cur', dst') \<and> cur' \<le> dst_len + 3 \<and> length dst' = length dst"
  using assms
proof (induction src src_len dst_len i dst cur rule: utf_loop.induct)
  case (1 src src_len dst_len i dst cur)
  show ?case
  proof (cases "i < src_len \<and> cur < dst_len")
    case True
    have "\<exists>c i'. next_utf32 src src_len i = Some (c, i')"
      using True "1.prems" by (auto simp: next_utf32_def)
    then obtain c i' where n: "next_utf32 src src_len i = Some (c, i')" by auto
    let ?b = "utf32_to_utf8_bytes c"
    have b: "?b \<le> 4" by (simp add: utf32_to_utf8_bytes_def)
    have "\<exists>dst'. utf32_to_utf8 dst cur c ?b = Some dst' \<and> length dst' = length dst"
    proof (cases ?b)
      case (Suc k)
      then show ?thesis using fall_enc [of "Suc k" k dst cur c] b 1 True by (auto simp: utf32_to_utf8_def)
    qed (simp add: utf32_to_utf8_def)
    then obtain dst' where d: "utf32_to_utf8 dst cur c ?b = Some dst'" "length dst' = length dst" by auto
    show ?thesis using "1.IH" [OF True n refl d(1)] True 1 n d b by (subst utf_loop.simps) auto
  next
    case False
    then show ?thesis using 1 by (subst utf_loop.simps) auto
  qed
qed

text \<open>(C39) A destination with room for three more bytes than \<open>dst_len\<close> says is never left, whatever the
  source holds, and the number that is returned is at most \<open>dst_len + 3\<close>.\<close>

theorem utf16_to_utf8_bounded:
  assumes "src_len \<le> length src" "dst_len + 3 \<le> length dst"
  shows "\<exists>n dst'. utf16_to_utf8 (Some src) src_len dst dst_len = Some (n, dst') \<and> n \<le> dst_len + 3 \<and>
     length dst' = length dst"
  using utf_loop_bounded [OF assms, of 0 0] assms(2) by (auto simp: utf16_to_utf8_def)

theorem utf16_to_utf8_bounded_witness:
  "\<exists>n dst'. utf16_to_utf8 (Some [0xD800, 0x41, 0xDC00, 0xFFFF]) 4 (replicate 5 0) 2 = Some (n, dst') \<and> n \<le> 5 \<and> length dst' = 5"
  using utf16_to_utf8_bounded [of 4 "[0xD800, 0x41, 0xDC00, 0xFFFF]" 2 "replicate 5 0"] by simp

end
