(* ===== verification/AnrFiles.thy ===== *)
theory AnrFiles
  imports EventQueue Utf
begin

text \<open>
  The settings of the crash collector, the setters of
  \<open>libcrash_collect/exception_handler.cpp\<close>, and the copying of ANR reports and the handling of one
  event, \<open>libcrash_collect/anr/inotify_utils.cpp\<close>. A \<open>char\<close> array is the list of its bytes and \<open>None\<close> the
  null pointer; a string function that runs behind its array, and \<open>sprintf\<close> into an array that is too
  small, have the result \<open>None\<close>. The file system is a map from paths to contents together with the
  paths that can be opened for writing.
\<close>

section \<open>Strings and streams of the C library\<close>

definition bytes :: "string \<Rightarrow> u8 list" where
  "bytes = map of_char"

definition c_string :: "u8 list \<Rightarrow> u8 list option" where
  "c_string b = (if 0 \<in> set b then Some (takeWhile (\<lambda>c. c \<noteq> 0) b) else None)"

fun strstr :: "u8 list \<Rightarrow> u8 list \<Rightarrow> bool" where
  "strstr [] n \<longleftrightarrow> n = []"
| "strstr (c # h) n \<longleftrightarrow> take (length n) (c # h) = n \<or> strstr h n"

text \<open>\<open>fgets(data, n, f)\<close>: the bytes stored before the terminating zero, and those left in the stream.\<close>

definition fgets :: "nat \<Rightarrow> u8 list \<Rightarrow> (u8 list \<times> u8 list) option" where
  "fgets n f =
     (if f = [] then None
      else let k = min (n - 1) (length (takeWhile (\<lambda>c. c \<noteq> 10) f) + 1) in Some (take k f, drop k f))"

text \<open>The string in the array after \<open>fgets\<close>: up to the first zero.\<close>

abbreviation line_string :: "u8 list \<Rightarrow> u8 list" where
  "line_string l \<equiv> takeWhile (\<lambda>c. c \<noteq> 0) l"

lemma fgets_parts:
  assumes "fgets n f = Some (l, f')"
  shows "f = l @ f'" "1 < n \<Longrightarrow> l \<noteq> []" "length l < n \<or> n = 0"
  using assms by (auto simp: fgets_def Let_def split: if_splits)

lemma fgets_shorter: "fgets n f = Some (l, f') \<Longrightarrow> 1 < n \<Longrightarrow> length f' < length f"
  using fgets_parts [of n f l f'] by auto

lemma fgets_eq_None [simp]: "fgets n f = None \<longleftrightarrow> f = []"
  by (simp add: fgets_def Let_def)

lemma fgets_Nil [simp]: "fgets n [] = None"
  by simp

section \<open>Settings\<close>

record ExceptionHandler =
  collect_anr_on :: bool
  collect_crash_on :: bool
  crash_save_path :: "u8 list option"
  anr_save_path :: "u8 list option"
  head_info :: "u8 list option"
  package_name :: "u8 list option"
  keyboard_state :: int

definition CRASH_SWITCH :: int where "CRASH_SWITCH = 1"
definition ANR_SWITCH :: int where "ANR_SWITCH = 2"

text \<open>The array of \<open>size + 1\<close> zeros and the conversion into it, which every string setter makes.\<close>

definition new_string :: "u16 list option \<Rightarrow> nat \<Rightarrow> u8 list option" where
  "new_string str16 sz = map_option snd (utf16_to_utf8 str16 sz (replicate (sz + 1) 0) sz)"

definition SetAnrLogSavePath :: "u16 list option \<Rightarrow> nat \<Rightarrow> ExceptionHandler \<Rightarrow> ExceptionHandler option" where
  "SetAnrLogSavePath str16 sz h = do { b \<leftarrow> new_string str16 sz; Some (h\<lparr>anr_save_path := Some b\<rparr>) }"

definition SetCrashLogSavePath :: "u16 list option \<Rightarrow> nat \<Rightarrow> ExceptionHandler \<Rightarrow> ExceptionHandler option" where
  "SetCrashLogSavePath str16 sz h = do { b \<leftarrow> new_string str16 sz; Some (h\<lparr>crash_save_path := Some b\<rparr>) }"

definition SetPackageName :: "u16 list option \<Rightarrow> nat \<Rightarrow> ExceptionHandler \<Rightarrow> ExceptionHandler option" where
  "SetPackageName str16 sz h = do { b \<leftarrow> new_string str16 sz; Some (h\<lparr>package_name := Some b\<rparr>) }"

definition SetHeadInfo :: "u16 list option \<Rightarrow> nat \<Rightarrow> ExceptionHandler \<Rightarrow> ExceptionHandler option" where
  "SetHeadInfo str16 sz h = do { b \<leftarrow> new_string str16 sz; Some (h\<lparr>head_info := Some b\<rparr>) }"

definition SetKeyboardShownState :: "int \<Rightarrow> ExceptionHandler \<Rightarrow> ExceptionHandler" where
  "SetKeyboardShownState st h = h\<lparr>keyboard_state := st\<rparr>"

definition SetCollectSwitch :: "int \<Rightarrow> bool \<Rightarrow> ExceptionHandler \<Rightarrow> ExceptionHandler" where
  "SetCollectSwitch which st h =
     (if which = CRASH_SWITCH then h\<lparr>collect_crash_on := st\<rparr>
      else if which = ANR_SWITCH then h\<lparr>collect_anr_on := st\<rparr> else h)"

section \<open>The state of the watcher\<close>

record anr =
  handler :: ExceptionHandler
  watched_items :: int
  has_copy_anr_file :: int
  files :: "u8 list \<rightharpoonup> u8 list"
  can_write :: "u8 list \<Rightarrow> bool"

definition BUFFER_LENGTH :: nat where "BUFFER_LENGTH = 1024"
definition ANR_IME_MAX_LINE_NUM :: nat where "ANR_IME_MAX_LINE_NUM = 10"
definition anr_end_flag :: "u8 list" where "anr_end_flag = bytes ''-- end''"
definition cmd_line_flag :: "u8 list" where "cmd_line_flag = bytes ''Cmd line''"
definition ANR_FILE_DIR :: "u8 list" where "ANR_FILE_DIR = bytes ''/data/anr''"

text \<open>\<open>sprintf\<close> into an array of \<open>n\<close> bytes.\<close>

definition sprintf :: "nat \<Rightarrow> u8 list \<Rightarrow> u8 list option" where
  "sprintf n s = (if length s < n then Some s else None)"

definition anr_path :: "u8 list \<Rightarrow> u8 list option" where
  "anr_path anr_file = do { f \<leftarrow> c_string anr_file; sprintf 100 (ANR_FILE_DIR @ [0x2F] @ f) }"

text \<open>The line that is inserted behind the one with the process name.\<close>

definition ime_line :: "u8 list option \<Rightarrow> u8 list option" where
  "ime_line info =
     do { i \<leftarrow> info; s \<leftarrow> c_string i; sprintf BUFFER_LENGTH (bytes ''ime info : '' @ s @ [0x20, 0x0A]) }"

text \<open>Whether the line is the first one with the process name; \<open>strstr\<close> reads the package name only
  behind the other two tests.\<close>

definition is_cmd_line :: "u8 list \<Rightarrow> u8 list \<Rightarrow> bool \<Rightarrow> bool option" where
  "is_cmd_line pkg data hasWriteExtInfo =
     (if \<not> hasWriteExtInfo \<and> strstr data cmd_line_flag then map_option (strstr data) (c_string pkg)
      else Some False)"

function copy_loop :: "u8 list \<Rightarrow> u8 list option \<Rightarrow> u8 list \<Rightarrow> u8 list \<Rightarrow> bool \<Rightarrow> u8 list option" where
  "copy_loop pkg info src out hasWriteExtInfo =
     (case fgets BUFFER_LENGTH src of
        None \<Rightarrow> Some out
      | Some (l, src') \<Rightarrow>
          let data = line_string l; out' = out @ data
          in (case is_cmd_line pkg data hasWriteExtInfo of
                None \<Rightarrow> None
              | Some True \<Rightarrow>
                  (case ime_line info of
                     None \<Rightarrow> None
                   | Some x \<Rightarrow> copy_loop pkg info src' (out' @ x) True)
              | Some False \<Rightarrow>
                  if strstr data anr_end_flag then Some out'
                  else copy_loop pkg info src' out' hasWriteExtInfo))"
  by pat_completeness auto
termination
  by (relation "measure (\<lambda>(pkg, info, src, out, w). length src)")
    (auto simp: BUFFER_LENGTH_def dest: fgets_shorter)

declare copy_loop.simps [simp del]

definition copy_anr_file :: "u8 list \<Rightarrow> anr \<Rightarrow> (int \<times> anr) option" where
  "copy_anr_file anr_file a =
     (case (anr_save_path (handler a), package_name (handler a)) of
        (Some path, Some pkg) \<Rightarrow>
          if \<not> collect_anr_on (handler a) then Some (-1, a)
          else
            do { let a1 = a\<lparr>has_copy_anr_file := 0\<rparr>;
                 anr_file_path \<leftarrow> anr_path anr_file;
                 save \<leftarrow> c_string path;
                 let a2 = (if can_write a1 save then a1\<lparr>files := (files a1)(save \<mapsto> [])\<rparr> else a1);
                 if files a1 anr_file_path = None \<or> \<not> can_write a1 save then Some (-1, a2)
                 else
                   do { src \<leftarrow> files a2 anr_file_path;
                        out \<leftarrow> copy_loop pkg (head_info (handler a)) src [] False;
                        Some (0, a2\<lparr>files := (files a2)(save \<mapsto> out), has_copy_anr_file := 1\<rparr>) } }
      | _ \<Rightarrow> Some (-1, a))"

function info_loop :: "u8 list \<Rightarrow> u8 list \<Rightarrow> nat \<Rightarrow> int" where
  "info_loop pkg src ime_line_number =
     (case fgets BUFFER_LENGTH src of
        None \<Rightarrow> -1
      | Some (l, src') \<Rightarrow>
          if ime_line_number > ANR_IME_MAX_LINE_NUM then -1
          else if strstr (line_string l) pkg then 0
          else info_loop pkg src' (ime_line_number + 1))"
  by pat_completeness auto
termination
  by (relation "measure (\<lambda>(pkg, src, n). length src)") (auto simp: BUFFER_LENGTH_def dest: fgets_shorter)

declare info_loop.simps [simp del]

definition has_anr_file_contain_ime_info :: "u8 list \<Rightarrow> anr \<Rightarrow> int option" where
  "has_anr_file_contain_ime_info anr_file a =
     (case package_name (handler a) of
        None \<Rightarrow> Some (-1)
      | Some pkg \<Rightarrow>
          do { anr_file_path \<leftarrow> anr_path anr_file;
               case files a anr_file_path of
                 None \<Rightarrow> Some (-1)
               | Some src \<Rightarrow> if src = [] then Some (-1) else do { p \<leftarrow> c_string pkg; Some (info_loop p src 0) } })"

definition handle_anr_file_close_write :: "u8 list \<Rightarrow> anr \<Rightarrow> anr option" where
  "handle_anr_file_close_write anr_file a =
     (if has_copy_anr_file a = 0 then
        do { r \<leftarrow> has_anr_file_contain_ime_info anr_file a;
             if r = 0 then map_option snd (copy_anr_file anr_file a) else Some a }
      else Some a)"

definition handle_anr_file_create :: "anr \<Rightarrow> anr" where
  "handle_anr_file_create a = a\<lparr>has_copy_anr_file := 0\<rparr>"

text \<open>The constants of \<open>sys/inotify.h\<close>.\<close>

definition IN_CLOSE_WRITE :: u32 where "IN_CLOSE_WRITE = 0x8"
definition IN_CREATE :: u32 where "IN_CREATE = 0x100"
definition IN_ALL_EVENTS :: u32 where "IN_ALL_EVENTS = 0xFFF"
definition IN_UNMOUNT :: u32 where "IN_UNMOUNT = 0x2000"
definition IN_Q_OVERFLOW :: u32 where "IN_Q_OVERFLOW = 0x4000"
definition IN_IGNORED :: u32 where "IN_IGNORED = 0x8000"
definition IN_ISDIR :: u32 where "IN_ISDIR = 0x40000000"

lemmas in_consts = IN_CLOSE_WRITE_def IN_CREATE_def IN_ALL_EVENTS_def IN_UNMOUNT_def IN_Q_OVERFLOW_def
  IN_IGNORED_def IN_ISDIR_def

definition handle_event :: "inotify_event \<Rightarrow> anr \<Rightarrow> anr option" where
  "handle_event ev a =
     (if mask ev AND IN_ISDIR \<noteq> 0 then Some a
      else if len ev = 0 then Some a
      else
        do { cur_event_filename \<leftarrow> c_string (name ev);
             if \<not> strstr cur_event_filename (bytes ''anr'') \<and> \<not> strstr cur_event_filename (bytes ''traces'')
             then Some a
             else
               let m = mask ev AND (IN_ALL_EVENTS OR IN_UNMOUNT OR IN_Q_OVERFLOW OR IN_IGNORED)
               in if m = IN_CLOSE_WRITE then handle_anr_file_close_write (name ev) a
                  else if m = IN_CREATE then Some (handle_anr_file_create a)
                  else if m = IN_IGNORED then Some (a\<lparr>watched_items := watched_items a - 1\<rparr>)
                  else Some a })"

section \<open>Setting strings\<close>

lemma new_string_text:
  assumes "\<forall>c\<in>set cs. scalar c" "cs \<noteq> []"
  shows "new_string (Some (utf16_text cs)) (length (utf16_text cs)) =
     (let n = length (utf16_text cs); out = enc_until n cs
      in if length out \<le> n + 1 then Some (out @ replicate (n + 1 - length out) 0) else None)"
proof -
  define n where n: "n = length (utf16_text cs)"
  have "0 < n" using assms(2) unfolding n by (cases cs) (auto simp: utf16_enc_def)
  then have "utf16_to_utf8 (Some (utf16_text cs)) n (replicate (n + 1) 0) n =
      (let out = enc_until n cs in if length out \<le> n + 1 then Some (length out, converted out (replicate (n + 1) 0) n) else None)"
    using utf16_to_utf8_chars [OF assms, of n "replicate (n + 1) 0"] unfolding n by simp
  moreover have "converted out (replicate (n + 1) 0) n = out @ replicate (n + 1 - length out) 0" for out
    by (simp add: converted_def Suc_diff_le flip: replicate_Suc)
  ultimately show ?thesis unfolding new_string_def n [symmetric] Let_def by simp
qed

text \<open>Setting the package name to the text of the code points \<open>cs\<close>: the array has one byte more
  than the text has UTF-16 units. The call leaves the array exactly when the bytes written do not fit;
  the string is the whole text when every code point is ASCII.\<close>

theorem SetPackageName_text:
  assumes "\<forall>c\<in>set cs. scalar c" "cs \<noteq> []"
  defines "n \<equiv> length (utf16_text cs)"
  shows "SetPackageName (Some (utf16_text cs)) n h =
     (let out = enc_until n cs
      in if length out \<le> n + 1 then Some (h\<lparr>package_name := Some (out @ replicate (n + 1 - length out) 0)\<rparr>) else None) \<and>
     (list_all (\<lambda>c. 0 < c \<and> c < 0x80) cs \<longrightarrow>
       SetPackageName (Some (utf16_text cs)) n h = Some (h\<lparr>package_name := Some (map of_nat cs @ [0])\<rparr>) \<and>
       c_string (map of_nat cs @ [0]) = Some (map of_nat cs))"
proof -
  have set: "SetPackageName (Some (utf16_text cs)) n h =
     (let out = enc_until n cs
      in if length out \<le> n + 1 then Some (h\<lparr>package_name := Some (out @ replicate (n + 1 - length out) 0)\<rparr>) else None)"
    using new_string_text [OF assms(1,2)] by (simp add: SetPackageName_def n_def Let_def)
  have "utf8_text cs = map of_nat cs \<and> length (utf16_text cs) = length cs \<and> c_string (map of_nat cs @ [0]) = Some (map of_nat cs)"
    if "list_all (\<lambda>c. 0 < c \<and> c < 0x80) cs"
  proof -
    have "utf8_enc c = [of_nat c]" "length (utf16_enc c) = 1" "(of_nat c :: u8) \<noteq> 0" if "c \<in> set cs" for c
    proof -
      have c: "0 < c" "c < 0x80" using that \<open>list_all _ cs\<close> by (auto simp: list_all_iff)
      then show "utf8_enc c = [of_nat c]" "length (utf16_enc c) = 1" by (simp_all add: utf8_enc_def utf16_enc_def)
      from c have "unat (of_nat c :: u8) = c" by (simp add: unat_of_nat take_bit_nat_eq_self)
      with c show "(of_nat c :: u8) \<noteq> 0" by (metis neq0_conv unat_0)
    qed
    then show ?thesis by (induction cs) (auto simp: c_string_def)
  qed
  note ascii = this
  have "SetPackageName (Some (utf16_text cs)) n h = Some (h\<lparr>package_name := Some (map of_nat cs @ [0])\<rparr>) \<and>
       c_string (map of_nat cs @ [0]) = Some (map of_nat cs)" if l: "list_all (\<lambda>c. 0 < c \<and> c < 0x80) cs"
  proof -
    have n: "n = length cs" using ascii [OF l] unfolding n_def by blast
    have "length (utf8_text cs) \<le> n" using ascii [OF l] unfolding n by (metis length_map order_refl)
    then have "enc_until n cs = map of_nat cs" using ascii [OF l] enc_until_all [of cs n] by metis
    then have "SetPackageName (Some (utf16_text cs)) n h = Some (h\<lparr>package_name := Some (map of_nat cs @ [0])\<rparr>)"
      unfolding set Let_def by (simp add: n)
    with ascii [OF l] show ?thesis by blast
  qed
  then show ?thesis by (intro conjI [OF set] impI)
qed

definition sample_handler :: ExceptionHandler where
  "sample_handler =
     \<lparr>collect_anr_on = True, collect_crash_on = True, crash_save_path = None, anr_save_path = Some [0x73, 0],
      head_info = Some [0x76, 0x31, 0], package_name = Some [0x70, 0x6B, 0x67, 0], keyboard_state = -1\<rparr>"

theorem SetPackageName_text_witness:
  "SetPackageName (Some (utf16_text [0x4E2D])) (length (utf16_text [0x4E2D])) sample_handler = None \<and>
   SetPackageName (Some (utf16_text [0x63, 0x6F, 0x6D])) (length (utf16_text [0x63, 0x6F, 0x6D])) sample_handler =
     Some (sample_handler\<lparr>package_name := Some [0x63, 0x6F, 0x6D, 0]\<rparr>)"
proof (rule conjI)
  have "\<forall>c\<in>set [0x4E2D]. scalar c" by (simp add: scalar_def)
  from SetPackageName_text [OF this, of sample_handler]
  show "SetPackageName (Some (utf16_text [0x4E2D])) (length (utf16_text [0x4E2D])) sample_handler = None"
    by (simp add: utf16_enc_def utf8_enc_def)
  have c: "\<forall>c\<in>set [0x63, 0x6F, 0x6D]. scalar c" "[0x63, 0x6F, 0x6D :: nat] \<noteq> []" by (simp_all add: scalar_def)
  have "list_all (\<lambda>c. 0 < c \<and> c < 0x80) [0x63, 0x6F, 0x6D :: nat]" by simp
  from mp [OF conjunct2 [OF SetPackageName_text [OF c, of sample_handler]] this, THEN conjunct1]
  show "SetPackageName (Some (utf16_text [0x63, 0x6F, 0x6D])) (length (utf16_text [0x63, 0x6F, 0x6D])) sample_handler =
     Some (sample_handler\<lparr>package_name := Some [0x63, 0x6F, 0x6D, 0]\<rparr>)" by simp
qed

section \<open>Copying a report\<close>

lemma strstr_append: "strstr b n \<Longrightarrow> strstr (a @ b) n"
  by (induction a) auto

lemma takeWhile_nonzero: "0 \<notin> set l \<Longrightarrow> line_string l = l"
  by (induction l) auto

lemma copy_loop_line:
  assumes "fgets BUFFER_LENGTH src = Some (l, src')"
  shows "copy_loop pkg info src out w =
     (case is_cmd_line pkg (line_string l) w of
        None \<Rightarrow> None
      | Some True \<Rightarrow>
          (case ime_line info of
             None \<Rightarrow> None
           | Some x \<Rightarrow> copy_loop pkg info src' ((out @ line_string l) @ x) True)
      | Some False \<Rightarrow>
          if strstr (line_string l) anr_end_flag then Some (out @ line_string l)
          else copy_loop pkg info src' (out @ line_string l) w)"
  using assms by (subst copy_loop.simps) (simp add: Let_def)

lemma copy_loop_total:
  assumes "0 \<in> set pkg" "ime_line info \<noteq> None"
  shows "copy_loop pkg info src out w \<noteq> None"
  using assms
proof (induction pkg info src out w rule: copy_loop.induct)
  case (1 pkg info src out w)
  show ?case
  proof (cases "fgets BUFFER_LENGTH src")
    case None
    then show ?thesis by (subst copy_loop.simps) simp
  next
    case (Some p)
    then obtain l src' where f: "fgets BUFFER_LENGTH src = Some (l, src')" by (cases p) auto
    have "is_cmd_line pkg (line_string l) w \<noteq> None"
      using "1.prems" by (auto simp: is_cmd_line_def c_string_def)
    then obtain hit where h: "is_cmd_line pkg (line_string l) w = Some hit" by blast
    obtain x where x: "ime_line info = Some x" using "1.prems" by auto
    have "copy_loop pkg info src' ((out @ line_string l) @ x) True \<noteq> None" if hit
      by (rule "1.IH"(1) [OF f refl refl refl _ _ x]) (use h that "1.prems" in simp_all)
    moreover have "copy_loop pkg info src' (out @ line_string l) w \<noteq> None" if "\<not> hit" "\<not> strstr (line_string l) anr_end_flag"
      by (rule "1.IH"(2) [OF f refl refl refl]) (use h that "1.prems" in simp_all)
    ultimately show ?thesis using h x by (cases hit) (auto simp: copy_loop_line [OF f])
  qed
qed

text \<open>The lines that \<open>fgets\<close> reads from a file, in pieces of at most 1023 bytes.\<close>

function file_lines :: "u8 list \<Rightarrow> u8 list list" where
  "file_lines src = (case fgets BUFFER_LENGTH src of None \<Rightarrow> [] | Some (l, src') \<Rightarrow> l # file_lines src')"
  by pat_completeness auto
termination
  by (relation "measure length") (auto simp: BUFFER_LENGTH_def dest: fgets_shorter)

declare file_lines.simps [simp del]

lemma file_lines_Nil [simp]: "file_lines [] = []"
  by (subst file_lines.simps) simp

lemma concat_file_lines: "concat (file_lines src) = src"
proof (induction src rule: file_lines.induct)
  case (1 src)
  then show ?case by (subst file_lines.simps) (auto dest: fgets_parts(1) split: option.splits)
qed

text \<open>The index of the first line with a property, the number of lines if there is none.\<close>

definition first_line :: "('a \<Rightarrow> bool) \<Rightarrow> 'a list \<Rightarrow> nat" where
  "first_line P xs = length (takeWhile (\<lambda>x. \<not> P x) xs)"

lemma first_line_Cons: "first_line P (x # xs) = (if P x then 0 else Suc (first_line P xs))"
  by (simp add: first_line_def)

lemma first_line_map: "first_line P (map f xs) = first_line (\<lambda>x. P (f x)) xs"
  by (simp add: first_line_def takeWhile_map comp_def)

text \<open>
  The copy of a report with the lines \<open>ls\<close>: everything up to the first line that satisfies \<open>final\<close>, with \<open>x\<close> behind
  the first line that satisfies \<open>hit\<close>; that line does not end the copy.
\<close>

definition report_copy :: "(u8 list \<Rightarrow> bool) \<Rightarrow> (u8 list \<Rightarrow> bool) \<Rightarrow> u8 list \<Rightarrow> u8 list list \<Rightarrow> u8 list" where
  "report_copy hit final x ls =
     (let c = first_line hit ls; n = first_line (\<lambda>i. i \<noteq> c \<and> final (ls ! i)) [0..<length ls] in
      concat (map (\<lambda>i. ls ! i @ (if i = c then x else [])) [0..<min (Suc n) (length ls)]))"

definition report_rest :: "(u8 list \<Rightarrow> bool) \<Rightarrow> u8 list list \<Rightarrow> u8 list" where
  "report_rest final ls = concat (take (Suc (first_line final ls)) ls)"

lemma upt_Suc_map: "[0..<Suc n] = 0 # map Suc [0..<n]"
  by (metis upt_conv_Cons zero_less_Suc map_Suc_upt)

lemma report_rest_Cons: "report_rest final (l # ls) = l @ (if final l then [] else report_rest final ls)"
  by (simp add: report_rest_def first_line_Cons)

lemma report_rest_upt:
  "report_rest final ls =
     concat (map (\<lambda>i. ls ! i) [0..<min (Suc (first_line (\<lambda>i. final (ls ! i)) [0..<length ls])) (length ls)])"
proof -
  have "first_line final ls = first_line (\<lambda>i. final (ls ! i)) [0..<length ls]"
    using first_line_map [of final "(!) ls" "[0..<length ls]"] by (simp add: map_nth)
  moreover have "take k ls = map ((!) ls) [0..<min k (length ls)]" for k
    by (rule nth_equalityI) auto
  ultimately show ?thesis by (simp add: report_rest_def)
qed

lemma report_copy_Cons:
  "report_copy hit final x (l # ls) =
     l @ (if hit l then x @ report_rest final ls else if final l then [] else report_copy hit final x ls)"
proof -
  let ?f = "\<lambda>c i. i \<noteq> c \<and> final ((l # ls) ! i)"
  have n: "first_line (?f c) [0..<length (l # ls)] =
      (if c \<noteq> 0 \<and> final l then 0 else Suc (first_line (\<lambda>i. Suc i \<noteq> c \<and> final (ls ! i)) [0..<length ls]))" for c
    by (simp only: list.size(4) add_Suc_right add_0_right upt_Suc_map first_line_Cons first_line_map nth_Cons_0 nth_Cons_Suc) auto
  have m: "map g [0..<min (Suc (Suc k)) (length (l # ls))] = g 0 # map (\<lambda>i. g (Suc i)) [0..<min (Suc k) (length ls)]" for g :: "nat \<Rightarrow> u8 list" and k
    by (simp only: list.size(4) add_Suc_right add_0_right min_Suc_Suc upt_Suc_map list.map map_map comp_def)
  show ?thesis
  proof (cases "hit l")
    case True
    have n0: "first_line (?f 0) [0..<length (l # ls)] = Suc (first_line (\<lambda>i. final (ls ! i)) [0..<length ls])"
      unfolding n by simp
    from True show ?thesis
      unfolding report_rest_upt by (simp only: report_copy_def first_line_Cons if_True Let_def n0 m) simp
  next
    case False
    then show ?thesis
    proof (cases "final l")
      case True
      have "map g [0..<min (Suc 0) (length (l # ls))] = [g 0]" for g :: "nat \<Rightarrow> u8 list" by simp
      with False True show ?thesis by (simp only: report_copy_def first_line_Cons Let_def n) simp
    next
      case fl: False
      have n1: "first_line (?f (Suc c)) [0..<length (l # ls)] = Suc (first_line (\<lambda>i. i \<noteq> c \<and> final (ls ! i)) [0..<length ls])" for c
        unfolding n using fl by simp
      have c1: "first_line hit (l # ls) = Suc (first_line hit ls)" using False by (simp add: first_line_Cons)
      show ?thesis using False fl by (simp only: report_copy_def c1 Let_def n1 m if_False) simp
    qed
  qed
qed

lemma copy_loop_copies:
  assumes "copy_loop pkg info src out w = Some r" "0 \<notin> set src"
  defines "final \<equiv> \<lambda>l. strstr l anr_end_flag"
  shows "r = out @ (if w then report_rest final (file_lines src)
    else report_copy (\<lambda>l. strstr l cmd_line_flag \<and> strstr l (the (c_string pkg))) final (the (ime_line info)) (file_lines src))"
  using assms(1,2)
proof (induction pkg info src out w arbitrary: r rule: copy_loop.induct)
  case (1 pkg info src out w)
  show ?case
  proof (cases "fgets BUFFER_LENGTH src")
    case None
    then show ?thesis using "1.prems" by (subst (asm) copy_loop.simps) (auto simp: report_rest_def report_copy_def)
  next
    case (Some p)
    then obtain l src' where f: "fgets BUFFER_LENGTH src = Some (l, src')" by (cases p) auto
    have s: "src = l @ src'" using fgets_parts [OF f] by simp
    then have l: "line_string l = l" "0 \<notin> set src'" using "1.prems"(2) takeWhile_nonzero [of l] by auto
    have fl: "file_lines src = l # file_lines src'" using f by (subst file_lines.simps) simp
    obtain hit' where h: "is_cmd_line pkg l w = Some hit'"
      using "1.prems"(1) by (auto simp: copy_loop_line [OF f] l(1) split: option.splits)
    have hit: "hit' \<longleftrightarrow> \<not> w \<and> strstr l cmd_line_flag \<and> strstr l (the (c_string pkg))"
      using h by (auto simp: is_cmd_line_def split: if_splits)
    show ?thesis
    proof (cases hit')
      case True
      then obtain x where x: "ime_line info = Some x" "copy_loop pkg info src' (out @ l @ x) True = Some r"
        using "1.prems"(1) h by (auto simp: copy_loop_line [OF f] l(1) split: option.splits)
      have "r = (out @ l @ x) @ report_rest final (file_lines src')"
        using "1.IH"(1) [OF f refl refl refl _ _ _ _, of hit' x r] x h l True by (simp add: final_def)
      with True hit x(1) show ?thesis by (simp add: fl report_copy_Cons)
    next
      case False
      show ?thesis
      proof (cases "strstr l anr_end_flag")
        case True
        then have "r = out @ l" using "1.prems"(1) h False by (auto simp: copy_loop_line [OF f] l(1))
        with True False hit show ?thesis by (auto simp: fl report_copy_Cons report_rest_Cons final_def)
      next
        case end_not: False
        then have "copy_loop pkg info src' (out @ l) w = Some r"
          using "1.prems"(1) h False by (auto simp: copy_loop_line [OF f] l(1))
        then have "r = (out @ l) @ (if w then report_rest final (file_lines src')
            else report_copy (\<lambda>l. strstr l cmd_line_flag \<and> strstr l (the (c_string pkg))) final (the (ime_line info)) (file_lines src'))"
          using "1.IH"(2) [OF f refl refl refl _ _ _, of hit' r] h l False end_not by (simp add: final_def)
        with end_not False hit show ?thesis by (auto simp: fl report_copy_Cons report_rest_Cons final_def)
      qed
    qed
  qed
qed

text \<open>(C35) When \<open>copy_anr_file\<close> returns 0 for a report without zero bytes, the saved file consists of the lines of the report
  up to and including the first one with the end mark, or all of them; behind the first line that names the process of the program
  the line with the program's information is inserted, and that line alone does not end the copy.  The copy is noted, and no
  other file is touched.\<close>

theorem copy_anr_file_copies:
  assumes "copy_anr_file anr_file a = Some (0, a')" "anr_path anr_file = Some path" "files a path = Some src"
    "anr_save_path (handler a) = Some sp" "c_string sp = Some save" "save \<noteq> path" "0 \<notin> set src"
    "package_name (handler a) = Some pkg"
  shows "has_copy_anr_file a' = 1 \<and> handler a' = handler a \<and> (\<forall>f. f \<noteq> save \<longrightarrow> files a' f = files a f) \<and>
     files a' save = Some (report_copy (\<lambda>l. strstr l cmd_line_flag \<and> strstr l (the (c_string pkg))) (\<lambda>l. strstr l anr_end_flag)
       (the (ime_line (head_info (handler a)))) (file_lines src))"
proof -
  obtain out where o: "copy_loop pkg (head_info (handler a)) src [] False = Some out" and
    a': "a' = a\<lparr>has_copy_anr_file := 1, files := (files a)(save \<mapsto> out)\<rparr>"
    using assms by (cases a) (auto simp: copy_anr_file_def bind_eq_Some_conv Let_def split: option.splits if_splits)
  from copy_loop_copies [OF o assms(7)] show ?thesis unfolding a' by simp
qed

definition sample_report :: "u8 list" where
  "sample_report = bytes ''Cmd line: pkg'' @ [10] @ bytes ''main'' @ [10] @ bytes ''-- end'' @ [10] @ bytes ''x''"

definition sample_anr :: anr where
  "sample_anr = \<lparr>handler = sample_handler, watched_items = 1, has_copy_anr_file = 0,
     files = [bytes ''/data/anr/anr_1'' \<mapsto> sample_report], can_write = (\<lambda>p. True)\<rparr>"

lemma sample_anr_path: "anr_path (bytes ''anr_1'' @ [0]) = Some (bytes ''/data/anr/anr_1'')"
  by (simp add: anr_path_def c_string_def ANR_FILE_DIR_def bytes_def sprintf_def of_char_of)

theorem copy_anr_file_copies_witness:
  "\<exists>a'. copy_anr_file (bytes ''anr_1'' @ [0]) sample_anr = Some (0, a') \<and> has_copy_anr_file a' = 1 \<and>
     files a' [0x73] = Some (bytes ''Cmd line: pkg'' @ [10] @ bytes ''ime info : v1 '' @ [10] @ bytes ''main'' @ [10] @
       bytes ''-- end'' @ [10])"
proof -
  have e: "handler sample_anr = sample_handler" "files sample_anr (bytes ''/data/anr/anr_1'') = Some sample_report"
    "anr_save_path sample_handler = Some [0x73, 0]" "head_info sample_handler = Some [0x76, 0x31, 0]"
    by (simp_all add: sample_anr_def sample_handler_def)
  have c: "c_string [0x73, 0] = Some [0x73]" by (simp add: c_string_def)
  have n: "[0x73] \<noteq> bytes ''/data/anr/anr_1''" by (simp add: bytes_def)
  have z: "0 \<notin> set sample_report" by (simp add: sample_report_def bytes_def of_char_of)
  obtain a' where a': "copy_anr_file (bytes ''anr_1'' @ [0]) sample_anr = Some (0, a')"
  proof -
    have "ime_line (Some [0x76, 0x31, 0]) \<noteq> None"
      by (simp add: ime_line_def c_string_def sprintf_def BUFFER_LENGTH_def bytes_def)
    then obtain out where "copy_loop [0x70, 0x6B, 0x67, 0] (Some [0x76, 0x31, 0]) sample_report [] False = Some out"
      using copy_loop_total [of "[0x70, 0x6B, 0x67, 0]"] by fastforce
    with e n c that show ?thesis
      by (auto simp: copy_anr_file_def sample_anr_path Let_def sample_anr_def sample_handler_def)
  qed
  have p: "package_name (handler sample_anr) = Some [0x70, 0x6B, 0x67, 0]" by (simp add: e sample_handler_def)
  have copied: "report_copy (\<lambda>l. strstr l cmd_line_flag \<and> strstr l (the (c_string [0x70, 0x6B, 0x67, 0]))) (\<lambda>l. strstr l anr_end_flag)
       (the (ime_line (Some [0x76, 0x31, 0]))) (file_lines sample_report) =
     bytes ''Cmd line: pkg'' @ [10] @ bytes ''ime info : v1 '' @ [10] @ bytes ''main'' @ [10] @ bytes ''-- end'' @ [10]"
    by code_simp
  from copy_anr_file_copies [OF a' sample_anr_path e(2), of "[0x73, 0]" "[0x73]" "[0x70, 0x6B, 0x67, 0]"] e c n z p a' copied
  show ?thesis by simp
qed

text \<open>When the report cannot be opened, \<open>copy_anr_file\<close> returns -1, and a report saved before is
  lost: the target has been opened for writing already.\<close>

theorem copy_missing_report_empties_target:
  assumes "anr_path anr_file = Some path" "files a path = None" "anr_save_path (handler a) = Some sp"
    "c_string sp = Some save" "package_name (handler a) \<noteq> None" "collect_anr_on (handler a)" "can_write a save"
  shows "\<exists>a'. copy_anr_file anr_file a = Some (-1, a') \<and> files a' save = Some [] \<and> has_copy_anr_file a' = 0"
  using assms by (auto simp: copy_anr_file_def)

theorem copy_missing_report_empties_target_witness:
  "\<exists>a'. copy_anr_file (bytes ''anr_1'' @ [0]) (sample_anr\<lparr>files := [[0x73] \<mapsto> [1, 2, 3]]\<rparr>) = Some (-1, a') \<and>
     files a' [0x73] = Some [] \<and> has_copy_anr_file a' = 0"
proof (rule copy_missing_report_empties_target [OF sample_anr_path])
  show "files (sample_anr\<lparr>files := [[0x73] \<mapsto> [1, 2, 3]]\<rparr>) (bytes ''/data/anr/anr_1'') = None" by (simp add: bytes_def)
  show "anr_save_path (handler (sample_anr\<lparr>files := [[0x73] \<mapsto> [1, 2, 3]]\<rparr>)) = Some [0x73, 0]"
    by (simp add: sample_anr_def sample_handler_def)
  show "c_string [0x73, 0] = Some [0x73]" by (simp add: c_string_def)
qed (simp_all add: sample_anr_def sample_handler_def)

section \<open>Handling an event\<close>

definition event_ok :: "inotify_event \<Rightarrow> bool" where
  "event_ok ev \<longleftrightarrow> len ev = 0 \<or> (\<exists>f. c_string (name ev) = Some f \<and> length f < 90)"

definition settings_ok :: "ExceptionHandler \<Rightarrow> bool" where
  "settings_ok h \<longleftrightarrow>
     (\<forall>b. package_name h = Some b \<longrightarrow> 0 \<in> set b) \<and> (\<forall>b. anr_save_path h = Some b \<longrightarrow> 0 \<in> set b) \<and>
     ime_line (head_info h) \<noteq> None"

lemma anr_path_ok: "c_string n = Some f \<Longrightarrow> anr_path n \<noteq> None \<longleftrightarrow> length f < 90"
  by (simp add: anr_path_def ANR_FILE_DIR_def bytes_def sprintf_def)

lemma copy_anr_file_total:
  assumes "settings_ok (handler a)" "anr_path n \<noteq> None"
  shows "\<exists>r a'. copy_anr_file n a = Some (r, a') \<and> handler a' = handler a \<and> watched_items a' = watched_items a"
proof (cases "anr_save_path (handler a)")
  case (Some sp)
  then obtain save where s: "c_string sp = Some save" using assms(1) by (auto simp: settings_ok_def c_string_def)
  obtain path where p: "anr_path n = Some path" using assms(2) by auto
  show ?thesis
  proof (cases "package_name (handler a)")
    case pkg: (Some pkg)
    then have "copy_loop pkg (head_info (handler a)) src out w \<noteq> None" for src out w
      using assms(1) by (intro copy_loop_total) (auto simp: settings_ok_def)
    moreover define g where "g = (\<lambda>src out w. the (copy_loop pkg (head_info (handler a)) src out w))"
    ultimately have "copy_loop pkg (head_info (handler a)) src out w = Some (g src out w)" for src out w by simp
    then show ?thesis using Some s p pkg by (auto simp: copy_anr_file_def Let_def)
  qed (simp add: copy_anr_file_def Some)
qed (simp add: copy_anr_file_def)

lemma handle_event_total:
  assumes "event_ok ev" "settings_ok (handler a)"
  shows "\<exists>a'. handle_event ev a = Some a' \<and> handler a' = handler a \<and>
     (watched_items a' = watched_items a \<or>
      len ev \<noteq> 0 \<and> mask ev AND (IN_ALL_EVENTS OR IN_UNMOUNT OR IN_Q_OVERFLOW OR IN_IGNORED) = IN_IGNORED)"
proof (cases "len ev = 0")
  case True
  then show ?thesis by (simp add: handle_event_def)
next
  case False
  then obtain f where f: "c_string (name ev) = Some f" "length f < 90" using assms(1) by (auto simp: event_ok_def)
  then have p: "anr_path (name ev) \<noteq> None" using anr_path_ok by blast
  have "has_anr_file_contain_ime_info (name ev) a \<noteq> None"
    using p assms(2) by (auto simp: has_anr_file_contain_ime_info_def settings_ok_def c_string_def split: option.splits)
  then have "\<exists>a'. handle_anr_file_close_write (name ev) a = Some a' \<and> handler a' = handler a \<and> watched_items a' = watched_items a"
    using copy_anr_file_total [OF assms(2) p] by (auto simp: handle_anr_file_close_write_def)
  then show ?thesis using False f by (auto simp: handle_event_def handle_anr_file_create_def Let_def)
qed

text \<open>The program's information fits its line exactly when it has at most 1010 characters; a longer one
  overflows the array of 1024 bytes at the first line that names the process.\<close>

lemma ime_line_fits: "c_string i = Some s \<Longrightarrow> ime_line (Some i) \<noteq> None \<longleftrightarrow> length s \<le> 1010"
  by (auto simp: ime_line_def sprintf_def BUFFER_LENGTH_def bytes_def)

text \<open>(C29) When the settings that are present are terminated strings, the program's information is present and its line fits the
  array of 1024 bytes, and the file name has less than 90 bytes, no event makes the handler leave an array; it keeps the
  settings.\<close>

theorem handle_event_safe:
  assumes "event_ok ev" "settings_ok (handler a)"
  shows "\<exists>a'. handle_event ev a = Some a' \<and> handler a' = handler a"
  using handle_event_total [OF assms] by blast

lemma sample_settings_ok: "settings_ok sample_handler"
  by (simp add: settings_ok_def sample_handler_def ime_line_def c_string_def sprintf_def BUFFER_LENGTH_def bytes_def)

lemma sample_event_ok: "event_ok (sample_event i)"
  by (simp add: event_ok_def sample_event_def c_string_def)

theorem handle_event_safe_witness:
  "\<exists>a'. handle_event (sample_event 0) sample_anr = Some a' \<and> handler a' = sample_handler"
  using handle_event_safe [OF sample_event_ok, of sample_anr 0] sample_settings_ok by (simp add: sample_anr_def)

text \<open>The bound on the name is needed: a file whose name has 90 bytes or more and
  contains \<open>anr\<close> overflows the array of 100 bytes for its path when it is closed after writing.\<close>

theorem long_name_overflows:
  assumes "mask ev = IN_CLOSE_WRITE" "len ev \<noteq> 0" "c_string (name ev) = Some f" "strstr f (bytes ''anr'')"
    "90 \<le> length f" "has_copy_anr_file a = 0" "package_name (handler a) \<noteq> None"
  shows "handle_event ev a = None"
proof -
  have "anr_path (name ev) = None" using anr_path_ok [OF assms(3)] assms(5) by fastforce
  then have "handle_anr_file_close_write (name ev) a = None"
    using assms(6,7) by (auto simp: handle_anr_file_close_write_def has_anr_file_contain_ime_info_def)
  with assms show ?thesis by (simp add: handle_event_def in_consts Let_def)
qed

theorem long_name_overflows_witness:
  "handle_event \<lparr>wd = 1, mask = 8, cookie = 0, len = 112, name = bytes ''anr'' @ replicate 100 0x61 @ [0]\<rparr> sample_anr = None"
proof -
  let ?ev = "\<lparr>wd = 1, mask = 8, cookie = 0, len = 112, name = bytes ''anr'' @ replicate 100 0x61 @ [0]\<rparr> :: inotify_event"
  have t: "takeWhile (\<lambda>c. c \<noteq> 0) (replicate n 0x61 @ [0 :: u8]) = replicate n 0x61" for n by (induction n) auto
  have "c_string (name ?ev) = Some (bytes ''anr'' @ replicate 100 0x61)"
    by (simp add: c_string_def bytes_def t)
  then show ?thesis
    using long_name_overflows [of ?ev "bytes ''anr'' @ replicate 100 0x61" sample_anr]
    by (simp add: in_consts bytes_def sample_anr_def sample_handler_def)
qed

end
