(* ===== verification/AnrWatch.thy ===== *)
theory AnrWatch
  imports AnrFiles
begin

text \<open>
  The thread that watches \<open>/data/anr\<close>: reading events into the queue, handling the queue, the loop over
  both, of \<open>libcrash_collect/anr/inotify_utils.cpp\<close>, and the body of the thread,
  \<open>ExceptionHandler::InitANRFileNotify\<close> of \<open>libcrash_collect/exception_handler.cpp\<close>. What the kernel answers
  is an argument of the definitions. The loop with its linked queue is shown to do the same as handling
  the events one after the other.
\<close>

section \<open>The definitions\<close>

partial_function (option) handle_events :: "addr \<Rightarrow> store \<Rightarrow> anr \<Rightarrow> (store \<times> anr) option" where
  "handle_events q s a =
     (case queue_empty q s of
        None \<Rightarrow> None
      | Some emp \<Rightarrow>
          if emp then Some (s, a)
          else
            (case queue_dequeue q s of
               None \<Rightarrow> None
             | Some (event, s1) \<Rightarrow>
                 (case event of
                    None \<Rightarrow> None
                  | Some d \<Rightarrow>
                      do { e \<leftarrow> entries s1 d;
                           a1 \<leftarrow> handle_event (inot_ev e) a;
                           s2 \<leftarrow> free_entry d s1;
                           handle_events q s2 a1 })))"

declare handle_events.simps [code]

text \<open>The record at the front of the bytes that were read, and the number of its bytes; an incomplete
  record, which the kernel does not deliver, would be completed from bytes that were never set.\<close>

definition parse_event :: "u8 list \<Rightarrow> (inotify_event \<times> nat) option" where
  "parse_event b =
     (if length b < 16 then None
      else
        let l = of_le32 (b ! 12) (b ! 13) (b ! 14) (b ! 15); event_size = 16 + unat l
        in if length b < event_size then None
           else Some (\<lparr>wd = of_le32 (b ! 0) (b ! 1) (b ! 2) (b ! 3), mask = of_le32 (b ! 4) (b ! 5) (b ! 6) (b ! 7),
                       cookie = of_le32 (b ! 8) (b ! 9) (b ! 10) (b ! 11), len = l,
                       name = take (unat l) (drop 16 b)\<rparr>, event_size))"

text \<open>The block for the entry, filled with the event; the result of \<open>malloc\<close> is not checked.\<close>

definition new_entry :: "inotify_event \<Rightarrow> store \<Rightarrow> (addr \<times> store) option" where
  "new_entry ev s =
     (case malloc s of
        (None, _) \<Rightarrow> None
      | (Some d, s1) \<Rightarrow> Some (d, s1\<lparr>entries := (entries s1)(d \<mapsto> \<lparr>next_ptr = None, inot_ev = ev\<rparr>)\<rparr>))"

function read_loop :: "addr \<Rightarrow> u8 list \<Rightarrow> int \<Rightarrow> store \<Rightarrow> (int \<times> store) option" where
  "read_loop q b count s =
     (if b = [] then Some (count, s)
      else (case parse_event b of
              None \<Rightarrow> None
            | Some (ev, event_size) \<Rightarrow>
                (case new_entry ev s of
                   None \<Rightarrow> None
                 | Some (d, s1) \<Rightarrow>
                     (case queue_enqueue d q s1 of
                        None \<Rightarrow> None
                      | Some s2 \<Rightarrow> read_loop q (drop event_size b) (count + 1) s2))))"
  by pat_completeness auto
termination
  by (relation "measure (\<lambda>(q, b, count, s). length b)")
    (auto simp: parse_event_def Let_def split: if_splits)

declare read_loop.simps [simp del]

text \<open>What \<open>read\<close> answers: a result below 1, or the bytes.\<close>

datatype read_result = Failed int | Bytes "u8 list"

definition read_events :: "addr \<Rightarrow> read_result \<Rightarrow> store \<Rightarrow> (int \<times> store) option" where
  "read_events q r s = (case r of Failed n \<Rightarrow> Some (n, s) | Bytes b \<Rightarrow> read_loop q b 0 s)"

text \<open>One turn of the loop: the value of \<open>keep_running\<close> when it is tested, the result of \<open>select\<close>, and that
  of \<open>read\<close>.\<close>

record turn =
  keep_running :: bool
  selected :: int
  answer :: read_result

text \<open>The loop over a finite number of turns; where the list ends the loop has not returned yet.\<close>

fun process_inotify_events :: "addr \<Rightarrow> turn list \<Rightarrow> store \<Rightarrow> anr \<Rightarrow> (store \<times> anr) option" where
  "process_inotify_events q [] s a = Some (s, a)"
| "process_inotify_events q (t # ts) s a =
     (if \<not> (keep_running t \<and> watched_items a > 0) then Some (s, a)
      else if selected t > 0 then
        do { (r, s1) \<leftarrow> read_events q (answer t) s;
             if r < 0 then Some (s1, a)
             else do { (s2, a2) \<leftarrow> handle_events q s1 a; process_inotify_events q ts s2 a2 } }
      else process_inotify_events q ts s a)"

definition open_inotify_fd :: "int \<Rightarrow> anr \<Rightarrow> int \<times> anr" where
  "open_inotify_fd fd a = (fd, a\<lparr>watched_items := 0\<rparr>)"

definition close_inotify_fd :: "anr \<Rightarrow> anr" where
  "close_inotify_fd a = a\<lparr>watched_items := 0\<rparr>"

definition watch_dir :: "int \<Rightarrow> anr \<Rightarrow> int \<times> anr" where
  "watch_dir w a = (w, if w < 0 then a else a\<lparr>watched_items := watched_items a + 1\<rparr>)"

definition ignore_wd :: "int \<Rightarrow> anr \<Rightarrow> int \<times> anr" where
  "ignore_wd r a = (r, if r < 0 then a else a\<lparr>watched_items := watched_items a - 1\<rparr>)"

text \<open>The thread, for the answers of \<open>inotify_init\<close> and \<open>inotify_add_watch\<close> and the turns of the loop. A
  failure to allocate the queue ends the process: the result \<open>None\<close> within \<open>Some\<close>.\<close>

definition InitANRFileNotify :: "int \<Rightarrow> int \<Rightarrow> turn list \<Rightarrow> store \<Rightarrow> anr \<Rightarrow> (store \<times> anr) option option" where
  "InitANRFileNotify fd add_watch ts s a =
     (let (inotify_fd, a1) = open_inotify_fd fd a
      in if inotify_fd > 0 then
           (case queue_create s of
              (None, _) \<Rightarrow> Some None
            | (Some q, s1) \<Rightarrow>
                let (w, a2) = watch_dir add_watch a1
                in do { (s2, a3) \<leftarrow> (if w > 0 then process_inotify_events q ts s1 a2 else Some (s1, a2));
                        let a4 = close_inotify_fd a3;
                        s3 \<leftarrow> queue_destroy (Some q) s2;
                        Some (Some (s3, a4)) })
         else Some (Some (s, a1)))"

section \<open>The events in the bytes\<close>

text \<open>An event as the kernel delivers it, and its bytes.\<close>

definition wf_event :: "inotify_event \<Rightarrow> bool" where
  "wf_event ev \<longleftrightarrow> length (name ev) = unat (len ev)"

definition event_bytes :: "inotify_event \<Rightarrow> u8 list" where
  "event_bytes ev = le32 (wd ev) @ le32 (mask ev) @ le32 (cookie ev) @ le32 (len ev) @ name ev"

lemma parse_event_bytes:
  assumes "wf_event ev"
  shows "parse_event (event_bytes ev @ rest) = Some (ev, length (event_bytes ev))"
proof -
  have h: "of_le32 (event_bytes ev ! 0) (event_bytes ev ! 1) (event_bytes ev ! 2) (event_bytes ev ! 3) = wd ev"
    "of_le32 (event_bytes ev ! 4) (event_bytes ev ! 5) (event_bytes ev ! 6) (event_bytes ev ! 7) = mask ev"
    "of_le32 (event_bytes ev ! 8) (event_bytes ev ! 9) (event_bytes ev ! 10) (event_bytes ev ! 11) = cookie ev"
    "of_le32 (event_bytes ev ! 12) (event_bytes ev ! 13) (event_bytes ev ! 14) (event_bytes ev ! 15) = len ev"
    by (simp_all add: event_bytes_def le32_def)
  have n: "length (event_bytes ev) = 16 + unat (len ev)" "drop 16 (event_bytes ev) = name ev"
    using assms by (simp_all add: event_bytes_def wf_event_def)
  show ?thesis using assms h n
    by (simp add: parse_event_def Let_def nth_append wf_event_def)
qed

section \<open>The store\<close>

text \<open>Addresses that were not handed out yet are not in use.\<close>

definition store_ok :: "store \<Rightarrow> bool" where
  "store_ok s \<longleftrightarrow> (\<forall>d \<ge> brk s. entries s d = None \<and> queues s d = None)"

lemma holds_cong:
  assumes "queues s' q = queues s q" "\<And>d. d \<in> set ds \<Longrightarrow> entries s' d = entries s d"
  shows "holds q s' ds = holds q s ds"
  using chain_cong [OF assms(2)] assms(1) by (simp add: holds_def split: option.split)

lemma dequeue_free_frame:
  assumes "holds q s (d # ds)"
  shows "\<exists>s1 s2 e. queue_dequeue q s = Some (Some d, s1) \<and> entries s1 d = Some e \<and> event_at s d = Some (inot_ev e) \<and>
     free_entry d s1 = Some s2 \<and> holds q s2 ds \<and> entries s2 = (entries s)(d := None) \<and>
     brk s2 = brk s \<and> refusals s2 = refusals s \<and> (\<forall>p. p \<noteq> q \<longrightarrow> queues s2 p = queues s p)"
proof -
  obtain v e where v: "queues s q = Some v" "head v = Some d" "entries s d = Some e" "chain s (next_ptr e) ds"
      "distinct (d # ds)" "tail v = Some (last (d # ds))"
    using assms by (auto simp: holds_def split: option.splits)
  obtain s1 where s1: "queue_dequeue q s = Some (Some d, s1)" "holds q s1 ds"
    using holds_dequeue [OF assms] by blast
  have f: "entries s1 = (entries s)(d \<mapsto> e\<lparr>next_ptr := None\<rparr>)" "brk s1 = brk s" "refusals s1 = refusals s"
      "\<And>p. p \<noteq> q \<Longrightarrow> queues s1 p = queues s p"
    using s1(1) v by (auto simp: queue_dequeue_def set_next_def set_queue_def Let_def split: if_splits)
  let ?s2 = "s1\<lparr>entries := (entries s1)(d := None)\<rparr>"
  have "holds q ?s2 ds = holds q s1 ds" using v by (intro holds_cong) auto
  then have "holds q ?s2 ds" using s1(2) by simp
  then show ?thesis using s1(1) f v
    by (intro exI [of _ s1] exI [of _ ?s2] exI [of _ "e\<lparr>next_ptr := None\<rparr>"]) (auto simp: free_entry_def event_at_def)
qed

lemma enqueue_new_frame:
  assumes h: "holds q s ds" and ok: "store_ok s" "refusals s = []"
  shows "\<exists>s1 s2. new_entry ev s = Some (brk s, s1) \<and> queue_enqueue (brk s) q s1 = Some s2 \<and>
     holds q s2 (ds @ [brk s]) \<and> event_at s2 = (event_at s)(brk s \<mapsto> ev) \<and> store_ok s2 \<and> refusals s2 = [] \<and>
     brk s2 = brk s + 1 \<and> (\<forall>d. d \<notin> set ds \<longrightarrow> d \<noteq> brk s \<longrightarrow> entries s2 d = entries s d) \<and>
     (\<forall>p. p \<noteq> q \<longrightarrow> queues s2 p = queues s p)"
proof -
  let ?d = "brk s" and ?s1 = "s\<lparr>brk := brk s + 1, refusals := [], entries := (entries s)(brk s \<mapsto> \<lparr>next_ptr = None, inot_ev = ev\<rparr>)\<rparr>"
  have n: "new_entry ev s = Some (?d, ?s1)" using ok(2) by (simp add: new_entry_def malloc_def)
  have nd: "?d \<notin> set ds" using holds_dom [OF h, of ?d] ok(1) by (auto simp: store_ok_def)
  have "holds q ?s1 ds = holds q s ds" using nd by (intro holds_cong) auto
  then have h1: "holds q ?s1 ds" using h by simp
  obtain s2 where s2: "queue_enqueue ?d q ?s1 = Some s2" "holds q s2 (ds @ [?d])" "\<And>c. event_at s2 c = event_at ?s1 c"
    using holds_enqueue [OF h1, of ?d] nd by auto
  obtain v where v: "queues s q = Some v" "tail v = (if ds = [] then None else Some (last ds))"
    using h by (auto simp: holds_def split: option.splits)
  have q: "q < brk s" using v(1) ok(1) by (metis not_less option.distinct(1) store_ok_def)
  have f: "brk s2 = brk s + 1" "refusals s2 = []" "\<And>d. d \<notin> set ds \<Longrightarrow> d \<noteq> ?d \<Longrightarrow> entries s2 d = entries s d"
      "\<And>p. p \<noteq> q \<Longrightarrow> queues s2 p = queues s p"
    using s2(1) v last_in_set [of ds]
    by (auto simp: queue_enqueue_def set_next_def set_queue_def bind_eq_Some_conv split: if_splits)
  have "store_ok s2" unfolding store_ok_def
  proof (intro allI impI)
    fix d assume "brk s2 \<le> d"
    then have "d \<notin> set ds" "d \<noteq> ?d" "d \<noteq> q" "brk s \<le> d"
      using f(1) q holds_dom [OF h, of d] ok(1) by (auto simp: store_ok_def)
    then show "entries s2 d = None \<and> queues s2 d = None" using f ok(1) by (simp add: store_ok_def)
  qed
  moreover have "event_at s2 = (event_at s)(?d \<mapsto> ev)" using s2(3) by (auto simp: event_at_def fun_eq_iff)
  ultimately show ?thesis using n s2 f by blast
qed

section \<open>Reading and handling\<close>

primrec handle_all :: "inotify_event list \<Rightarrow> anr \<Rightarrow> anr option" where
  "handle_all [] a = Some a"
| "handle_all (ev # evs) a = do { a' \<leftarrow> handle_event ev a; handle_all evs a' }"

lemma read_loop_events:
  assumes "holds q s ds" "store_ok s" "refusals s = []" "\<forall>ev\<in>set evs. wf_event ev"
  shows "\<exists>s' new. read_loop q (concat (map event_bytes evs)) c s = Some (c + int (length evs), s') \<and>
     holds q s' (ds @ new) \<and> map (event_at s') new = map Some evs \<and> (\<forall>d\<in>set new. brk s \<le> d) \<and>
     (\<forall>d. d \<notin> set (ds @ new) \<longrightarrow> entries s' d = entries s d) \<and> (\<forall>d. d < brk s \<longrightarrow> event_at s' d = event_at s d) \<and>
     store_ok s' \<and> refusals s' = [] \<and> (\<forall>p. p \<noteq> q \<longrightarrow> queues s' p = queues s p)"
  using assms
proof (induction evs arbitrary: s ds c)
  case Nil
  then show ?case by (subst read_loop.simps) (auto intro!: exI [of _ s] exI [of _ "[]"])
next
  case (Cons ev evs)
  obtain s1 s2 where n: "new_entry ev s = Some (brk s, s1)" "queue_enqueue (brk s) q s1 = Some s2"
      "holds q s2 (ds @ [brk s])" "event_at s2 = (event_at s)(brk s \<mapsto> ev)" "store_ok s2" "refusals s2 = []"
      "brk s2 = brk s + 1" "\<And>d. d \<notin> set ds \<Longrightarrow> d \<noteq> brk s \<Longrightarrow> entries s2 d = entries s d"
      "\<And>p. p \<noteq> q \<Longrightarrow> queues s2 p = queues s p"
    using enqueue_new_frame [OF Cons.prems(1-3), of ev] by blast
  obtain s' new where r: "read_loop q (concat (map event_bytes evs)) (c + 1) s2 = Some (c + 1 + int (length evs), s')"
      "holds q s' ((ds @ [brk s]) @ new)" "map (event_at s') new = map Some evs" "\<And>d. d \<in> set new \<Longrightarrow> brk s2 \<le> d"
      "\<And>d. d \<notin> set ((ds @ [brk s]) @ new) \<Longrightarrow> entries s' d = entries s2 d" "\<And>d. d < brk s2 \<Longrightarrow> event_at s' d = event_at s2 d"
      "store_ok s'" "refusals s' = []" "\<And>p. p \<noteq> q \<Longrightarrow> queues s' p = queues s2 p"
    using Cons.IH [OF n(3,5,6), of "c + 1"] Cons.prems(4) by auto
  have "event_bytes ev @ concat (map event_bytes evs) \<noteq> []" by (simp add: event_bytes_def le32_def)
  then have "read_loop q (concat (map event_bytes (ev # evs))) c s = Some (c + int (length (ev # evs)), s')"
    using n(1,2) r(1) parse_event_bytes [of ev] Cons.prems(4) by (subst read_loop.simps) simp
  moreover have "map (event_at s') (brk s # new) = map Some (ev # evs)" using r(3,6) n(4,7) by simp
  moreover have "event_at s' d = event_at s d" if "d < brk s" for d using r(6) [of d] n(4,7) that by simp
  moreover have "brk s \<le> d" if "d \<in> set (brk s # new)" for d using that r(4) n(7) by fastforce
  moreover have "entries s' d = entries s d" if "d \<notin> set (ds @ brk s # new)" for d using that r(5) n(8) by simp
  ultimately show ?case using r(2,7,8) r(9) n(9)
    by (intro exI [of _ s'] exI [of _ "brk s # new"]) auto
qed

lemma handle_events_all:
  assumes "holds q s ds" "map (event_at s) ds = map Some evs"
  shows "\<exists>s'. (\<forall>a. handle_events q s a = map_option (Pair s') (handle_all evs a)) \<and> holds q s' [] \<and>
     entries s' = entries s |` (- set ds) \<and> brk s' = brk s \<and> refusals s' = refusals s \<and>
     (\<forall>p. p \<noteq> q \<longrightarrow> queues s' p = queues s p)"
  using assms
proof (induction ds arbitrary: s evs)
  case Nil
  then have "handle_events q s a = Some (s, a)" for a
    by (subst handle_events.simps) (simp add: holds_empty)
  with Nil show ?case by (intro exI [of _ s]) (auto simp: restrict_map_def)
next
  case (Cons d ds)
  obtain ev evs' where evs: "evs = ev # evs'" "event_at s d = Some ev" "map (event_at s) ds = map Some evs'"
    using Cons.prems(2) by (cases evs) auto
  obtain s1 s2 e where d: "queue_dequeue q s = Some (Some d, s1)" "entries s1 d = Some e" "event_at s d = Some (inot_ev e)"
      "free_entry d s1 = Some s2" "holds q s2 ds" "entries s2 = (entries s)(d := None)"
      "brk s2 = brk s" "refusals s2 = refusals s" "\<And>p. p \<noteq> q \<Longrightarrow> queues s2 p = queues s p"
    using dequeue_free_frame [OF Cons.prems(1)] by blast
  have nd: "d \<notin> set ds" using Cons.prems(1) by (auto simp: holds_def split: option.splits)
  have "map (event_at s2) ds = map (event_at s) ds" using d(6) nd by (auto simp: event_at_def)
  with evs(3) have "map (event_at s2) ds = map Some evs'" by simp
  from Cons.IH [OF d(5) this] obtain s' where s': "\<And>a. handle_events q s2 a = map_option (Pair s') (handle_all evs' a)"
      "holds q s' []" "entries s' = entries s2 |` (- set ds)" "brk s' = brk s2" "refusals s' = refusals s2"
      "\<And>p. p \<noteq> q \<Longrightarrow> queues s' p = queues s2 p" by blast
  have "handle_events q s a = map_option (Pair s') (handle_all evs a)" for a
    using d(1-4) evs s'(1) holds_empty [OF Cons.prems(1)]
    by (subst handle_events.simps) (simp split: Option.bind_split)
  moreover have "entries s' = entries s |` (- set (d # ds))" using s'(3) d(6) by (auto simp: restrict_map_def)
  ultimately show ?case using s' d by auto
qed

section \<open>The loop and the thread\<close>

text \<open>A turn by the events it delivers, or the result below 1, and the turn of the code that this is.\<close>

datatype input = Err int | Events "inotify_event list"

type_synonym abs_turn = "bool \<times> int \<times> input"

definition turn_of :: "abs_turn \<Rightarrow> turn" where
  "turn_of t = (case t of (k, sel, i) \<Rightarrow>
     \<lparr>keep_running = k, selected = sel,
      answer = (case i of Err n \<Rightarrow> Failed n | Events evs \<Rightarrow> Bytes (concat (map event_bytes evs)))\<rparr>)"

definition wf_turn :: "abs_turn \<Rightarrow> bool" where
  "wf_turn t = (case t of (_, _, Events evs) \<Rightarrow> \<forall>ev\<in>set evs. wf_event ev | _ \<Rightarrow> True)"

text \<open>The specification: the events of each turn are handled in order, without a queue.\<close>

fun spec_process :: "abs_turn list \<Rightarrow> anr \<Rightarrow> anr option" where
  "spec_process [] a = Some a"
| "spec_process ((k, sel, i) # ts) a =
     (if \<not> (k \<and> watched_items a > 0) then Some a
      else if sel > 0 then
        (case i of
           Err n \<Rightarrow> if n < 0 then Some a else spec_process ts a
         | Events evs \<Rightarrow> do { a' \<leftarrow> handle_all evs a; spec_process ts a' })
      else spec_process ts a)"

text \<open>The store between two turns.\<close>

definition idle :: "addr \<Rightarrow> store \<Rightarrow> store \<Rightarrow> bool" where
  "idle q s0 s \<longleftrightarrow> holds q s [] \<and> store_ok s \<and> refusals s = [] \<and> entries s = entries s0 \<and>
     (\<forall>p. p \<noteq> q \<longrightarrow> queues s p = queues s0 p)"

lemma idle_turn:
  assumes "idle q s0 s" "\<forall>ev\<in>set evs. wf_event ev"
  shows "\<exists>s1 s2. read_events q (Bytes (concat (map event_bytes evs))) s = Some (int (length evs), s1) \<and>
     (\<forall>a. handle_events q s1 a = map_option (Pair s2) (handle_all evs a)) \<and> idle q s0 s2"
proof -
  have i: "holds q s []" "store_ok s" "refusals s = []" "entries s = entries s0" "\<And>p. p \<noteq> q \<Longrightarrow> queues s p = queues s0 p"
    using assms(1) by (auto simp: idle_def)
  obtain s1 new where r: "read_loop q (concat (map event_bytes evs)) 0 s = Some (int (length evs), s1)"
      "holds q s1 new" "map (event_at s1) new = map Some evs" "\<And>d. d \<in> set new \<Longrightarrow> brk s \<le> d"
      "\<And>d. d \<notin> set new \<Longrightarrow> entries s1 d = entries s d" "store_ok s1" "refusals s1 = []"
      "\<And>p. p \<noteq> q \<Longrightarrow> queues s1 p = queues s p"
    using read_loop_events [OF i(1-3) assms(2), of 0] by auto
  obtain s2 where h: "\<And>a. handle_events q s1 a = map_option (Pair s2) (handle_all evs a)" "holds q s2 []"
      "entries s2 = entries s1 |` (- set new)" "brk s2 = brk s1" "refusals s2 = refusals s1"
      "\<And>p. p \<noteq> q \<Longrightarrow> queues s2 p = queues s1 p"
    using handle_events_all [OF r(2,3)] by blast
  have e: "entries s2 = entries s"
  proof
    fix d
    show "entries s2 d = entries s d"
      using h(3) r(4,5) [of d] i(2) by (cases "d \<in> set new") (auto simp: restrict_map_def store_ok_def)
  qed
  have "q < brk s1"
    using r(2,6) by (auto simp: holds_def store_ok_def split: option.splits) (metis not_less option.distinct(1))
  then have "store_ok s2" using r(6) h(3,4,6) by (auto simp: store_ok_def restrict_map_def)
  with e h r i have "idle q s0 s2" by (auto simp: idle_def)
  with r(1) h(1) show ?thesis by (auto simp: read_events_def)
qed

lemma idle_no_events:
  assumes "idle q s0 s"
  shows "handle_events q s a = Some (s, a)"
proof -
  have "queue_empty q s = Some True" using assms holds_empty [of q s "[]"] by (simp add: idle_def)
  then show ?thesis by (subst handle_events.simps) simp
qed

lemma process_refines:
  assumes "idle q s0 s" "\<forall>t\<in>set ts. wf_turn t"
  shows "(case spec_process ts a of
            None \<Rightarrow> process_inotify_events q (map turn_of ts) s a = None
          | Some a' \<Rightarrow> \<exists>s'. process_inotify_events q (map turn_of ts) s a = Some (s', a') \<and> idle q s0 s')"
  using assms
proof (induction ts a arbitrary: s rule: spec_process.induct)
  case (2 k sel i ts a)
  show ?case
  proof (cases "k \<and> watched_items a > 0 \<and> sel > 0")
    case True
    show ?thesis
    proof (cases i)
      case (Err n)
      have p: "process_inotify_events q (map turn_of ((k, sel, i) # ts)) s a =
          (if n < 0 then Some (s, a) else process_inotify_events q (map turn_of ts) s a)"
        using True Err idle_no_events [OF "2.prems"(1), of a] by (simp add: turn_of_def read_events_def)
      have sp: "spec_process ((k, sel, i) # ts) a = (if n < 0 then Some a else spec_process ts a)"
        using True Err by simp
      have "case spec_process ts a of
            None \<Rightarrow> process_inotify_events q (map turn_of ts) s a = None
          | Some a' \<Rightarrow> \<exists>s'. process_inotify_events q (map turn_of ts) s a = Some (s', a') \<and> idle q s0 s'" if "\<not> n < 0"
        using "2.IH"(1) [of n s] that True Err "2.prems" by simp
      then show ?thesis unfolding p sp using "2.prems"(1) by (cases "n < 0") simp_all
    next
      case (Events evs)
      have "\<forall>ev\<in>set evs. wf_event ev" using "2.prems"(2) Events by (simp add: wf_turn_def)
      then obtain s1 s2 where t: "read_events q (Bytes (concat (map event_bytes evs))) s = Some (int (length evs), s1)"
          "\<And>a. handle_events q s1 a = map_option (Pair s2) (handle_all evs a)" "idle q s0 s2"
        using idle_turn [OF "2.prems"(1)] by blast
      show ?thesis
      proof (cases "handle_all evs a")
        case None
        then show ?thesis using True Events t by (simp add: turn_of_def)
      next
        case (Some a1)
        have p: "process_inotify_events q (map turn_of ((k, sel, i) # ts)) s a = process_inotify_events q (map turn_of ts) s2 a1"
          using True Events t Some by (simp add: turn_of_def)
        have sp: "spec_process ((k, sel, i) # ts) a = spec_process ts a1" using True Events Some by simp
        show ?thesis unfolding p sp using "2.IH"(2) [OF _ _ Events, of a1 s2] True Some t(3) "2.prems"(2) by simp
      qed
    qed
  next
    case False
    have p: "process_inotify_events q (map turn_of ((k, sel, i) # ts)) s a =
        (if k \<and> watched_items a > 0 then process_inotify_events q (map turn_of ts) s a else Some (s, a))"
      using False by (auto simp: turn_of_def)
    have sp: "spec_process ((k, sel, i) # ts) a = (if k \<and> watched_items a > 0 then spec_process ts a else Some a)"
      using False by auto
    show ?thesis unfolding p sp using 2 False by (cases "k \<and> watched_items a > 0") auto
  qed
qed auto

text \<open>(C7) When memory and the watch are obtained, the watching thread with its linked queue does what handling the
  events in order does, for every sequence of turns and all events the kernel may deliver; it gives back every entry it allocates
  and the queue, and it fails only where the handling of an event fails.\<close>

theorem anr_thread_refines:
  assumes "store_ok s" "refusals s = []" "\<forall>t\<in>set ts. wf_turn t" "0 < fd" "0 < w"
  shows "case spec_process ts (a\<lparr>watched_items := 1\<rparr>) of
           None \<Rightarrow> InitANRFileNotify fd w (map turn_of ts) s a = None
         | Some a' \<Rightarrow> \<exists>s'. InitANRFileNotify fd w (map turn_of ts) s a = Some (Some (s', a'\<lparr>watched_items := 0\<rparr>)) \<and>
             entries s' = entries s \<and> queues s' = queues s"
proof -
  let ?q = "brk s" and ?s1 = "set_queue (brk s) \<lparr>head = None, tail = None\<rparr> (s\<lparr>brk := brk s + 1, refusals := []\<rparr>)"
  have c: "queue_create s = (Some ?q, ?s1)" using assms(2) by (simp add: queue_create_def malloc_def)
  have n: "queues s ?q = None" using assms(1) by (simp add: store_ok_def)
  have i: "idle ?q s ?s1" using holds_create [OF c] assms(1) by (auto simp: idle_def set_queue_def store_ok_def)
  have body: "InitANRFileNotify fd w (map turn_of ts) s a =
      do { (s2, a3) \<leftarrow> process_inotify_events ?q (map turn_of ts) ?s1 (a\<lparr>watched_items := 1\<rparr>);
           s3 \<leftarrow> queue_destroy (Some ?q) s2; Some (Some (s3, a3\<lparr>watched_items := 0\<rparr>)) }"
    using assms(4,5) c by (simp add: InitANRFileNotify_def open_inotify_fd_def watch_dir_def close_inotify_fd_def)
  have d: "\<exists>s3. queue_destroy (Some ?q) s2 = Some s3 \<and> entries s3 = entries s \<and> queues s3 = queues s" if "idle ?q s s2" for s2
  proof -
    have h: "holds ?q s2 []" "entries s2 = entries s" "\<And>p. p \<noteq> ?q \<Longrightarrow> queues s2 p = queues s p" using that by (auto simp: idle_def)
    have "(queues s2)(?q := None) = queues s" using h(3) n by auto
    moreover have "entries s2 |` (- set []) = entries s" using h(2) by (auto simp: restrict_map_def)
    ultimately show ?thesis using queue_destroy_empties [OF h(1)] by simp
  qed
  show ?thesis
  proof (cases "spec_process ts (a\<lparr>watched_items := 1\<rparr>)")
    case None
    with process_refines [OF i assms(3), of "a\<lparr>watched_items := 1\<rparr>"] show ?thesis unfolding body by simp
  next
    case (Some a')
    with process_refines [OF i assms(3), of "a\<lparr>watched_items := 1\<rparr>"] obtain s2 where
      "process_inotify_events ?q (map turn_of ts) ?s1 (a\<lparr>watched_items := 1\<rparr>) = Some (s2, a')" "idle ?q s s2" by auto
    moreover from d [OF this(2)] obtain s3 where
      "queue_destroy (Some ?q) s2 = Some s3" "entries s3 = entries s" "queues s3 = queues s" by blast
    ultimately show ?thesis unfolding body by (simp add: Some)
  qed
qed

definition sample_turns :: "abs_turn list" where
  "sample_turns = [(True, 1, Events [sample_event 1, sample_event 2]), (True, 0, Err 0), (False, 1, Err 0)]"

lemma sample_turns_wf: "\<forall>t\<in>set sample_turns. wf_turn t"
  by (simp add: sample_turns_def wf_turn_def wf_event_def sample_event_def)

theorem anr_thread_refines_witness:
  "case spec_process sample_turns (sample_anr\<lparr>watched_items := 1\<rparr>) of
     None \<Rightarrow> InitANRFileNotify 5 1 (map turn_of sample_turns) (sample_store 2) sample_anr = None
   | Some a' \<Rightarrow> \<exists>s'. InitANRFileNotify 5 1 (map turn_of sample_turns) (sample_store 2) sample_anr =
         Some (Some (s', a'\<lparr>watched_items := 0\<rparr>)) \<and>
       entries s' = entries (sample_store 2) \<and> queues s' = queues (sample_store 2)"
  by (rule anr_thread_refines [OF _ _ sample_turns_wf]) (simp_all add: sample_store_def store_ok_def)








end
