(* ===== verification/Leb128.thy ===== *)
theory Leb128
  imports Prelude
begin

unbundle bit_operations_syntax

text \<open>
  The variable-length integers of the unwind tables, \<open>libcrash_collect/utils/leb128.cpp\<close>. The buffer is
  the list of bytes that may be read; a read behind it and a shift that C++ leaves undefined are the
  result \<open>None\<close>. Both readers are compared with the positional value of the bytes.
\<close>

text \<open>\<open>x << n\<close> for an \<open>int\<close> that is not negative: defined when \<open>n\<close> is less than 32 and the product is
  a value of \<open>unsigned int\<close>.\<close>

definition shl :: "nat \<Rightarrow> nat \<Rightarrow> u32 option" where
  "shl x n = (if n < 32 \<and> x * 2 ^ n < 2 ^ 32 then Some (push_bit n (of_nat x)) else None)"

fun uleb_loop :: "u8 list \<Rightarrow> nat \<Rightarrow> nat \<Rightarrow> u32 \<Rightarrow> (nat \<times> u32) option" where
  "uleb_loop [] pos offset val = None"
| "uleb_loop (b # buf) pos offset val =
     do { x \<leftarrow> shl (unat (b AND 0x7F)) offset;
          if b AND 0x80 = 0 then Some (pos + 1, val OR x)
          else uleb_loop buf (pos + 1) (offset + 7) (val OR x) }"

definition read_uleb128 :: "u8 list \<Rightarrow> (nat \<times> u32) option" where
  "read_uleb128 buffer = uleb_loop buffer 0 0 0"

text \<open>The last byte and the offset behind it are used again after the loop.\<close>

fun leb_loop :: "u8 list \<Rightarrow> nat \<Rightarrow> nat \<Rightarrow> u32 \<Rightarrow> (nat \<times> nat \<times> u8 \<times> u32) option" where
  "leb_loop [] pos offset val = None"
| "leb_loop (b # buf) pos offset val =
     do { x \<leftarrow> shl (unat (b AND 0x7F)) offset;
          if b AND 0x80 = 0 then Some (pos + 1, offset + 7, b, val OR x)
          else leb_loop buf (pos + 1) (offset + 7) (val OR x) }"

definition read_leb128 :: "u8 list \<Rightarrow> (nat \<times> u32) option" where
  "read_leb128 buffer =
     do { (pos, offset, b, val) \<leftarrow> leb_loop buffer 0 0 0;
          if b AND 0x40 \<noteq> 0 then do { one \<leftarrow> shl 1 offset; Some (pos, val OR - one) }
          else Some (pos, val) }"

section \<open>The positional value\<close>

definition payload :: "u8 \<Rightarrow> nat" where
  "payload b = unat (b AND 0x7F)"

text \<open>A number is a run of bytes with the top bit and one byte without it.\<close>

fun leb_split :: "u8 list \<Rightarrow> (u8 list \<times> u8) option" where
  "leb_split [] = None"
| "leb_split (b # bs) =
     (if b AND 0x80 = 0 then Some ([], b)
      else case leb_split bs of None \<Rightarrow> None | Some (ms, l) \<Rightarrow> Some (b # ms, l))"

primrec leb_value :: "u8 list \<Rightarrow> nat" where
  "leb_value [] = 0"
| "leb_value (b # bs) = payload b + 128 * leb_value bs"

lemma payload_less: "payload b < 128"
proof -
  have "b AND 0x7F = take_bit 7 b" by (simp add: take_bit_eq_mask mask_eq_exp_minus_1)
  then show ?thesis using take_bit_nat_less_exp [of 7 "unat b"] by (simp add: payload_def unsigned_take_bit_eq)
qed

lemma shl_payload:
  assumes "m < 2 ^ (7 * k)"
  shows "shl (payload b) (7 * k) =
     (if k \<le> 4 \<and> m + payload b * 2 ^ (7 * k) < 2 ^ 32 then Some (push_bit (7 * k) (of_nat (payload b))) else None)"
proof (cases "k \<le> 4")
  case True
  then have e: "(2 :: nat) ^ 32 = 2 ^ (32 - 7 * k) * 2 ^ (7 * k)" by (simp flip: power_add)
  have "payload b * 2 ^ (7 * k) < 2 ^ 32 \<longleftrightarrow> payload b + 1 \<le> 2 ^ (32 - 7 * k)" unfolding e by auto
  also have "\<dots> \<longleftrightarrow> (payload b + 1) * 2 ^ (7 * k) \<le> 2 ^ 32" unfolding e by (simp only: mult_le_cancel2) simp
  finally have "payload b * 2 ^ (7 * k) < 2 ^ 32 \<longleftrightarrow> m + payload b * 2 ^ (7 * k) < 2 ^ 32" using assms by auto
  with True show ?thesis by (simp add: shl_def)
qed (simp add: shl_def)

lemma uleb_loop_leb_loop:
  "uleb_loop buf pos offset val =
   map_option (\<lambda>(pos', _, _, val'). (pos', val')) (leb_loop buf pos offset val)"
  by (induction buf pos offset val rule: uleb_loop.induct) (auto split: option.splits bind_splits)

lemma leb_loop_exact:
  assumes "m < 2 ^ (7 * k)"
  shows "leb_loop buf k (7 * k) (of_nat m) =
     (case leb_split buf of
        None \<Rightarrow> None
      | Some (ms, l) \<Rightarrow>
          let n = k + length ms + 1; v = m + leb_value (ms @ [l]) * 2 ^ (7 * k)
          in if n \<le> 5 \<and> v < 2 ^ 32 then Some (n, 7 * n, l, of_nat v) else None)"
  using assms
proof (induction buf arbitrary: k m)
  case (Cons b buf)
  let ?x = "payload b * 2 ^ (7 * k)"
  show ?case
  proof (cases "k \<le> 4 \<and> m + ?x < 2 ^ 32")
    case False
    have le: "m + ?x \<le> m + (payload b + 128 * c) * 2 ^ (7 * k)" for c by simp
    have no: "k \<le> 4 \<Longrightarrow> \<not> m + (payload b + 128 * c) * 2 ^ (7 * k) < 2 ^ 32" for c
      using le_less_trans [OF le [of c], of "2 ^ 32"] False by auto
    have "shl (unat (b AND 127)) (7 * k) = None"
      using shl_payload [OF Cons.prems, of b] False by (simp add: payload_def)
    then show ?thesis using no [of 0] no by (auto simp: Let_def split: option.split)
  next
    case True
    have p: "(2 :: nat) ^ (7 * Suc k) = 128 * 2 ^ (7 * k)" by (simp add: power_add)
    have "(payload b + 1) * 2 ^ (7 * k) \<le> 128 * 2 ^ (7 * k)" using payload_less [of b] by (intro mult_le_mono1) simp
    then have lt: "m + ?x < 2 ^ (7 * Suc k)" using Cons.prems unfolding p by (simp only: distrib_right)
    have v: "m + ?x + c * 2 ^ (7 * Suc k) = m + (payload b + 128 * c) * 2 ^ (7 * k)" for c
      unfolding p by (simp add: algebra_simps)
    have s: "shl (unat (b AND 127)) (7 * k) = Some (push_bit (7 * k) (of_nat (payload b)))"
      using shl_payload [OF Cons.prems, of b] True by (simp add: payload_def)
    have o: "of_nat m OR push_bit (7 * k) (of_nat (payload b)) = (of_nat (m + ?x) :: u32)"
      by (rule or_shifted [OF Cons.prems])
    have f: "leb_loop buf (Suc k) (7 * k + 7) (of_nat (m + ?x)) = leb_loop buf (Suc k) (7 * Suc k) (of_nat (m + ?x))"
      by (simp add: add.commute)
    show ?thesis
    proof (cases "b AND 128 = 0")
      case True
      with \<open>k \<le> 4 \<and> m + ?x < 2 ^ 32\<close> show ?thesis by (simp add: s o Let_def del: of_nat_add of_nat_mult)
    next
      case False
      then show ?thesis
        by (auto simp: s o f Cons.IH [OF lt] v Let_def simp del: of_nat_add of_nat_mult mult_Suc_right split: option.split)
    qed
  qed
qed simp

text \<open>\<open>read_uleb128\<close> returns exactly when the number ends within the buffer, has at most five bytes
  and a value below \<open>2 ^ 32\<close>; then it returns the number of its bytes and its value.\<close>

theorem read_uleb128_exact:
  "read_uleb128 buffer =
     (case leb_split buffer of
        None \<Rightarrow> None
      | Some (ms, l) \<Rightarrow>
          if length ms < 5 \<and> leb_value (ms @ [l]) < 2 ^ 32
          then Some (length ms + 1, of_nat (leb_value (ms @ [l]))) else None)"
  using leb_loop_exact [of 0 0 buffer]
  by (auto simp: read_uleb128_def uleb_loop_leb_loop Let_def split: option.splits)

text \<open>Shifting in the sign.\<close>

lemma or_minus_power:
  assumes "m < 2 ^ n"
  shows "(of_nat m :: u32) OR - (2 ^ n) = of_int (int m - 2 ^ n)"
proof -
  have t: "take_bit n (int m) = int m" using assms by (simp add: take_bit_int_eq_self)
  have e: "- (2 ^ n) = NOT (mask n :: int)" by (simp add: not_eq_complement mask_eq_exp_minus_1)
  have "int m AND - (2 ^ n) = 0" unfolding e
    by (rule bit_eqI) (metis t bit_and_iff bit_take_bit_iff bit_not_iff bit_mask_iff bit_0_eq bot_apply bot_bool_def)
  then have "int m + - (2 ^ n) = int m OR - (2 ^ n)" by (rule disjunctive_add_eq_or)
  moreover have "(of_int (int m OR - (2 ^ n)) :: u32) = of_int (int m) OR of_int (- (2 ^ n))" by (simp add: of_int_or_eq)
  ultimately show ?thesis by simp
qed

lemma leb_value_less: "leb_value bs < 2 ^ (7 * length bs)"
proof (induction bs)
  case (Cons b bs)
  have "payload b + 128 * leb_value bs < 128 * (leb_value bs + 1)" using payload_less [of b] by simp
  also have "\<dots> \<le> 128 * 2 ^ (7 * length bs)" using Cons by (intro mult_le_mono2) simp
  finally show ?case by (simp add: power_add)
qed simp

text \<open>(C30) \<open>read_leb128\<close> returns the two's complement value of a number with at most four bytes, or with
  five and a positive sign; for a negative number of five bytes, which is every value below
  \<open>- (2 ^ 27)\<close>, it shifts by 35 and is undefined.\<close>

theorem read_leb128_exact:
  "read_leb128 buffer =
     (case leb_split buffer of
        None \<Rightarrow> None
      | Some (ms, l) \<Rightarrow>
          let n = length ms + 1; v = leb_value (ms @ [l])
          in if n \<le> 4 then Some (n, of_int (if l AND 0x40 \<noteq> 0 then int v - 128 ^ n else int v))
             else if n = 5 \<and> v < 2 ^ 32 \<and> l AND 0x40 = 0 then Some (n, of_nat v) else None)"
proof (cases "leb_split buffer")
  case None
  then show ?thesis using leb_loop_exact [of 0 0 buffer] by (simp add: read_leb128_def)
next
  case (Some p)
  obtain ms l where p: "p = (ms, l)" by fastforce
  let ?n = "length ms + 1" and ?v = "leb_value (ms @ [l])"
  have v: "?v < 2 ^ (7 * ?n)" using leb_value_less [of "ms @ [l]"] by simp
  have l: "leb_loop buffer 0 0 0 = (if ?n \<le> 5 \<and> ?v < 2 ^ 32 then Some (?n, 7 * ?n, l, of_nat ?v) else None)"
    using leb_loop_exact [of 0 0 buffer] Some p by (simp add: Let_def)
  show ?thesis
  proof (cases "?n \<le> 4")
    case True
    have "(2 :: nat) ^ (7 * ?n) \<le> 2 ^ 28" using True by (intro power_increasing) simp_all
    then have "?v < 2 ^ 32" using v by simp
    moreover have "shl 1 (7 * ?n) = Some (2 ^ (7 * ?n))"
    proof -
      have "(2 :: nat) ^ (7 * ?n) < 2 ^ 32" using True by (intro power_strict_increasing) simp_all
      then show ?thesis using True by (simp add: shl_def push_bit_eq_mult)
    qed
    moreover have "(128 :: int) ^ ?n = 2 ^ (7 * ?n)" by (simp add: power_mult power_add)
    ultimately show ?thesis using True or_minus_power [OF v] Some p l by (simp add: read_leb128_def Let_def)
  next
    case False
    then show ?thesis using Some p l by (auto simp: read_leb128_def Let_def shl_def)
  qed
qed

end
