(* ===== verification/MemCheck.thy ===== *)
theory MemCheck
  imports Prelude
begin

text \<open>
  The test whether memory can be read, and the step from a return address to the call before it,
  \<open>libcrash_collect/utils/memcheck.cpp\<close>, on 32-bit ARM. The lines of \<open>/proc/<pid>/maps\<close>, as \<open>sscanf\<close> gives
  them, are an argument; the list of readable blocks that is built from them once is the state.
\<close>

unbundle bit_operations_syntax

type_synonym block = "u32 \<times> u32"

definition init_mem_block :: "(u32 \<times> u32 \<times> char) list \<Rightarrow> block list" where
  "init_mem_block maps = map (\<lambda>(start_addr, end_addr, access). (start_addr, end_addr)) (filter (\<lambda>(_, _, access). access = CHR ''r'') maps)"

fun check_loop :: "block list \<Rightarrow> u32 \<Rightarrow> u32 \<Rightarrow> u32 \<Rightarrow> u32" where
  "check_loop [] addr len nLen = nLen"
| "check_loop ((start_addr, end_addr) # bs) addr len nLen =
     (if addr < start_addr then nLen
      else if addr < end_addr then
        if addr + len < end_addr then nLen + len
        else check_loop bs end_addr (len - (end_addr - addr)) (nLen + (end_addr - end_addr))
      else check_loop bs addr len nLen)"

definition check_mem_readable :: "block list \<Rightarrow> u32 \<Rightarrow> u32 \<Rightarrow> u32" where
  "check_mem_readable g_memBlock addr len = check_loop g_memBlock addr len 0"

definition get_real_pc :: "block list \<Rightarrow> mem \<Rightarrow> u32 \<Rightarrow> u32" where
  "get_real_pc g_memBlock m pc =
     (if check_mem_readable g_memBlock pc 4 = 0 then pc
      else if pc AND 1 \<noteq> 0 then
        if check_mem_readable g_memBlock (pc - 5) 4 = 0 then pc
        else if load32 m (pc - 5) AND 0xF8000000 > 0xE0000000 then pc - 4
        else pc - 2
      else pc - 4)"

definition readable :: "block list \<Rightarrow> u32 \<Rightarrow> bool" where
  "readable bs a \<longleftrightarrow> (\<exists>(s, e)\<in>set bs. s \<le> a \<and> a < e)"

lemma check_loop_sound:
  assumes "check_loop bs addr len 0 \<noteq> 0" "unat addr + unat len < 2 ^ 32" "addr \<le> a" "unat a < unat addr + unat len"
  shows "readable bs a"
  using assms
proof (induction bs arbitrary: addr len)
  case (Cons b bs)
  obtain s e where b: "b = (s, e)" by fastforce
  have le: "s \<le> addr" using Cons.prems(1) b by (auto split: if_splits simp: not_less)
  have plus: "unat (addr + len) = unat addr + unat len" using Cons.prems(2) by (simp add: unat_word_ariths)
  show ?case
  proof (cases "addr < e")
    case False
    then have "check_loop bs addr len 0 \<noteq> 0" using Cons.prems(1) b le by (simp add: not_less leD)
    then have "readable bs a" using Cons.IH Cons.prems(2-4) by blast
    then show ?thesis by (auto simp: readable_def)
  next
    case True
    show ?thesis
    proof (cases "a < e")
      case True
      then show ?thesis using le Cons.prems(3) b by (auto simp: readable_def intro: order_trans)
    next
      case False
      have "\<not> addr + len < e"
        using False Cons.prems(4) plus by (auto simp: word_less_nat_alt word_le_nat_alt)
      then have r: "check_loop bs e (len - (e - addr)) 0 \<noteq> 0" and g: "unat e \<le> unat addr + unat len"
        using Cons.prems(1) b le True plus by (auto simp: word_less_nat_alt word_le_nat_alt)
      have "unat (e - addr) = unat e - unat addr" using True by (simp add: unat_sub word_less_nat_alt word_le_nat_alt)
      moreover from this have "unat (len - (e - addr)) = unat len - (unat e - unat addr)"
        using g by (simp add: unat_sub word_le_nat_alt)
      ultimately have l: "unat e + unat (len - (e - addr)) = unat addr + unat len"
        using g True by (simp add: word_less_nat_alt)
      have "readable bs a"
        by (rule Cons.IH [OF r]) (use l Cons.prems False in \<open>auto simp: not_less\<close>)
      then show ?thesis by (auto simp: readable_def)
    qed
  qed
qed simp

text \<open>(C36) When \<open>check_mem_readable\<close> does not return 0, every byte of the range is in a block that the map of
  the process lists as readable.\<close>

theorem check_mem_readable_sound:
  assumes "check_mem_readable (init_mem_block maps) addr len \<noteq> 0" "unat addr + unat len < 2 ^ 32"
    "addr \<le> a" "unat a < unat addr + unat len"
  shows "\<exists>(s, e, access)\<in>set maps. access = CHR ''r'' \<and> s \<le> a \<and> a < e"
  using check_loop_sound [OF assms [unfolded check_mem_readable_def]]
  by (auto simp: readable_def init_mem_block_def)

theorem check_mem_readable_sound_witness:
  "check_mem_readable (init_mem_block [(100, 200, CHR ''r''), (200, 300, CHR ''r''), (300, 400, CHR ''-'')]) 190 20 = 10 \<and>
   (\<exists>(s, e, access)\<in>set [(100, 200, CHR ''r''), (200, 300, CHR ''r''), (300, 400, CHR ''-'')].
      access = CHR ''r'' \<and> s \<le> (205 :: u32) \<and> (205 :: u32) < e)"
proof -
  have c: "check_mem_readable (init_mem_block [(100, 200, CHR ''r''), (200, 300, CHR ''r''), (300, 400, CHR ''-'')]) 190 20 = 10"
    by (simp add: check_mem_readable_def init_mem_block_def)
  then have "check_mem_readable (init_mem_block [(100, 200, CHR ''r''), (200, 300, CHR ''r''), (300, 400, CHR ''-'')]) 190 20 \<noteq> 0"
    by simp
  from check_mem_readable_sound [OF this, of 205] c show ?thesis by simp
qed

end
