(* ===== verification/ArmUnwind.thy ===== *)
theory ArmUnwind
  imports Leb128 MemCheck
begin

unbundle bit_operations_syntax

text \<open>
  The stack unwinder for 32-bit ARM, \<open>libcrash_collect/crash/stacktrace/arm/exidxstep.cpp\<close> and
  \<open>backtrace.cpp\<close>: the search of the exception index table, the extraction of the unwind instructions of a
  function, their decoding and their effect on the registers. Memory is a total function from addresses
  to bytes; pointers are 32-bit words. A write behind the local buffer of 32 bytes, a read behind the
  instructions and an undefined shift have the result \<open>None\<close>.
\<close>

definition ARM_EXIDX_CANT_UNWIND :: u32 where "ARM_EXIDX_CANT_UNWIND = 0x00000001"
definition ARM_EXIDX_COMPACT :: u32 where "ARM_EXIDX_COMPACT = 0x80000000"
definition ARM_EXTBL_OP_FINISH :: u8 where "ARM_EXTBL_OP_FINISH = 0xb0"
definition STEP_STOP :: int where "STEP_STOP = -1"
definition STEP_PC_LR :: int where "STEP_PC_LR = -2"
definition NUM_REGS :: nat where "NUM_REGS = 17"
definition ARM_SP :: nat where "ARM_SP = 13"
definition ARM_LR :: nat where "ARM_LR = 14"
definition ARM_PC :: nat where "ARM_PC = 15"

lemmas arm_consts = ARM_EXIDX_CANT_UNWIND_def ARM_EXIDX_COMPACT_def ARM_EXTBL_OP_FINISH_def STEP_STOP_def
  STEP_PC_LR_def NUM_REGS_def ARM_SP_def ARM_LR_def ARM_PC_def

record trace_cursor =
  regs :: "u32 list"
  base_addr :: u32
  pc_offest :: u32
  step_status :: int
  exidx_start_addr :: u32
  exidx_end_addr :: u32

datatype arm_exbuf_cmd =
    ARM_EXIDX_CMD_FINISH | ARM_EXIDX_CMD_DATA_PUSH | ARM_EXIDX_CMD_DATA_POP | ARM_EXIDX_CMD_REG_POP
  | ARM_EXIDX_CMD_REG_TO_SP | ARM_EXIDX_CMD_VFP_POP | ARM_EXIDX_CMD_WREG_POP | ARM_EXIDX_CMD_WCGR_POP
  | ARM_EXIDX_CMD_RESERVED | ARM_EXIDX_CMD_REFUSED

record arm_exbuf_data =
  cmd :: arm_exbuf_cmd
  data :: u32

definition ARM_EXIDX_VFP_SHIFT_16 :: u32 where "ARM_EXIDX_VFP_SHIFT_16 = push_bit 16 1"
definition ARM_EXIDX_VFP_DOUBLE :: u32 where "ARM_EXIDX_VFP_DOUBLE = push_bit 17 1"

section \<open>The operations\<close>

definition get_off_pre31 :: "u32 \<Rightarrow> u32" where
  "get_off_pre31 pre31 = signed_drop_bit 1 (push_bit 1 pre31)"

text \<open>The offset of the function of the table entry at an address.\<close>

definition exidx_key :: "mem \<Rightarrow> u32 \<Rightarrow> u32 \<Rightarrow> u32" where
  "exidx_key m base a = (load32 m a + a - base) AND 0x7FFFFFFF"

partial_function (option) search_exidx_value :: "mem \<Rightarrow> u32 \<Rightarrow> u32 \<Rightarrow> u32 \<Rightarrow> u32 \<Rightarrow> u32 option" where
  "search_exidx_value m start fin base key =
     (if fin \<le> start then Some 0
      else
        let mid = start + ((fin - start) div 8 div 2) * 8;
            key_pre = exidx_key m base (mid - 8);
            key_mid = exidx_key m base mid;
            key_flo = exidx_key m base (mid + 8)
        in if key \<ge> key_mid \<and> key \<le> key_flo then Some mid
           else if key \<le> key_mid \<and> key \<ge> key_pre then Some (mid - 8)
           else if key \<ge> key_mid then search_exidx_value m (mid + 8) fin base key
           else search_exidx_value m start (mid - 8) base key)"

declare search_exidx_value.simps [code]

text \<open>\<open>buf[nbuf++] = b\<close> for the bytes \<open>bs\<close> in turn; the buffer has 32 bytes.\<close>

definition put_buf :: "u8 list \<Rightarrow> u8 list \<Rightarrow> u8 list option" where
  "put_buf buf bs = (if length buf + length bs \<le> 32 then Some (buf @ bs) else None)"

text \<open>The four bytes of a word, the top byte first.\<close>

definition be32 :: "u32 \<Rightarrow> u8 list" where
  "be32 w = [ucast (drop_bit 24 w), ucast (drop_bit 16 w), ucast (drop_bit 8 w), ucast w]"

fun put_words :: "nat \<Rightarrow> mem \<Rightarrow> u32 \<Rightarrow> u8 list \<Rightarrow> u8 list option" where
  "put_words 0 m a buf = Some buf"
| "put_words (Suc n) m a buf = do { buf' \<leftarrow> put_buf buf (be32 (load32 m a)); put_words n m (a + 4) buf' }"

definition extract_table :: "mem \<Rightarrow> u32 \<Rightarrow> u8 list option" where
  "extract_table m tbl_entry_addr =
     (let extal_value = load32 m tbl_entry_addr
      in if extal_value AND ARM_EXIDX_COMPACT \<noteq> 0 then
           let idx = drop_bit 24 extal_value AND 0x0f
           in if idx = 1 \<or> idx = 2 then
                do { buf \<leftarrow> put_buf [] [ucast (drop_bit 8 extal_value), ucast extal_value];
                     put_words (unat (drop_bit 16 extal_value AND 0xff)) m (tbl_entry_addr + 4) buf }
              else put_buf [] [ucast (drop_bit 16 extal_value), ucast (drop_bit 8 extal_value), ucast extal_value]
         else
           let extal_value = load32 m (tbl_entry_addr + 4);
               n_add_insn = unat (drop_bit 24 extal_value);
               n_tmp = (if n_add_insn > 3 then 3 else n_add_insn)
           in do { buf \<leftarrow> put_buf [] (map (\<lambda>i. ucast (drop_bit (16 - i * 8) extal_value)) [0..<n_tmp]);
                   put_words (n_add_insn - n_tmp) m (tbl_entry_addr + 8) buf })"

text \<open>The instructions, empty for the result 0, and the cursor.\<close>

definition arm_exidx_extract :: "mem \<Rightarrow> trace_cursor \<Rightarrow> (u8 list \<times> trace_cursor) option" where
  "arm_exidx_extract m c =
     do { key_value_addr \<leftarrow> search_exidx_value m (exidx_start_addr c) (exidx_end_addr c) (base_addr c) (pc_offest c);
          if key_value_addr = 0 then Some ([], c\<lparr>step_status := STEP_STOP\<rparr>)
          else
            let v = load32 m (key_value_addr + 4)
            in if v = ARM_EXIDX_CANT_UNWIND then Some ([], c\<lparr>step_status := STEP_STOP\<rparr>)
               else
                 do { buf \<leftarrow> (if v AND ARM_EXIDX_COMPACT \<noteq> 0
                             then put_buf [] [ucast (drop_bit 16 v), ucast (drop_bit 8 v), ucast v]
                             else extract_table m (key_value_addr + 4 + get_off_pre31 v));
                      buf' \<leftarrow> (if buf \<noteq> [] \<and> last buf \<noteq> ARM_EXTBL_OP_FINISH then put_buf buf [ARM_EXTBL_OP_FINISH]
                              else Some buf);
                      Some (buf', c) } }"

text \<open>The loop that pops the registers in a mask.\<close>

fun pop_loop :: "mem \<Rightarrow> u32 \<Rightarrow> nat \<Rightarrow> nat \<Rightarrow> u32 list \<Rightarrow> u32 list" where
  "pop_loop m d i 0 rs = rs"
| "pop_loop m d i (Suc k) rs =
     pop_loop m d (Suc i) k
       (if bit d i
        then let rs' = rs[i := load32 m (rs ! ARM_SP)] in rs'[ARM_SP := rs' ! ARM_SP + 4]
        else rs)"

definition arm_exidx_apply_cmd :: "mem \<Rightarrow> arm_exbuf_data \<Rightarrow> trace_cursor \<Rightarrow> int \<times> trace_cursor" where
  "arm_exidx_apply_cmd m edata c =
     (case cmd edata of
        ARM_EXIDX_CMD_FINISH \<Rightarrow>
          if regs c ! ARM_PC = regs c ! ARM_LR then (0, c\<lparr>step_status := STEP_PC_LR\<rparr>)
          else (0, c\<lparr>regs := (regs c)[ARM_PC := regs c ! ARM_LR]\<rparr>)
      | ARM_EXIDX_CMD_DATA_PUSH \<Rightarrow> (0, c\<lparr>regs := (regs c)[ARM_SP := regs c ! ARM_SP - data edata]\<rparr>)
      | ARM_EXIDX_CMD_DATA_POP \<Rightarrow> (0, c\<lparr>regs := (regs c)[ARM_SP := regs c ! ARM_SP + data edata]\<rparr>)
      | ARM_EXIDX_CMD_REG_POP \<Rightarrow> (0, c\<lparr>regs := pop_loop m (data edata) 0 16 (regs c)\<rparr>)
      | ARM_EXIDX_CMD_REG_TO_SP \<Rightarrow> (0, c\<lparr>regs := (regs c)[ARM_SP := regs c ! unat (data edata)]\<rparr>)
      | ARM_EXIDX_CMD_VFP_POP \<Rightarrow> (0, c)
      | ARM_EXIDX_CMD_WREG_POP \<Rightarrow> (0, c)
      | ARM_EXIDX_CMD_WCGR_POP \<Rightarrow> (0, c)
      | ARM_EXIDX_CMD_REFUSED \<Rightarrow> (-1, c)
      | ARM_EXIDX_CMD_RESERVED \<Rightarrow> (-1, c))"

definition READ_OP :: "u8 list \<Rightarrow> (u8 \<times> u8 list) option" where
  "READ_OP buf = (case buf of [] \<Rightarrow> None | b # rest \<Rightarrow> Some (b, rest))"

text \<open>One turn of the decoder: the command for \<open>op\<close> and the bytes that are left. A command that is not
  given data keeps those of the one before.\<close>

definition decode_op :: "u8 \<Rightarrow> u8 list \<Rightarrow> arm_exbuf_data \<Rightarrow> (arm_exbuf_data \<times> u8 list) option" where
  "decode_op op buf e =
     (if op AND 0xc0 = 0x00 then Some (e\<lparr>cmd := ARM_EXIDX_CMD_DATA_POP, data := push_bit 2 (ucast op AND 0x3f) + 4\<rparr>, buf)
      else if op AND 0xc0 = 0x40 then
        Some (e\<lparr>cmd := ARM_EXIDX_CMD_DATA_PUSH, data := push_bit 2 (ucast op AND 0x3f) + 4\<rparr>, buf)
      else if op AND 0xf0 = 0x80 then
        do { (op2, buf') \<leftarrow> READ_OP buf;
             if op = 0x80 \<and> op2 = 0x00 then Some (e\<lparr>cmd := ARM_EXIDX_CMD_REFUSED\<rparr>, buf')
             else Some (e\<lparr>cmd := ARM_EXIDX_CMD_REG_POP,
                          data := push_bit 4 (push_bit 8 (ucast op AND 0xf) OR ucast op2)\<rparr>, buf') }
      else if op AND 0xf0 = 0x90 then
        Some (if op = 0x9d \<or> op = 0x9f then e\<lparr>cmd := ARM_EXIDX_CMD_RESERVED\<rparr>
              else e\<lparr>cmd := ARM_EXIDX_CMD_REG_TO_SP, data := ucast op AND 0x0f\<rparr>, buf)
      else if op AND 0xf0 = 0xa0 then
        let d = push_bit 4 (push_bit (unat (op AND 0x07) + 1) 1 - 1)
        in Some (e\<lparr>cmd := ARM_EXIDX_CMD_REG_POP, data := (if op AND 0x08 \<noteq> 0 then d OR push_bit 14 1 else d)\<rparr>, buf)
      else if op = ARM_EXTBL_OP_FINISH then Some (e\<lparr>cmd := ARM_EXIDX_CMD_FINISH\<rparr>, [])
      else if op = 0xb1 then
        do { (op2, buf') \<leftarrow> READ_OP buf;
             if op2 = 0 \<or> op2 AND 0xf0 \<noteq> 0 then Some (e\<lparr>cmd := ARM_EXIDX_CMD_RESERVED\<rparr>, buf')
             else Some (e\<lparr>cmd := ARM_EXIDX_CMD_REG_POP, data := ucast op2 AND 0x0f\<rparr>, buf') }
      else if op = 0xb2 then
        do { (n, offset) \<leftarrow> uleb_loop buf 0 0 0;
             Some (e\<lparr>cmd := ARM_EXIDX_CMD_DATA_POP, data := offset * 4 + 0x204\<rparr>, drop n buf) }
      else if op = 0xb3 \<or> op = 0xc8 \<or> op = 0xc9 then
        do { (op2, buf') \<leftarrow> READ_OP buf;
             Some (e\<lparr>cmd := ARM_EXIDX_CMD_VFP_POP,
                     data := ucast op2 OR (if op = 0xc8 then ARM_EXIDX_VFP_SHIFT_16 else 0) OR
                             (if op \<noteq> 0xb3 then ARM_EXIDX_VFP_DOUBLE else 0)\<rparr>, buf') }
      else if op AND 0xf8 = 0xb8 \<or> op AND 0xf8 = 0xd0 then
        Some (e\<lparr>cmd := ARM_EXIDX_CMD_VFP_POP,
                data := 0x80 OR (ucast op AND 0x07) OR (if op AND 0xf8 = 0xd0 then ARM_EXIDX_VFP_DOUBLE else 0)\<rparr>, buf)
      else if op \<ge> 0xc0 \<and> op \<le> 0xc5 then Some (e\<lparr>cmd := ARM_EXIDX_CMD_WREG_POP, data := 0xa0 OR (ucast op AND 0x07)\<rparr>, buf)
      else if op = 0xc6 then
        do { (op2, buf') \<leftarrow> READ_OP buf; Some (e\<lparr>cmd := ARM_EXIDX_CMD_WREG_POP, data := ucast op2\<rparr>, buf') }
      else if op = 0xc7 then
        do { (op2, buf') \<leftarrow> READ_OP buf;
             if op2 = 0 \<or> op2 AND 0xf0 \<noteq> 0 then Some (e\<lparr>cmd := ARM_EXIDX_CMD_RESERVED\<rparr>, buf')
             else Some (e\<lparr>cmd := ARM_EXIDX_CMD_WCGR_POP, data := ucast op2 AND 0x0f\<rparr>, buf') }
      else Some (e\<lparr>cmd := ARM_EXIDX_CMD_RESERVED\<rparr>, buf))"

lemma READ_OP_shorter: "READ_OP buf = Some (b, buf') \<Longrightarrow> length buf = Suc (length buf')"
  by (auto simp: READ_OP_def split: list.splits)

lemma decode_op_shorter: "decode_op op buf e = Some (e', buf') \<Longrightarrow> length buf' \<le> length buf"
  by (auto simp: decode_op_def Let_def bind_eq_Some_conv dest!: READ_OP_shorter split: if_splits)

function arm_exidx_decode :: "mem \<Rightarrow> u8 list \<Rightarrow> arm_exbuf_data \<Rightarrow> trace_cursor \<Rightarrow> (int \<times> trace_cursor) option" where
  "arm_exidx_decode m buf e c =
     (case buf of
        [] \<Rightarrow> Some (0, c)
      | op # rest \<Rightarrow>
          (case decode_op op rest e of
             None \<Rightarrow> None
           | Some (e', buf') \<Rightarrow>
               let (ret, c') = arm_exidx_apply_cmd m e' c
               in if ret < 0 then Some (ret, c') else arm_exidx_decode m buf' e' c'))"
  by pat_completeness auto
termination
  by (relation "measure (\<lambda>(m, buf, e, c). length buf)") (auto dest!: decode_op_shorter)

declare arm_exidx_decode.simps [simp del]

text \<open>\<open>edata\<close> is not initialised.\<close>

definition arm_exidx_step :: "mem \<Rightarrow> arm_exbuf_data \<Rightarrow> trace_cursor \<Rightarrow> (int \<times> trace_cursor) option" where
  "arm_exidx_step m edata c =
     do { (buf, c1) \<leftarrow> arm_exidx_extract m c;
          (ret, c2) \<leftarrow> (if buf \<noteq> [] then arm_exidx_decode m buf edata c1 else Some (0, c1));
          Some (if step_status c2 = STEP_STOP then -3
                else if ret = -1 then -1
                else if step_status c2 = STEP_PC_LR then -2
                else 0, c2) }"

text \<open>\<open>move_to_valid_addr\<close> skips the entries at the front that cannot be unwound.\<close>

partial_function (option) move_to_valid_addr :: "mem \<Rightarrow> u32 \<Rightarrow> u32 option" where
  "move_to_valid_addr m exidx_start =
     (if load32 m (exidx_start + 4) = 1 then move_to_valid_addr m (exidx_start + 8) else Some exidx_start)"

declare move_to_valid_addr.simps [code]

text \<open>The fields of the ELF headers that are read: \<open>e_phoff\<close> is at offset 28 and \<open>e_phnum\<close> at 44 of the file header;
  a program header has 32 bytes, with \<open>p_type\<close>, \<open>p_paddr\<close> and \<open>p_memsz\<close> at the offsets 0, 12 and 20.\<close>

definition ARM_EXIDX :: u32 where "ARM_EXIDX = 0x70000001"

fun find_phdr :: "mem \<Rightarrow> u32 \<Rightarrow> nat \<Rightarrow> u32" where
  "find_phdr m pPHdr 0 = pPHdr"
| "find_phdr m pPHdr (Suc i) =
     (if load32 m (pPHdr + 32 * of_nat i) = ARM_EXIDX then pPHdr + 32 * of_nat i else find_phdr m pPHdr i)"

text \<open>One step of the backtrace. \<open>dladdr\<close> gives the base of the object at an address, or nothing where it finds no
  file name; \<open>c\<close> and \<open>edata\<close> are the contents of local variables before they are set.\<close>

definition step :: "(u32 \<Rightarrow> u32 option) \<Rightarrow> block list \<Rightarrow> mem \<Rightarrow> trace_cursor \<Rightarrow> arm_exbuf_data \<Rightarrow> u32 list \<Rightarrow> bool \<Rightarrow>
    (int \<times> u32 list) option" where
  "step dladdr g_memBlock m c edata sig_ctx bNextCode =
     (let pc = sig_ctx ! ARM_PC
      in case dladdr pc of
           None \<Rightarrow> Some (-1, sig_ctx)
         | Some dli_fbase \<Rightarrow>
             let pPHdr = find_phdr m (dli_fbase + load32 m (dli_fbase + 28)) (unat (of_le16 (m (dli_fbase + 44)) (m (dli_fbase + 45))))
             in if load32 m pPHdr \<noteq> ARM_EXIDX then Some (-1, sig_ctx)
                else
                  let pc' = (if bNextCode then get_real_pc g_memBlock m pc else pc);
                      exidx_start = load32 m (pPHdr + 12) + dli_fbase
                  in do { valid \<leftarrow> move_to_valid_addr m exidx_start;
                          (ret, c') \<leftarrow> arm_exidx_step m edata
                             (c\<lparr>regs := sig_ctx, exidx_start_addr := valid, exidx_end_addr := exidx_start + load32 m (pPHdr + 20) - 8,
                                base_addr := dli_fbase, pc_offest := pc' - dli_fbase\<rparr>);
                          Some (ret, regs c') })"

section \<open>The classes of instructions\<close>

lemma unat_clear_low: "unat ((w :: u8) AND NOT (mask k)) = unat w div 2 ^ k * 2 ^ k"
proof -
  have e: "w AND NOT (mask k) = push_bit k (drop_bit k w)" by (rule bit_word_eqI) (auto simp: bit_simps)
  have "unat w < 2 ^ 8" using unsigned_less [of w] by simp
  then have l: "unat w div 2 ^ k * 2 ^ k < 2 ^ 8" by (meson div_times_less_eq_dividend le_less_trans)
  have "take_bit 8 (unat w) = unat w" using \<open>unat w < 2 ^ 8\<close> by (rule take_bit_nat_eq_self)
  then have d: "unat (drop_bit k w) = unat w div 2 ^ k"
    by (subst unsigned_drop_bit_eq) (simp only: len_bit0 len_num1 mult_1_right drop_bit_eq_div, simp)
  show ?thesis unfolding e using l d by (subst unsigned_push_bit_eq) (simp add: push_bit_eq_mult take_bit_nat_eq_self)
qed

lemma op_masks: "(0xc0 :: u8) = NOT (mask 6)" "(0xf0 :: u8) = NOT (mask 4)" "(0xf8 :: u8) = NOT (mask 3)"
  by (simp_all add: mask_eq_exp_minus_1 not_eq_complement)

lemma op_classes:
  "op AND 0xc0 = 0x00 \<longleftrightarrow> unat op < 64"
  "op AND 0xc0 = 0x40 \<longleftrightarrow> 64 \<le> unat op \<and> unat op < 128"
  "op AND 0xf0 = 0x80 \<longleftrightarrow> 128 \<le> unat op \<and> unat op < 144"
  "op AND 0xf0 = 0x90 \<longleftrightarrow> 144 \<le> unat op \<and> unat op < 160"
  "op AND 0xf0 = 0xa0 \<longleftrightarrow> 160 \<le> unat op \<and> unat op < 176"
  for op :: u8
proof -
  have c: "unat (op AND 0xc0) = unat op div 64 * 64" "unat (op AND 0xf0) = unat op div 16 * 16"
    unfolding op_masks by (simp_all only: unat_clear_low) simp_all
  have "w = v \<longleftrightarrow> unat w = unat v" for w v :: u8 by (simp add: word_unat_eq_iff)
  note e = this [of "op AND 0xc0" "0x00"] this [of "op AND 0xc0" "0x40"] this [of "op AND 0xf0" "0x80"]
    this [of "op AND 0xf0" "0x90"] this [of "op AND 0xf0" "0xa0"]
  show "op AND 0xc0 = 0x00 \<longleftrightarrow> unat op < 64" unfolding e(1) c by auto
  show "op AND 0xc0 = 0x40 \<longleftrightarrow> 64 \<le> unat op \<and> unat op < 128" unfolding e(2) c by auto
  show "op AND 0xf0 = 0x80 \<longleftrightarrow> 128 \<le> unat op \<and> unat op < 144" unfolding e(3) c by auto
  show "op AND 0xf0 = 0x90 \<longleftrightarrow> 144 \<le> unat op \<and> unat op < 160" unfolding e(4) c by auto
  show "op AND 0xf0 = 0xa0 \<longleftrightarrow> 160 \<le> unat op \<and> unat op < 176" unfolding e(5) c by auto
qed

lemma unat_byte: "n < 256 \<Longrightarrow> unat (of_nat n :: u8) = n"
  by (simp add: unat_of_nat take_bit_nat_eq_self)

lemma ucast_low: "(ucast (op :: u8) AND mask k :: u32) = of_nat (unat op mod 2 ^ k)"
proof -
  have "(ucast op :: u32) = of_nat (unat op)" by (simp add: unsigned_def)
  then have "ucast op AND mask k = take_bit k (of_nat (unat op) :: u32)" by (simp only: take_bit_eq_mask)
  also have "\<dots> = of_nat (take_bit k (unat op))" by (rule take_bit_of_nat)
  finally show ?thesis by (simp only: take_bit_eq_mod)
qed

lemma data_masks: "(0x3f :: u32) = mask 6" "(0xf :: u32) = mask 4" "(0x07 :: u8) = mask 3" "(0x0f :: u32) = mask 4"
  by (simp_all add: mask_eq_exp_minus_1)

section \<open>The instructions of the architecture\<close>

text \<open>The instructions for the integer registers, with the bytes that encode them and what they do to the
  registers. A byte string of the long form is its bytes with the top bit set and the last byte.\<close>

datatype insn =
    VspAdd nat | VspSub nat | Pop nat | SetVsp nat | PopR4 nat bool | PopLow nat | VspBig "u8 list" u8

fun wf_insn :: "insn \<Rightarrow> bool" where
  "wf_insn (VspAdd n) \<longleftrightarrow> n < 64"
| "wf_insn (VspSub n) \<longleftrightarrow> n < 64"
| "wf_insn (Pop k) \<longleftrightarrow> 0 < k \<and> k < 4096 \<and> \<not> bit k 9 \<and> \<not> bit k 11"
| "wf_insn (SetVsp n) \<longleftrightarrow> n < 16 \<and> n \<noteq> 13 \<and> n \<noteq> 15"
| "wf_insn (PopR4 n lr) \<longleftrightarrow> n < 8"
| "wf_insn (PopLow k) \<longleftrightarrow> 0 < k \<and> k < 16"
| "wf_insn (VspBig ms l) \<longleftrightarrow> leb_split (ms @ [l]) = Some (ms, l) \<and> length ms < 5 \<and> leb_value (ms @ [l]) < 2 ^ 32"

fun enc :: "insn \<Rightarrow> u8 list" where
  "enc (VspAdd n) = [of_nat n]"
| "enc (VspSub n) = [of_nat (64 + n)]"
| "enc (Pop k) = [of_nat (128 + k div 256), of_nat (k mod 256)]"
| "enc (SetVsp n) = [of_nat (144 + n)]"
| "enc (PopR4 n lr) = [of_nat (160 + (if lr then 8 else 0) + n)]"
| "enc (PopLow k) = [0xb1, of_nat k]"
| "enc (VspBig ms l) = 0xb2 # ms @ [l]"

text \<open>Popping the registers \<open>xs\<close>: the one with \<open>j\<close> registers before it gets the word \<open>4 * j\<close> above the
  stack pointer.\<close>

definition exec_pop :: "mem \<Rightarrow> nat list \<Rightarrow> u32 list \<Rightarrow> u32 list" where
  "exec_pop m xs rs =
     map (\<lambda>r. if r = 13 then rs ! 13 + of_nat (4 * length xs)
              else if r \<in> set xs then load32 m (rs ! 13 + of_nat (4 * length (takeWhile (\<lambda>x. x \<noteq> r) xs)))
              else rs ! r) [0..<length rs]"

fun exec :: "mem \<Rightarrow> insn \<Rightarrow> u32 list \<Rightarrow> u32 list" where
  "exec m (VspAdd n) rs = rs[13 := rs ! 13 + of_nat (4 * n + 4)]"
| "exec m (VspSub n) rs = rs[13 := rs ! 13 - of_nat (4 * n + 4)]"
| "exec m (Pop k) rs = exec_pop m (filter (\<lambda>r. 4 \<le> r \<and> bit k (r - 4)) [0..<16]) rs"
| "exec m (SetVsp n) rs = rs[13 := rs ! n]"
| "exec m (PopR4 n lr) rs = exec_pop m ([4..<5 + n] @ (if lr then [14] else [])) rs"
| "exec m (PopLow k) rs = exec_pop m (filter (bit k) [0..<4]) rs"
| "exec m (VspBig ms l) rs = rs[13 := rs ! 13 + of_nat (4 * leb_value (ms @ [l]) + 0x204)]"

fun pop_list :: "mem \<Rightarrow> nat list \<Rightarrow> u32 list \<Rightarrow> u32 list" where
  "pop_list m [] rs = rs"
| "pop_list m (x # xs) rs = pop_list m xs (rs[x := load32 m (rs ! 13), 13 := rs ! 13 + 4])"

lemma pop_loop_list:
  assumes "\<not> bit d 13"
  shows "pop_loop m d i k rs = pop_list m (filter (bit d) [i..<i + k]) rs"
proof (induction k arbitrary: i rs)
  case (Suc k)
  have "[i..<i + Suc k] = i # [Suc i..<Suc i + k]" by (simp add: upt_rec)
  moreover have "i \<noteq> 13" if "bit d i" using that assms by auto
  ultimately show ?case using Suc by (simp add: ARM_SP_def Let_def)
qed simp

lemma pop_list_exec:
  assumes "distinct xs" "13 \<notin> set xs" "length rs = 17" "\<forall>x\<in>set xs. x < 17"
  shows "pop_list m xs rs = exec_pop m xs rs"
  using assms
proof (induction xs arbitrary: rs)
  case Nil
  then show ?case by (auto simp: exec_pop_def intro!: nth_equalityI)
next
  case (Cons x xs)
  let ?rs = "rs[x := load32 m (rs ! 13), 13 := rs ! 13 + 4]"
  have "pop_list m (x # xs) rs = exec_pop m xs ?rs" using Cons by simp
  also have "\<dots> = exec_pop m (x # xs) rs"
    using Cons.prems by (intro nth_equalityI) (auto simp: exec_pop_def nth_list_update algebra_simps)
  finally show ?case .
qed

text \<open>The decoder, on the bytes of one instruction, calls \<open>arm_exidx_apply_cmd\<close> with its effect.\<close>

definition decodes :: "mem \<Rightarrow> insn \<Rightarrow> bool" where
  "decodes m ins \<longleftrightarrow> (\<forall>e rest. \<exists>op ops e'. enc ins = op # ops \<and> decode_op op (ops @ rest) e = Some (e', rest) \<and>
     (\<forall>c. length (regs c) = 17 \<longrightarrow> arm_exidx_apply_cmd m e' c = (0, c\<lparr>regs := exec m ins (regs c)\<rparr>)))"

lemma decodes_VspAdd: "n < 64 \<Longrightarrow> decodes m (VspAdd n)"
  unfolding decodes_def
  by (auto simp: decode_op_def op_classes unat_byte data_masks ucast_low arm_exidx_apply_cmd_def ARM_SP_def push_bit_of_nat push_bit_eq_mult ac_simps
      simp del: mask_numeral)

lemma decodes_VspSub:
  assumes "n < 64"
  shows "decodes m (VspSub n)"
proof -
  have u: "unat (of_nat (64 + n) :: u8) = 64 + n" using assms by (intro unat_byte) simp
  have "ucast (of_nat (64 + n) :: u8) AND mask 6 = (of_nat n :: u32)"
    using assms by (simp only: ucast_low u) (simp add: mod_if)
  then have d: "push_bit 2 (ucast (of_nat (64 + n) :: u8) AND mask 6) + 4 = (of_nat (4 * n + 4) :: u32)"
    by (simp only:) (simp add: push_bit_eq_mult)
  show ?thesis unfolding decodes_def
    using assms u d by (simp add: decode_op_def op_classes data_masks arm_exidx_apply_cmd_def ARM_SP_def del: mask_numeral of_nat_add)
qed

lemma decodes_SetVsp:
  assumes "n < 16" "n \<noteq> 13" "n \<noteq> 15"
  shows "decodes m (SetVsp n)"
proof -
  have u: "unat (of_nat (144 + n) :: u8) = 144 + n" using assms by (intro unat_byte) simp
  have ne: "of_nat (144 + n) \<noteq> (0x9d :: u8)" "of_nat (144 + n) \<noteq> (0x9f :: u8)"
    using assms u by (auto simp: word_unat_eq_iff simp del: of_nat_add)
  have d: "ucast (of_nat (144 + n) :: u8) AND mask 4 = (of_nat n :: u32)"
    using assms by (simp only: ucast_low u) (simp add: mod_if)
  have n: "unat (of_nat n :: u32) = n" using assms by (simp add: unat_of_nat take_bit_nat_eq_self)
  show ?thesis unfolding decodes_def
    using assms u ne d n
    by (simp add: decode_op_def op_classes data_masks arm_exidx_apply_cmd_def ARM_SP_def del: mask_numeral of_nat_add)
qed

lemma apply_pop:
  assumes "\<not> bit d 13" "length (regs c) = 17" "filter (bit d) [0..<16] = xs"
  shows "arm_exidx_apply_cmd m (e\<lparr>cmd := ARM_EXIDX_CMD_REG_POP, data := d\<rparr>) c = (0, c\<lparr>regs := exec_pop m xs (regs c)\<rparr>)"
proof -
  have "distinct xs" "13 \<notin> set xs" "\<forall>x\<in>set xs. x < 17" using assms by (auto simp: distinct_filter)
  then have "pop_loop m d 0 16 (regs c) = exec_pop m xs (regs c)"
    using pop_loop_list [OF assms(1), of m 0 16] pop_list_exec [of xs "regs c" m] assms by simp
  then show ?thesis by (simp add: arm_exidx_apply_cmd_def)
qed

lemma decodes_Pop:
  assumes "wf_insn (Pop k)"
  shows "decodes m (Pop k)"
proof -
  have k: "0 < k" "k < 4096" "\<not> bit k 9" using assms by auto
  let ?op = "of_nat (128 + k div 256) :: u8" and ?op2 = "of_nat (k mod 256) :: u8"
  have h: "k div 256 < 16" using k by auto
  have u: "unat ?op = 128 + k div 256" using h by (intro unat_byte) simp
  have u2: "unat ?op2 = k mod 256" by (intro unat_byte) simp
  have "(ucast ?op AND mask 4 :: u32) = of_nat (k div 256)"
    using h by (simp only: ucast_low u) (simp add: mod_if)
  moreover have "(ucast ?op2 :: u32) = of_nat (k mod 256)" using u2 unfolding unsigned_def by simp
  moreover have "push_bit 8 (of_nat (k div 256)) OR of_nat (k mod 256) = (of_nat k :: u32)"
    using or_shifted [of "k mod 256" 8 "k div 256"] by (simp add: or.commute)
  ultimately have d: "push_bit 8 (ucast ?op AND mask 4) OR ucast ?op2 = (of_nat k :: u32)" by simp
  have b: "bit (push_bit 4 (of_nat k :: u32)) r \<longleftrightarrow> 4 \<le> r \<and> bit k (r - 4)" if "r < 16" for r
    using that by (auto simp: bit_simps)
  have ne: "\<not> (?op = 0x80 \<and> ?op2 = 0)"
  proof
    assume "?op = 0x80 \<and> ?op2 = 0"
    then have "unat ?op = 128" "unat ?op2 = 0" by (simp_all del: of_nat_add)
    with u u2 have "k div 256 = 0" "k mod 256 = 0" by simp_all
    with k(1) show False by auto
  qed
  have f: "filter (bit (push_bit 4 (of_nat k :: u32))) [0..<16] = filter (\<lambda>r. 4 \<le> r \<and> bit k (r - 4)) [0..<16]"
    using b by (intro filter_cong) auto
  have n13: "\<not> bit (push_bit 4 (of_nat k :: u32)) 13" using b [of 13] k(3) by simp
  show ?thesis unfolding decodes_def
    using apply_pop [OF n13 _ f] u h ne d
    by (simp add: decode_op_def op_classes data_masks READ_OP_def del: mask_numeral of_nat_add) blast
qed

lemma decodes_PopR4:
  assumes "n < 8"
  shows "decodes m (PopR4 n lr)"
proof -
  let ?o = "160 + (if lr then 8 else 0) + n" and ?d = "push_bit 4 (push_bit (n + 1) 1 - 1) :: u32"
  have u: "unat (of_nat ?o :: u8) = ?o" using assms by (intro unat_byte) simp
  have c: "160 \<le> ?o \<and> ?o < 176" using assms by simp
  have "(of_nat ?o :: u8) AND mask 3 = of_nat (take_bit 3 ?o)" by (simp only: take_bit_of_nat flip: take_bit_eq_mask)
  also have "take_bit 3 ?o = n" using assms by (auto simp: take_bit_eq_mod mod_if)
  finally have low: "unat ((of_nat ?o :: u8) AND mask 3) = n" using assms unat_byte [of n] by simp
  have "(0x08 :: u8) = push_bit 3 1" by simp
  then have "(of_nat ?o :: u8) AND 0x08 \<noteq> 0 \<longleftrightarrow> bit (of_nat ?o :: u8) 3" by (metis and_exp_eq_0_iff_not_bit push_bit_of_1)
  also have "\<dots> \<longleftrightarrow> lr"
  proof -
    have "(168 + n) div 8 = 21" "(160 + n) div 8 = 20" using assms by simp_all
    then show ?thesis by (simp add: bit_simps del: of_nat_add) (simp add: bit_iff_odd)
  qed
  finally have lr: "(of_nat ?o :: u8) AND 0x08 \<noteq> 0 \<longleftrightarrow> lr" .
  have "push_bit (n + 1) 1 - 1 = (mask (n + 1) :: u32)" by (simp add: mask_eq_exp_minus_1 push_bit_of_1)
  then have b: "bit ?d r \<longleftrightarrow> 4 \<le> r \<and> r < 5 + n" if "r < 16" for r
    using that by (auto simp: bit_simps)
  let ?d' = "if lr then ?d OR push_bit 14 1 else ?d"
  have b': "bit ?d' r \<longleftrightarrow> 4 \<le> r \<and> r < 5 + n \<or> lr \<and> r = 14" if "r < 16" for r
  proof -
    have "bit (push_bit 14 (1 :: u32)) r \<longleftrightarrow> r = 14" by (simp only: bit_push_bit_iff bit_1_iff) (auto simp: that)
    then show ?thesis using b [OF that] by (cases lr) (simp_all only: if_True if_False bit_or_iff simp_thms)
  qed
  have "filter (bit ?d') [0..<16] = filter (\<lambda>r. 4 \<le> r \<and> r < 5 + n \<or> lr \<and> r = 14) [0..<16]"
    using b' by (intro filter_cong) auto
  also have "\<dots> = [4..<5 + n] @ (if lr then [14] else [])"
  proof -
    have "n = 0 \<or> n = 1 \<or> n = 2 \<or> n = 3 \<or> n = 4 \<or> n = 5 \<or> n = 6 \<or> n = 7" using assms by arith
    then show ?thesis by (elim disjE) (simp_all add: upt_rec)
  qed
  finally have f: "filter (bit ?d') [0..<16] = [4..<5 + n] @ (if lr then [14] else [])" .
  have n13: "\<not> bit ?d' 13" using b' [of 13] assms by simp
  define d' where d': "d' = ?d'"
  have "decode_op (of_nat ?o) rest e = Some (e\<lparr>cmd := ARM_EXIDX_CMD_REG_POP, data := d'\<rparr>, rest)" for rest e
    unfolding d' using u c low lr
    by (cases lr) (simp_all add: decode_op_def op_classes data_masks del: mask_numeral of_nat_add)
  with apply_pop [OF n13 [folded d'] _ f [folded d']] show ?thesis unfolding decodes_def by (simp del: of_nat_add)
qed

lemma decodes_PopLow:
  assumes "0 < k" "k < 16"
  shows "decodes m (PopLow k)"
proof -
  have u: "unat (of_nat k :: u8) = k" using assms by (intro unat_byte) simp
  have z: "(of_nat k :: u8) \<noteq> 0" "(of_nat k :: u8) AND 0xf0 = 0"
  proof -
    show "(of_nat k :: u8) \<noteq> 0" using u assms(1) by (metis less_numeral_extra(3) unat_0)
    have "unat ((of_nat k :: u8) AND 0xf0) = 0" unfolding op_masks using u assms(2) by (simp only: unat_clear_low) simp
    then show "(of_nat k :: u8) AND 0xf0 = 0" by (simp only: unat_eq_zero)
  qed
  have d: "ucast (of_nat k :: u8) AND mask 4 = (of_nat k :: u32)" using assms by (simp only: ucast_low u) simp
  have b: "bit (of_nat k :: u32) r \<longleftrightarrow> r < 4 \<and> bit k r" if "r < 16" for r
  proof -
    have "take_bit 4 k = k" using assms(2) by (simp add: take_bit_nat_eq_self)
    then have "bit k r \<longleftrightarrow> r < 4 \<and> bit k r" by (metis bit_take_bit_iff)
    then show ?thesis using that by (auto simp: bit_simps)
  qed
  have "filter (bit (of_nat k :: u32)) [0..<16] = filter (\<lambda>r. r < 4 \<and> bit k r) [0..<16]"
    using b by (intro filter_cong) auto
  also have "\<dots> = filter (bit k) [0..<4]" by (simp add: upt_rec)
  finally have f: "filter (bit (of_nat k :: u32)) [0..<16] = filter (bit k) [0..<4]" .
  have n13: "\<not> bit (of_nat k :: u32) 13" using b [of 13] by simp
  show ?thesis unfolding decodes_def
    using apply_pop [OF n13 _ f] z d
    by (simp add: decode_op_def data_masks READ_OP_def arm_consts del: mask_numeral)
qed

lemma leb_split_append: "leb_split bs = Some p \<Longrightarrow> leb_split (bs @ rest) = Some p"
  by (induction bs arbitrary: p rule: leb_split.induct) (auto split: if_splits option.splits)

lemma decodes_VspBig:
  assumes "wf_insn (VspBig ms l)"
  shows "decodes m (VspBig ms l)"
proof -
  have w: "leb_split (ms @ [l]) = Some (ms, l)" "length ms < 5" "leb_value (ms @ [l]) < 2 ^ 32" using assms by auto
  have "leb_split ((ms @ [l]) @ rest) = Some (ms, l)" for rest using leb_split_append [OF w(1)] .
  then have r: "uleb_loop (ms @ l # rest) 0 0 0 = Some (Suc (length ms), of_nat (leb_value (ms @ [l])))" for rest
    using leb_loop_exact [of 0 0 "ms @ l # rest"] w(2,3) by (simp add: uleb_loop_leb_loop Let_def)
  have d: "of_nat (leb_value (ms @ [l])) * 4 + 0x204 = (of_nat (4 * leb_value (ms @ [l]) + 0x204) :: u32)" by simp
  have "decode_op 0xb2 ((ms @ [l]) @ rest) e =
      Some (e\<lparr>cmd := ARM_EXIDX_CMD_DATA_POP, data := of_nat (4 * leb_value (ms @ [l]) + 0x204)\<rparr>, rest)" for e rest
    using r [of rest] d by (simp add: decode_op_def arm_consts del: of_nat_add of_nat_mult)
  then show ?thesis unfolding decodes_def by (simp add: arm_exidx_apply_cmd_def arm_consts del: of_nat_add of_nat_mult)
qed

lemma decodes_wf: "wf_insn ins \<Longrightarrow> decodes m ins"
  by (cases ins)
    (simp_all add: decodes_VspAdd decodes_VspSub decodes_SetVsp decodes_PopR4 decodes_PopLow, simp_all add: decodes_Pop decodes_VspBig)

lemma length_exec [simp]: "length (exec m ins rs) = length rs"
  by (cases ins) (simp_all add: exec_pop_def)

lemma length_pop_loop [simp]: "length (pop_loop m d i k rs) = length rs"
  by (induction k arbitrary: i rs) (simp_all add: Let_def)

lemma decode_insn:
  assumes "wf_insn ins" "length (regs c) = 17"
  shows "\<exists>e'. arm_exidx_decode m (enc ins @ rest) e c = arm_exidx_decode m rest e' (c\<lparr>regs := exec m ins (regs c)\<rparr>)"
proof -
  obtain op ops e' where "enc ins = op # ops" "decode_op op (ops @ rest) e = Some (e', rest)"
      "arm_exidx_apply_cmd m e' c = (0, c\<lparr>regs := exec m ins (regs c)\<rparr>)"
    using decodes_wf [OF assms(1), of m] assms(2) unfolding decodes_def by blast
  then show ?thesis by (subst arm_exidx_decode.simps) auto
qed

lemma decode_insns:
  assumes "\<forall>ins\<in>set is. wf_insn ins" "length (regs c) = 17"
  shows "\<exists>e'. arm_exidx_decode m (concat (map enc is) @ rest) e c =
    arm_exidx_decode m rest e' (c\<lparr>regs := fold (exec m) is (regs c)\<rparr>)"
  using assms
proof (induction "is" arbitrary: c e)
  case Nil
  then show ?case by auto
next
  case (Cons ins "is")
  obtain e' where "arm_exidx_decode m (enc ins @ concat (map enc is) @ rest) e c =
      arm_exidx_decode m (concat (map enc is) @ rest) e' (c\<lparr>regs := exec m ins (regs c)\<rparr>)"
    using decode_insn [of ins c m "concat (map enc is) @ rest" e] Cons.prems by auto
  with Cons.IH [of "c\<lparr>regs := exec m ins (regs c)\<rparr>" e'] Cons.prems show ?case by simp
qed

text \<open>The end mark ends the decoding, whatever is behind it; the mark that refuses to unwind fails.\<close>

lemma decode_finish:
  "arm_exidx_decode m (ARM_EXTBL_OP_FINISH # rest) e c =
     Some (0, if regs c ! ARM_PC = regs c ! ARM_LR then c\<lparr>step_status := STEP_PC_LR\<rparr>
              else c\<lparr>regs := (regs c)[ARM_PC := regs c ! ARM_LR]\<rparr>)"
proof -
  have "decode_op ARM_EXTBL_OP_FINISH rest e = Some (e\<lparr>cmd := ARM_EXIDX_CMD_FINISH\<rparr>, [])"
    by (simp add: decode_op_def arm_consts)
  then show ?thesis
    by (subst arm_exidx_decode.simps) (simp add: arm_exidx_apply_cmd_def arm_exidx_decode.simps [of m "[]"])
qed

lemma decode_refused: "arm_exidx_decode m (0x80 # 0 # rest) e c = Some (-1, c)"
proof -
  have "decode_op 0x80 (0 # rest) e = Some (e\<lparr>cmd := ARM_EXIDX_CMD_REFUSED\<rparr>, rest)"
    by (simp add: decode_op_def READ_OP_def)
  then show ?thesis by (subst arm_exidx_decode.simps) (simp add: arm_exidx_apply_cmd_def)
qed

text \<open>(C8) Decoding the bytes of any sequence of instructions for the integer registers, with the end mark
  behind them, has the effect the architecture gives to the instructions one after the other, and then
  returns to the address in the link register; a frame that would return to itself is reported. The
  instructions do not pop the stack pointer or the program counter.\<close>

theorem arm_exidx_decode_executes:
  assumes "\<forall>ins\<in>set is. wf_insn ins" "length (regs c) = 17"
  shows "arm_exidx_decode m (concat (map enc is) @ [ARM_EXTBL_OP_FINISH]) e c =
     (let rs = fold (exec m) is (regs c)
      in Some (0, if rs ! ARM_PC = rs ! ARM_LR then c\<lparr>regs := rs, step_status := STEP_PC_LR\<rparr>
                  else c\<lparr>regs := rs[ARM_PC := rs ! ARM_LR]\<rparr>))"
  using decode_insns [OF assms, of m "[ARM_EXTBL_OP_FINISH]" e] by (auto simp: decode_finish Let_def)

theorem arm_exidx_decode_executes_witness:
  "\<exists>c'. arm_exidx_decode (\<lambda>a. if a = 29 then 7 else 0) (concat (map enc [VspAdd 1, PopR4 1 True]) @ [ARM_EXTBL_OP_FINISH]) \<lparr>cmd = ARM_EXIDX_CMD_FINISH, data = 0\<rparr>
       \<lparr>regs = map of_nat [0..<17], base_addr = 0, pc_offest = 0, step_status = 0, exidx_start_addr = 0, exidx_end_addr = 0\<rparr> = Some (0, c') \<and>
     regs c' ! ARM_SP = 33 \<and> regs c' ! ARM_PC = 7"
proof -
  let ?c = "\<lparr>regs = map of_nat [0..<17], base_addr = 0, pc_offest = 0, step_status = 0, exidx_start_addr = 0, exidx_end_addr = 0\<rparr> :: trace_cursor"
  let ?m = "(\<lambda>a. if a = 29 then 7 else 0) :: mem"
  have w: "\<forall>ins\<in>set [VspAdd 1, PopR4 1 True]. wf_insn ins" "length (regs ?c) = 17" by simp_all
  have r: "map of_nat [0..<17] = [0, 1, 2, 3, 4, 5, 6, 7, 8, 9, 10, 11, 12, 13, 14, 15, 16 :: u32]" by (simp add: upt_rec)
  have "fold (exec ?m) [VspAdd 1, PopR4 1 True] (regs ?c) = [0, 1, 2, 3, 0, 0, 6, 7, 8, 9, 10, 11, 12, 33, 7, 15, 16]"
    by (simp add: r exec_pop_def upt_rec load32_def of_le32_def)
  with arm_exidx_decode_executes [OF w, of ?m "\<lparr>cmd = ARM_EXIDX_CMD_FINISH, data = 0\<rparr>"] show ?thesis
    by (simp add: Let_def arm_consts)
qed

section \<open>Searching the index table\<close>

text \<open>The address of entry \<open>i\<close> of a table, and its key.\<close>

definition slot :: "u32 \<Rightarrow> nat \<Rightarrow> u32" where
  "slot start i = start + of_nat (8 * i)"

abbreviation key_of :: "mem \<Rightarrow> u32 \<Rightarrow> u32 \<Rightarrow> nat \<Rightarrow> u32" where
  "key_of m base start i \<equiv> exidx_key m base (slot start i)"

lemma unat_u32: "n < 2 ^ 32 \<Longrightarrow> unat (of_nat n :: u32) = n"
  by (simp add: unat_of_nat take_bit_nat_eq_self)

lemma unat_slot:
  assumes "unat start + 8 * i < 2 ^ 32"
  shows "unat (slot start i) = unat start + 8 * i"
proof -
  have "start = of_nat (unat start)" by simp
  then have "slot start i = of_nat (unat start + 8 * i)" unfolding slot_def by (metis of_nat_add)
  then show ?thesis using assms by (simp only: unat_u32)
qed

lemma slot_neighbours: "slot start (Suc i) = slot start i + 8" "0 < i \<Longrightarrow> slot start i - 8 = slot start (i - 1)"
  by (simp_all add: slot_def of_nat_diff algebra_simps)

lemma mid_slot:
  assumes "lo < hi" "unat start + 8 * hi < 2 ^ 32"
  shows "slot start lo + (slot start hi - slot start lo) div 8 div 2 * 8 = slot start (lo + (hi - lo) div 2)"
proof -
  have h: "8 * hi < 2 ^ 32" using assms(2) by linarith
  have "slot start hi - slot start lo = of_nat (8 * hi) - of_nat (8 * lo)" by (simp add: slot_def)
  also have "\<dots> = of_nat (8 * hi - 8 * lo)" using assms(1) by (simp only: of_nat_diff)
  also have "8 * hi - 8 * lo = 8 * (hi - lo)" by simp
  finally have d: "slot start hi - slot start lo = of_nat (8 * (hi - lo))" .
  have "unat ((of_nat (8 * (hi - lo)) :: u32) div 8 div 2) = (hi - lo) div 2"
    using h by (simp only: unat_div unat_u32) simp
  moreover have "unat (of_nat ((hi - lo) div 2) :: u32) = (hi - lo) div 2" using h by (intro unat_u32) simp
  ultimately have "(of_nat (8 * (hi - lo)) :: u32) div 8 div 2 = of_nat ((hi - lo) div 2)" by (simp only: word_unat_eq_iff)
  then show ?thesis unfolding d by (simp add: slot_def algebra_simps)
qed

lemma search_brackets:
  assumes "lo < hi" "8 \<le> unat start" "unat start + 8 * hi < 2 ^ 32"
    "key_of m base start lo \<le> key" "key \<le> key_of m base start hi"
    "\<forall>i<hi. key_of m base start i \<le> key_of m base start (Suc i)"
  shows "\<exists>i. lo \<le> i \<and> i < hi \<and> search_exidx_value m (slot start lo) (slot start hi) base key = Some (slot start i) \<and>
     key_of m base start i \<le> key \<and> key \<le> key_of m base start (i + 1)"
  using assms
proof (induction "hi - lo" arbitrary: lo hi rule: less_induct)
  case less
  let ?k = "key_of m base start"
  define mid where mid_def: "mid = lo + (hi - lo) div 2"
  have lt: "\<not> slot start hi \<le> slot start lo"
    using less.prems unat_slot [of start hi] unat_slot [of start lo] by (simp add: word_le_nat_alt)
  have mid: "lo \<le> mid" "mid < hi" using less.prems(1) by (auto simp: mid_def)
  have step: "search_exidx_value m (slot start lo) (slot start hi) base key =
      (if ?k mid \<le> key \<and> key \<le> ?k (Suc mid) then Some (slot start mid)
       else if key \<le> ?k mid \<and> exidx_key m base (slot start mid - 8) \<le> key then Some (slot start mid - 8)
       else if ?k mid \<le> key then search_exidx_value m (slot start (Suc mid)) (slot start hi) base key
       else search_exidx_value m (slot start lo) (slot start mid - 8) base key)"
    by (subst search_exidx_value.simps) (simp only: lt if_False Let_def mid_slot [OF less.prems(1,3), folded mid_def] slot_neighbours(1))
  consider (here) "?k mid \<le> key" "key \<le> ?k (Suc mid)" | (right) "?k mid \<le> key" "?k (Suc mid) < key"
    | (left) "key < ?k mid" by (meson not_le)
  then show ?case
  proof cases
    case here
    then show ?thesis using step mid by (intro exI [of _ mid]) simp
  next
    case right
    have "Suc mid \<noteq> hi" using right(2) less.prems(5) by (metis not_le)
    then have "Suc mid < hi" using mid by simp
    moreover have "?k (Suc mid) \<le> key" using right(2) by simp
    ultimately obtain i where
      i: "Suc mid \<le> i" "i < hi" "search_exidx_value m (slot start (Suc mid)) (slot start hi) base key = Some (slot start i)"
        "?k i \<le> key" "key \<le> ?k (i + 1)"
      using less.hyps [of hi "Suc mid"] less.prems diff_less_mono2 [of lo "Suc mid" hi] mid by auto
    have "?k mid \<le> ?k (Suc mid)" using less.prems(6) mid by blast
    then have "\<not> key \<le> ?k mid" "\<not> key \<le> ?k (Suc mid)" using right(2) by (simp_all add: not_le)
    then show ?thesis using step right(1) i mid by (intro exI [of _ i]) simp
  next
    case left
    then have "mid \<noteq> lo" using less.prems(4) by (metis not_le)
    then have m: "lo < mid" "slot start mid - 8 = slot start (mid - 1)" using mid slot_neighbours(2) [of mid start] by simp_all
    show ?thesis
    proof (cases "?k (mid - 1) \<le> key")
      case True
      have "search_exidx_value m (slot start lo) (slot start hi) base key = Some (slot start (mid - 1))"
        using left True left [unfolded not_le [symmetric]] unfolding step m(2) by (simp add: less_imp_le)
      moreover have "key \<le> ?k (mid - 1 + 1)" using left m(1) by simp
      ultimately show ?thesis using True m(1) mid by (intro exI [of _ "mid - 1"]) auto
    next
      case False
      have "mid - 1 \<noteq> lo" using False less.prems(4) by metis
      then have "lo < mid - 1" using m(1) by simp
      moreover have "key \<le> ?k (mid - 1)" using False by simp
      moreover have "mid - 1 - lo < hi - lo" "unat start + 8 * (mid - 1) < 2 ^ 32" using mid less.prems(3) by linarith+
      ultimately obtain i where i: "lo \<le> i" "i < mid - 1"
          "search_exidx_value m (slot start lo) (slot start (mid - 1)) base key = Some (slot start i)"
          "?k i \<le> key" "key \<le> ?k (i + 1)"
        using less.hyps [of "mid - 1" lo] less.prems mid by auto
      then show ?thesis using left [unfolded not_le [symmetric]] False mid unfolding step m(2) by (intro exI [of _ i]) simp
    qed
  qed
qed

lemma search_exidx_entry:
  assumes "8 \<le> unat start" "unat start + 8 * n < 2 ^ 32"
    "\<forall>i<n. key_of m base start i < key_of m base start (Suc i)"
    "j < n" "key_of m base start j < key" "key < key_of m base start (Suc j)"
  shows "search_exidx_value m (slot start 0) (slot start n) base key = Some (slot start j)"
proof -
  let ?k = "key_of m base start"
  have mono: "?k i \<le> ?k i'" if "i \<le> i'" "i' \<le> n" for i i'
    using that(1,2)
  proof (induction rule: dec_induct)
    case (step l)
    then have "?k l < ?k (Suc l)" using assms(3) by simp
    with step show ?case by (simp add: le_less_trans less_imp_le)
  qed simp
  have "?k 0 \<le> key" by (rule order_trans [OF mono less_imp_le [OF assms(5)]]) (use assms(4) in simp_all)
  moreover have "key \<le> ?k n" by (rule order_trans [OF less_imp_le [OF assms(6)] mono]) (use assms(4) in simp_all)
  moreover have "\<forall>i<n. ?k i \<le> ?k (Suc i)" using assms(3) by (simp add: less_imp_le)
  ultimately obtain i where i: "i < n" "search_exidx_value m (slot start 0) (slot start n) base key = Some (slot start i)"
      "?k i \<le> key" "key \<le> ?k (i + 1)"
    using search_brackets [of 0 n start m base key] assms(1,2,4) by auto
  have "\<not> i < j"
  proof
    assume "i < j"
    then have "key \<le> ?k j" using order_trans [OF i(4) mono [of "i + 1" j]] assms(4) by simp
    with assms(5) show False by (simp add: leD)
  qed
  moreover have "\<not> j < i"
  proof
    assume "j < i"
    then have "?k (Suc j) \<le> key" using order_trans [OF mono [of "Suc j" i] i(3)] i(1) by simp
    with assms(6) show False by (simp add: leD)
  qed
  ultimately show ?thesis using i(2) by (metis linorder_neqE_nat)
qed

text \<open>(C27) The search of an index table whose keys increase ends, and for an offset strictly between the keys
  of two neighbouring entries it gives the first of the two, the entry of the function around it.\<close>

theorem search_exidx_finds:
  assumes "8 \<le> unat start" "unat start + 8 * n < 2 ^ 32"
    "\<forall>i<n. key_of m base start i < key_of m base start (Suc i)"
    "j < n" "key_of m base start j < key" "key < key_of m base start (Suc j)"
  shows "search_exidx_value m (slot start 0) (slot start n) base key = Some (slot start j)"
  by (rule search_exidx_entry [OF assms])

text \<open>Three entries at the address 16, for functions at the offsets 100, 200 and 300.\<close>

definition sample_index :: mem where
  "sample_index = (\<lambda>a. if a = 16 then 84 else if a = 24 then 176 else if a = 32 then 12 else if a = 33 then 1 else 0)"

theorem search_exidx_finds_witness:
  "search_exidx_value sample_index (slot 16 0) (slot 16 2) 0 250 = Some (slot 16 1)"
proof (rule search_exidx_finds)
  have k: "key_of sample_index 0 16 0 = 100" "key_of sample_index 0 16 (Suc 0) = 200" "key_of sample_index 0 16 (Suc (Suc 0)) = 300"
    by (simp_all add: exidx_key_def slot_def sample_index_def load32_def of_le32_def)
  show "\<forall>i<2. key_of sample_index 0 16 i < key_of sample_index 0 16 (Suc i)"
  proof (intro allI impI)
    fix i :: nat assume "i < 2"
    then have "i = 0 \<or> i = Suc 0" by auto
    then show "key_of sample_index 0 16 i < key_of sample_index 0 16 (Suc i)" by (elim disjE) (simp_all only: k, simp_all)
  qed
  show "key_of sample_index 0 16 1 < 250" "250 < key_of sample_index 0 16 (Suc 1)"
    unfolding One_nat_def k by simp_all
qed simp_all

section \<open>The buffer of a step\<close>

text \<open>The number of instruction bytes that a table entry names.\<close>

definition unwind_bytes :: "mem \<Rightarrow> u32 \<Rightarrow> nat" where
  "unwind_bytes m a =
     (let v = load32 m a
      in if v AND ARM_EXIDX_COMPACT \<noteq> 0 then
           if drop_bit 24 v AND 0x0f \<in> {1, 2} then 2 + 4 * unat (drop_bit 16 v AND 0xff) else 3
         else let n = unat (drop_bit 24 (load32 m (a + 4))) in if 3 < n then 3 + 4 * (n - 3) else n)"

lemma put_words_fits:
  assumes "length buf \<le> 32"
  shows "case put_words n m a buf of None \<Rightarrow> 32 < length buf + 4 * n
       | Some buf' \<Rightarrow> length buf + 4 * n \<le> 32 \<and> length buf' = length buf + 4 * n"
  using assms
proof (induction n m a buf rule: put_words.induct)
  case (2 n m a buf)
  show ?case
  proof (cases "length buf + 4 \<le> 32")
    case True
    with "2.IH" [of "buf @ be32 (load32 m a)"] show ?thesis
      by (auto simp: put_buf_def be32_def split: option.splits)
  next
    case False
    then show ?thesis by (simp add: put_buf_def be32_def)
  qed
qed simp

text \<open>(C37) Fetching the instructions of a table entry leaves the local buffer of 32 bytes exactly when the
  entry names more than 32 of them; otherwise it stores just as many as the entry names.\<close>

theorem extract_table_bounds:
  "case extract_table m a of None \<Rightarrow> 32 < unwind_bytes m a
     | Some buf \<Rightarrow> unwind_bytes m a \<le> 32 \<and> length buf = unwind_bytes m a"
proof (cases "load32 m a AND ARM_EXIDX_COMPACT \<noteq> 0")
  case True
  let ?v = "load32 m a"
  show ?thesis
    using True put_words_fits [of "[ucast (drop_bit 8 ?v), ucast ?v]" "unat (drop_bit 16 ?v AND 0xff)" m "a + 4"]
    by (auto simp: extract_table_def unwind_bytes_def put_buf_def Let_def split: option.splits)
next
  case False
  define v n where vn: "v = load32 m (a + 4)" "n = unat (drop_bit 24 v)"
  define k where k: "k = (if n > 3 then 3 else n)"
  have "extract_table m a = put_words (n - k) m (a + 8) (map (\<lambda>i. ucast (drop_bit (16 - i * 8) v)) [0..<k])"
    using False by (cases "n > 3") (simp_all add: extract_table_def Let_def put_buf_def k flip: vn)
  moreover have "unwind_bytes m a = k + 4 * (n - k)" using False by (simp add: unwind_bytes_def Let_def k flip: vn)
  ultimately show ?thesis
    using put_words_fits [of "map (\<lambda>i. ucast (drop_bit (16 - i * 8) v)) [0..<k]" "n - k" m "a + 8"] k
    by (auto split: option.splits)
qed

section \<open>A step\<close>

text \<open>The place that a relative 31-bit offset in the word at an address points to.\<close>

definition prel31 :: "mem \<Rightarrow> u32 \<Rightarrow> u32" where
  "prel31 m a = a + of_int (signed_take_bit 30 (uint (load32 m a)))"

text \<open>
  The instruction bytes of the index entry at \<open>a\<close>: three bytes in its second word, or those of the table
  entry to which that word points, three bytes of a short one, two bytes and a counted number of words of
  a long one.
\<close>

definition unwind_code :: "mem \<Rightarrow> u32 \<Rightarrow> u8 list \<Rightarrow> bool" where
  "unwind_code m a bs \<longleftrightarrow>
     (if bit (load32 m (a + 4)) 31 then bs = tl (be32 (load32 m (a + 4)))
      else load32 m (a + 4) \<noteq> ARM_EXIDX_CANT_UNWIND \<and>
        (let t = prel31 m (a + 4) in
         be32 (load32 m t) = 0x80 # bs \<or>
         (\<exists>p n b1 b2. be32 (load32 m t) = [p, n, b1, b2] \<and> p \<in> {0x81, 0x82} \<and>
            bs = b1 # b2 # concat (map (\<lambda>i. be32 (load32 m (t + 4 + of_nat (4 * i)))) [0..<unat n]))))"

text \<open>The end of a program: the end mark, possibly left out or repeated as padding, or the mark that refuses
  to unwind.\<close>

datatype unwind_end = Finish nat | Refuse "u8 list"

fun end_bytes :: "unwind_end \<Rightarrow> u8 list" where
  "end_bytes (Finish k) = replicate k ARM_EXTBL_OP_FINISH"
| "end_bytes (Refuse rest) = 0x80 # 0 # rest"

definition unwound :: "mem \<Rightarrow> insn list \<Rightarrow> unwind_end \<Rightarrow> trace_cursor \<Rightarrow> int \<times> trace_cursor" where
  "unwound m is fin c =
     (let rs = fold (exec m) is (regs c) in
      case fin of
        Refuse _ \<Rightarrow> (-1, c\<lparr>regs := rs\<rparr>)
      | Finish _ \<Rightarrow> if rs ! ARM_PC = rs ! ARM_LR then (-2, c\<lparr>regs := rs, step_status := STEP_PC_LR\<rparr>)
                    else (0, c\<lparr>regs := rs[ARM_PC := rs ! ARM_LR]\<rparr>))"

lemma compact_bit: "v AND ARM_EXIDX_COMPACT \<noteq> 0 \<longleftrightarrow> bit v 31"
proof -
  have c: "ARM_EXIDX_COMPACT = 2 ^ 31" by (simp add: ARM_EXIDX_COMPACT_def)
  show ?thesis unfolding c by (simp only: and_exp_eq_0_iff_not_bit not_not)
qed

lemma get_off_pre31_signed: "get_off_pre31 v = of_int (signed_take_bit 30 (uint v))"
proof (rule bit_word_eqI)
  fix n :: nat assume "n < LENGTH(32)"
  then consider "n < 30" | "n = 30" | "n = 31" by fastforce
  then show "bit (get_off_pre31 v) n = bit (of_int (signed_take_bit 30 (uint v)) :: u32) n"
    by cases (auto simp: get_off_pre31_def bit_simps min_def bit_double_iff mult.commute [of v 2])
qed

lemma be32_parts:
  assumes "be32 v = [p, n, b1, b2]"
  shows "drop_bit 24 v = ucast p" "drop_bit 16 v AND 0xff = ucast n" "ucast (drop_bit 8 v) = b1" "ucast v = b2"
    "ucast (drop_bit 16 v) = n"
proof -
  have e: "p = ucast (drop_bit 24 v)" "n = ucast (drop_bit 16 v)" "b1 = ucast (drop_bit 8 v)" "b2 = ucast v"
    using assms by (simp_all add: be32_def)
  then show "ucast (drop_bit 8 v) = b1" "ucast v = b2" "ucast (drop_bit 16 v) = n" by simp_all
  show "drop_bit 24 v = ucast p" unfolding e by (rule bit_word_eqI) (auto simp: bit_simps dest: bit_imp_le_length)
  have "(0xff :: u32) = mask 8" by (simp add: mask_eq_exp_minus_1)
  then have "drop_bit 16 v AND 0xff = take_bit 8 (drop_bit 16 v)" by (simp only: take_bit_eq_mask)
  also have "\<dots> = ucast n" unfolding e by (rule bit_word_eqI) (auto simp: bit_simps)
  finally show "drop_bit 16 v AND 0xff = ucast n" .
qed

lemma put_words_all:
  "length buf + 4 * n \<le> 32 \<Longrightarrow>
   put_words n m a buf = Some (buf @ concat (map (\<lambda>i. be32 (load32 m (a + of_nat (4 * i)))) [0..<n]))"
proof (induction n arbitrary: a buf)
  case (Suc n)
  have "length (be32 (load32 m a)) = 4" by (simp add: be32_def)
  then have p: "put_buf buf (be32 (load32 m a)) = Some (buf @ be32 (load32 m a))" "length (buf @ be32 (load32 m a)) + 4 * n \<le> 32"
    using Suc.prems by (simp_all add: put_buf_def)
  have u: "[0..<Suc n] = 0 # map Suc [0..<n]" by (metis upt_conv_Cons zero_less_Suc map_Suc_upt)
  show ?case using p(1) Suc.IH [OF p(2), of "a + 4"] unfolding u by (simp add: algebra_simps comp_def)
qed simp

lemma extract_code:
  assumes "\<not> bit (load32 m (a + 4)) 31" "unwind_code m a bs" "length bs \<le> 32"
  shows "extract_table m (a + 4 + get_off_pre31 (load32 m (a + 4))) = Some bs"
proof -
  define t where "t = prel31 m (a + 4)"
  have t: "a + 4 + get_off_pre31 (load32 m (a + 4)) = t" by (simp add: t_def prel31_def get_off_pre31_signed)
  consider (short) "be32 (load32 m t) = 0x80 # bs"
    | (long) p n b1 b2 where "be32 (load32 m t) = [p, n, b1, b2]" "p \<in> {0x81, 0x82}"
        "bs = b1 # b2 # concat (map (\<lambda>i. be32 (load32 m (t + 4 + of_nat (4 * i)))) [0..<unat n])"
    using assms(1,2) by (auto simp: unwind_code_def Let_def t_def)
  then have "extract_table m t = Some bs"
  proof cases
    case short
    then obtain n b1 b2 where b: "be32 (load32 m t) = [0x80, n, b1, b2]" "bs = [n, b1, b2]" by (auto simp: be32_def)
    note p = be32_parts [OF b(1)]
    have "bit (load32 m t) 31"
    proof -
      have "bit (drop_bit 24 (load32 m t)) 7" unfolding p(1) by (simp add: bit_simps)
      then show ?thesis by (simp add: bit_simps)
    qed
    then show "extract_table m t = Some bs" using p b(2) by (simp add: extract_table_def compact_bit put_buf_def Let_def)
  next
    case long
    note p = be32_parts [OF long(1)]
    have b: "bit (load32 m t) 31" "drop_bit 24 (load32 m t) AND 0x0f \<in> {1, 2}"
    proof -
      have "bit (drop_bit 24 (load32 m t)) 7" unfolding p(1) using long(2) by (auto simp: bit_simps)
      then show "bit (load32 m t) 31" by (simp add: bit_simps)
      show "drop_bit 24 (load32 m t) AND 0x0f \<in> {1, 2}" unfolding p(1) using long(2) by auto
    qed
    have len: "length (be32 w) = 4" for w by (simp add: be32_def)
    have "length (concat (map (\<lambda>i. be32 (load32 m (t + 4 + of_nat (4 * i)))) [0..<k])) = 4 * k" for k
      by (induction k) (simp_all add: len)
    then have l: "length [b1, b2] + 4 * unat n \<le> 32" using assms(3) long(3) by simp
    have u: "unat (drop_bit 16 (load32 m t) AND 0xff) = unat n" unfolding p(2) by (simp add: unsigned_ucast_eq take_bit_nat_eq_self order.strict_trans [OF unsigned_less])
    show "extract_table m t = Some bs" using b u put_words_all [OF l, of m "t + 4"] p(3,4) long(3)
      by (auto simp: extract_table_def compact_bit put_buf_def Let_def)
  qed
  then show ?thesis unfolding t .
qed

lemma extract_step:
  assumes search: "search_exidx_value m (exidx_start_addr c) (exidx_end_addr c) (base_addr c) (pc_offest c) = Some a" "a \<noteq> 0"
    and code: "unwind_code m a bs" "length bs < 32 \<or> length bs = 32 \<and> last bs = ARM_EXTBL_OP_FINISH" "bs \<noteq> []"
  shows "arm_exidx_extract m c = Some (if last bs = ARM_EXTBL_OP_FINISH then bs else bs @ [ARM_EXTBL_OP_FINISH], c)"
proof (cases "bit (load32 m (a + 4)) 31")
  case True
  then have "load32 m (a + 4) \<noteq> ARM_EXIDX_CANT_UNWIND" by (auto simp: ARM_EXIDX_CANT_UNWIND_def bit_simps)
  moreover have "bs = [ucast (drop_bit 16 (load32 m (a + 4))), ucast (drop_bit 8 (load32 m (a + 4))), ucast (load32 m (a + 4))]"
    using code(1) True by (simp add: unwind_code_def be32_def)
  ultimately show ?thesis using search True by (simp add: arm_exidx_extract_def compact_bit put_buf_def Let_def)
next
  case False
  then have v: "load32 m (a + 4) \<noteq> ARM_EXIDX_CANT_UNWIND" using code(1) by (simp add: unwind_code_def)
  have "length bs \<le> 32" using code(2) by auto
  note x = extract_code [OF False code(1) this]
  show ?thesis using search v x False code(2,3) by (auto simp: arm_exidx_extract_def compact_bit put_buf_def Let_def)
qed

text \<open>(C38) A step from an offset strictly inside the function of an index entry that holds a program for the integer
  registers, in any of the compact forms: it executes the program and returns 0 with the program counter of the
  caller, -2 when that is the address in the link register already, -1 when the program refuses to unwind, and
  -3 with the status that stops the backtrace when the entry says that the function cannot be unwound.
  Excluded are programs that pop the stack pointer or the program counter, those that do not fit the buffer of 32
  bytes, and those without an end mark whose last byte is an operand of that value.\<close>

theorem arm_exidx_step_unwinds:
  assumes table: "8 \<le> unat start" "unat start + 8 * n < 2 ^ 32"
      "\<forall>i<n. key_of m (base_addr c) start i < key_of m (base_addr c) start (Suc i)" "j < n"
      "key_of m (base_addr c) start j < pc_offest c" "pc_offest c < key_of m (base_addr c) start (Suc j)"
    and c: "exidx_start_addr c = slot start 0" "exidx_end_addr c = slot start n" "length (regs c) = NUM_REGS"
      "step_status c \<noteq> STEP_STOP" "step_status c \<noteq> STEP_PC_LR"
    and entry: "case program of
        None \<Rightarrow> load32 m (slot start j + 4) = ARM_EXIDX_CANT_UNWIND
      | Some (is, fin) \<Rightarrow>
          (let bs = concat (map enc is) @ end_bytes fin in
           unwind_code m (slot start j) bs \<and> (\<forall>ins \<in> set is. wf_insn ins) \<and>
           (length bs < 32 \<or> length bs = 32 \<and> last bs = ARM_EXTBL_OP_FINISH) \<and>
           (fin = Finish 0 \<longrightarrow> last bs \<noteq> ARM_EXTBL_OP_FINISH))"
  shows "arm_exidx_step m edata c = Some (case program of
       None \<Rightarrow> (-3, c\<lparr>step_status := STEP_STOP\<rparr>)
     | Some (is, fin) \<Rightarrow> unwound m is fin c)"
proof -
  let ?a = "slot start j"
  have s: "search_exidx_value m (exidx_start_addr c) (exidx_end_addr c) (base_addr c) (pc_offest c) = Some ?a"
    unfolding c(1,2) by (rule search_exidx_entry [OF table])
  have "unat ?a \<noteq> 0" using table(1,2,4) unat_slot [of start j] by simp
  then have nz: "?a \<noteq> 0" by auto
  show ?thesis
  proof (cases program)
    case None
    then show ?thesis using s nz entry by (simp add: arm_exidx_step_def arm_exidx_extract_def)
  next
    case (Some p)
    obtain "is" fin where p: "program = Some (is, fin)" using Some by (cases p) auto
    define bs where "bs = concat (map enc is) @ end_bytes fin"
    have e: "unwind_code m ?a bs" "\<forall>ins \<in> set is. wf_insn ins" "length bs < 32 \<or> length bs = 32 \<and> last bs = ARM_EXTBL_OP_FINISH"
        "fin = Finish 0 \<longrightarrow> last bs \<noteq> ARM_EXTBL_OP_FINISH"
      using entry by (simp_all add: p bs_def Let_def)
    have ne: "bs \<noteq> []" using e(1) by (auto simp: unwind_code_def be32_def Let_def split: if_splits)
    let ?buf = "if last bs = ARM_EXTBL_OP_FINISH then bs else bs @ [ARM_EXTBL_OP_FINISH]"
    have x: "arm_exidx_extract m c = Some (?buf, c)" by (rule extract_step [OF s nz e(1,3) ne])
    have run: "arm_exidx_step m edata c = do { (ret, c2) \<leftarrow> arm_exidx_decode m ?buf edata c;
        Some (if step_status c2 = STEP_STOP then -3 else if ret = -1 then -1 else if step_status c2 = STEP_PC_LR then -2 else 0, c2) }"
      using ne by (simp add: arm_exidx_step_def x)
    have dec: "\<exists>e'. arm_exidx_decode m (concat (map enc is) @ rest) edata c =
        arm_exidx_decode m rest e' (c\<lparr>regs := fold (exec m) is (regs c)\<rparr>)" for rest
      by (rule decode_insns) (use e(2) c(3) in \<open>simp_all add: NUM_REGS_def\<close>)
    show ?thesis
    proof (cases fin)
      case (Refuse rest)
      have "?buf = concat (map enc is) @ 0x80 # 0 # (if last bs = ARM_EXTBL_OP_FINISH then rest else rest @ [ARM_EXTBL_OP_FINISH])"
        by (simp add: bs_def Refuse del: last.simps)
      then obtain rest' where "?buf = concat (map enc is) @ 0x80 # 0 # rest'" by blast
      then show ?thesis using dec [of "0x80 # 0 # rest'"] c(4)
        by (auto simp: run p decode_refused unwound_def Refuse)
    next
      case (Finish k)
      have "\<exists>rest. ?buf = concat (map enc is) @ ARM_EXTBL_OP_FINISH # rest"
        using e(4) Finish by (cases k) (auto simp: bs_def)
      then obtain rest where "?buf = concat (map enc is) @ ARM_EXTBL_OP_FINISH # rest" by blast
      then show ?thesis using dec [of "ARM_EXTBL_OP_FINISH # rest"] c(4,5)
        by (auto simp: run p decode_finish unwound_def Finish Let_def STEP_STOP_def STEP_PC_LR_def)
    qed
  qed
qed

text \<open>An operand whose value is that of the end mark hides that there is none: the program counter is not
  set, and the step reports success.\<close>

lemma operand_hides_end:
  "arm_exidx_decode m (concat (map enc [VspAdd 0, Pop 0xb0])) e c = Some (0, c') \<Longrightarrow> length (regs c) = 17 \<Longrightarrow>
   last (concat (map enc [VspAdd 0, Pop 0xb0])) = ARM_EXTBL_OP_FINISH \<and> regs c' ! ARM_PC = regs c ! ARM_PC"
  using decode_insns [of "[VspAdd 0, Pop 0xb0]" c m "[]" e]
  by (auto simp: arm_exidx_decode.simps [of m "[]"] ARM_EXTBL_OP_FINISH_def ARM_PC_def exec_pop_def bit_iff_odd)

definition sample_cursor :: trace_cursor where
  "sample_cursor = \<lparr>regs = map of_nat [0..<17], base_addr = 0, pc_offest = 250, step_status = 0,
     exidx_start_addr = slot 16 0, exidx_end_addr = slot 16 2\<rparr>"

definition sample_edata :: arm_exbuf_data where
  "sample_edata = \<lparr>cmd = ARM_EXIDX_CMD_FINISH, data = 0\<rparr>"

text \<open>The second of two functions, at the offsets 200 to 300, adds 8 to the stack pointer and pops \<open>r4\<close> and
  \<open>lr\<close>.\<close>

definition sample_unwind :: mem where
  "sample_unwind = sample_index(28 := 0xb0, 29 := 0xa8, 30 := 0x01, 31 := 0x80)"

theorem arm_exidx_step_unwinds_witness:
  "arm_exidx_step sample_unwind sample_edata sample_cursor =
     Some (unwound sample_unwind [VspAdd 1, PopR4 0 True] (Finish 1) sample_cursor)"
proof -
  let ?m = sample_unwind
  have k: "key_of ?m 0 16 0 = 100" "key_of ?m 0 16 (Suc 0) = 200" "key_of ?m 0 16 (Suc (Suc 0)) = 300"
    by (simp_all add: exidx_key_def slot_def sample_unwind_def sample_index_def load32_def of_le32_def)
  have keys: "\<forall>i<2. key_of ?m 0 16 i < key_of ?m 0 16 (Suc i)"
  proof (intro allI impI)
    fix i :: nat assume "i < 2"
    then have "i = 0 \<or> i = Suc 0" by auto
    then show "key_of ?m 0 16 i < key_of ?m 0 16 (Suc i)" by (elim disjE) (simp_all only: k, simp_all)
  qed
  have w: "load32 ?m (slot 16 1 + 4) = 0x8001a8b0" by (simp add: load32_def of_le32_def slot_def sample_unwind_def)
  have u: "unwind_code ?m (slot 16 1) (concat (map enc [VspAdd 1, PopR4 0 True]) @ end_bytes (Finish 1))"
    unfolding unwind_code_def w by (simp add: be32_def ARM_EXTBL_OP_FINISH_def bit_iff_odd)
  have "arm_exidx_step ?m sample_edata sample_cursor =
    Some (case Some ([VspAdd 1, PopR4 0 True], Finish 1) of
       None \<Rightarrow> (-3, sample_cursor\<lparr>step_status := STEP_STOP\<rparr>)
     | Some (is, fin) \<Rightarrow> unwound ?m is fin sample_cursor)"
    by (rule arm_exidx_step_unwinds [of 16 2 ?m sample_cursor 1])
      (use keys k u in \<open>simp_all add: sample_cursor_def NUM_REGS_def STEP_STOP_def STEP_PC_LR_def\<close>)
  then show ?thesis by simp
qed

end
