(* ===== verification/Arm64Unwind.thy ===== *)
theory Arm64Unwind
  imports Leb128
begin

text \<open>
  The unwinder for 64-bit ARM, \<open>libcrash_collect/crash/stacktrace/arm64\<close>: the entries of the
  section \<open>.eh_frame\<close> (\<open>eh_frame.cpp\<close>), the instructions of call frame information (\<open>ehstep.cpp\<close>) and
  one step of the backtrace (\<open>backtrace.cpp\<close>).

  Memory is a map from 64-bit addresses to bytes; an access to an address that is not mapped, and one
  outside the array of registers, are \<open>None\<close>.  Pointers are addresses.
\<close>

section \<open>Reading memory\<close>

type_synonym mem64 = "u64 \<rightharpoonup> u8"

definition ld16 :: "mem64 \<Rightarrow> u64 \<Rightarrow> u16 option" where
  "ld16 m a = do { x \<leftarrow> m a; y \<leftarrow> m (a + 1); Some (of_le16 x y) }"

definition ld32 :: "mem64 \<Rightarrow> u64 \<Rightarrow> u32 option" where
  "ld32 m a = do { x \<leftarrow> m a; y \<leftarrow> m (a + 1); z \<leftarrow> m (a + 2); w \<leftarrow> m (a + 3); Some (of_le32 x y z w) }"

definition ld64 :: "mem64 \<Rightarrow> u64 \<Rightarrow> u64 option" where
  "ld64 m a = do { lo \<leftarrow> ld32 m a; hi \<leftarrow> ld32 m (a + 4); Some (ucast lo OR push_bit 32 (ucast hi)) }"

text \<open>The bytes that can be read from an address on; a number in LEB128 takes at most five of them.\<close>

fun avail :: "mem64 \<Rightarrow> u64 \<Rightarrow> nat \<Rightarrow> u8 list" where
  "avail m p 0 = []"
| "avail m p (Suc n) = (case m p of None \<Rightarrow> [] | Some b \<Rightarrow> b # avail m (p + 1) n)"

text \<open>\<open>read_uleb128\<close> or \<open>read_leb128\<close> and the move behind the number: the value and the new pointer.\<close>

definition uleb :: "mem64 \<Rightarrow> u64 \<Rightarrow> (u32 \<times> u64) option" where
  "uleb m p = do { (len, v) \<leftarrow> read_uleb128 (avail m p 6); Some (v, p + of_nat len) }"

definition leb :: "mem64 \<Rightarrow> u64 \<Rightarrow> (u32 \<times> u64) option" where
  "leb m p = do { (len, v) \<leftarrow> read_leb128 (avail m p 6); Some (v, p + of_nat len) }"

text \<open>A C string in memory, without its end.\<close>

partial_function (option) cstring :: "mem64 \<Rightarrow> u64 \<Rightarrow> u8 list option" where
  "cstring m p = do { b \<leftarrow> m p; if b = 0 then Some [] else do { bs \<leftarrow> cstring m (p + 1); Some (b # bs) } }"

declare cstring.simps [code]

fun has_text :: "u8 list \<Rightarrow> u8 list \<Rightarrow> bool" where
  "has_text [] t = (t = [])"
| "has_text (b # bs) t = (take (length t) (b # bs) = t \<or> has_text bs t)"

section \<open>The entries of \<open>.eh_frame\<close>\<close>

definition USE_EXTENDED_LENGTH :: u32 where "USE_EXTENDED_LENGTH = 0xFFFFFFFF"

record HDR =
  hdr_version :: u8
  eh_frame_ptr_enc :: u8
  fde_count_enc :: u8
  table_enc :: u8
  eh_frame_ptr :: u32
  fde_count :: u32
  binary_search_table :: u64
  eh_frame_addr :: u64

record CIE =
  cie_total_length :: u64
  cie_length :: u64
  CIE_ID :: u32
  cie_version :: u8
  augmentation :: u64
  en_data :: u64
  code_alignment_factor :: u32
  data_alignment_factor :: u32
  return_address_register :: u32
  cie_augmentation_data_length :: u32
  cie_augmentation_data :: u64
  initial_instructions :: u64
  cie_inst_length :: u64

record FDE =
  fde_total_length :: u64
  fde_length :: u64
  CIE_Potnter :: u32
  pc_begin :: u64
  pc_range :: u32
  fde_augmentation_data_length :: u32
  call_frame_instructions :: u64
  fde_inst_length :: u64

text \<open>\<open>memcpy\<close> takes twenty bytes, the last eight of which the next statement overwrites.\<close>

definition decode_hdr :: "mem64 \<Rightarrow> u64 \<Rightarrow> HDR option" where
  "decode_hdr m start =
     do { v \<leftarrow> m start; e1 \<leftarrow> m (start + 1); e2 \<leftarrow> m (start + 2); e3 \<leftarrow> m (start + 3);
          ptr \<leftarrow> ld32 m (start + 4);
          cnt \<leftarrow> ld32 m (start + 8);
          _ \<leftarrow> ld64 m (start + 12);
          Some \<lparr>hdr_version = v, eh_frame_ptr_enc = e1, fde_count_enc = e2, table_enc = e3, eh_frame_ptr = ptr, fde_count = cnt,
                binary_search_table = start + 20, eh_frame_addr = scast ptr + start + 4\<rparr> }"

text \<open>The length at the start of an entry: the length, the total length and the pointer behind it.\<close>

definition entry_length :: "mem64 \<Rightarrow> u64 \<Rightarrow> (u64 \<times> u64 \<times> u64) option" where
  "entry_length m p =
     do { len \<leftarrow> ld32 m p;
          if len = USE_EXTENDED_LENGTH then do { len8 \<leftarrow> ld64 m (p + 4); Some (len8, len8 + 12, p + 12) }
          else Some (ucast len, ucast len + 4, p + 4) }"

definition decode_cie :: "mem64 \<Rightarrow> u64 \<Rightarrow> CIE option" where
  "decode_cie m start =
     do { (len, total, p) \<leftarrow> entry_length m start;
          let cie_end = len + p;
          cid \<leftarrow> ld32 m p;
          ver \<leftarrow> m (p + 4);
          let aug = p + 5;
          text \<leftarrow> cstring m aug;
          let p1 = aug + of_nat (length text + 1);
          (data, p2) \<leftarrow> (if has_text text [0x7A, 0x68] then do { d \<leftarrow> ld64 m p1; Some (d, p1 + 8) } else Some (0, p1));
          (caf, p3) \<leftarrow> uleb m p2;
          (daf, p4) \<leftarrow> leb m p3;
          (ra, p5) \<leftarrow> uleb m p4;
          (alen, adata, p6) \<leftarrow> (if has_text text [0x7A] then do { (n, q) \<leftarrow> uleb m p5; Some (n, q, q + ucast n) } else Some (0, 0, p5));
          Some \<lparr>cie_total_length = total, cie_length = len, CIE_ID = cid, cie_version = ver, augmentation = aug, en_data = data,
                code_alignment_factor = caf, data_alignment_factor = daf, return_address_register = ra,
                cie_augmentation_data_length = alen, cie_augmentation_data = adata,
                initial_instructions = p6, cie_inst_length = cie_end - p6\<rparr> }"

text \<open>\<open>new FDE()\<close> sets all members to zero.  \<open>move_byte\<close> is an \<open>int\<close>.\<close>

definition no_fde :: FDE where
  "no_fde = \<lparr>fde_total_length = 0, fde_length = 0, CIE_Potnter = 0, pc_begin = 0, pc_range = 0,
             fde_augmentation_data_length = 0, call_frame_instructions = 0, fde_inst_length = 0\<rparr>"

definition decode_fde :: "mem64 \<Rightarrow> u64 \<Rightarrow> CIE \<Rightarrow> FDE option" where
  "decode_fde m start cie =
     do { (len, total, p) \<leftarrow> entry_length m start;
          if len = 0 then Some (no_fde\<lparr>fde_total_length := total, fde_length := len\<rparr>)
          else do {
            let fde_end = len + p;
            cp \<leftarrow> ld32 m p;
            rel \<leftarrow> ld32 m (p + 4);
            rng \<leftarrow> ld32 m (p + 8);
            z \<leftarrow> (if augmentation cie = 0 then Some 0 else m (augmentation cie));
            (alen, p1) \<leftarrow> (if z = 0x7A then do { (n, q) \<leftarrow> uleb m (p + 12); Some (n, p + 12 + scast (ucast (q - (p + 12)) + n)) }
                           else Some (0, p + 12));
            Some \<lparr>fde_total_length = total, fde_length = len, CIE_Potnter = cp, pc_begin = scast rel + (p + 4), pc_range = rng,
                  fde_augmentation_data_length = alen, call_frame_instructions = p1, fde_inst_length = fde_end - p1\<rparr> } }"

section \<open>The instructions of call frame information\<close>

definition DW_CFA_advance_loc :: u8 where "DW_CFA_advance_loc = 0x40"
definition DW_CFA_offset :: u8 where "DW_CFA_offset = 0x80"
definition DW_CFA_restore :: u8 where "DW_CFA_restore = 0xc0"
definition DW_CFA_nop :: u8 where "DW_CFA_nop = 0x00"
definition DW_CFA_advance_loc1 :: u8 where "DW_CFA_advance_loc1 = 0x02"
definition DW_CFA_advance_loc2 :: u8 where "DW_CFA_advance_loc2 = 0x03"
definition DW_CFA_advance_loc4 :: u8 where "DW_CFA_advance_loc4 = 0x04"
definition DW_CFA_offset_extended :: u8 where "DW_CFA_offset_extended = 0x05"
definition DW_CFA_restore_extended :: u8 where "DW_CFA_restore_extended = 0x06"
definition DW_CFA_undefined :: u8 where "DW_CFA_undefined = 0x07"
definition DW_CFA_same_value :: u8 where "DW_CFA_same_value = 0x08"
definition DW_CFA_register :: u8 where "DW_CFA_register = 0x09"
definition DW_CFA_def_cfa :: u8 where "DW_CFA_def_cfa = 0x0c"
definition DW_CFA_def_cfa_register :: u8 where "DW_CFA_def_cfa_register = 0x0d"
definition DW_CFA_def_cfa_offset :: u8 where "DW_CFA_def_cfa_offset = 0x0e"
definition DW_CFA_offset_extended_sf :: u8 where "DW_CFA_offset_extended_sf = 0x11"
definition DW_CFA_def_cfa_sf :: u8 where "DW_CFA_def_cfa_sf = 0x12"
definition DW_CFA_def_cfa_offset_sf :: u8 where "DW_CFA_def_cfa_offset_sf = 0x13"
definition DW_CFA_val_offset :: u8 where "DW_CFA_val_offset = 0x14"
definition DW_CFA_val_offset_sf :: u8 where "DW_CFA_val_offset_sf = 0x15"

definition ARM64_SP :: nat where "ARM64_SP = 31"
definition ARM64_PC :: nat where "ARM64_PC = 32"
definition NUM_REGS64 :: nat where "NUM_REGS64 = 33"

record dwarf_frame =
  frame_regs :: "u64 list"
  frame_cie :: CIE
  cfa :: u64
  cfa_pc :: u64
  cfa_register :: u32
  cfa_offset :: u64

definition reg :: "dwarf_frame \<Rightarrow> u32 \<Rightarrow> u64 option" where
  "reg f r = aget (frame_regs f) (unat r)"

definition set_reg :: "u32 \<Rightarrow> u64 \<Rightarrow> dwarf_frame \<Rightarrow> dwarf_frame option" where
  "set_reg r v f = do { rs \<leftarrow> aset (frame_regs f) (unat r) v; Some (f\<lparr>frame_regs := rs\<rparr>) }"

definition advance :: "u32 \<Rightarrow> dwarf_frame \<Rightarrow> dwarf_frame" where
  "advance delta f = f\<lparr>cfa_pc := cfa_pc f + ucast (delta * code_alignment_factor (frame_cie f))\<rparr>"

text \<open>\<open>(int64_t) n * data_alignment_factor\<close>, and the product of two \<open>int\<close>s, which must not overflow.\<close>

definition factored :: "dwarf_frame \<Rightarrow> u32 \<Rightarrow> u64" where
  "factored f n = ucast n * scast (data_alignment_factor (frame_cie f))"

definition factored_sf :: "dwarf_frame \<Rightarrow> u32 \<Rightarrow> u64 option" where
  "factored_sf f n =
     (let x = sint n * sint (data_alignment_factor (frame_cie f))
      in if - (2 ^ 31) \<le> x \<and> x < 2 ^ 31 then Some (of_int x) else None)"

definition set_cfa :: "dwarf_frame \<Rightarrow> dwarf_frame option" where
  "set_cfa f = do { v \<leftarrow> reg f (cfa_register f); Some (f\<lparr>cfa := v + cfa_offset f\<rparr>) }"

text \<open>One instruction other than \<open>DW_CFA_nop\<close>; \<open>p\<close> is the pointer behind the byte \<open>op\<close>.\<close>

definition cfa_insn :: "mem64 \<Rightarrow> u8 \<Rightarrow> u64 \<Rightarrow> dwarf_frame \<Rightarrow> (u64 \<times> dwarf_frame) option" where
  "cfa_insn m op p f =
     (if op AND 0xc0 = DW_CFA_advance_loc then Some (p, advance (ucast (op AND 0x3f)) f)
      else if op AND 0xc0 = DW_CFA_offset then
        do { (n, p1) \<leftarrow> uleb m p; v \<leftarrow> ld64 m (cfa f + factored f n); f1 \<leftarrow> set_reg (ucast (op AND 0x3f)) v f; Some (p1, f1) }
      else if op AND 0xc0 = DW_CFA_restore then Some (p, f)
      else if op = DW_CFA_advance_loc1 then do { d \<leftarrow> m p; Some (p + 1, advance (ucast d) f) }
      else if op = DW_CFA_advance_loc2 then do { d \<leftarrow> ld16 m p; Some (p + 2, advance (ucast d) f) }
      else if op = DW_CFA_advance_loc4 then do { d \<leftarrow> ld32 m p; Some (p + 4, advance d f) }
      else if op = DW_CFA_offset_extended then
        do { (r, p1) \<leftarrow> uleb m p; (n, p2) \<leftarrow> uleb m p1; v \<leftarrow> ld64 m (cfa f + factored f n); f1 \<leftarrow> set_reg r v f; Some (p2, f1) }
      else if op = DW_CFA_restore_extended \<or> op = DW_CFA_undefined \<or> op = DW_CFA_same_value then
        do { (r, p1) \<leftarrow> uleb m p; Some (p1, f) }
      else if op = DW_CFA_register then
        do { (r, p1) \<leftarrow> uleb m p; (r', p2) \<leftarrow> uleb m p1; v \<leftarrow> reg f r'; f1 \<leftarrow> set_reg r v f; Some (p2, f1) }
      else if op = DW_CFA_def_cfa then
        do { (r, p1) \<leftarrow> uleb m p; (n, p2) \<leftarrow> uleb m p1; f1 \<leftarrow> set_cfa (f\<lparr>cfa_register := r, cfa_offset := ucast n\<rparr>); Some (p2, f1) }
      else if op = DW_CFA_def_cfa_register then do { (r, p1) \<leftarrow> uleb m p; Some (p1, f\<lparr>cfa_register := r\<rparr>) }
      else if op = DW_CFA_def_cfa_offset then
        do { (n, p1) \<leftarrow> uleb m p; f1 \<leftarrow> set_cfa (f\<lparr>cfa_offset := ucast n\<rparr>); Some (p1, f1) }
      else if op = DW_CFA_offset_extended_sf then
        do { (r, p1) \<leftarrow> uleb m p; (n, p2) \<leftarrow> leb m p1; d \<leftarrow> factored_sf f n; v \<leftarrow> ld64 m (cfa f + d); f1 \<leftarrow> set_reg r v f; Some (p2, f1) }
      else if op = DW_CFA_def_cfa_sf then
        do { (r, p1) \<leftarrow> uleb m p; (n, p2) \<leftarrow> leb m p1; d \<leftarrow> factored_sf f n;
             f1 \<leftarrow> set_cfa (f\<lparr>cfa_register := r, cfa_offset := d\<rparr>); Some (p2, f1) }
      else if op = DW_CFA_def_cfa_offset_sf then
        do { (n, p1) \<leftarrow> leb m p; d \<leftarrow> factored_sf f n; f1 \<leftarrow> set_cfa (f\<lparr>cfa_offset := d\<rparr>); Some (p1, f1) }
      else if op = DW_CFA_val_offset then
        do { (r, p1) \<leftarrow> uleb m p; (n, p2) \<leftarrow> uleb m p1; f1 \<leftarrow> set_reg r (cfa f + factored f n) f; Some (p2, f1) }
      else if op = DW_CFA_val_offset_sf then
        do { (r, p1) \<leftarrow> uleb m p; (n, p2) \<leftarrow> leb m p1; d \<leftarrow> factored_sf f n; f1 \<leftarrow> set_reg r (cfa f + d) f; Some (p2, f1) }
      else Some (p, f))"

text \<open>What happens at the end and at a \<open>DW_CFA_nop\<close>.\<close>

definition return_pc :: "dwarf_frame \<Rightarrow> dwarf_frame option" where
  "return_pc f = do { v \<leftarrow> reg f (return_address_register (frame_cie f)); set_reg (of_nat ARM64_PC) (v - 4) f }"

partial_function (option) execute_insns :: "mem64 \<Rightarrow> u64 \<Rightarrow> u64 \<Rightarrow> dwarf_frame \<Rightarrow> dwarf_frame option" where
  "execute_insns m p insn_end f =
     do { pc \<leftarrow> reg f (of_nat ARM64_PC);
          if p < insn_end \<and> cfa_pc f \<le> pc then
            do { op \<leftarrow> m p;
                 if op = DW_CFA_nop then return_pc f
                 else do { (p', f') \<leftarrow> cfa_insn m op (p + 1) f; execute_insns m p' insn_end f' } }
          else return_pc f }"

declare execute_insns.simps [code]

section \<open>One step of the backtrace\<close>

definition PT_GNU_EH_FRAME :: u32 where "PT_GNU_EH_FRAME = 0x6474e550"

text \<open>The loop over the program headers, from the last one down; without a hit the pointer stays at the first.\<close>

fun find_phdr64 :: "mem64 \<Rightarrow> u64 \<Rightarrow> nat \<Rightarrow> u64 option" where
  "find_phdr64 m ph 0 = Some ph"
| "find_phdr64 m ph (Suc i) =
     do { t \<leftarrow> ld32 m (ph + 56 * of_nat i); if t = PT_GNU_EH_FRAME then Some (ph + 56 * of_nat i) else find_phdr64 m ph i }"

partial_function (option) find_fde :: "mem64 \<Rightarrow> u64 \<Rightarrow> u64 \<Rightarrow> CIE \<Rightarrow> u64 \<Rightarrow> FDE option option" where
  "find_fde m eh_frame_start offest cie pc =
     do { fde \<leftarrow> decode_fde m (eh_frame_start + offest) cie;
          if fde_length fde = 0 then Some None
          else if pc < pc_begin fde + ucast (pc_range fde) \<and> pc \<ge> pc_begin fde then Some (Some fde)
          else find_fde m eh_frame_start (offest + fde_total_length fde) cie pc }"

declare find_fde.simps [code]

text \<open>The registers after the programs of the two entries.  \<open>new dwarf_frame()\<close> sets the members to zero.\<close>

definition run_frame :: "mem64 \<Rightarrow> CIE \<Rightarrow> FDE \<Rightarrow> u64 list \<Rightarrow> u64 list option" where
  "run_frame m cie fde rs =
     do { let f0 = \<lparr>frame_regs = rs, frame_cie = cie, cfa = 0, cfa_pc = pc_begin fde, cfa_register = 0, cfa_offset = 0\<rparr>;
          f1 \<leftarrow> execute_insns m (initial_instructions cie) (initial_instructions cie + cie_inst_length cie) f0;
          f2 \<leftarrow> execute_insns m (call_frame_instructions fde) (call_frame_instructions fde + fde_inst_length fde) f1;
          Some (frame_regs f2) }"

text \<open>\<open>dladdr\<close> is the answer of the system: the name of the file, if there is one, and its base.  The result is
  \<open>-1\<close> or \<open>1\<close> with the registers of the signal context, in which \<open>pc\<close> follows the stack pointer.\<close>

definition step64 :: "(u64 \<Rightarrow> u8 list option \<times> u64) \<Rightarrow> mem64 \<Rightarrow> u64 list \<Rightarrow> (int \<times> u64 list) option" where
  "step64 dladdr m rs =
     do { pc \<leftarrow> aget rs ARM64_PC;
          case dladdr pc of
            (None, _) \<Rightarrow> Some (- 1, rs)
          | (Some dli_fname, dli_fbase) \<Rightarrow>
              if has_text dli_fname [0x2E, 0x6F, 0x64, 0x65, 0x78] then Some (- 1, rs)
              else do {
                e_phoff \<leftarrow> ld64 m (dli_fbase + 32);
                e_phnum \<leftarrow> ld16 m (dli_fbase + 56);
                ph \<leftarrow> find_phdr64 m (dli_fbase + e_phoff) (unat e_phnum);
                p_type \<leftarrow> ld32 m ph;
                if p_type \<noteq> PT_GNU_EH_FRAME then Some (- 1, rs)
                else do {
                  p_paddr \<leftarrow> ld64 m (ph + 24);
                  hdr \<leftarrow> decode_hdr m (p_paddr + dli_fbase);
                  cie \<leftarrow> decode_cie m (eh_frame_addr hdr);
                  r \<leftarrow> find_fde m (eh_frame_addr hdr) (cie_total_length cie) cie pc;
                  case r of
                    None \<Rightarrow> Some (- 1, rs)
                  | Some fde \<Rightarrow> do { rs' \<leftarrow> run_frame m cie fde rs; Some (1, rs') } } } }"

section \<open>Numbers and instructions as bytes in memory\<close>

fun text_at :: "mem64 \<Rightarrow> u64 \<Rightarrow> u8 list \<Rightarrow> bool" where
  "text_at m p [] \<longleftrightarrow> True"
| "text_at m p (b # bs) \<longleftrightarrow> m p = Some b \<and> text_at m (p + 1) bs"

fun uleb_bytes :: "nat \<Rightarrow> u8 list" where
  "uleb_bytes n = (if n < 128 then [of_nat n] else of_nat (n mod 128 + 128) # uleb_bytes (n div 128))"

declare uleb_bytes.simps [simp del]

lemma text_at_append: "text_at m p (xs @ ys) \<longleftrightarrow> text_at m p xs \<and> text_at m (p + of_nat (length xs)) ys"
  by (induction xs arbitrary: p) (simp_all add: ac_simps)

lemma avail_text: "text_at m p bs \<Longrightarrow> length bs \<le> n \<Longrightarrow> \<exists>rest. avail m p n = bs @ rest"
proof (induction bs arbitrary: p n)
  case (Cons b bs)
  then show ?case by (cases n) auto
qed simp

lemma low_byte:
  assumes "n < 256"
  shows "unat (of_nat n :: u8) = n" "payload (of_nat n) = n mod 128" "(of_nat n :: u8) AND 0x80 = 0 \<longleftrightarrow> n < 128"
proof -
  show u: "unat (of_nat n :: u8) = n" using assms by (simp add: unat_of_nat take_bit_nat_eq_self)
  have "(of_nat n :: u8) AND 0x7F = of_nat (take_bit 7 n)"
    by (simp only: take_bit_of_nat [symmetric]) (simp add: take_bit_eq_mask mask_eq_exp_minus_1)
  then show "payload (of_nat n) = n mod 128"
    using assms by (simp add: payload_def unat_of_nat take_bit_eq_mod)
  have "(0x80 :: u8) = push_bit 7 1" by simp
  then have "(of_nat n :: u8) AND 0x80 = 0 \<longleftrightarrow> \<not> bit (of_nat n :: u8) 7" by (metis and_exp_eq_0_iff_not_bit push_bit_of_1)
  also have "\<dots> \<longleftrightarrow> n < 128"
    using assms by (simp add: bit_simps) (auto simp: bit_iff_odd div_if)
  finally show "(of_nat n :: u8) AND 0x80 = 0 \<longleftrightarrow> n < 128" .
qed

lemma uleb_bytes_split:
  "\<exists>ms l. leb_split (uleb_bytes n @ rest) = Some (ms, l) \<and> uleb_bytes n = ms @ [l] \<and> leb_value (ms @ [l]) = n"
proof (induction n rule: uleb_bytes.induct)
  case (1 n)
  show ?case
  proof (cases "n < 128")
    case True
    then show ?thesis using low_byte [of n] by (simp add: uleb_bytes.simps [of n])
  next
    case False
    then obtain ms l where "leb_split (uleb_bytes (n div 128) @ rest) = Some (ms, l)" "uleb_bytes (n div 128) = ms @ [l]"
      "leb_value (ms @ [l]) = n div 128"
      using 1 by auto
    moreover have "n mod 128 + 128 < 256" by (simp add: mod_less_divisor [THEN order.strict_trans2])
    ultimately show ?thesis
      using False low_byte [of "n mod 128 + 128"] by (auto simp: uleb_bytes.simps [of n] intro!: exI [of _ "_ # ms"])
  qed
qed

lemma length_uleb_bytes: "n < 128 ^ k \<Longrightarrow> 0 < k \<Longrightarrow> length (uleb_bytes n) \<le> k"
proof (induction k arbitrary: n)
  case (Suc k)
  show ?case
  proof (cases "n < 128")
    case False
    then have "0 < k" using Suc.prems(1) by (cases k) auto
    moreover have "n div 128 < 128 ^ k" using Suc.prems(1) by (simp add: less_mult_imp_div_less mult.commute)
    ultimately show ?thesis using Suc.IH False by (simp add: uleb_bytes.simps [of n])
  qed (simp add: uleb_bytes.simps [of n])
qed simp

lemma uleb_read:
  assumes "text_at m p (uleb_bytes n)" "n < 2 ^ 32"
  shows "uleb m p = Some (of_nat n, p + of_nat (length (uleb_bytes n)))"
proof -
  have "length (uleb_bytes n) \<le> 5" using assms(2) by (intro length_uleb_bytes) simp_all
  then obtain rest where av: "avail m p 6 = uleb_bytes n @ rest" using avail_text [OF assms(1), of 6] by auto
  obtain ms l where "leb_split (uleb_bytes n @ rest) = Some (ms, l)" "uleb_bytes n = ms @ [l]" "leb_value (ms @ [l]) = n"
    using uleb_bytes_split by blast
  with \<open>length (uleb_bytes n) \<le> 5\<close> assms(2) have "read_uleb128 (avail m p 6) = Some (length (uleb_bytes n), of_nat n)"
    unfolding av read_uleb128_def uleb_loop_leb_loop using leb_loop_exact [of 0 0 "uleb_bytes n @ rest"] by (simp add: Let_def)
  then show ?thesis by (simp add: uleb_def)
qed

datatype cfi =
    Advance nat | Advance1 nat | Advance2 nat | Advance4 nat
  | Offset nat nat | Offset_extended nat nat | Same_value nat | Undefined nat
  | Def_cfa nat nat | Def_cfa_register nat | Def_cfa_offset nat

fun wf_cfi :: "cfi \<Rightarrow> bool" where
  "wf_cfi (Advance d) \<longleftrightarrow> d < 64"
| "wf_cfi (Advance1 d) \<longleftrightarrow> d < 2 ^ 8"
| "wf_cfi (Advance2 d) \<longleftrightarrow> d < 2 ^ 16"
| "wf_cfi (Advance4 d) \<longleftrightarrow> d < 2 ^ 32"
| "wf_cfi (Offset r n) \<longleftrightarrow> r < 64 \<and> n < 2 ^ 32"
| "wf_cfi (Offset_extended r n) \<longleftrightarrow> r < 2 ^ 32 \<and> n < 2 ^ 32"
| "wf_cfi (Same_value r) \<longleftrightarrow> r < 2 ^ 32"
| "wf_cfi (Undefined r) \<longleftrightarrow> r < 2 ^ 32"
| "wf_cfi (Def_cfa r n) \<longleftrightarrow> r < 2 ^ 32 \<and> n < 2 ^ 32"
| "wf_cfi (Def_cfa_register r) \<longleftrightarrow> r < 2 ^ 32"
| "wf_cfi (Def_cfa_offset n) \<longleftrightarrow> n < 2 ^ 32"

fun cfi_bytes :: "cfi \<Rightarrow> u8 list" where
  "cfi_bytes (Advance d) = [of_nat (64 + d)]"
| "cfi_bytes (Advance1 d) = [DW_CFA_advance_loc1, of_nat d]"
| "cfi_bytes (Advance2 d) = DW_CFA_advance_loc2 # le16 (of_nat d)"
| "cfi_bytes (Advance4 d) = DW_CFA_advance_loc4 # le32 (of_nat d)"
| "cfi_bytes (Offset r n) = of_nat (128 + r) # uleb_bytes n"
| "cfi_bytes (Offset_extended r n) = DW_CFA_offset_extended # uleb_bytes r @ uleb_bytes n"
| "cfi_bytes (Same_value r) = DW_CFA_same_value # uleb_bytes r"
| "cfi_bytes (Undefined r) = DW_CFA_undefined # uleb_bytes r"
| "cfi_bytes (Def_cfa r n) = DW_CFA_def_cfa # uleb_bytes r @ uleb_bytes n"
| "cfi_bytes (Def_cfa_register r) = DW_CFA_def_cfa_register # uleb_bytes r"
| "cfi_bytes (Def_cfa_offset n) = DW_CFA_def_cfa_offset # uleb_bytes n"

text \<open>What \<open>cfa_insn\<close> makes of an instruction.\<close>

definition load_reg :: "mem64 \<Rightarrow> nat \<Rightarrow> nat \<Rightarrow> dwarf_frame \<Rightarrow> dwarf_frame option" where
  "load_reg m r n f = do { v \<leftarrow> ld64 m (cfa f + factored f (of_nat n)); set_reg (of_nat r) v f }"

fun exec_cfi :: "mem64 \<Rightarrow> cfi \<Rightarrow> dwarf_frame \<Rightarrow> dwarf_frame option" where
  "exec_cfi m (Advance d) f = Some (advance (of_nat d) f)"
| "exec_cfi m (Advance1 d) f = Some (advance (of_nat d) f)"
| "exec_cfi m (Advance2 d) f = Some (advance (of_nat d) f)"
| "exec_cfi m (Advance4 d) f = Some (advance (of_nat d) f)"
| "exec_cfi m (Offset r n) f = load_reg m r n f"
| "exec_cfi m (Offset_extended r n) f = load_reg m r n f"
| "exec_cfi m (Same_value r) f = Some f"
| "exec_cfi m (Undefined r) f = Some f"
| "exec_cfi m (Def_cfa r n) f = set_cfa (f\<lparr>cfa_register := of_nat r, cfa_offset := of_nat n\<rparr>)"
| "exec_cfi m (Def_cfa_register r) f = Some (f\<lparr>cfa_register := of_nat r\<rparr>)"
| "exec_cfi m (Def_cfa_offset n) f = set_cfa (f\<lparr>cfa_offset := of_nat n\<rparr>)"

lemmas dw_ops = DW_CFA_advance_loc_def DW_CFA_offset_def DW_CFA_restore_def DW_CFA_nop_def DW_CFA_advance_loc1_def
  DW_CFA_advance_loc2_def DW_CFA_advance_loc4_def DW_CFA_offset_extended_def DW_CFA_restore_extended_def DW_CFA_undefined_def
  DW_CFA_same_value_def DW_CFA_register_def DW_CFA_def_cfa_def DW_CFA_def_cfa_register_def DW_CFA_def_cfa_offset_def

lemma op_fields:
  "\<forall>r \<in> set [0..<64]. (of_nat (64 + r) :: u8) AND 0xc0 = 0x40 \<and> (of_nat (128 + r) :: u8) AND 0xc0 = 0x80 \<and>
    (ucast ((of_nat (64 + r) :: u8) AND 0x3f) :: u32) = of_nat r \<and> (ucast ((of_nat (128 + r) :: u8) AND 0x3f) :: u32) = of_nat r \<and>
    (of_nat (64 + r) :: u8) \<noteq> 0 \<and> (of_nat (128 + r) :: u8) \<noteq> 0"
  by code_simp

lemma op_field:
  assumes "r < 64"
  shows "(64 + of_nat r :: u8) AND 0xc0 = 0x40" "(128 + of_nat r :: u8) AND 0xc0 = 0x80"
    "(ucast ((64 + of_nat r :: u8) AND 0x3f) :: u32) = of_nat r" "(ucast ((128 + of_nat r :: u8) AND 0x3f) :: u32) = of_nat r"
    "(64 + of_nat r :: u8) \<noteq> 0" "(128 + of_nat r :: u8) \<noteq> 0"
  using op_fields assms by (simp_all del: set_upt add: Ball_def) auto

lemma ucast_of_nat: "n < 2 ^ 32 \<Longrightarrow> (ucast (of_nat n :: u32) :: u64) = of_nat n"
  by (rule word_unat_eq_iff [THEN iffD2]) (simp add: unsigned_ucast_eq unat_of_nat take_bit_nat_eq_self)

lemma narrow_of_nat:
  "n < 2 ^ 8 \<Longrightarrow> (ucast (of_nat n :: u8) :: u32) = of_nat n"
  "n < 2 ^ 16 \<Longrightarrow> (ucast (of_nat n :: u16) :: u32) = of_nat n"
  by (rule word_unat_eq_iff [THEN iffD2], simp add: unsigned_ucast_eq unat_of_nat take_bit_nat_eq_self)+

lemma ld_text:
  "text_at m p (le16 v) \<Longrightarrow> ld16 m p = Some v" "text_at m p (le32 w) \<Longrightarrow> ld32 m p = Some w"
  by (simp_all add: ld16_def ld32_def le16_def le32_def ac_simps)

lemma cfa_insn_bytes:
  assumes "text_at m p (cfi_bytes i)" "wf_cfi i"
  shows "\<exists>op. m p = Some op \<and> op \<noteq> DW_CFA_nop \<and>
    cfa_insn m op (p + 1) f = map_option (\<lambda>f'. (p + of_nat (length (cfi_bytes i)), f')) (exec_cfi m i f)"
proof (cases i)
  case (Advance d)
  with assms show ?thesis by (auto simp: cfa_insn_def dw_ops op_field)
next
  case (Advance1 d)
  with assms show ?thesis by (auto simp: cfa_insn_def dw_ops narrow_of_nat)
next
  case (Advance2 d)
  with assms show ?thesis by (auto simp: cfa_insn_def dw_ops narrow_of_nat dest!: ld_text)
next
  case (Advance4 d)
  with assms show ?thesis by (auto simp: cfa_insn_def dw_ops dest!: ld_text)
next
  case (Offset r n)
  with assms have "uleb m (p + 1) = Some (of_nat n, p + 1 + of_nat (length (uleb_bytes n)))" by (intro uleb_read) simp_all
  with Offset assms show ?thesis
    by (cases "ld64 m (cfa f + factored f (of_nat n))"; cases "set_reg (of_nat r) (the (ld64 m (cfa f + factored f (of_nat n)))) f")
      (simp_all add: cfa_insn_def dw_ops op_field load_reg_def add.assoc)
next
  case (Offset_extended r n)
  with assms have "uleb m (p + 1) = Some (of_nat r, p + 1 + of_nat (length (uleb_bytes r)))"
    "uleb m (p + 1 + of_nat (length (uleb_bytes r))) = Some (of_nat n, p + 1 + of_nat (length (uleb_bytes r)) + of_nat (length (uleb_bytes n)))"
    by (auto intro!: uleb_read simp: text_at_append)
  with Offset_extended assms show ?thesis
    by (cases "ld64 m (cfa f + factored f (of_nat n))"; cases "set_reg (of_nat r) (the (ld64 m (cfa f + factored f (of_nat n)))) f")
      (simp_all add: cfa_insn_def dw_ops load_reg_def add.assoc)
next
  case (Same_value r)
  with assms have "uleb m (p + 1) = Some (of_nat r, p + 1 + of_nat (length (uleb_bytes r)))" by (intro uleb_read) simp_all
  with Same_value assms show ?thesis by (simp add: cfa_insn_def dw_ops add.assoc)
next
  case (Undefined r)
  with assms have "uleb m (p + 1) = Some (of_nat r, p + 1 + of_nat (length (uleb_bytes r)))" by (intro uleb_read) simp_all
  with Undefined assms show ?thesis by (simp add: cfa_insn_def dw_ops add.assoc)
next
  case (Def_cfa r n)
  with assms have "uleb m (p + 1) = Some (of_nat r, p + 1 + of_nat (length (uleb_bytes r)))"
    "uleb m (p + 1 + of_nat (length (uleb_bytes r))) = Some (of_nat n, p + 1 + of_nat (length (uleb_bytes r)) + of_nat (length (uleb_bytes n)))"
    by (auto intro!: uleb_read simp: text_at_append)
  with Def_cfa assms show ?thesis
    by (cases "set_cfa (f\<lparr>cfa_register := of_nat r, cfa_offset := of_nat n\<rparr>)") (simp_all add: cfa_insn_def dw_ops ucast_of_nat add.assoc)
next
  case (Def_cfa_register r)
  with assms have "uleb m (p + 1) = Some (of_nat r, p + 1 + of_nat (length (uleb_bytes r)))" by (intro uleb_read) simp_all
  with Def_cfa_register assms show ?thesis by (simp add: cfa_insn_def dw_ops add.assoc)
next
  case (Def_cfa_offset n)
  with assms have "uleb m (p + 1) = Some (of_nat n, p + 1 + of_nat (length (uleb_bytes n)))" by (intro uleb_read) simp_all
  with Def_cfa_offset assms show ?thesis
    by (cases "set_cfa (f\<lparr>cfa_offset := of_nat n\<rparr>)") (simp_all add: cfa_insn_def dw_ops ucast_of_nat add.assoc)
qed

section \<open>Running a program\<close>

text \<open>The loop on instructions instead of bytes.\<close>

fun run_cfi :: "mem64 \<Rightarrow> cfi list \<Rightarrow> dwarf_frame \<Rightarrow> dwarf_frame option" where
  "run_cfi m [] f = return_pc f"
| "run_cfi m (i # is) f =
     do { pc \<leftarrow> reg f (of_nat ARM64_PC);
          if cfa_pc f \<le> pc then do { f' \<leftarrow> exec_cfi m i f; run_cfi m is f' } else return_pc f }"

lemma length_regs:
  assumes "exec_cfi m i f = Some f'"
  shows "length (frame_regs f') = length (frame_regs f)" "frame_cie f' = frame_cie f"
  using assms
  by (cases i; force simp: advance_def load_reg_def set_reg_def set_cfa_def aset_eq_Some bind_eq_Some_conv)+

lemma cfi_bytes_nonempty: "0 < length (cfi_bytes i)"
  by (cases i) (simp_all add: le16_def le32_def)

lemma below_end:
  fixes p :: u64
  assumes "unat p + n < 2 ^ 64" "k \<le> n"
  shows "unat (p + of_nat k) = unat p + k" "p < p + of_nat n \<longleftrightarrow> 0 < n"
proof -
  have u: "unat (p + of_nat j) = unat p + j" if "j \<le> n" for j
    using assms(1) that by (simp add: unat_word_ariths unat_of_nat take_bit_nat_eq_self)
  show "unat (p + of_nat k) = unat p + k" by (rule u [OF assms(2)])
  show "p < p + of_nat n \<longleftrightarrow> 0 < n" using u [of n] by (simp add: word_less_nat_alt)
qed

lemma execute_insns_run:
  assumes "text_at m p (concat (map cfi_bytes is) @ replicate k 0)" "\<forall>i \<in> set is. wf_cfi i"
    "unat p + length (concat (map cfi_bytes is)) + k < 2 ^ 64" "length (frame_regs f) = 33"
  shows "execute_insns m p (p + of_nat (length (concat (map cfi_bytes is)) + k)) f = run_cfi m is f"
  using assms
proof (induction "is" arbitrary: p f)
  case Nil
  have r: "reg f (of_nat ARM64_PC) = Some (frame_regs f ! 32)" using Nil.prems(4) by (simp add: reg_def ARM64_PC_def)
  show ?case
  proof (cases k)
    case 0
    then show ?thesis by (subst execute_insns.simps) (simp add: r)
  next
    case (Suc j)
    then have "m p = Some 0" using Nil.prems(1) by simp
    then show ?thesis by (subst execute_insns.simps) (simp add: r DW_CFA_nop_def)
  qed
next
  case (Cons i "is")
  define n where "n = length (cfi_bytes i)"
  define l where "l = length (concat (map cfi_bytes is)) + k"
  have len: "length (concat (map cfi_bytes (i # is))) + k = n + l" by (simp add: n_def l_def)
  have t: "text_at m p (cfi_bytes i)" "text_at m (p + of_nat n) (concat (map cfi_bytes is) @ replicate k 0)"
    using Cons.prems(1) by (simp_all add: text_at_append n_def)
  obtain op where op: "m p = Some op" "op \<noteq> DW_CFA_nop"
    "cfa_insn m op (p + 1) f = map_option (\<lambda>f'. (p + of_nat n, f')) (exec_cfi m i f)"
    using cfa_insn_bytes [OF t(1), of f] Cons.prems(2) by (auto simp: n_def)
  have r: "reg f (of_nat ARM64_PC) = Some (frame_regs f ! 32)" using Cons.prems(4) by (simp add: reg_def ARM64_PC_def)
  have b: "unat p + (n + l) < 2 ^ 64" using Cons.prems(3) by (simp add: n_def l_def)
  have lt: "p < p + of_nat (n + l)" using below_end(2) [OF b order_refl] cfi_bytes_nonempty [of i] by (simp add: n_def)
  have e: "p + of_nat (n + l) = (p + of_nat n) + of_nat l" by simp
  have "execute_insns m (p + of_nat n) (p + of_nat (n + l)) f' = run_cfi m is f'" if "exec_cfi m i f = Some f'" for f'
    unfolding e l_def
    using Cons.IH [of "p + of_nat n" f'] t(2) Cons.prems(2,4) b below_end(1) [OF b, of n] length_regs(1) [OF that]
    by (simp add: l_def add.assoc)
  then show ?case
    unfolding len using lt op r by (subst execute_insns.simps) (cases "exec_cfi m i f"; simp)
qed

section \<open>The table of call frame information\<close>

text \<open>DWARF reads a program as the description of a table.  A row gives the register and the offset of the
  canonical frame address (CFA) and for each saved register the factored offset from the CFA at which its value
  in the caller is found.\<close>

record cfi_row =
  row_reg :: nat
  row_off :: nat
  row_saved :: "nat \<rightharpoonup> nat"

fun row_step :: "cfi \<Rightarrow> cfi_row \<Rightarrow> cfi_row" where
  "row_step (Offset r n) R = R\<lparr>row_saved := (row_saved R)(r \<mapsto> n)\<rparr>"
| "row_step (Offset_extended r n) R = R\<lparr>row_saved := (row_saved R)(r \<mapsto> n)\<rparr>"
| "row_step (Same_value r) R = R\<lparr>row_saved := (row_saved R)(r := None)\<rparr>"
| "row_step (Undefined r) R = R\<lparr>row_saved := (row_saved R)(r := None)\<rparr>"
| "row_step (Def_cfa r n) R = R\<lparr>row_reg := r, row_off := n\<rparr>"
| "row_step (Def_cfa_register r) R = R\<lparr>row_reg := r\<rparr>"
| "row_step (Def_cfa_offset n) R = R\<lparr>row_off := n\<rparr>"
| "row_step _ R = R"

fun delta :: "cfi \<Rightarrow> nat" where
  "delta (Advance d) = d"
| "delta (Advance1 d) = d"
| "delta (Advance2 d) = d"
| "delta (Advance4 d) = d"
| "delta _ = 0"

text \<open>The instructions up to the row for the address \<open>pc\<close>.\<close>

fun upto_pc :: "u32 \<Rightarrow> u64 \<Rightarrow> cfi list \<Rightarrow> u64 \<Rightarrow> cfi list" where
  "upto_pc caf pc [] loc = []"
| "upto_pc caf pc (i # is) loc = (if loc \<le> pc then i # upto_pc caf pc is (loc + ucast (of_nat (delta i) * caf)) else [])"

definition row_cfa :: "u64 list \<Rightarrow> cfi_row \<Rightarrow> u64" where
  "row_cfa rs R = rs ! row_reg R + of_nat (row_off R)"

definition saved_at :: "u32 \<Rightarrow> u64 list \<Rightarrow> cfi_row \<Rightarrow> nat \<Rightarrow> u64" where
  "saved_at daf rs R n = row_cfa rs R + of_nat n * scast daf"

definition caller_reg :: "mem64 \<Rightarrow> u32 \<Rightarrow> u64 list \<Rightarrow> cfi_row \<Rightarrow> nat \<Rightarrow> u64" where
  "caller_reg m daf rs R r = (case row_saved R r of None \<Rightarrow> rs ! r | Some n \<Rightarrow> the (ld64 m (saved_at daf rs R n)))"

fun saves :: "cfi \<Rightarrow> (nat \<times> nat) option" where
  "saves (Offset r n) = Some (r, n)"
| "saves (Offset_extended r n) = Some (r, n)"
| "saves _ = None"

text \<open>The programs on which the code, which loads a register as soon as it reads where it is saved, agrees with the
  table: the CFA is settled before the first register is saved, a new register for the CFA has the value of the
  old one, and a saved register is not declared unsaved again.\<close>

fun settled :: "u64 list \<Rightarrow> bool \<Rightarrow> cfi_row \<Rightarrow> cfi list \<Rightarrow> bool" where
  "settled rs seen R [] \<longleftrightarrow> True"
| "settled rs seen R (i # is) \<longleftrightarrow>
     (case i of
        Def_cfa r n \<Rightarrow> \<not> seen \<and> r < 33
      | Def_cfa_offset n \<Rightarrow> \<not> seen
      | Def_cfa_register r \<Rightarrow> r < 33 \<and> rs ! r = rs ! row_reg R
      | Offset r n \<Rightarrow> r < 32
      | Offset_extended r n \<Rightarrow> r < 32
      | Same_value r \<Rightarrow> row_saved R r = None
      | Undefined r \<Rightarrow> row_saved R r = None
      | _ \<Rightarrow> True) \<and> settled rs (seen \<or> saves i \<noteq> None) (row_step i R) is"

definition row_frame :: "mem64 \<Rightarrow> u64 list \<Rightarrow> cfi_row \<Rightarrow> dwarf_frame \<Rightarrow> bool" where
  "row_frame m rs R f \<longleftrightarrow> length rs = 33 \<and> row_reg R < 33 \<and> row_off R < 2 ^ 32 \<and>
     cfa_register f = of_nat (row_reg R) \<and> cfa_offset f = of_nat (row_off R) \<and> cfa f = row_cfa rs R \<and>
     (\<forall>n. row_saved R 32 \<noteq> Some n) \<and>
     frame_regs f = map (caller_reg m (data_alignment_factor (frame_cie f)) rs R) [0..<33]"

lemma settled_cfa: "settled rs True R is \<Longrightarrow> row_cfa rs (fold row_step is R) = row_cfa rs R"
proof (induction "is" arbitrary: R)
  case (Cons i "is")
  have "row_cfa rs (row_step i R) = row_cfa rs R" using Cons.prems by (cases i) (simp_all add: row_cfa_def)
  with Cons show ?case by simp
qed simp

lemma row_frame_facts:
  assumes "row_frame m rs R f"
  shows "length (frame_regs f) = 33" "r < 33 \<Longrightarrow> reg f (of_nat r) = Some (caller_reg m (data_alignment_factor (frame_cie f)) rs R r)"
    "r < 33 \<Longrightarrow> set_reg (of_nat r) v f = Some (f\<lparr>frame_regs := (frame_regs f)[r := v]\<rparr>)"
proof -
  show l: "length (frame_regs f) = 33" using assms by (simp add: row_frame_def)
  have u: "unat (of_nat r :: u32) = r" if "r < 33" using that by (simp add: unat_of_nat take_bit_nat_eq_self)
  show "r < 33 \<Longrightarrow> reg f (of_nat r) = Some (caller_reg m (data_alignment_factor (frame_cie f)) rs R r)"
    using assms u by (simp add: reg_def row_frame_def)
  show "r < 33 \<Longrightarrow> set_reg (of_nat r) v f = Some (f\<lparr>frame_regs := (frame_regs f)[r := v]\<rparr>)"
    using l u by (simp add: set_reg_def)
qed

lemma caller_reg_cong:
  "row_cfa rs R' = row_cfa rs R \<Longrightarrow> row_saved R' r = row_saved R r \<Longrightarrow> caller_reg m d rs R' r = caller_reg m d rs R r"
  by (simp add: caller_reg_def saved_at_def split: option.splits)

lemma load_reg_row:
  assumes rf: "row_frame m rs R f" and r: "r < 32" "n < 2 ^ 32"
    and ld: "ld64 m (saved_at (data_alignment_factor (frame_cie f)) rs R n) \<noteq> None"
  shows "\<exists>f'. load_reg m r n f = Some f' \<and> row_frame m rs (R\<lparr>row_saved := (row_saved R)(r \<mapsto> n)\<rparr>) f' \<and>
    frame_cie f' = frame_cie f \<and> cfa_pc f' = cfa_pc f"
proof -
  obtain v where v: "ld64 m (saved_at (data_alignment_factor (frame_cie f)) rs R n) = Some v" using ld by auto
  have a: "cfa f + factored f (of_nat n) = saved_at (data_alignment_factor (frame_cie f)) rs R n"
    using rf r(2) by (simp add: row_frame_def factored_def saved_at_def ucast_of_nat)
  let ?R = "R\<lparr>row_saved := (row_saved R)(r \<mapsto> n)\<rparr>" and ?f = "f\<lparr>frame_regs := (frame_regs f)[r := v]\<rparr>"
  have "load_reg m r n f = Some ?f" using a v row_frame_facts(3) [OF rf, of r v] r(1) by (simp add: load_reg_def)
  moreover have "row_frame m rs ?R ?f"
  proof -
    have c: "row_cfa rs ?R = row_cfa rs R" by (simp add: row_cfa_def)
    have "caller_reg m (data_alignment_factor (frame_cie f)) rs ?R r = v"
      using v by (simp add: caller_reg_def saved_at_def c)
    moreover have "caller_reg m d rs ?R j = caller_reg m d rs R j" if "j \<noteq> r" for d j
      using that by (intro caller_reg_cong [OF c]) simp
    ultimately have "map (caller_reg m (data_alignment_factor (frame_cie f)) rs ?R) [0..<33] =
        (map (caller_reg m (data_alignment_factor (frame_cie f)) rs R) [0..<33])[r := v]"
      using r(1) by (intro nth_equalityI) (auto simp: nth_list_update)
    with rf r(1) c show ?thesis by (simp add: row_frame_def)
  qed
  ultimately show ?thesis by auto
qed

lemma set_cfa_row:
  assumes rf: "row_frame m rs R f" "row_saved R = Map.empty" and r: "r < 33" "n < 2 ^ 32"
  shows "\<exists>f'. set_cfa (f\<lparr>cfa_register := of_nat r, cfa_offset := of_nat n\<rparr>) = Some f' \<and>
    row_frame m rs (R\<lparr>row_reg := r, row_off := n\<rparr>) f' \<and> frame_cie f' = frame_cie f \<and> cfa_pc f' = cfa_pc f"
proof -
  have c: "caller_reg m d rs R j = rs ! j" "caller_reg m d rs (R\<lparr>row_reg := r, row_off := n\<rparr>) j = rs ! j" for d j
    using rf(2) by (simp_all add: caller_reg_def)
  have "reg (f\<lparr>cfa_register := of_nat r, cfa_offset := of_nat n\<rparr>) (of_nat r) = reg f (of_nat r)" by (simp add: reg_def)
  then have "set_cfa (f\<lparr>cfa_register := of_nat r, cfa_offset := of_nat n\<rparr>) =
      Some (f\<lparr>cfa_register := of_nat r, cfa_offset := of_nat n, cfa := rs ! r + of_nat n\<rparr>)"
    using row_frame_facts(2) [OF rf(1) r(1)] c by (simp add: set_cfa_def)
  moreover have "caller_reg m d rs (R\<lparr>row_reg := r, row_off := n\<rparr>) = caller_reg m d rs R" for d by (rule ext) (simp add: c)
  ultimately show ?thesis using rf r by (simp add: row_frame_def row_cfa_def)
qed

lemma exec_cfi_row:
  assumes rf: "row_frame m rs R f" and s: "settled rs seen R [i]" "\<not> seen \<longrightarrow> row_saved R = Map.empty" and wf: "wf_cfi i"
    and ld: "\<forall>r n. saves i = Some (r, n) \<longrightarrow> ld64 m (saved_at (data_alignment_factor (frame_cie f)) rs R n) \<noteq> None"
  shows "\<exists>f'. exec_cfi m i f = Some f' \<and> row_frame m rs (row_step i R) f' \<and> frame_cie f' = frame_cie f \<and>
    cfa_pc f' = cfa_pc f + ucast (of_nat (delta i) * code_alignment_factor (frame_cie f))"
proof (cases i)
  case (Offset r n)
  with load_reg_row [OF rf, of r n] s wf ld show ?thesis by simp
next
  case (Offset_extended r n)
  with load_reg_row [OF rf, of r n] s wf ld show ?thesis by simp
next
  case (Def_cfa r n)
  with set_cfa_row [OF rf, of r n] s wf show ?thesis by auto
next
  case (Def_cfa_offset n)
  have "f\<lparr>cfa_register := of_nat (row_reg R), cfa_offset := of_nat n\<rparr> = f\<lparr>cfa_offset := of_nat n\<rparr>"
    "R\<lparr>row_reg := row_reg R, row_off := n\<rparr> = R\<lparr>row_off := n\<rparr>" "row_reg R < 33"
    using rf by (simp_all add: row_frame_def)
  with Def_cfa_offset set_cfa_row [OF rf, of "row_reg R" n] s wf show ?thesis by auto
next
  case (Def_cfa_register r)
  then have "row_cfa rs (R\<lparr>row_reg := r\<rparr>) = row_cfa rs R" using s by (simp add: row_cfa_def)
  then have "caller_reg m d rs (R\<lparr>row_reg := r\<rparr>) = caller_reg m d rs R" for d
    by (intro ext caller_reg_cong) simp_all
  with Def_cfa_register rf s \<open>row_cfa rs (R\<lparr>row_reg := r\<rparr>) = row_cfa rs R\<close> show ?thesis by (simp add: row_frame_def)
next
  case (Same_value r)
  then have "(row_saved R)(r := None) = row_saved R" using s by (auto simp: fun_eq_iff)
  with Same_value rf show ?thesis by simp
next
  case (Undefined r)
  then have "(row_saved R)(r := None) = row_saved R" using s by (auto simp: fun_eq_iff)
  with Undefined rf show ?thesis by simp
qed (use rf in \<open>simp_all add: advance_def row_frame_def\<close>)

lemma settled_Cons: "settled rs seen R (i # is) \<Longrightarrow> settled rs seen R [i] \<and> settled rs (seen \<or> saves i \<noteq> None) (row_step i R) is"
  by (cases seen; cases i) simp_all

lemma settled_at:
  assumes "settled rs seen R (i # is)" "saves i = Some (r, n)"
  shows "saved_at daf rs (fold row_step (i # is) R) k = saved_at daf rs R k"
proof -
  have "row_cfa rs (fold row_step is (row_step i R)) = row_cfa rs (row_step i R)"
    using settled_cfa settled_Cons [OF assms(1)] assms(2) by auto
  moreover have "row_cfa rs (row_step i R) = row_cfa rs R" using assms(2) by (cases i) (simp_all add: row_cfa_def)
  ultimately show ?thesis by (simp add: saved_at_def)
qed

lemma run_cfi_row:
  assumes "row_frame m rs R f" "settled rs seen R (upto_pc caf (rs ! 32) is (cfa_pc f))" "\<not> seen \<longrightarrow> row_saved R = Map.empty"
    "\<forall>i \<in> set is. wf_cfi i" "caf = code_alignment_factor (frame_cie f)" "daf = data_alignment_factor (frame_cie f)"
    "Rn = fold row_step (upto_pc caf (rs ! 32) is (cfa_pc f)) R"
    "\<forall>i \<in> set (upto_pc caf (rs ! 32) is (cfa_pc f)). \<forall>r n. saves i = Some (r, n) \<longrightarrow> ld64 m (saved_at daf rs Rn n) \<noteq> None"
  shows "\<exists>f'. run_cfi m is f = return_pc f' \<and> row_frame m rs Rn f' \<and> frame_cie f' = frame_cie f"
  using assms
proof (induction "is" arbitrary: f R seen)
  case Nil
  then show ?case by auto
next
  case (Cons i "is")
  have "\<forall>n. row_saved R 32 \<noteq> Some n" using Cons.prems(1) by (simp add: row_frame_def)
  then have "caller_reg m d rs R 32 = rs ! 32" for d by (auto simp: caller_reg_def split: option.splits)
  then have pc: "reg f (of_nat ARM64_PC) = Some (rs ! 32)" using row_frame_facts(2) [OF Cons.prems(1), of 32] by (simp add: ARM64_PC_def)
  show ?case
  proof (cases "cfa_pc f \<le> rs ! 32")
    case False
    with Cons.prems pc show ?thesis by auto
  next
    case True
    let ?loc = "cfa_pc f + ucast (of_nat (delta i) * caf)"
    have up: "upto_pc caf (rs ! 32) (i # is) (cfa_pc f) = i # upto_pc caf (rs ! 32) is ?loc" using True by simp
    note st = settled_Cons [OF Cons.prems(2) [unfolded up]]
    have "ld64 m (saved_at daf rs R n) \<noteq> None" if "saves i = Some (r, n)" for r n
      using settled_at [OF Cons.prems(2) [unfolded up] that, of daf n] Cons.prems(7,8) that unfolding up by auto
    then obtain f' where f': "exec_cfi m i f = Some f'" "row_frame m rs (row_step i R) f'" "frame_cie f' = frame_cie f"
      "cfa_pc f' = ?loc"
      using exec_cfi_row [OF Cons.prems(1) conjunct1 [OF st] Cons.prems(3)] Cons.prems(4,5,6) by auto
    have "\<not> (seen \<or> saves i \<noteq> None) \<longrightarrow> row_saved (row_step i R) = Map.empty"
      using Cons.prems(3) by (cases i) auto
    with Cons.IH [OF f'(2), of "seen \<or> saves i \<noteq> None"] st Cons.prems f' up True pc show ?thesis by auto
  qed
qed

lemma upto_pc_subset: "set (upto_pc caf pc is loc) \<subseteq> set is"
  by (induction "is" arbitrary: loc) auto

text \<open>The two programs of a frame.  The first sets the CFA, as compilers for this processor write it.\<close>

text \<open>(C10) For programs that settle the CFA before they save registers, a step of the 64-bit unwinder restores every
  register to the value that the DWARF table gives it in the caller, and continues at the return address.  Two
  things differ from the table: the row taken is the one for the return address, which the end of the first
  program has put into the program counter, not the one for the interrupted instruction; and the stack
  pointer keeps its value instead of becoming the CFA.\<close>

theorem run_frame_row:
  assumes cie: "text_at m (initial_instructions cie) (cfi_bytes (Def_cfa r n) @ replicate k 0)" "wf_cfi (Def_cfa r n)" "r < 33"
      "cie_inst_length cie = of_nat (length (cfi_bytes (Def_cfa r n)) + k)"
      "unat (initial_instructions cie) + length (cfi_bytes (Def_cfa r n)) + k < 2 ^ 64"
    and fde: "text_at m (call_frame_instructions fde) (concat (map cfi_bytes prog) @ replicate j 0)" "\<forall>i \<in> set prog. wf_cfi i"
      "fde_inst_length fde = of_nat (length (concat (map cfi_bytes prog)) + j)"
      "unat (call_frame_instructions fde) + length (concat (map cfi_bytes prog)) + j < 2 ^ 64"
    and regs: "length rs = 33" "return_address_register cie = of_nat ra" "ra < 32" "pc_begin fde \<le> rs ! 32"
    and rs1: "rs1 = rs[32 := rs ! ra - 4]"
    and ls: "ls = upto_pc (code_alignment_factor cie) (rs1 ! 32) prog (pc_begin fde)" "settled rs1 False \<lparr>row_reg = r, row_off = n, row_saved = Map.empty\<rparr> ls"
    and R: "R = fold row_step ls \<lparr>row_reg = r, row_off = n, row_saved = Map.empty\<rparr>"
    and ld: "\<forall>i \<in> set ls. \<forall>q d. saves i = Some (q, d) \<longrightarrow> ld64 m (saved_at (data_alignment_factor cie) rs1 R d) \<noteq> None"
    and r32: "r \<noteq> 32"
  shows "run_frame m cie fde rs = Some ((map (caller_reg m (data_alignment_factor cie) rs1 R) [0..<33])
    [32 := caller_reg m (data_alignment_factor cie) rs1 R ra - 4])"
proof -
  let ?R0 = "\<lparr>row_reg = r, row_off = n, row_saved = Map.empty\<rparr>"
  define f0 where "f0 = \<lparr>frame_regs = rs, frame_cie = cie, cfa = 0, cfa_pc = pc_begin fde, cfa_register = 0, cfa_offset = 0\<rparr>"
  define f1 where "f1 = f0\<lparr>cfa_register := of_nat r, cfa_offset := of_nat n, cfa := rs ! r + of_nat n\<rparr>"
  define f2 where "f2 = f1\<lparr>frame_regs := rs1\<rparr>"
  have u: "unat (of_nat x :: u32) = x" if "x < 33" for x using that by (simp add: unat_of_nat take_bit_nat_eq_self)
  have "execute_insns m (initial_instructions cie) (initial_instructions cie + cie_inst_length cie) f0 = run_cfi m [Def_cfa r n] f0"
    using execute_insns_run [of m "initial_instructions cie" "[Def_cfa r n]" k f0] cie regs(1) by (simp add: f0_def)
  also have "\<dots> = return_pc f1"
    using regs(1,4) cie(3) u [OF cie(3)] by (simp add: f0_def f1_def reg_def ARM64_PC_def set_cfa_def)
  also have "\<dots> = Some f2"
    using regs u [of ra] by (simp add: return_pc_def f1_def f0_def f2_def rs1 reg_def set_reg_def ARM64_PC_def)
  finally have 1: "execute_insns m (initial_instructions cie) (initial_instructions cie + cie_inst_length cie) f0 = Some f2" .
  have l1: "length rs1 = 33" by (simp add: rs1 regs(1))
  have "map (caller_reg m (data_alignment_factor cie) rs1 ?R0) [0..<33] = rs1"
    using l1 by (intro nth_equalityI) (simp_all add: caller_reg_def)
  then have rf: "row_frame m rs1 ?R0 f2"
    using l1 cie(2,3) r32 by (simp add: row_frame_def f2_def f1_def f0_def row_cfa_def rs1)
  have f2: "frame_cie f2 = cie" "cfa_pc f2 = pc_begin fde" "length (frame_regs f2) = 33"
    by (simp_all add: f2_def f1_def f0_def l1)
  have "execute_insns m (call_frame_instructions fde) (call_frame_instructions fde + fde_inst_length fde) f2 = run_cfi m prog f2"
    using execute_insns_run [OF fde(1,2,4) f2(3)] fde(3) by simp
  moreover have "\<exists>f'. run_cfi m prog f2 = return_pc f' \<and> row_frame m rs1 R f' \<and> frame_cie f' = frame_cie f2"
    by (rule run_cfi_row [OF rf, where seen = False and caf = "code_alignment_factor cie" and daf = "data_alignment_factor cie"])
      (use ls R ld f2 fde(2) in auto)
  then obtain f3 where f3: "run_cfi m prog f2 = return_pc f3" "row_frame m rs1 R f3" "frame_cie f3 = cie" using f2 by auto
  moreover have "return_pc f3 = Some (f3\<lparr>frame_regs := (frame_regs f3)[32 := caller_reg m (data_alignment_factor cie) rs1 R ra - 4]\<rparr>)"
    using row_frame_facts(2) [OF f3(2), of ra] row_frame_facts(3) [OF f3(2), of 32] f3(3) regs(2,3)
    by (simp add: return_pc_def ARM64_PC_def)
  moreover note f3(1)
  ultimately have "execute_insns m (call_frame_instructions fde) (call_frame_instructions fde + fde_inst_length fde) f2 =
      Some (f3\<lparr>frame_regs := (frame_regs f3)[32 := caller_reg m (data_alignment_factor cie) rs1 R ra - 4]\<rparr>)"
    by simp
  with 1 f3(2,3) show ?thesis by (simp add: run_frame_def f0_def [symmetric] row_frame_def)
qed

section \<open>Finding the entry of a function\<close>

text \<open>An entry as compilers write it: the pointer to the CIE, the address relative to its own place, the size of the
  function, augmentation data and the program.\<close>

record fde_entry =
  e_cie :: u32
  e_rel :: u32
  e_range :: u32
  e_aug :: "u8 list"
  e_insns :: "u8 list"

definition fde_body :: "fde_entry \<Rightarrow> u8 list" where
  "fde_body e = le32 (e_cie e) @ le32 (e_rel e) @ le32 (e_range e) @ uleb_bytes (length (e_aug e)) @ e_aug e @ e_insns e"

definition fde_bytes :: "fde_entry \<Rightarrow> u8 list" where
  "fde_bytes e = le32 (of_nat (length (fde_body e))) @ fde_body e"

definition fde_wf :: "fde_entry \<Rightarrow> bool" where
  "fde_wf e \<longleftrightarrow> length (fde_body e) < 2 ^ 31"

text \<open>The record that an entry at address \<open>a\<close> is decoded to.\<close>

definition fde_record :: "u64 \<Rightarrow> fde_entry \<Rightarrow> FDE" where
  "fde_record a e = \<lparr>fde_total_length = of_nat (length (fde_bytes e)), fde_length = of_nat (length (fde_body e)), CIE_Potnter = e_cie e,
     pc_begin = scast (e_rel e) + (a + 8), pc_range = e_range e, fde_augmentation_data_length = of_nat (length (e_aug e)),
     call_frame_instructions = a + of_nat (length (fde_bytes e) - length (e_insns e)), fde_inst_length = of_nat (length (e_insns e))\<rparr>"

definition covers :: "FDE \<Rightarrow> u64 \<Rightarrow> bool" where
  "covers fde pc \<longleftrightarrow> pc_begin fde \<le> pc \<and> pc < pc_begin fde + ucast (pc_range fde)"

fun first_fde :: "u64 \<Rightarrow> fde_entry list \<Rightarrow> u64 \<Rightarrow> FDE option" where
  "first_fde a [] pc = None"
| "first_fde a (e # es) pc =
     (if covers (fde_record a e) pc then Some (fde_record a e) else first_fde (a + of_nat (length (fde_bytes e))) es pc)"

lemma scast_of_nat: "n < 2 ^ 31 \<Longrightarrow> (scast (of_nat n :: u32) :: u64) = of_nat n"
  by (simp add: signed_of_nat signed_take_bit_int_eq_self)

lemma decode_fde_bytes:
  assumes t: "text_at m a (fde_bytes e)" and wf: "fde_wf e" and z: "augmentation cie \<noteq> 0" "m (augmentation cie) = Some 0x7A"
  shows "decode_fde m a cie = Some (fde_record a e)"
proof -
  define n where "n = length (fde_body e)"
  define k where "k = length (e_aug e)"
  define u where "u = length (uleb_bytes k)"
  have n: "n = 12 + u + k + length (e_insns e)" by (simp add: n_def fde_body_def k_def u_def)
  have b: "n < 2 ^ 31" using wf by (simp add: fde_wf_def n_def)
  have ne: "of_nat n \<noteq> (0xFFFFFFFF :: u32)" "of_nat n \<noteq> (0 :: u64)"
  proof -
    have "unat (of_nat n :: u32) = n" "unat (of_nat n :: u64) = n" using b by (simp_all add: unat_of_nat take_bit_nat_eq_self)
    then show "of_nat n \<noteq> (0xFFFFFFFF :: u32)" "of_nat n \<noteq> (0 :: u64)" using b n by (auto simp del: of_nat_add)
  qed
  have "text_at m a (le32 (of_nat n))" "text_at m (a + 4) (le32 (e_cie e))" "text_at m (a + 8) (le32 (e_rel e))"
    "text_at m (a + 12) (le32 (e_range e))" "text_at m (a + 16) (uleb_bytes k)"
    using t by (simp_all add: fde_bytes_def fde_body_def text_at_append n_def k_def add.assoc)
  then have r: "ld32 m a = Some (of_nat n)" "ld32 m (a + 4) = Some (e_cie e)" "ld32 m (a + 8) = Some (e_rel e)"
    "ld32 m (a + 12) = Some (e_range e)" "uleb m (a + 16) = Some (of_nat k, a + 16 + of_nat u)"
    using uleb_read [of m "a + 16" k] b n by (simp_all add: ld_text u_def)
  have "u < 2 ^ 32" using b n by simp
  then have "(ucast (of_nat u :: u64) :: u32) = of_nat u"
    by (intro word_unat_eq_iff [THEN iffD2]) (simp add: unsigned_ucast_eq unat_of_nat take_bit_nat_eq_self)
  then have "(ucast (of_nat u :: u64) + of_nat k :: u32) = of_nat (u + k)" by simp
  then have s: "(scast (ucast (a + 16 + of_nat u - (a + 16)) + of_nat k :: u32) :: u64) = of_nat (u + k)"
    using scast_of_nat [of "u + k"] b n by simp
  have l: "length (fde_bytes e) = n + 4" by (simp add: fde_bytes_def n_def)
  have "entry_length m a = Some (of_nat n, of_nat n + 4, a + 4)"
    using r(1) ne(1) b by (simp add: entry_length_def USE_EXTENDED_LENGTH_def ucast_of_nat)
  moreover have "n + 4 - length (e_insns e) = 16 + (u + k)" using n by simp
  moreover have "(of_nat n :: u64) = 12 + of_nat u + of_nat k + of_nat (length (e_insns e))" by (simp add: n)
  ultimately show ?thesis
    using r z s ne(2) by (simp add: decode_fde_def add.assoc fde_record_def l n_def [symmetric] k_def [symmetric])
qed

text \<open>(C19) In a section of entries as compilers write them, closed by a length of zero, the search ends: it gives the
  entry of the first function that contains the address, with its program, or none when no function contains it.\<close>

theorem find_fde_first:
  assumes "text_at m (eh + off) (concat (map fde_bytes es) @ [0, 0, 0, 0])" "\<forall>e \<in> set es. fde_wf e"
    "augmentation cie \<noteq> 0" "m (augmentation cie) = Some 0x7A"
  shows "find_fde m eh off cie pc = Some (first_fde (eh + off) es pc)"
  using assms(1,2)
proof (induction es arbitrary: off)
  case Nil
  then have "ld32 m (eh + off) = Some 0" using ld_text(2) [of m "eh + off" 0] by (simp add: le32_def)
  then have "decode_fde m (eh + off) cie = Some (no_fde\<lparr>fde_total_length := 4, fde_length := 0\<rparr>)"
    by (simp add: decode_fde_def entry_length_def USE_EXTENDED_LENGTH_def)
  then show ?case by (subst find_fde.simps) simp
next
  case (Cons e es)
  have d: "decode_fde m (eh + off) cie = Some (fde_record (eh + off) e)"
    using Cons.prems assms(3,4) by (intro decode_fde_bytes) (simp_all add: text_at_append)
  have t: "text_at m (eh + (off + of_nat (length (fde_bytes e)))) (concat (map fde_bytes es) @ [0, 0, 0, 0])"
    using Cons.prems(1) by (simp add: text_at_append add.assoc)
  have "length (fde_body e) < 2 ^ 31" "0 < length (fde_body e)" using Cons.prems(2) by (simp_all add: fde_wf_def fde_body_def)
  then have "unat (of_nat (length (fde_body e)) :: u64) \<noteq> 0" by (simp add: unat_of_nat take_bit_nat_eq_self)
  then have "of_nat (length (fde_body e)) \<noteq> (0 :: u64)" by auto
  with d Cons.IH [OF t] Cons.prems(2) show ?case
    by (subst find_fde.simps) (simp add: fde_record_def covers_def add.assoc)
qed

section \<open>Registers outside the array\<close>

text \<open>The array has the 33 registers of the integer unit, but the program may save any DWARF register: for the registers
  of the floating point unit, which have the numbers 64 to 95, the write is behind the array.\<close>

lemma load_reg_bounds:
  assumes "length (frame_regs f) = 33" "ld64 m (cfa f + factored f (of_nat n)) = Some v" "r < 2 ^ 32"
  shows "load_reg m r n f = None \<longleftrightarrow> 33 \<le> r"
  using assms by (simp add: load_reg_def set_reg_def aset_def unat_of_nat take_bit_nat_eq_self)

section \<open>An example\<close>

text \<open>A memory in which all bytes are mapped and the ones given are not zero: the program of the CIE at \<open>0x100\<close>, that of
  a function at \<open>0x200\<close>, two entries at \<open>0x300\<close>, and the saved registers at \<open>0x1000\<close>.\<close>

definition demo_unwind :: mem64 where
  "demo_unwind a = Some (case map_of
     [(0x100, 0x0c), (0x101, 31), (0x200, 0x41), (0x201, 0x0e), (0x202, 16), (0x203, 0x9d), (0x204, 2), (0x205, 0x9e), (0x206, 1),
      (0x2f0, 0x7a), (0x300, 16), (0x304, 4), (0x309, 1), (0x30c, 0x10), (0x314, 16), (0x318, 4), (0x31d, 2), (0x320, 0x20),
      (0x1000, 7), (0x1008, 4), (0x1009, 0x60)] a of None \<Rightarrow> 0 | Some b \<Rightarrow> b)"

definition demo_cie :: CIE where
  "demo_cie = \<lparr>cie_total_length = 0, cie_length = 0, CIE_ID = 0, cie_version = 1, augmentation = 0x2f0, en_data = 0,
     code_alignment_factor = 4, data_alignment_factor = - 8, return_address_register = 30, cie_augmentation_data_length = 0,
     cie_augmentation_data = 0, initial_instructions = 0x100, cie_inst_length = 4\<rparr>"

definition demo_fde :: FDE where
  "demo_fde = no_fde\<lparr>pc_begin := 0x4000, call_frame_instructions := 0x200, fde_inst_length := 8\<rparr>"

definition demo_program :: "cfi list" where
  "demo_program = [Advance 1, Def_cfa_offset 16, Offset 29 2, Offset 30 1]"

definition demo_regs :: "u64 list" where
  "demo_regs = replicate 30 0 @ [0x5004, 0x1000, 0x4010]"

theorem run_frame_row_witness:
  "\<exists>rs'. run_frame demo_unwind demo_cie demo_fde demo_regs = Some rs' \<and>
    rs' ! 29 = 7 \<and> rs' ! 30 = 0x6004 \<and> rs' ! 31 = 0x1000 \<and> rs' ! 32 = 0x6000"
proof -
  let ?rs1 = "demo_regs[32 := 0x5000]" and ?R0 = "\<lparr>row_reg = 31, row_off = 0, row_saved = Map.empty\<rparr>"
  have ls: "upto_pc 4 (?rs1 ! 32) demo_program 0x4000 = demo_program" by code_simp
  have t: "text_at demo_unwind 0x100 (cfi_bytes (Def_cfa 31 0) @ replicate 1 0)" "text_at demo_unwind 0x200 (concat (map cfi_bytes demo_program) @ replicate 1 0)"
    "length (cfi_bytes (Def_cfa 31 0)) = 3" "length (concat (map cfi_bytes demo_program)) = 7"
    by code_simp+
  have R: "fold row_step demo_program ?R0 = \<lparr>row_reg = 31, row_off = 16, row_saved = [29 \<mapsto> 2, 30 \<mapsto> 1]\<rparr>" (is "_ = ?R")
    by (simp add: demo_program_def)
  have ld: "ld64 demo_unwind (saved_at (- 8) ?rs1 ?R 2) = Some 7" "ld64 demo_unwind (saved_at (- 8) ?rs1 ?R 1) = Some 0x6004"
    by code_simp+
  have rs: "demo_regs ! 30 = 0x5004" "demo_regs ! 31 = 0x1000" "demo_regs ! 32 = 0x4010" "length demo_regs = 33"
    by (simp_all add: demo_regs_def nth_append)
  have "run_frame demo_unwind demo_cie demo_fde demo_regs = Some ((map (caller_reg demo_unwind (data_alignment_factor demo_cie) ?rs1 ?R) [0..<33])
    [32 := caller_reg demo_unwind (data_alignment_factor demo_cie) ?rs1 ?R 30 - 4])"
    by (rule run_frame_row [where r = 31 and n = 0 and k = 1 and j = 1 and prog = demo_program and ls = demo_program])
      (use t ls R ld rs in \<open>simp_all add: demo_cie_def demo_fde_def no_fde_def demo_program_def\<close>)
  with ld rs show ?thesis by (simp add: caller_reg_def demo_cie_def)
qed

definition demo_entries :: "fde_entry list" where
  "demo_entries = [\<lparr>e_cie = 4, e_rel = 0x100, e_range = 0x10, e_aug = [], e_insns = [0, 0, 0]\<rparr>,
     \<lparr>e_cie = 4, e_rel = 0x200, e_range = 0x20, e_aug = [], e_insns = [0, 0, 0]\<rparr>]"

theorem find_fde_first_witness:
  "map_option (map_option pc_begin) (find_fde demo_unwind 0x300 0 demo_cie 0x520) = Some (Some 0x51c)"
proof -
  have "text_at demo_unwind (0x300 + 0) (concat (map fde_bytes demo_entries) @ [0, 0, 0, 0])"
    "map_option pc_begin (first_fde (0x300 + 0) demo_entries 0x520) = Some 0x51c" "demo_unwind (augmentation demo_cie) = Some 0x7A"
    by code_simp+
  moreover have "\<forall>e \<in> set demo_entries. fde_wf e"
    by (simp add: demo_entries_def fde_wf_def fde_body_def uleb_bytes.simps [of 0])
  ultimately show ?thesis
    using find_fde_first [where m = demo_unwind and eh = "0x300" and off = 0 and es = demo_entries and cie = demo_cie and pc = "0x520"] by (simp add: demo_cie_def)
qed

end
