(* ===== verification/Spec2Isabelle.thy ===== *)
theory Spec2Isabelle
  imports ElfHook GifExt ByteStream FrameSafe AnrWatch ArmUnwind Arm64Unwind
begin

text \<open>
  Verification of the native libraries of AndroidWork.

  \<^bold>\<open>The program.\<close> The repository holds an Android application with three native libraries.
  \<open>libmemcheck\<close> overwrites the first instructions of functions of the running process with jumps (its
  inline hook) or replaces the addresses through which libraries call them (its ELF hook). \<open>libframesequence\<close> plays animated images through a copy of giflib. \<open>libcrash_collect\<close>
  unwinds the stack when the process crashes, and watches the directory of ANR reports in a thread of its
  own.

  \<^bold>\<open>Parts and theories.\<close>

  \<^item> \<open>Prelude\<close>: machine integers, arrays with checked access, process memory as a function from addresses
    to bytes, and the lemmas on them that every component uses.

  \<^item> \<open>Relocate\<close> models \<open>libmemcheck/inlineHook/relocate.c\<close>: the classes of Thumb and ARM instructions,
    the replacement of each, the two relocation loops with the tables of instruction boundaries.
    \<open>InlineHook\<close> models \<open>inlineHook.c\<close> on top of it: the table of 1024 items, registration, hooking,
    unhooking, the calls that act on all items, and the movement of the program counters of stopped
    threads. The state is the record \<open>hook_state\<close>; answers of the operating system are the argument \<open>os\<close>.
    \<open>ElfHook\<close> models \<open>libmemcheck/elfHook\<close>: reading the tables of a loaded library, the symbol search, and the
    replacement of the slots of an imported function; memory is a map, so that an access to an address that is
    not mapped is \<open>None\<close>.

  \<^item> \<open>GifAlloc\<close>: the data of giflib and \<open>gifalloc.c\<close>, with an allocator whose outcomes are part of the
    state. \<open>DGif\<close>, \<open>DGifFile\<close>, \<open>DGifSafe\<close>: the reader \<open>dgif_lib.c\<close>, from the bit buffer and the LZW decoder up
    to \<open>DGifSlurp\<close> and \<open>DGifCloseFile\<close>. \<open>GifHash\<close>: the hash table \<open>gif_hash.c\<close>. \<open>EGif\<close>: the writer
    \<open>egif_lib.c\<close>, from \<open>EGifCompressOutput\<close> up to \<open>EGifSpew\<close>.

  \<^item> \<open>LzwSpec\<close>: LZW as functions between pixels and codes, without tables and bit packing. \<open>LzwWrite\<close> and
    \<open>LzwRead\<close>: the compressor and the decompressor against it. \<open>GifRound\<close>, \<open>GifSpewSlurp\<close>, \<open>GifExt\<close>: the
    writer and the reader together, for image data, whole files, comments and graphics control blocks.

  \<^item> \<open>ByteStream\<close>: the player's \<open>Stream.cpp\<close> with its three sources, and \<open>Registry.cpp\<close>, which picks a
    decoder by the first bytes. \<open>FrameSeq\<close>: \<open>FrameSequence_gif.cpp\<close>, the tables of a sequence and the drawing of
    frames into a bitmap, on top of \<open>DGifSlurp\<close>. \<open>FrameDraw\<close>: the pictures that the disposal methods of GIF
    define (\<open>before\<close>, \<open>displayed\<close>), and \<open>drawFrame\<close> against them. \<open>FrameSafe\<close>: what a file read by
    \<open>DGifSlurp\<close> offers the player, and the properties of the whole.

  \<^item> \<open>EventQueue\<close>: \<open>libcrash_collect/anr/event_queue.cpp\<close>, a linked list in an explicit store. \<open>Utf\<close>:
    \<open>utils/utf.cpp\<close>. \<open>AnrFiles\<close>: the setters of \<open>exception_handler.cpp\<close>, the copying of reports and
    \<open>handle_event\<close> of \<open>anr/inotify_utils.cpp\<close>. \<open>AnrWatch\<close>: reading events, the watch loop, and the body of
    the watching thread.

  \<^item> \<open>Leb128\<close>: \<open>utils/leb128.cpp\<close>. \<open>MemCheck\<close>: \<open>utils/memcheck.cpp\<close>. \<open>ArmUnwind\<close>: the unwinder for 32-bit ARM,
    \<open>crash/stacktrace/arm/exidxstep.cpp\<close> and \<open>backtrace.cpp\<close>, which uses both. \<open>Arm64Unwind\<close>: the unwinder for
    64-bit ARM, \<open>crash/stacktrace/arm64\<close>, with 64-bit addresses.

  \<^bold>\<open>Conventions.\<close> A definition has the name of the C function, a part of a function that is a loop or a branch
  has a name of its own. An access outside an array, through a null pointer or to a freed block, and a
  shift that the language leaves undefined, are the result \<open>None\<close> of an \<open>option\<close>; error codes of the program
  are ordinary values. So "the call is \<open>Some\<close>" says that it stays inside its arrays, and for the loops
  that are \<open>partial_function\<close> also that it ends. No fuel is used: every other loop is a function with a measure.

  \<^bold>\<open>What the lemmas show.\<close>

  \<^item> Relocation writes the concatenation of the replacements of the instructions of the window, and the
    tables it fills are strictly increasing. Every reachable hook table is well-formed, and the calls that write
    outside the arrays are determined exactly; register, hook and
    unhook give back the code of the function byte by byte; a thread that is stopped inside the window is
    moved to the matching instruction of the trampoline and back.

  \<^item> Over a hash table built as the ELF specification says, the symbol search finds exactly the names that are
    there. \<open>elfHook\<close> writes exactly the slots of the symbol, and hooking again with the old address undoes it. The
    hypothesis \<open>hookable\<close> names the addresses \<open>T\<close> of the tables, which the slots must not overlap; that reading is
    monotone in the mapped memory (collection \<open>elf_le\<close>) carries the tables through the stores.

  \<^item> For every input and every outcome of the allocator, opening, reading and closing a GIF file stays
    inside all arrays, ends, and gives back every block. What the writer writes the reader reads back: image
    data for any cutting into lines, and whole files with colour maps, interlacing and extensions. The
    hash table is a finite map (locale \<open>code_dictionary\<close>). The union of two colour maps keeps the first map up to
    its last colour that is not black, and translates the second.

  \<^item> A buffered stream delivers the bytes of its source in order (locales \<open>raw_source\<close> and \<open>byte_source\<close>,
    interpreted for the reader's byte list, memory and file streams), so the GIF reader may be given the list.
    The player's constructor fails cleanly or yields right tables for every input; \<open>drawFrame\<close> stays inside the
    bitmap and paints the specified picture, incrementally or from scratch. That needs two conditions on the
    file: \<open>restorable\<close> (a frame undone by restoring is neither first nor behind a cleared one) and \<open>opaque_full\<close>
    (a frame without transparency uses only colours of its map); without them the code shows something else.

  \<^item> The event queue implements a list (locale \<open>fifo\<close>); the watching thread with its queue does what handling
    the events in order does, and frees all it allocates; it serves events as long as it is told to run.
    The conversion to UTF-8 and the two LEB128 readers are characterised exactly, the cases where they leave
    their arrays or are undefined included. A copied report holds the lines up to the first one with the end mark,
    with the line of the program behind the name of the process.

  \<^item> The unwinder executes the instructions for the integer registers as the architecture defines them, its
    table search finds the function around an offset, and a step runs the program of the entry it finds, with the
    four results told apart. A range that
    \<open>check_mem_readable\<close> accepts is readable. The 64-bit unwinder finds the entry of a function and restores the
    registers that the DWARF table prescribes, under the condition \<open>settled\<close> on the program; it takes the row of the
    return address and leaves the stack pointer, which the theorem states as the code has it.

  \<^item> Several theorems state where the code does not do what it should: \<open>registerInlineHook_room\<close> and
    \<open>hook_round_keeps_count\<close> (boundary tables), \<open>empty_comment_unreadable\<close>, \<open>screen_desc_loses_write_error\<close>,
    \<open>create_sequence_exact\<close> (the index of the background colour), \<open>peek_twice_corrupts\<close>,
    \<open>orphan_depends_on_history\<close>, \<open>JavaInputStream_doRead_exact\<close> (bytes lost at the end), \<open>elfHook_result\<close>,
    \<open>SetPackageName_text\<close>, \<open>long_name_overflows\<close>, \<open>copy_missing_report_empties_target\<close>, \<open>load_reg_bounds\<close>,
    \<open>extract_table_bounds\<close> (buffers that are too small), \<open>read_leb128_exact\<close> (an undefined shift),
    \<open>operand_hides_end\<close> (an unwind program without end mark), \<open>ime_line_fits\<close> (the line of the program in a
    report), \<open>black_translated_to_green\<close> (the union of colour maps), \<open>gif_stream_dispatch\<close> (streams with a raw
    buffer).

  \<^bold>\<open>Bounds.\<close> Sizes are those of the 32-bit ABI: pointers and \<open>size_t\<close> have 32 bits. The GIF theorems use
  the limits of the format, 65535 for widths and heights and 4095 for codes; the hash table theorem needs
  at most 8191 keys, of which the compressor uses at most 4096 before it clears the table.

  \<^bold>\<open>Not modelled.\<close> \<open>gif_err.c\<close> (messages), \<open>quantize.c\<close> and \<open>gif_font.c\<close> (not called by the library);
  the player for WebP, which calls libwebp at every step, and \<open>Gifflen.cpp\<close>, a second encoder with a neural
  net; signal handling and formatted reports, which consist of system calls; JNI glue; breakpad, libwebp and the
  Java parts, which are third-party code or not C. Log output is left out everywhere. Memory that the 32-bit
  unwinder reads is taken to be mapped.
\<close>

end
